(* ===== verification/Pb_Prelude.thy ===== *)
theory Pb_Prelude
  imports Main "HOL-Library.Word" "HOL-Library.Monad_Syntax"
begin

text \<open>
  Shared vocabulary of the development: the C integer types of the build (LP64, little endian,
  \<^verbatim>\<open>PB_FIELD_32BIT\<close>), little-endian byte strings and the sequencing combinator for the C idiom
  \<^verbatim>\<open>if (!f(...)) return false;\<close>.
\<close>

unbundle bit_operations_syntax

section \<open>Lemma collections and type names\<close>

named_theorems pb_consts \<open>values of the constants of the C headers\<close>
named_theorems mem_simps \<open>rewrite rules for loads and stores\<close>

type_synonym byte = "8 word"
type_synonym uint32 = "32 word"
type_synonym uint64 = "64 word"
type_synonym size_t = "64 word"
type_synonym addr = int

section \<open>Little-endian byte strings\<close>

primrec le_bytes :: "nat \<Rightarrow> 'a::len word \<Rightarrow> byte list" where
  "le_bytes 0 w = []"
| "le_bytes (Suc n) w = ucast w # le_bytes n (drop_bit 8 w)"

primrec le_word :: "byte list \<Rightarrow> 'a::len word" where
  "le_word [] = 0"
| "le_word (b # bs) = ucast b OR push_bit 8 (le_word bs)"

lemma length_le_bytes [simp]: "length (le_bytes n w) = n"
  by (induction n arbitrary: w) auto

lemma bit_le_word:
  fixes w :: "'a::len word"
  assumes "w = le_word bs"
  shows "bit w i \<longleftrightarrow> i < LENGTH('a) \<and> i div 8 < length bs \<and> bit (bs ! (i div 8)) (i mod 8)"
  using assms
proof (induction bs arbitrary: w i)
  case Nil
  then show ?case by simp
next
  case (Cons b bs)
  show ?case
  proof (cases "i < 8")
    case True
    with Cons.prems show ?thesis
      by (auto simp: bit_simps bit_or_iff bit_push_bit_iff)
  next
    case False
    then have div: "i div 8 = Suc ((i - 8) div 8)" and md: "i mod 8 = (i - 8) mod 8"
      by (simp_all add: le_div_geq le_mod_geq)
    have "bit w i \<longleftrightarrow> i < LENGTH('a) \<and> bit (le_word bs :: 'a word) (i - 8)"
      using False Cons.prems
      by (auto simp: bit_simps bit_or_iff bit_push_bit_iff dest: bit_imp_le_length)
    also have "\<dots> \<longleftrightarrow> i < LENGTH('a) \<and> (i - 8) div 8 < length bs \<and> bit (bs ! ((i - 8) div 8)) ((i - 8) mod 8)"
      using False Cons.IH [OF refl, of "i - 8"] by auto
    finally show ?thesis using div md by auto
  qed
qed

lemma nth_le_bytes: "i < n \<Longrightarrow> le_bytes n w ! i = ucast (drop_bit (8 * i) w)"
proof (induction n arbitrary: w i)
  case 0
  then show ?case by simp
next
  case (Suc n)
  show ?case
  proof (cases i)
    case 0
    then show ?thesis by simp
  next
    case (Suc j)
    with Suc.prems Suc.IH [of j "drop_bit 8 w"] show ?thesis
      by (simp add: drop_bit_drop_bit add.commute)
  qed
qed

lemma le_word_le_bytes:
  fixes w :: "'a::len word"
  assumes "LENGTH('a) \<le> 8 * n"
  shows "(le_word (le_bytes n w) :: 'a word) = w"
proof (rule bit_word_eqI)
  fix i assume i: "i < LENGTH('a)"
  then have "i div 8 < n" using assms by (simp add: less_mult_imp_div_less mult.commute)
  moreover have "8 * (i div 8) + i mod 8 = i" by simp
  ultimately show "bit (le_word (le_bytes n w) :: 'a word) i = bit w i"
    using i by (simp add: bit_le_word [OF refl] nth_le_bytes bit_simps bit_drop_bit_eq del: mult_div_mod_eq)
qed

lemma le_bytes_le_word:
  assumes "length bs = n" and "LENGTH('a) = 8 * n"
  shows "le_bytes n (le_word bs :: 'a::len word) = bs"
proof (rule nth_equalityI)
  show "length (le_bytes n (le_word bs :: 'a word)) = length bs" using assms by simp
next
  fix i assume "i < length (le_bytes n (le_word bs :: 'a word))"
  then have i: "i < n" by simp
  show "le_bytes n (le_word bs :: 'a word) ! i = bs ! i"
  proof (rule bit_word_eqI)
    fix j assume j: "j < LENGTH(8)"
    have lt: "8 * i + j < 8 * n" using i j by simp
    have dm: "(8 * i + j) div 8 = i" "(8 * i + j) mod 8 = j" using j by simp_all
    show "bit (le_bytes n (le_word bs :: 'a word) ! i) j = bit (bs ! i) j"
      using i j lt assms
      by (simp add: nth_le_bytes bit_simps bit_drop_bit_eq bit_le_word [OF refl] dm)
  qed
qed

section \<open>Equality of words and bytes\<close>

lemma unsigned_word_eqI: "unat v = unat w \<Longrightarrow> v = w"
  by (simp add: word_unat_eq_iff)

lemma byte_eqI:
  fixes x y :: byte
  assumes "bit x 0 = bit y 0" "bit x 1 = bit y 1" "bit x 2 = bit y 2" "bit x 3 = bit y 3"
    "bit x 4 = bit y 4" "bit x 5 = bit y 5" "bit x 6 = bit y 6" "bit x 7 = bit y 7"
  shows "x = y"
proof (rule bit_word_eqI)
  fix n assume "n < LENGTH(8)"
  then have "n \<in> {0, 1, 2, 3, 4, 5, 6, 7}" by auto
  with assms show "bit x n = bit y n" by auto
qed

lemma unat_or_80: "unat (b :: byte) < 128 \<Longrightarrow> unat (b OR 0x80) = unat b + 128"
proof -
  assume b: "unat b < 128"
  have "unat (b OR 0x80) = unat b OR 2 ^ 7" by (simp add: unsigned_or_eq)
  also have "\<dots> = set_bit 7 (unat b)" by (simp add: set_bit_eq_or)
  also have "\<dots> = unat b + 128" using b by (simp add: set_bit_eq bit_iff_odd)
  finally show ?thesis .
qed

section \<open>Sequencing of operations that report success\<close>

text \<open>
  An operation of the C code returns a Boolean and changes a state. \<open>None\<close> stands for a run
  without a defined result: undefined behaviour of C, or no fuel left. So a theorem that an
  operation returns \<open>Some\<close> shows both the absence of undefined behaviour and termination.
\<close>

definition and_then :: "(bool \<times> 's) option \<Rightarrow> ('s \<Rightarrow> (bool \<times> 's) option) \<Rightarrow> (bool \<times> 's) option" where
  "and_then r k = do { (ok, st) \<leftarrow> r; if ok then k st else Some (False, st) }"

lemma and_then_simps [simp]:
  "and_then None k = None"
  "and_then (Some (True, st)) k = k st"
  "and_then (Some (False, st)) k = Some (False, st)"
  by (simp_all add: and_then_def)

lemma and_then_Some_iff:
  "and_then r k = Some (ok, st) \<longleftrightarrow>
     (\<exists>st'. r = Some (True, st') \<and> k st' = Some (ok, st)) \<or> (r = Some (False, st) \<and> \<not> ok)"
  by (auto simp: and_then_def Option.bind_eq_Some_conv split: if_splits)

lemma and_then_SomeE:
  assumes "and_then r k = Some (ok, st)"
  obtains st' where "r = Some (True, st')" and "k st' = Some (ok, st)"
    | "r = Some (False, st)" and "\<not> ok"
  using assms by (auto simp: and_then_Some_iff)

lemma and_then_cong [fundef_cong]:
  "r = r' \<Longrightarrow> (\<And>st. r' = Some (True, st) \<Longrightarrow> k st = k' st) \<Longrightarrow> and_then r k = and_then r' k'"
  by (cases r') (auto simp: and_then_def)

primrec run_all :: "('s \<Rightarrow> (bool \<times> 's) option) list \<Rightarrow> 's \<Rightarrow> (bool \<times> 's) option" where
  "run_all [] st = Some (True, st)"
| "run_all (f # fs) st = and_then (f st) (run_all fs)"

end
