(* ===== verification/C_Memory.thy ===== *)
theory C_Memory
  imports Pb_Prelude
begin

text \<open>
  The memory the C code runs in: a partial map from addresses to bytes (a byte outside every live
  object is \<open>None\<close>, so an access to it has no defined result), the blocks handed out by the
  allocator, and the C library calls the sources use (\<^verbatim>\<open>memcpy\<close>, \<^verbatim>\<open>memset\<close>, \<^verbatim>\<open>realloc\<close>,
  \<^verbatim>\<open>free\<close>). Objects whose address is taken by the code (structures, input and output buffers,
  two local variables of the decoder) live here; addresses are integers and 0 is \<^verbatim>\<open>NULL\<close>.
\<close>

section \<open>State\<close>

text \<open>
  \<open>mfail\<close> scripts the outcome of the coming \<^verbatim>\<open>realloc\<close> calls (\<open>True\<close> for a failure; an empty
  list means that they all succeed), so that theorems cover every pattern of failures; \<open>mjunk\<close> is
  the indeterminate contents of fresh memory.
\<close>

record mem =
  mbytes :: "addr \<rightharpoonup> byte"
  mblocks :: "addr \<rightharpoonup> nat"
  mbrk :: addr
  mfail :: "bool list"
  mjunk :: "addr \<Rightarrow> byte"

definition addr_limit :: addr where
  "addr_limit = 2 ^ 62"

definition region :: "addr \<Rightarrow> nat \<Rightarrow> addr set" where
  "region p n = {p..<p + int n}"

definition live :: "mem \<Rightarrow> addr \<Rightarrow> nat \<Rightarrow> bool" where
  "live m p n = list_all (\<lambda>i. mbytes m (p + int i) \<noteq> None) [0..<n]"

definition mput :: "(addr \<rightharpoonup> byte) \<Rightarrow> addr \<Rightarrow> byte list \<Rightarrow> (addr \<rightharpoonup> byte)" where
  "mput f p bs = (\<lambda>a. if p \<le> a \<and> a < p + int (length bs) then Some (bs ! nat (a - p)) else f a)"

definition mdrop :: "(addr \<rightharpoonup> byte) \<Rightarrow> addr \<Rightarrow> nat \<Rightarrow> (addr \<rightharpoonup> byte)" where
  "mdrop f p n = (\<lambda>a. if p \<le> a \<and> a < p + int n then None else f a)"

section \<open>Loads and stores\<close>

definition load_bytes :: "mem \<Rightarrow> addr \<Rightarrow> nat \<Rightarrow> byte list option" where
  "load_bytes m p n =
     (if live m p n then Some (map (\<lambda>i. the (mbytes m (p + int i))) [0..<n]) else None)"

definition store_bytes :: "mem \<Rightarrow> addr \<Rightarrow> byte list \<Rightarrow> mem option" where
  "store_bytes m p bs =
     (if live m p (length bs) then Some (m\<lparr>mbytes := mput (mbytes m) p bs\<rparr>) else None)"

definition load8 :: "mem \<Rightarrow> addr \<Rightarrow> byte option" where
  "load8 m p = map_option le_word (load_bytes m p 1)"

definition load16 :: "mem \<Rightarrow> addr \<Rightarrow> 16 word option" where
  "load16 m p = map_option le_word (load_bytes m p 2)"

definition load32 :: "mem \<Rightarrow> addr \<Rightarrow> uint32 option" where
  "load32 m p = map_option le_word (load_bytes m p 4)"

definition load64 :: "mem \<Rightarrow> addr \<Rightarrow> uint64 option" where
  "load64 m p = map_option le_word (load_bytes m p 8)"

definition load_ptr :: "mem \<Rightarrow> addr \<Rightarrow> addr option" where
  "load_ptr m p = map_option uint (load64 m p)"

definition load_bool :: "mem \<Rightarrow> addr \<Rightarrow> bool option" where
  "load_bool m p = map_option (\<lambda>b. b \<noteq> 0) (load8 m p)"

definition store8 :: "mem \<Rightarrow> addr \<Rightarrow> byte \<Rightarrow> mem option" where
  "store8 m p v = store_bytes m p (le_bytes 1 v)"

definition store16 :: "mem \<Rightarrow> addr \<Rightarrow> 16 word \<Rightarrow> mem option" where
  "store16 m p v = store_bytes m p (le_bytes 2 v)"

definition store32 :: "mem \<Rightarrow> addr \<Rightarrow> uint32 \<Rightarrow> mem option" where
  "store32 m p v = store_bytes m p (le_bytes 4 v)"

definition store64 :: "mem \<Rightarrow> addr \<Rightarrow> uint64 \<Rightarrow> mem option" where
  "store64 m p v = store_bytes m p (le_bytes 8 v)"

definition store_ptr :: "mem \<Rightarrow> addr \<Rightarrow> addr \<Rightarrow> mem option" where
  "store_ptr m p v = store64 m p (word_of_int v)"

definition store_bool :: "mem \<Rightarrow> addr \<Rightarrow> bool \<Rightarrow> mem option" where
  "store_bool m p v = store8 m p (of_bool v)"

definition memset0 :: "mem \<Rightarrow> addr \<Rightarrow> nat \<Rightarrow> mem option" where
  "memset0 m p n = store_bytes m p (replicate n 0)"

section \<open>Allocation\<close>

definition fresh_block :: "mem \<Rightarrow> nat \<Rightarrow> addr \<times> mem" where
  "fresh_block m n =
     (let p = mbrk m in
      (p, m\<lparr>mbytes := mput (mbytes m) p (map (\<lambda>i. mjunk m (p + int i)) [0..<n]),
            mbrk := p + int n + 16\<rparr>))"

definition free_mem :: "mem \<Rightarrow> addr \<Rightarrow> mem option" where
  "free_mem m p =
     (if p = 0 then Some m
      else case mblocks m p of
        None \<Rightarrow> None
      | Some n \<Rightarrow> Some (m\<lparr>mbytes := mdrop (mbytes m) p n, mblocks := (mblocks m)(p := None)\<rparr>))"

definition realloc_mem :: "mem \<Rightarrow> addr \<Rightarrow> nat \<Rightarrow> (addr \<times> mem) option" where
  "realloc_mem m p n =
     (if p \<noteq> 0 \<and> mblocks m p = None then None
      else let fails = (mfail m \<noteq> [] \<and> hd (mfail m)) \<or> mbrk m + int n + 16 > addr_limit;
               m1 = m\<lparr>mfail := tl (mfail m)\<rparr> in
        if fails then Some (0, m1)
        else let (q, m2) = fresh_block m1 n;
                 m3 = m2\<lparr>mblocks := (mblocks m2)(q \<mapsto> n)\<rparr> in
          if p = 0 then Some (q, m3)
          else do {
            old \<leftarrow> load_bytes m3 p (min n (the (mblocks m p)));
            m4 \<leftarrow> store_bytes m3 q old;
            m5 \<leftarrow> free_mem m4 p;
            Some (q, m5) })"

text \<open>Automatic storage for the locals whose address is taken.\<close>

definition local_alloc :: "mem \<Rightarrow> byte list \<Rightarrow> addr \<times> mem" where
  "local_alloc m bs =
     (let p = mbrk m in
      (p, m\<lparr>mbytes := mput (mbytes m) p bs, mbrk := p + int (length bs) + 16\<rparr>))"

definition local_free :: "mem \<Rightarrow> addr \<Rightarrow> nat \<Rightarrow> mem" where
  "local_free m p n = m\<lparr>mbytes := mdrop (mbytes m) p n\<rparr>"

definition mem_wf :: "mem \<Rightarrow> bool" where
  "mem_wf m \<longleftrightarrow> (\<forall>a \<in> dom (mbytes m). 0 < a \<and> a < addr_limit)"

section \<open>Laws of loads and stores\<close>

lemma live_iff: "live m p n \<longleftrightarrow> region p n \<subseteq> dom (mbytes m)"
proof
  assume "live m p n"
  then have a: "\<And>i. i < n \<Longrightarrow> mbytes m (p + int i) \<noteq> None"
    by (auto simp: live_def list_all_iff)
  show "region p n \<subseteq> dom (mbytes m)"
  proof
    fix x assume "x \<in> region p n"
    then have "nat (x - p) < n" "p + int (nat (x - p)) = x" by (auto simp: region_def)
    with a [of "nat (x - p)"] show "x \<in> dom (mbytes m)" by auto
  qed
next
  assume "region p n \<subseteq> dom (mbytes m)"
  then have "mbytes m (p + int i) \<noteq> None" if "i < n" for i
    using that by (force simp: region_def dest: subsetD [where c = "p + int i"])
  then show "live m p n" by (simp add: live_def list_all_iff)
qed

lemma live_0 [simp]: "live m p 0"
  by (simp add: live_def)

lemma dom_mput: "dom (mput f p bs) = dom f \<union> region p (length bs)"
  by (auto simp: mput_def region_def split: if_splits)

lemma mput_Nil [simp]: "mput f p [] = f"
  by (rule ext) (auto simp: mput_def)

lemma mput_append: "mput f p (xs @ ys) = mput (mput f p xs) (p + int (length xs)) ys"
proof (rule ext)
  fix a
  have "nat (a - p) - length xs = nat (a - (p + int (length xs)))" by simp
  then show "mput f p (xs @ ys) a = mput (mput f p xs) (p + int (length xs)) ys a"
    by (auto simp: mput_def nth_append nat_less_iff)
qed

lemma mput_Cons: "mput f p (b # bs) = mput (f(p \<mapsto> b)) (p + 1) bs"
proof -
  have "mput f p [b] = f(p \<mapsto> b)" by (rule ext) (auto simp: mput_def)
  then show ?thesis using mput_append [of f p "[b]" bs] by simp
qed

lemma store_bytes_dom: "store_bytes m p bs = Some m' \<Longrightarrow> dom (mbytes m') = dom (mbytes m)"
proof -
  assume "store_bytes m p bs = Some m'"
  then have r: "region p (length bs) \<subseteq> dom (mbytes m)" and m': "mbytes m' = mput (mbytes m) p bs"
    by (auto simp: store_bytes_def live_iff split: if_splits)
  from r show ?thesis unfolding m' dom_mput by (rule Un_absorb2)
qed

lemma store_bytes_defined: "(\<exists>m'. store_bytes m p bs = Some m') \<longleftrightarrow> live m p (length bs)"
  by (simp add: store_bytes_def)

lemma load_bytes_defined: "(\<exists>bs. load_bytes m p n = Some bs) \<longleftrightarrow> live m p n"
  by (simp add: load_bytes_def)

lemma load_bytes_length: "load_bytes m p n = Some bs \<Longrightarrow> length bs = n"
  by (auto simp: load_bytes_def split: if_splits)

lemma load_bytes_nth: "load_bytes m p n = Some bs \<Longrightarrow> i < n \<Longrightarrow> mbytes m (p + int i) = Some (bs ! i)"
  by (auto simp: load_bytes_def live_def list_all_iff split: if_splits)

lemma load_bytes_iff:
  "load_bytes m p n = Some bs \<longleftrightarrow> length bs = n \<and> (\<forall>i<n. mbytes m (p + int i) = Some (bs ! i))"
proof
  assume "load_bytes m p n = Some bs"
  then show "length bs = n \<and> (\<forall>i<n. mbytes m (p + int i) = Some (bs ! i))"
    by (auto dest: load_bytes_length load_bytes_nth)
next
  assume *: "length bs = n \<and> (\<forall>i<n. mbytes m (p + int i) = Some (bs ! i))"
  then have "live m p n" by (simp add: live_def list_all_iff)
  moreover have "map (\<lambda>i. the (mbytes m (p + int i))) [0..<n] = bs"
    using * by (intro nth_equalityI) auto
  ultimately show "load_bytes m p n = Some bs" by (simp add: load_bytes_def)
qed

lemma load_store_bytes_same: "store_bytes m p bs = Some m' \<Longrightarrow> load_bytes m' p (length bs) = Some bs"
  by (auto simp: load_bytes_iff store_bytes_def mput_def split: if_splits)

lemma load_bytes_cong:
  "(\<And>a. a \<in> region p n \<Longrightarrow> mbytes m' a = mbytes m a) \<Longrightarrow> load_bytes m' p n = load_bytes m p n"
proof -
  assume a: "\<And>a. a \<in> region p n \<Longrightarrow> mbytes m' a = mbytes m a"
  have *: "mbytes m' (p + int i) = mbytes m (p + int i)" if "i < n" for i
    using a [of "p + int i"] that by (simp add: region_def)
  then have "live m' p n = live m p n" by (auto simp: live_def list_all_iff)
  moreover have "map (\<lambda>i. the (mbytes m' (p + int i))) [0..<n] = map (\<lambda>i. the (mbytes m (p + int i))) [0..<n]"
    using * by simp
  ultimately show ?thesis by (simp add: load_bytes_def)
qed

lemma load_store_bytes_other:
  assumes "store_bytes m p bs = Some m'" and "region p (length bs) \<inter> region q n = {}"
  shows "load_bytes m' q n = load_bytes m q n"
proof (rule load_bytes_cong)
  fix a assume "a \<in> region q n"
  with assms(2) have "a \<notin> region p (length bs)" by blast
  with assms(1) show "mbytes m' a = mbytes m a"
    by (auto simp: store_bytes_def mput_def region_def split: if_splits)
qed

lemma store_bytes_outside:
  "store_bytes m p bs = Some m' \<Longrightarrow> a \<notin> region p (length bs) \<Longrightarrow> mbytes m' a = mbytes m a"
  by (auto simp: store_bytes_def mput_def region_def split: if_splits)

lemma store_bytes_fields:
  assumes "store_bytes m p bs = Some m'"
  shows "mblocks m' = mblocks m" "mbrk m' = mbrk m" "mfail m' = mfail m" "mjunk m' = mjunk m"
  using assms by (auto simp: store_bytes_def split: if_splits)

text \<open>
  The interface of a fixed-width cell: what a typed load returns after a typed store. The typed
  accesses of the C code are its instances.
\<close>

locale cell_access =
  fixes load :: "mem \<Rightarrow> addr \<Rightarrow> 'v option"
    and store :: "mem \<Rightarrow> addr \<Rightarrow> 'v \<Rightarrow> mem option"
    and width :: nat
  assumes load_defined: "(\<exists>v. load m p = Some v) \<longleftrightarrow> live m p width"
    and store_defined: "(\<exists>m'. store m p v = Some m') \<longleftrightarrow> live m p width"
    and load_store_same: "store m p v = Some m' \<Longrightarrow> load m' p = Some v"
    and load_cong: "(\<And>a. a \<in> region p width \<Longrightarrow> mbytes m' a = mbytes m a) \<Longrightarrow> load m' p = load m p"
    and store_outside: "store m p v = Some m' \<Longrightarrow> a \<notin> region p width \<Longrightarrow> mbytes m' a = mbytes m a"
    and store_dom: "store m p v = Some m' \<Longrightarrow> dom (mbytes m') = dom (mbytes m)"
    and store_rest: "store m p v = Some m' \<Longrightarrow>
      mblocks m' = mblocks m \<and> mbrk m' = mbrk m \<and> mfail m' = mfail m \<and> mjunk m' = mjunk m"
begin

lemma load_store_other:
  assumes "store m p v = Some m'" and "region p width \<inter> region q width = {}"
  shows "load m' q = load m q"
proof (rule load_cong)
  fix a assume "a \<in> region q width"
  with assms(2) have "a \<notin> region p width" by blast
  with assms(1) show "mbytes m' a = mbytes m a" by (rule store_outside)
qed

lemma store_total: "live m p width \<Longrightarrow> \<exists>m'. store m p v = Some m' \<and> load m' p = Some v"
  using load_store_same store_defined by blast

lemma store_live: "store m p v = Some m' \<Longrightarrow> live m' q n = live m q n"
  using store_dom by (simp add: live_iff)

lemma store_wf: "store m p v = Some m' \<Longrightarrow> mem_wf m' = mem_wf m"
  using store_dom by (simp add: mem_wf_def)

lemma store_load_bytes:
  assumes "store m p v = Some m'" and "region p width \<inter> region q n = {}"
  shows "load_bytes m' q n = load_bytes m q n"
proof (rule load_bytes_cong)
  fix a assume "a \<in> region q n"
  with assms(2) have "a \<notin> region p width" by blast
  with assms(1) show "mbytes m' a = mbytes m a" by (rule store_outside)
qed

end

lemma le_cell:
  fixes n :: nat
  assumes "LENGTH('a::len) \<le> 8 * n"
  shows "cell_access (\<lambda>m p. map_option (le_word :: byte list \<Rightarrow> 'a word) (load_bytes m p n))
           (\<lambda>m p v. store_bytes m p (le_bytes n v)) n"
proof (unfold_locales, goal_cases)
  case (1 m p)
  show ?case using load_bytes_defined [of m p n] by auto
next
  case (2 m p v)
  show ?case by (simp add: store_bytes_defined)
next
  case (3 m p v m')
  then have "load_bytes m' p n = Some (le_bytes n v)" using load_store_bytes_same by fastforce
  with assms show ?case by (simp add: le_word_le_bytes)
next
  case (4 p m' m)
  then have "load_bytes m' p n = load_bytes m p n" by (rule load_bytes_cong)
  then show ?case by simp
next
  case (5 m p v m' a)
  then show ?case by (auto dest: store_bytes_outside)
next
  case (6 m p v m')
  then show ?case by (rule store_bytes_dom)
next
  case (7 m p v m')
  then show ?case by (simp add: store_bytes_fields)
qed

lemma load_store_unfold:
  "load8 = (\<lambda>m p. map_option le_word (load_bytes m p 1))"
  "load16 = (\<lambda>m p. map_option le_word (load_bytes m p 2))"
  "load32 = (\<lambda>m p. map_option le_word (load_bytes m p 4))"
  "load64 = (\<lambda>m p. map_option le_word (load_bytes m p 8))"
  "store8 = (\<lambda>m p v. store_bytes m p (le_bytes 1 v))"
  "store16 = (\<lambda>m p v. store_bytes m p (le_bytes 2 v))"
  "store32 = (\<lambda>m p v. store_bytes m p (le_bytes 4 v))"
  "store64 = (\<lambda>m p v. store_bytes m p (le_bytes 8 v))"
  by (intro ext; simp add: load8_def load16_def load32_def load64_def store8_def store16_def
      store32_def store64_def)+

interpretation m8: cell_access load8 store8 1
  unfolding load_store_unfold by (rule le_cell) simp

interpretation m16: cell_access load16 store16 2
  unfolding load_store_unfold by (rule le_cell) simp

interpretation m32: cell_access load32 store32 4
  unfolding load_store_unfold by (rule le_cell) simp

interpretation m64: cell_access load64 store64 8
  unfolding load_store_unfold by (rule le_cell) simp

lemma bool_cell_same: "store_bool m p v = Some m' \<Longrightarrow> load_bool m' p = Some v"
  by (cases v) (auto simp: store_bool_def load_bool_def dest!: m8.load_store_same)

interpretation mbool: cell_access load_bool store_bool 1
proof (unfold_locales, goal_cases)
  case (1 m p)
  then show ?case using m8.load_defined [of m p] by (auto simp: load_bool_def)
next
  case (2 m p v)
  then show ?case by (simp add: store_bool_def m8.store_defined)
next
  case (3 m p v m')
  then show ?case by (rule bool_cell_same)
next
  case (4 p m' m)
  then have "load8 m' p = load8 m p" by (rule m8.load_cong)
  then show ?case by (simp add: load_bool_def)
next
  case (5 m p v m' a)
  then show ?case unfolding store_bool_def by (rule m8.store_outside)
next
  case (6 m p v m')
  then show ?case unfolding store_bool_def by (rule m8.store_dom)
next
  case (7 m p v m')
  then show ?case unfolding store_bool_def by (rule m8.store_rest)
qed

lemma load_store_ptr_same:
  assumes "store_ptr m p v = Some m'" and "0 \<le> v" and "v < 2 ^ 64"
  shows "load_ptr m' p = Some v"
  using assms m64.load_store_same
  by (auto simp: store_ptr_def load_ptr_def uint_word_of_int)

end
