(* ===== verification/Pb_Types.thy ===== *)
theory Pb_Types
  imports C_Memory
begin

text \<open>
  The declarations of \<^verbatim>\<open>nanopb/pb.h\<close>: the bit-packed field types, the field descriptor
  \<^verbatim>\<open>pb_field_t\<close>, the layouts of the structures the library reads through pointers, the macros
  that build descriptor tables from a structure layout, and the error-message macros. The build
  defines \<^verbatim>\<open>PB_FIELD_32BIT\<close>, \<^verbatim>\<open>PB_NO_PACKED_STRUCTS\<close> and \<^verbatim>\<open>PB_ENABLE_MALLOC\<close>
  (\<^verbatim>\<open>Target Support Files/nanopb/nanopb.xcconfig\<close>), so sizes of fields have 32 bits.
\<close>

section \<open>Field types\<close>

type_synonym pb_type_t = "8 word"
type_synonym pb_size_t = "32 word"
type_synonym pb_ssize_t = "32 word"
type_synonym pb_byte_t = byte
type_synonym pb_wire_type_t = "32 word"

definition PB_LTYPE_VARINT :: pb_type_t where
  [pb_consts]: "PB_LTYPE_VARINT = 0x00"

definition PB_LTYPE_UVARINT :: pb_type_t where
  [pb_consts]: "PB_LTYPE_UVARINT = 0x01"

definition PB_LTYPE_SVARINT :: pb_type_t where
  [pb_consts]: "PB_LTYPE_SVARINT = 0x02"

definition PB_LTYPE_FIXED32 :: pb_type_t where
  [pb_consts]: "PB_LTYPE_FIXED32 = 0x03"

definition PB_LTYPE_FIXED64 :: pb_type_t where
  [pb_consts]: "PB_LTYPE_FIXED64 = 0x04"

definition PB_LTYPE_LAST_PACKABLE :: pb_type_t where
  [pb_consts]: "PB_LTYPE_LAST_PACKABLE = 0x04"

definition PB_LTYPE_BYTES :: pb_type_t where
  [pb_consts]: "PB_LTYPE_BYTES = 0x05"

definition PB_LTYPE_STRING :: pb_type_t where
  [pb_consts]: "PB_LTYPE_STRING = 0x06"

definition PB_LTYPE_SUBMESSAGE :: pb_type_t where
  [pb_consts]: "PB_LTYPE_SUBMESSAGE = 0x07"

definition PB_LTYPE_EXTENSION :: pb_type_t where
  [pb_consts]: "PB_LTYPE_EXTENSION = 0x08"

definition PB_LTYPE_FIXED_LENGTH_BYTES :: pb_type_t where
  [pb_consts]: "PB_LTYPE_FIXED_LENGTH_BYTES = 0x09"

definition PB_LTYPES_COUNT :: pb_type_t where
  [pb_consts]: "PB_LTYPES_COUNT = 0x0A"

definition PB_LTYPE_MASK :: pb_type_t where
  [pb_consts]: "PB_LTYPE_MASK = 0x0F"

definition PB_HTYPE_REQUIRED :: pb_type_t where
  [pb_consts]: "PB_HTYPE_REQUIRED = 0x00"

definition PB_HTYPE_OPTIONAL :: pb_type_t where
  [pb_consts]: "PB_HTYPE_OPTIONAL = 0x10"

definition PB_HTYPE_REPEATED :: pb_type_t where
  [pb_consts]: "PB_HTYPE_REPEATED = 0x20"

definition PB_HTYPE_ONEOF :: pb_type_t where
  [pb_consts]: "PB_HTYPE_ONEOF = 0x30"

definition PB_HTYPE_MASK :: pb_type_t where
  [pb_consts]: "PB_HTYPE_MASK = 0x30"

definition PB_ATYPE_STATIC :: pb_type_t where
  [pb_consts]: "PB_ATYPE_STATIC = 0x00"

definition PB_ATYPE_POINTER :: pb_type_t where
  [pb_consts]: "PB_ATYPE_POINTER = 0x80"

definition PB_ATYPE_CALLBACK :: pb_type_t where
  [pb_consts]: "PB_ATYPE_CALLBACK = 0x40"

definition PB_ATYPE_MASK :: pb_type_t where
  [pb_consts]: "PB_ATYPE_MASK = 0xC0"

definition PB_ATYPE :: "pb_type_t \<Rightarrow> pb_type_t" where
  "PB_ATYPE x = x AND PB_ATYPE_MASK"

definition PB_HTYPE :: "pb_type_t \<Rightarrow> pb_type_t" where
  "PB_HTYPE x = x AND PB_HTYPE_MASK"

definition PB_LTYPE :: "pb_type_t \<Rightarrow> pb_type_t" where
  "PB_LTYPE x = x AND PB_LTYPE_MASK"

definition PB_SIZE_MAX :: pb_size_t where
  [pb_consts]: "PB_SIZE_MAX = - 1"

definition PB_MAX_REQUIRED_FIELDS :: uint32 where
  [pb_consts]: "PB_MAX_REQUIRED_FIELDS = 64"

text \<open>
  The decoder casts three bits of the input to \<^verbatim>\<open>pb_wire_type_t\<close>, so the enumeration is kept as
  its underlying integer.
\<close>

definition PB_WT_VARINT :: pb_wire_type_t where
  [pb_consts]: "PB_WT_VARINT = 0"

definition PB_WT_64BIT :: pb_wire_type_t where
  [pb_consts]: "PB_WT_64BIT = 1"

definition PB_WT_STRING :: pb_wire_type_t where
  [pb_consts]: "PB_WT_STRING = 2"

definition PB_WT_32BIT :: pb_wire_type_t where
  [pb_consts]: "PB_WT_32BIT = 5"

section \<open>Descriptors and the structures read through pointers\<close>

text \<open>
  \<^verbatim>\<open>const void *ptr\<close> of a descriptor points to the descriptor table of a submessage (named by
  its index in the table map), to the bytes of a default value, or is \<^verbatim>\<open>NULL\<close>.
\<close>

datatype field_ptr = FNull | FFields nat | FDefault "byte list"

record pb_field =
  f_tag :: pb_size_t
  f_type :: pb_type_t
  f_data_offset :: pb_size_t
  f_size_offset :: pb_ssize_t
  f_data_size :: pb_size_t
  f_array_size :: pb_size_t
  f_ptr :: field_ptr

type_synonym field_tables = "nat \<Rightarrow> pb_field list"
type_synonym field_pos = "nat \<times> nat"

text \<open>\<^verbatim>\<open>struct pb_bytes_array_s\<close>: \<^verbatim>\<open>size\<close> at offset 0, \<^verbatim>\<open>bytes\<close> at offset 4.\<close>

definition bytes_array_data :: "addr \<Rightarrow> addr" where
  "bytes_array_data p = p + 4"

definition bytes_array_size :: "mem \<Rightarrow> addr \<Rightarrow> pb_size_t option" where
  "bytes_array_size m p = load32 m p"

definition PB_BYTES_ARRAY_T_ALLOCSIZE :: "uint32 \<Rightarrow> size_t" where
  "PB_BYTES_ARRAY_T_ALLOCSIZE n = ucast n + 4"

text \<open>\<^verbatim>\<open>struct pb_callback_s\<close>: the function pointer at offset 0, \<^verbatim>\<open>arg\<close> at offset 8.\<close>

definition callback_funcs :: "mem \<Rightarrow> addr \<Rightarrow> addr option" where
  "callback_funcs m p = load_ptr m p"

definition callback_arg :: "addr \<Rightarrow> addr" where
  "callback_arg p = p + 8"

text \<open>
  \<^verbatim>\<open>struct pb_extension_type_s\<close> is constant data of the user: the two function pointers
  (0 is \<^verbatim>\<open>NULL\<close>) and the descriptor \<^verbatim>\<open>arg\<close> points to. \<^verbatim>\<open>struct pb_extension_s\<close> lives in memory:
  \<^verbatim>\<open>type\<close>, \<^verbatim>\<open>dest\<close> and \<^verbatim>\<open>next\<close> at offsets 0, 8 and 16, \<^verbatim>\<open>found\<close> at offset 24.
\<close>

record pb_extension_type =
  xt_decode :: addr
  xt_encode :: addr
  xt_arg :: field_pos

definition ext_type :: "mem \<Rightarrow> addr \<Rightarrow> addr option" where
  "ext_type m p = load_ptr m p"

definition ext_dest_addr :: "addr \<Rightarrow> addr" where
  "ext_dest_addr p = p + 8"

definition ext_dest :: "mem \<Rightarrow> addr \<Rightarrow> addr option" where
  "ext_dest m p = load_ptr m (ext_dest_addr p)"

definition ext_next :: "mem \<Rightarrow> addr \<Rightarrow> addr option" where
  "ext_next m p = load_ptr m (p + 16)"

definition ext_found_addr :: "addr \<Rightarrow> addr" where
  "ext_found_addr p = p + 24"

section \<open>Macros that build descriptors\<close>

text \<open>
  A structure member as the macros see it: \<^verbatim>\<open>offsetof\<close>, \<^verbatim>\<open>sizeof\<close>, the size of one element
  (\<^verbatim>\<open>m[0]\<close>, the pointee for a pointer member), and the offset of its companion member
  (\<^verbatim>\<open>has_m\<close>, \<^verbatim>\<open>m_count\<close> or \<^verbatim>\<open>which_u\<close>).
\<close>

record cmember =
  m_off :: nat
  m_size :: nat
  m_elem :: nat
  m_aux :: nat

definition pb_membersize :: "cmember \<Rightarrow> pb_size_t" where
  "pb_membersize m = of_nat (m_size m)"

definition pb_elemsize :: "cmember \<Rightarrow> pb_size_t" where
  "pb_elemsize m = of_nat (m_elem m)"

definition pb_arraysize :: "cmember \<Rightarrow> pb_size_t" where
  "pb_arraysize m = of_nat (m_size m div m_elem m)"

definition pb_delta :: "cmember \<Rightarrow> pb_ssize_t" where
  "pb_delta m = of_int (int (m_aux m) - int (m_off m))"

definition PB_LAST_FIELD :: pb_field where
  "PB_LAST_FIELD = \<lparr>f_tag = 0, f_type = 0, f_data_offset = 0, f_size_offset = 0, f_data_size = 0,
     f_array_size = 0, f_ptr = FNull\<rparr>"

definition PB_DATAOFFSET_FIRST :: "cmember \<Rightarrow> cmember \<Rightarrow> pb_size_t" where
  "PB_DATAOFFSET_FIRST m1 m2 = of_nat (m_off m1)"

definition PB_DATAOFFSET_OTHER :: "cmember \<Rightarrow> cmember \<Rightarrow> pb_size_t" where
  "PB_DATAOFFSET_OTHER m1 m2 = of_int (int (m_off m1) - int (m_off m2) - int (m_size m2))"

definition PB_DATAOFFSET_UNION :: "cmember \<Rightarrow> cmember \<Rightarrow> pb_size_t" where
  "PB_DATAOFFSET_UNION m1 m2 = PB_SIZE_MAX"

definition PB_DATAOFFSET_CHOOSE :: "cmember \<Rightarrow> cmember \<Rightarrow> pb_size_t" where
  "PB_DATAOFFSET_CHOOSE m1 m2 =
     (if m_off m1 = m_off m2 then PB_DATAOFFSET_FIRST m1 m2 else PB_DATAOFFSET_OTHER m1 m2)"

definition PB_REQUIRED_STATIC :: "pb_size_t \<Rightarrow> cmember \<Rightarrow> pb_size_t \<Rightarrow> pb_type_t \<Rightarrow> field_ptr \<Rightarrow> pb_field" where
  "PB_REQUIRED_STATIC t m fd ltype ptr =
     \<lparr>f_tag = t, f_type = PB_ATYPE_STATIC OR PB_HTYPE_REQUIRED OR ltype, f_data_offset = fd,
      f_size_offset = 0, f_data_size = pb_membersize m, f_array_size = 0, f_ptr = ptr\<rparr>"

definition PB_OPTIONAL_STATIC :: "pb_size_t \<Rightarrow> cmember \<Rightarrow> pb_size_t \<Rightarrow> pb_type_t \<Rightarrow> field_ptr \<Rightarrow> pb_field" where
  "PB_OPTIONAL_STATIC t m fd ltype ptr =
     \<lparr>f_tag = t, f_type = PB_ATYPE_STATIC OR PB_HTYPE_OPTIONAL OR ltype, f_data_offset = fd,
      f_size_offset = pb_delta m, f_data_size = pb_membersize m, f_array_size = 0, f_ptr = ptr\<rparr>"

definition PB_SINGULAR_STATIC :: "pb_size_t \<Rightarrow> cmember \<Rightarrow> pb_size_t \<Rightarrow> pb_type_t \<Rightarrow> field_ptr \<Rightarrow> pb_field" where
  "PB_SINGULAR_STATIC t m fd ltype ptr =
     \<lparr>f_tag = t, f_type = PB_ATYPE_STATIC OR PB_HTYPE_OPTIONAL OR ltype, f_data_offset = fd,
      f_size_offset = 0, f_data_size = pb_membersize m, f_array_size = 0, f_ptr = ptr\<rparr>"

definition PB_REPEATED_STATIC :: "pb_size_t \<Rightarrow> cmember \<Rightarrow> pb_size_t \<Rightarrow> pb_type_t \<Rightarrow> field_ptr \<Rightarrow> pb_field" where
  "PB_REPEATED_STATIC t m fd ltype ptr =
     \<lparr>f_tag = t, f_type = PB_ATYPE_STATIC OR PB_HTYPE_REPEATED OR ltype, f_data_offset = fd,
      f_size_offset = pb_delta m, f_data_size = pb_elemsize m, f_array_size = pb_arraysize m, f_ptr = ptr\<rparr>"

definition PB_REQUIRED_POINTER :: "pb_size_t \<Rightarrow> cmember \<Rightarrow> pb_size_t \<Rightarrow> pb_type_t \<Rightarrow> field_ptr \<Rightarrow> pb_field" where
  "PB_REQUIRED_POINTER t m fd ltype ptr =
     \<lparr>f_tag = t, f_type = PB_ATYPE_POINTER OR PB_HTYPE_REQUIRED OR ltype, f_data_offset = fd,
      f_size_offset = 0, f_data_size = pb_elemsize m, f_array_size = 0, f_ptr = ptr\<rparr>"

definition PB_OPTIONAL_POINTER :: "pb_size_t \<Rightarrow> cmember \<Rightarrow> pb_size_t \<Rightarrow> pb_type_t \<Rightarrow> field_ptr \<Rightarrow> pb_field" where
  "PB_OPTIONAL_POINTER t m fd ltype ptr =
     \<lparr>f_tag = t, f_type = PB_ATYPE_POINTER OR PB_HTYPE_OPTIONAL OR ltype, f_data_offset = fd,
      f_size_offset = 0, f_data_size = pb_elemsize m, f_array_size = 0, f_ptr = ptr\<rparr>"

definition PB_SINGULAR_POINTER :: "pb_size_t \<Rightarrow> cmember \<Rightarrow> pb_size_t \<Rightarrow> pb_type_t \<Rightarrow> field_ptr \<Rightarrow> pb_field" where
  "PB_SINGULAR_POINTER t m fd ltype ptr =
     \<lparr>f_tag = t, f_type = PB_ATYPE_POINTER OR PB_HTYPE_OPTIONAL OR ltype, f_data_offset = fd,
      f_size_offset = 0, f_data_size = pb_elemsize m, f_array_size = 0, f_ptr = ptr\<rparr>"

definition PB_REPEATED_POINTER :: "pb_size_t \<Rightarrow> cmember \<Rightarrow> pb_size_t \<Rightarrow> pb_type_t \<Rightarrow> field_ptr \<Rightarrow> pb_field" where
  "PB_REPEATED_POINTER t m fd ltype ptr =
     \<lparr>f_tag = t, f_type = PB_ATYPE_POINTER OR PB_HTYPE_REPEATED OR ltype, f_data_offset = fd,
      f_size_offset = pb_delta m, f_data_size = pb_elemsize m, f_array_size = 0, f_ptr = ptr\<rparr>"

definition PB_REQUIRED_CALLBACK :: "pb_size_t \<Rightarrow> cmember \<Rightarrow> pb_size_t \<Rightarrow> pb_type_t \<Rightarrow> field_ptr \<Rightarrow> pb_field" where
  "PB_REQUIRED_CALLBACK t m fd ltype ptr =
     \<lparr>f_tag = t, f_type = PB_ATYPE_CALLBACK OR PB_HTYPE_REQUIRED OR ltype, f_data_offset = fd,
      f_size_offset = 0, f_data_size = pb_membersize m, f_array_size = 0, f_ptr = ptr\<rparr>"

definition PB_OPTIONAL_CALLBACK :: "pb_size_t \<Rightarrow> cmember \<Rightarrow> pb_size_t \<Rightarrow> pb_type_t \<Rightarrow> field_ptr \<Rightarrow> pb_field" where
  "PB_OPTIONAL_CALLBACK t m fd ltype ptr =
     \<lparr>f_tag = t, f_type = PB_ATYPE_CALLBACK OR PB_HTYPE_OPTIONAL OR ltype, f_data_offset = fd,
      f_size_offset = 0, f_data_size = pb_membersize m, f_array_size = 0, f_ptr = ptr\<rparr>"

definition PB_SINGULAR_CALLBACK :: "pb_size_t \<Rightarrow> cmember \<Rightarrow> pb_size_t \<Rightarrow> pb_type_t \<Rightarrow> field_ptr \<Rightarrow> pb_field" where
  "PB_SINGULAR_CALLBACK t m fd ltype ptr =
     \<lparr>f_tag = t, f_type = PB_ATYPE_CALLBACK OR PB_HTYPE_OPTIONAL OR ltype, f_data_offset = fd,
      f_size_offset = 0, f_data_size = pb_membersize m, f_array_size = 0, f_ptr = ptr\<rparr>"

definition PB_REPEATED_CALLBACK :: "pb_size_t \<Rightarrow> cmember \<Rightarrow> pb_size_t \<Rightarrow> pb_type_t \<Rightarrow> field_ptr \<Rightarrow> pb_field" where
  "PB_REPEATED_CALLBACK t m fd ltype ptr =
     \<lparr>f_tag = t, f_type = PB_ATYPE_CALLBACK OR PB_HTYPE_REPEATED OR ltype, f_data_offset = fd,
      f_size_offset = 0, f_data_size = pb_membersize m, f_array_size = 0, f_ptr = ptr\<rparr>"

definition PB_OPTEXT_STATIC :: "pb_size_t \<Rightarrow> cmember \<Rightarrow> pb_size_t \<Rightarrow> pb_type_t \<Rightarrow> field_ptr \<Rightarrow> pb_field" where
  "PB_OPTEXT_STATIC t m fd ltype ptr =
     \<lparr>f_tag = t, f_type = PB_ATYPE_STATIC OR PB_HTYPE_REQUIRED OR ltype, f_data_offset = 0,
      f_size_offset = 0, f_data_size = pb_membersize m, f_array_size = 0, f_ptr = ptr\<rparr>"

definition PB_OPTEXT_POINTER :: "pb_size_t \<Rightarrow> cmember \<Rightarrow> pb_size_t \<Rightarrow> pb_type_t \<Rightarrow> field_ptr \<Rightarrow> pb_field" where
  "PB_OPTEXT_POINTER = PB_OPTIONAL_POINTER"

definition PB_OPTEXT_CALLBACK :: "pb_size_t \<Rightarrow> cmember \<Rightarrow> pb_size_t \<Rightarrow> pb_type_t \<Rightarrow> field_ptr \<Rightarrow> pb_field" where
  "PB_OPTEXT_CALLBACK = PB_OPTIONAL_CALLBACK"

definition PB_REPEATED_FIXED_COUNT :: "pb_size_t \<Rightarrow> cmember \<Rightarrow> pb_size_t \<Rightarrow> pb_type_t \<Rightarrow> field_ptr \<Rightarrow> pb_field" where
  "PB_REPEATED_FIXED_COUNT t m fd ltype ptr =
     \<lparr>f_tag = t, f_type = PB_ATYPE_STATIC OR PB_HTYPE_REPEATED OR ltype, f_data_offset = fd,
      f_size_offset = 0, f_data_size = pb_elemsize m, f_array_size = pb_arraysize m, f_ptr = ptr\<rparr>"

definition PB_ONEOF_STATIC :: "pb_size_t \<Rightarrow> cmember \<Rightarrow> pb_size_t \<Rightarrow> pb_type_t \<Rightarrow> field_ptr \<Rightarrow> pb_field" where
  "PB_ONEOF_STATIC t m fd ltype ptr =
     \<lparr>f_tag = t, f_type = PB_ATYPE_STATIC OR PB_HTYPE_ONEOF OR ltype, f_data_offset = fd,
      f_size_offset = pb_delta m, f_data_size = pb_membersize m, f_array_size = 0, f_ptr = ptr\<rparr>"

definition PB_ONEOF_POINTER :: "pb_size_t \<Rightarrow> cmember \<Rightarrow> pb_size_t \<Rightarrow> pb_type_t \<Rightarrow> field_ptr \<Rightarrow> pb_field" where
  "PB_ONEOF_POINTER t m fd ltype ptr =
     \<lparr>f_tag = t, f_type = PB_ATYPE_POINTER OR PB_HTYPE_ONEOF OR ltype, f_data_offset = fd,
      f_size_offset = pb_delta m, f_data_size = pb_elemsize m, f_array_size = 0, f_ptr = ptr\<rparr>"

datatype pb_ptype = BOOL | BYTES | DOUBLE | ENUM | UENUM | FIXED32 | FIXED64 | FLOAT | INT32
  | INT64 | MESSAGE | SFIXED32 | SFIXED64 | SINT32 | SINT64 | STRING | UINT32 | UINT64 | EXTENSION
  | FIXED_LENGTH_BYTES

fun PB_LTYPE_MAP :: "pb_ptype \<Rightarrow> pb_type_t" where
  "PB_LTYPE_MAP BOOL = PB_LTYPE_VARINT"
| "PB_LTYPE_MAP BYTES = PB_LTYPE_BYTES"
| "PB_LTYPE_MAP DOUBLE = PB_LTYPE_FIXED64"
| "PB_LTYPE_MAP ENUM = PB_LTYPE_VARINT"
| "PB_LTYPE_MAP UENUM = PB_LTYPE_UVARINT"
| "PB_LTYPE_MAP FIXED32 = PB_LTYPE_FIXED32"
| "PB_LTYPE_MAP FIXED64 = PB_LTYPE_FIXED64"
| "PB_LTYPE_MAP FLOAT = PB_LTYPE_FIXED32"
| "PB_LTYPE_MAP INT32 = PB_LTYPE_VARINT"
| "PB_LTYPE_MAP INT64 = PB_LTYPE_VARINT"
| "PB_LTYPE_MAP MESSAGE = PB_LTYPE_SUBMESSAGE"
| "PB_LTYPE_MAP SFIXED32 = PB_LTYPE_FIXED32"
| "PB_LTYPE_MAP SFIXED64 = PB_LTYPE_FIXED64"
| "PB_LTYPE_MAP SINT32 = PB_LTYPE_SVARINT"
| "PB_LTYPE_MAP SINT64 = PB_LTYPE_SVARINT"
| "PB_LTYPE_MAP STRING = PB_LTYPE_STRING"
| "PB_LTYPE_MAP UINT32 = PB_LTYPE_UVARINT"
| "PB_LTYPE_MAP UINT64 = PB_LTYPE_UVARINT"
| "PB_LTYPE_MAP EXTENSION = PB_LTYPE_EXTENSION"
| "PB_LTYPE_MAP FIXED_LENGTH_BYTES = PB_LTYPE_FIXED_LENGTH_BYTES"

text \<open>
  \<^verbatim>\<open>PB_FIELD\<close> pastes its arguments into the name of one of the macros above; the pasted words are
  the constructors of three enumerations here.
\<close>

datatype pb_rules = REQUIRED | OPTIONAL | SINGULAR | REPEATED | OPTEXT
datatype pb_alloc = STATIC | POINTER | CALLBACK
datatype pb_placement = FIRST | OTHER | UNION | CHOOSE

fun PB_DATAOFFSET :: "pb_placement \<Rightarrow> cmember \<Rightarrow> cmember \<Rightarrow> pb_size_t" where
  "PB_DATAOFFSET FIRST m1 m2 = PB_DATAOFFSET_FIRST m1 m2"
| "PB_DATAOFFSET OTHER m1 m2 = PB_DATAOFFSET_OTHER m1 m2"
| "PB_DATAOFFSET UNION m1 m2 = PB_DATAOFFSET_UNION m1 m2"
| "PB_DATAOFFSET CHOOSE m1 m2 = PB_DATAOFFSET_CHOOSE m1 m2"

fun PB_RULES :: "pb_rules \<Rightarrow> pb_alloc \<Rightarrow> pb_size_t \<Rightarrow> cmember \<Rightarrow> pb_size_t \<Rightarrow> pb_type_t \<Rightarrow> field_ptr \<Rightarrow> pb_field" where
  "PB_RULES REQUIRED STATIC t m fd l p = PB_REQUIRED_STATIC t m fd l p"
| "PB_RULES OPTIONAL STATIC t m fd l p = PB_OPTIONAL_STATIC t m fd l p"
| "PB_RULES SINGULAR STATIC t m fd l p = PB_SINGULAR_STATIC t m fd l p"
| "PB_RULES REPEATED STATIC t m fd l p = PB_REPEATED_STATIC t m fd l p"
| "PB_RULES OPTEXT STATIC t m fd l p = PB_OPTEXT_STATIC t m fd l p"
| "PB_RULES REQUIRED POINTER t m fd l p = PB_REQUIRED_POINTER t m fd l p"
| "PB_RULES OPTIONAL POINTER t m fd l p = PB_OPTIONAL_POINTER t m fd l p"
| "PB_RULES SINGULAR POINTER t m fd l p = PB_SINGULAR_POINTER t m fd l p"
| "PB_RULES REPEATED POINTER t m fd l p = PB_REPEATED_POINTER t m fd l p"
| "PB_RULES OPTEXT POINTER t m fd l p = PB_OPTEXT_POINTER t m fd l p"
| "PB_RULES REQUIRED CALLBACK t m fd l p = PB_REQUIRED_CALLBACK t m fd l p"
| "PB_RULES OPTIONAL CALLBACK t m fd l p = PB_OPTIONAL_CALLBACK t m fd l p"
| "PB_RULES SINGULAR CALLBACK t m fd l p = PB_SINGULAR_CALLBACK t m fd l p"
| "PB_RULES REPEATED CALLBACK t m fd l p = PB_REPEATED_CALLBACK t m fd l p"
| "PB_RULES OPTEXT CALLBACK t m fd l p = PB_OPTEXT_CALLBACK t m fd l p"

definition PB_FIELD :: "pb_size_t \<Rightarrow> pb_ptype \<Rightarrow> pb_rules \<Rightarrow> pb_alloc \<Rightarrow> pb_placement \<Rightarrow> cmember \<Rightarrow> cmember \<Rightarrow> field_ptr \<Rightarrow> pb_field" where
  "PB_FIELD t ty rules alloc placement m prev ptr =
     PB_RULES rules alloc t m (PB_DATAOFFSET placement m prev) (PB_LTYPE_MAP ty) ptr"

fun PB_ONEOF_FIELD :: "pb_size_t \<Rightarrow> pb_ptype \<Rightarrow> pb_alloc \<Rightarrow> pb_placement \<Rightarrow> cmember \<Rightarrow> cmember \<Rightarrow> field_ptr \<Rightarrow> pb_field option" where
  "PB_ONEOF_FIELD t ty STATIC placement m prev ptr =
     Some (PB_ONEOF_STATIC t m (PB_DATAOFFSET placement m prev) (PB_LTYPE_MAP ty) ptr)"
| "PB_ONEOF_FIELD t ty POINTER placement m prev ptr =
     Some (PB_ONEOF_POINTER t m (PB_DATAOFFSET placement m prev) (PB_LTYPE_MAP ty) ptr)"
| "PB_ONEOF_FIELD t ty CALLBACK placement m prev ptr = None"

section \<open>Error messages\<close>

definition PB_SET_ERROR :: "string option \<Rightarrow> string \<Rightarrow> string option" where
  "PB_SET_ERROR errmsg msg = (case errmsg of None \<Rightarrow> Some msg | Some e \<Rightarrow> Some e)"

definition PB_GET_ERROR :: "string option \<Rightarrow> string" where
  "PB_GET_ERROR errmsg = (case errmsg of None \<Rightarrow> ''(none)'' | Some e \<Rightarrow> e)"

lemma PB_SET_ERROR_not_None [simp]: "PB_SET_ERROR e msg \<noteq> None"
  by (simp add: PB_SET_ERROR_def split: option.splits)

lemma PB_SET_ERROR_keeps: "PB_SET_ERROR (PB_SET_ERROR e msg) msg' = PB_SET_ERROR e msg"
  by (simp add: PB_SET_ERROR_def split: option.splits)

lemmas pb_type_defs = PB_ATYPE_def PB_HTYPE_def PB_LTYPE_def

text \<open>
  The three parts of a type occupy disjoint bits: a descriptor macro that combines them with
  \<^verbatim>\<open>|\<close> is read back by \<^verbatim>\<open>PB_ATYPE\<close>, \<^verbatim>\<open>PB_HTYPE\<close> and \<^verbatim>\<open>PB_LTYPE\<close>.
\<close>

lemma PB_type_parts:
  assumes "a AND PB_ATYPE_MASK = a" and "h AND PB_HTYPE_MASK = h" and "l AND PB_LTYPE_MASK = l"
  shows "PB_ATYPE (a OR h OR l) = a" and "PB_HTYPE (a OR h OR l) = h" and "PB_LTYPE (a OR h OR l) = l"
proof -
  have a: "a = a AND 0xC0" and h: "h = h AND 0x30" and l: "l = l AND 0x0F"
    using assms by (simp_all add: pb_consts)
  show "PB_ATYPE (a OR h OR l) = a"
    by (subst a, subst h, subst l, subst (2) a)
      (simp add: pb_type_defs pb_consts bit.conj_disj_distrib2 and.assoc)
  show "PB_HTYPE (a OR h OR l) = h"
    by (subst a, subst h, subst l, subst (2) h)
      (simp add: pb_type_defs pb_consts bit.conj_disj_distrib2 and.assoc)
  show "PB_LTYPE (a OR h OR l) = l"
    by (subst a, subst h, subst l, subst (2) l)
      (simp add: pb_type_defs pb_consts bit.conj_disj_distrib2 and.assoc)
qed

end
