(* ===== verification/Pb_Common.thy ===== *)
theory Pb_Common
  imports Pb_Types
begin

text \<open>
  \<^verbatim>\<open>nanopb/pb_common.c\<close>: the iterator over a descriptor table, which the encoder and the decoder
  use to find the address of each member of a message structure. A \<^verbatim>\<open>const pb_field_t *\<close> is a
  pair of a table index and a position in that table; reading past a table has no result.
\<close>

section \<open>The iterator\<close>

definition field_at :: "field_tables \<Rightarrow> field_pos \<Rightarrow> pb_field option" where
  "field_at T p = (if snd p < length (T (fst p)) then Some (T (fst p) ! snd p) else None)"

record pb_field_iter =
  it_start :: field_pos
  it_pos :: field_pos
  it_required :: uint32
  it_dest :: addr
  it_pData :: addr
  it_pSize :: addr

definition pb_field_iter_begin :: "field_tables \<Rightarrow> field_pos \<Rightarrow> addr \<Rightarrow> (bool \<times> pb_field_iter) option" where
  "pb_field_iter_begin T flds dest = do {
     f \<leftarrow> field_at T flds;
     let pData = dest + uint (f_data_offset f);
     Some (f_tag f \<noteq> 0,
       \<lparr>it_start = flds, it_pos = flds, it_required = 0, it_dest = dest,
        it_pData = pData, it_pSize = pData + sint (f_size_offset f)\<rparr>) }"

definition in_union :: "pb_field \<Rightarrow> pb_field \<Rightarrow> bool" where
  "in_union prev cur \<longleftrightarrow> PB_HTYPE (f_type prev) = PB_HTYPE_ONEOF \<and>
     PB_HTYPE (f_type cur) = PB_HTYPE_ONEOF \<and> f_data_offset cur = PB_SIZE_MAX"

definition prev_size :: "pb_field \<Rightarrow> size_t" where
  "prev_size prev =
     (if PB_ATYPE (f_type prev) = PB_ATYPE_STATIC \<and> PB_HTYPE (f_type prev) = PB_HTYPE_REPEATED
      then ucast (f_data_size prev) * ucast (f_array_size prev)
      else if PB_ATYPE (f_type prev) = PB_ATYPE_POINTER then 8
      else ucast (f_data_size prev))"

definition pb_field_iter_next :: "field_tables \<Rightarrow> pb_field_iter \<Rightarrow> (bool \<times> pb_field_iter) option" where
  "pb_field_iter_next T iter = do {
     prev \<leftarrow> field_at T (it_pos iter);
     if f_tag prev = 0 then Some (False, iter)
     else do {
       let p = (fst (it_pos iter), Suc (snd (it_pos iter)));
       cur \<leftarrow> field_at T p;
       if f_tag cur = 0 then do {
         (_, iter') \<leftarrow> pb_field_iter_begin T (it_start iter) (it_dest iter);
         Some (False, iter') }
       else if in_union prev cur then Some (True, iter\<lparr>it_pos := p\<rparr>)
       else do {
         let req = (if PB_HTYPE (f_type prev) = PB_HTYPE_REQUIRED then it_required iter + 1
                    else it_required iter);
         let pData = it_pData iter + uint (prev_size prev) + uint (f_data_offset cur);
         Some (True, iter\<lparr>it_pos := p, it_required := req, it_pData := pData,
                         it_pSize := pData + sint (f_size_offset cur)\<rparr>) } } }"

text \<open>
  The loop \<^verbatim>\<open>do { if (found) return true; next } while (pos != start)\<close>, shared by
  \<^verbatim>\<open>pb_field_iter_find\<close> here and \<^verbatim>\<open>find_extension_field\<close> of the decoder, and the loop
  \<^verbatim>\<open>do { body } while (next)\<close> over all members. The table's length bounds the rounds of both.
\<close>

fun iter_scan :: "nat \<Rightarrow> ('i \<Rightarrow> (bool \<times> 'i) option) \<Rightarrow> ('i \<Rightarrow> bool option) \<Rightarrow> ('i \<Rightarrow> 'p) \<Rightarrow> 'p \<Rightarrow> 'i \<Rightarrow> (bool \<times> 'i) option" where
  "iter_scan 0 nxt test pos start iter = None"
| "iter_scan (Suc n) nxt test pos start iter = do {
     hit \<leftarrow> test iter;
     if hit then Some (True, iter)
     else do {
       (_, iter') \<leftarrow> nxt iter;
       if pos iter' = start then Some (False, iter')
       else iter_scan n nxt test pos start iter' } }"

fun iter_loop :: "nat \<Rightarrow> ('i \<Rightarrow> (bool \<times> 'i) option) \<Rightarrow> ('i \<Rightarrow> 's \<Rightarrow> (bool \<times> 's) option) \<Rightarrow> 'i \<Rightarrow> 's \<Rightarrow> (bool \<times> 's) option" where
  "iter_loop 0 nxt body iter st = None"
| "iter_loop (Suc n) nxt body iter st =
     and_then (body iter st) (\<lambda>st. do {
       (more, iter') \<leftarrow> nxt iter;
       if more then iter_loop n nxt body iter' st else Some (True, st) })"

definition tag_matches :: "uint32 \<Rightarrow> pb_field \<Rightarrow> bool" where
  "tag_matches t f \<longleftrightarrow> f_tag f = t \<and> PB_LTYPE (f_type f) \<noteq> PB_LTYPE_EXTENSION"

definition iter_test :: "field_tables \<Rightarrow> (pb_field \<Rightarrow> bool) \<Rightarrow> pb_field_iter \<Rightarrow> bool option" where
  "iter_test T P iter = map_option P (field_at T (it_pos iter))"

definition table_length :: "field_tables \<Rightarrow> pb_field_iter \<Rightarrow> nat" where
  "table_length T iter = length (T (fst (it_pos iter)))"

definition pb_field_iter_find :: "field_tables \<Rightarrow> pb_field_iter \<Rightarrow> uint32 \<Rightarrow> (bool \<times> pb_field_iter) option" where
  "pb_field_iter_find T iter t =
     iter_scan (table_length T iter) (pb_field_iter_next T) (iter_test T (tag_matches t)) it_pos
       (it_pos iter) iter"

section \<open>What the iterator computes\<close>

definition nfields :: "pb_field list \<Rightarrow> nat" where
  "nfields fs = length (takeWhile (\<lambda>f. f_tag f \<noteq> 0) fs)"

definition table_wf :: "pb_field list \<Rightarrow> bool" where
  "table_wf fs \<longleftrightarrow> nfields fs < length fs"

primrec field_offset :: "pb_field list \<Rightarrow> nat \<Rightarrow> int" where
  "field_offset fs 0 = uint (f_data_offset (fs ! 0))"
| "field_offset fs (Suc k) =
     (if in_union (fs ! k) (fs ! Suc k) then field_offset fs k
      else field_offset fs k + uint (prev_size (fs ! k)) + uint (f_data_offset (fs ! Suc k)))"

primrec count_offset :: "pb_field list \<Rightarrow> nat \<Rightarrow> int" where
  "count_offset fs 0 = field_offset fs 0 + sint (f_size_offset (fs ! 0))"
| "count_offset fs (Suc k) =
     (if in_union (fs ! k) (fs ! Suc k) then count_offset fs k
      else field_offset fs (Suc k) + sint (f_size_offset (fs ! Suc k)))"

definition is_required :: "pb_field \<Rightarrow> bool" where
  "is_required f \<longleftrightarrow> PB_HTYPE (f_type f) = PB_HTYPE_REQUIRED"

definition required_before :: "pb_field list \<Rightarrow> nat \<Rightarrow> nat" where
  "required_before fs k = length (filter is_required (take k fs))"

definition iter_at :: "pb_field list \<Rightarrow> nat \<Rightarrow> addr \<Rightarrow> nat \<Rightarrow> pb_field_iter" where
  "iter_at fs t d k = \<lparr>it_start = (t, 0), it_pos = (t, k), it_required = of_nat (required_before fs k),
     it_dest = d, it_pData = d + field_offset fs k, it_pSize = d + count_offset fs k\<rparr>"

lemma iter_at_sel [simp]:
  "it_start (iter_at fs t d k) = (t, 0)" "it_pos (iter_at fs t d k) = (t, k)"
  "it_dest (iter_at fs t d k) = d" "it_pData (iter_at fs t d k) = d + field_offset fs k"
  "it_pSize (iter_at fs t d k) = d + count_offset fs k"
  "it_required (iter_at fs t d k) = of_nat (required_before fs k)"
  by (simp_all add: iter_at_def)

lemma nfields_tag: "k < nfields fs \<Longrightarrow> f_tag (fs ! k) \<noteq> 0"
  unfolding nfields_def
  using nth_mem [of k "takeWhile (\<lambda>f. f_tag f \<noteq> 0) fs"] by (auto dest: set_takeWhileD simp: takeWhile_nth)

lemma nfields_end: "table_wf fs \<Longrightarrow> f_tag (fs ! nfields fs) = 0"
  unfolding nfields_def table_wf_def using nth_length_takeWhile by blast

lemma nfields_le: "nfields fs \<le> length fs"
  by (simp add: nfields_def length_takeWhile_le)

lemma nfields_0: "table_wf fs \<Longrightarrow> f_tag (fs ! 0) \<noteq> 0 \<longleftrightarrow> 0 < nfields fs"
  using nfields_end [of fs] nfields_tag [of 0 fs] by (cases "nfields fs = 0") auto

lemma field_at_table:
  "T t = fs \<Longrightarrow> table_wf fs \<Longrightarrow> k \<le> nfields fs \<Longrightarrow> field_at T (t, k) = Some (fs ! k)"
  by (simp add: field_at_def table_wf_def)

lemma uint_prev_size_array:
  "uint (ucast (a :: 32 word) * ucast (b :: 32 word) :: 64 word) = uint a * uint b"
proof -
  have "uint a < 2 ^ 32" "uint b < 2 ^ 32" using uint_lt2p [of a] uint_lt2p [of b] by simp_all
  then have "uint a * uint b < 2 ^ 32 * 2 ^ 32"
    by (intro mult_strict_mono) auto
  then show ?thesis
    by (simp add: uint_word_ariths uint_up_ucast is_up)
qed

lemma required_before_Suc:
  "k < length fs \<Longrightarrow> required_before fs (Suc k) = required_before fs k + of_bool (is_required (fs ! k))"
  by (simp add: required_before_def take_Suc_conv_app_nth)

lemma iter_begin_at:
  assumes "T t = fs" and "table_wf fs"
  shows "pb_field_iter_begin T (t, 0) d = Some (0 < nfields fs, iter_at fs t d 0)"
  using assms nfields_0 [OF assms(2)]
  by (simp add: pb_field_iter_begin_def field_at_table iter_at_def required_before_def Let_def)

lemma iter_next_at:
  assumes T: "T t = fs" and wf: "table_wf fs" and k: "k < nfields fs"
  shows "pb_field_iter_next T (iter_at fs t d k) =
    Some (Suc k < nfields fs, iter_at fs t d (if Suc k < nfields fs then Suc k else 0))"
proof (cases "Suc k < nfields fs")
  case True
  have len: "k < length fs" using k nfields_le by (rule less_le_trans)
  have union: "in_union (fs ! k) (fs ! Suc k) \<Longrightarrow> \<not> is_required (fs ! k)"
    by (auto simp: in_union_def is_required_def pb_consts)
  show ?thesis
    using True k nfields_tag [OF k] nfields_tag [OF True] required_before_Suc [OF len] union
    by (simp add: pb_field_iter_next_def field_at_table [where T = T, OF T wf] Let_def)
      (simp add: iter_at_def is_required_def)
next
  case False
  with k have "Suc k = nfields fs" by simp
  with False k show ?thesis
    using nfields_tag [OF k] nfields_end [OF wf]
    by (simp add: pb_field_iter_next_def field_at_table [where T = T, OF T wf] Let_def
        iter_begin_at [where T = T, OF T wf])
qed

section \<open>Walking and searching a table\<close>

text \<open>
  The interface of an iterator that visits \<open>n\<close> places in order and wraps around. Both loops are
  characterised once, for every iterator with these laws.
\<close>

locale field_walk =
  fixes nxt :: "'i \<Rightarrow> (bool \<times> 'i) option"
    and at :: "nat \<Rightarrow> 'i"
    and pos :: "'i \<Rightarrow> 'p"
    and n :: nat
  assumes nxt_at: "k < n \<Longrightarrow> nxt (at k) = Some (Suc k < n, at (if Suc k < n then Suc k else 0))"
    and pos_at: "j < n \<Longrightarrow> k < n \<Longrightarrow> pos (at j) = pos (at k) \<longleftrightarrow> j = k"
begin

lemma loop_from:
  assumes "k < n" and "n - k \<le> fuel"
  shows "iter_loop fuel nxt body (at k) st = run_all (map (\<lambda>j. body (at j)) [k..<n]) st"
  using assms
proof (induction fuel arbitrary: k st)
  case 0
  then show ?case by simp
next
  case (Suc fuel)
  have rest: "(do { (more, iter') \<leftarrow> nxt (at k);
        if more then iter_loop fuel nxt body iter' st else Some (True, st) }) =
      run_all (map (\<lambda>j. body (at j)) [Suc k..<n]) st" for st
  proof (cases "Suc k < n")
    case True
    then show ?thesis using Suc.IH [of "Suc k"] Suc.prems by (simp add: nxt_at)
  next
    case False
    then show ?thesis using Suc.prems by (simp add: nxt_at)
  qed
  have "[k..<n] = k # [Suc k..<n]" using Suc.prems(1) by (rule upt_conv_Cons)
  then show ?case by (simp add: rest)
qed

lemma loop_all:
  "0 < n \<Longrightarrow> n \<le> fuel \<Longrightarrow> iter_loop fuel nxt body (at 0) st = run_all (map (\<lambda>j. body (at j)) [0..<n]) st"
  by (rule loop_from) simp_all

lemma nxt_mod: "0 < n \<Longrightarrow> \<exists>more. nxt (at (i mod n)) = Some (more, at (Suc i mod n))"
proof -
  assume "0 < n"
  then have lt: "i mod n < n" by simp
  from nxt_at [OF this] show ?thesis
  proof (cases "Suc (i mod n) < n")
    case True
    with nxt_at [OF lt] show ?thesis by (auto simp: mod_Suc)
  next
    case False
    with lt have "Suc (i mod n) = n" by simp
    with nxt_at [OF lt] show ?thesis by (auto simp: mod_Suc)
  qed
qed

lemma scan_from:
  assumes k: "k < n" and test: "\<And>j. j < n \<Longrightarrow> test (at j) = Some (p j)"
    and e: "e < n" and fuel: "n - e \<le> fuel"
  shows "iter_scan fuel nxt test pos (pos (at k)) (at ((k + e) mod n)) =
    Some (case find (\<lambda>d. p ((k + d) mod n)) [e..<n] of
        Some d \<Rightarrow> (True, at ((k + d) mod n)) | None \<Rightarrow> (False, at k))"
  using e fuel
proof (induction fuel arbitrary: e)
  case 0
  then show ?case by simp
next
  case (Suc fuel)
  have n: "0 < n" using k by simp
  have upt: "[e..<n] = e # [Suc e..<n]" using Suc.prems(1) by (rule upt_conv_Cons)
  obtain more where nx: "nxt (at ((k + e) mod n)) = Some (more, at ((k + Suc e) mod n))"
    using nxt_mod [OF n, of "k + e"] by auto
  have wrap: "pos (at ((k + Suc e) mod n)) = pos (at k) \<longleftrightarrow> Suc e = n"
  proof -
    have "(k + Suc e) mod n = k \<longleftrightarrow> Suc e = n"
      using k Suc.prems(1) by (cases "k + Suc e < n") (auto simp: le_mod_geq not_less)
    then show ?thesis using pos_at k n by (metis mod_less_divisor)
  qed
  show ?case
  proof (cases "p ((k + e) mod n)")
    case True
    then show ?thesis using n by (simp add: test upt)
  next
    case False
    show ?thesis
    proof (cases "Suc e = n")
      case True
      then have "(k + Suc e) mod n = k" using k by simp
      with True False n nx show ?thesis by (simp add: test upt)
    next
      case ne: False
      with Suc.prems have "Suc e < n" "n - Suc e \<le> fuel" by auto
      from Suc.IH [OF this] show ?thesis using False ne n nx wrap by (simp add: test upt)
    qed
  qed
qed

lemma scan_all:
  assumes "k < n" and "\<And>j. j < n \<Longrightarrow> test (at j) = Some (p j)" and "n \<le> fuel"
  shows "iter_scan fuel nxt test pos (pos (at k)) (at k) =
    Some (case find (\<lambda>d. p ((k + d) mod n)) [0..<n] of
        Some d \<Rightarrow> (True, at ((k + d) mod n)) | None \<Rightarrow> (False, at k))"
  using scan_from [of k test p 0 fuel] assms by simp

end

text \<open>
  Every descriptor table is walked this way; a table without a terminator has no member to walk.
\<close>

definition walk_length :: "pb_field list \<Rightarrow> nat" where
  "walk_length fs = (if table_wf fs then nfields fs else 0)"

lemma walk_length_wf [simp]: "table_wf fs \<Longrightarrow> walk_length fs = nfields fs"
  by (simp add: walk_length_def)

interpretation walk: field_walk "pb_field_iter_next T" "iter_at (T t) t d" it_pos "walk_length (T t)"
  for T t d
  by unfold_locales (simp_all add: walk_length_def iter_next_at split: if_splits)

lemma iter_test_at:
  "table_wf (T t) \<Longrightarrow> j < nfields (T t) \<Longrightarrow> iter_test T P (iter_at (T t) t d j) = Some (P (T t ! j))"
  by (simp add: iter_test_def field_at_table)

lemma iter_find_at:
  assumes "table_wf (T t)" and "k < nfields (T t)"
  shows "pb_field_iter_find T (iter_at (T t) t d k) x =
    Some (case find (\<lambda>i. tag_matches x (T t ! ((k + i) mod nfields (T t)))) [0..<nfields (T t)] of
        Some i \<Rightarrow> (True, iter_at (T t) t d ((k + i) mod nfields (T t)))
      | None \<Rightarrow> (False, iter_at (T t) t d k))"
  using walk.scan_all [of k T t "iter_test T (tag_matches x)" d "\<lambda>j. tag_matches x (T t ! j)" "length (T t)"] assms
  by (simp add: pb_field_iter_find_def table_length_def iter_test_at nfields_le split: option.split)

lemma iter_loop_at:
  assumes "table_wf (T t)" and "0 < nfields (T t)"
  shows "iter_loop (length (T t)) (pb_field_iter_next T) body (iter_at (T t) t d 0) st =
    run_all (map (\<lambda>j. body (iter_at (T t) t d j)) [0..<nfields (T t)]) st"
  using walk.loop_all [of T t "length (T t)" body d st] assms by (simp add: nfields_le)

end
