(* ===== verification/Pb_Layout.thy ===== *)
theory Pb_Layout
  imports Pb_Common
begin

text \<open>
  The agreement between the macros of \<^verbatim>\<open>pb.h\<close> and the iterator of \<^verbatim>\<open>pb_common.c\<close>: for a table
  that is written with \<^verbatim>\<open>PB_FIELD\<close> from the layout of a C structure, the iterator arrives at the
  real offset of every member and of its companion count or flag.
\<close>

section \<open>Tables written with PB_FIELD\<close>

record field_decl =
  d_tag :: pb_size_t
  d_type :: pb_ptype
  d_rules :: pb_rules
  d_alloc :: pb_alloc
  d_member :: cmember
  d_ptr :: field_ptr

definition decl_field :: "pb_placement \<Rightarrow> cmember \<Rightarrow> field_decl \<Rightarrow> pb_field" where
  "decl_field place prev d =
     PB_FIELD (d_tag d) (d_type d) (d_rules d) (d_alloc d) place (d_member d) prev (d_ptr d)"

primrec decls_after :: "cmember \<Rightarrow> field_decl list \<Rightarrow> pb_field list" where
  "decls_after prev [] = [PB_LAST_FIELD]"
| "decls_after prev (d # ds) = decl_field OTHER prev d # decls_after (d_member d) ds"

fun decl_table :: "field_decl list \<Rightarrow> pb_field list" where
  "decl_table [] = [PB_LAST_FIELD]"
| "decl_table (d # ds) = decl_field FIRST (d_member d) d # decls_after (d_member d) ds"

section \<open>Layouts of C structures\<close>

text \<open>
  A compiler lays members out in order without overlap; a pointer member has the size of a pointer
  and the size of an array is a multiple of the size of its elements.
\<close>

definition decl_ok :: "field_decl \<Rightarrow> bool" where
  "decl_ok d \<longleftrightarrow> d_tag d \<noteq> 0 \<and> d_rules d \<noteq> OPTEXT \<and>
     m_off (d_member d) + m_size (d_member d) < 2 ^ 31 \<and> m_aux (d_member d) < 2 ^ 31 \<and>
     (d_alloc d = POINTER \<longrightarrow> m_size (d_member d) = 8) \<and>
     (d_alloc d = STATIC \<and> d_rules d = REPEATED \<longrightarrow> m_elem (d_member d) dvd m_size (d_member d))"

fun in_order :: "field_decl list \<Rightarrow> bool" where
  "in_order (d # e # ds) \<longleftrightarrow>
     m_off (d_member d) + m_size (d_member d) \<le> m_off (d_member e) \<and> in_order (e # ds)"
| "in_order _ \<longleftrightarrow> True"

definition layout_ok :: "field_decl list \<Rightarrow> bool" where
  "layout_ok ds \<longleftrightarrow> list_all decl_ok ds \<and> in_order ds"

definition has_companion :: "field_decl \<Rightarrow> bool" where
  "has_companion d \<longleftrightarrow> (d_alloc d = STATIC \<and> d_rules d = OPTIONAL) \<or>
     (d_alloc d \<noteq> CALLBACK \<and> d_rules d = REPEATED)"

lemma decl_table_length: "length (decl_table ds) = Suc (length ds)"
proof -
  have "length (decls_after p es) = Suc (length es)" for p es
    by (induction es arbitrary: p) auto
  then show ?thesis by (cases ds) auto
qed

lemma decls_after_nth:
  "k < length ds \<Longrightarrow> decls_after p ds ! k =
     decl_field OTHER (if k = 0 then p else d_member (ds ! (k - 1))) (ds ! k)"
proof (induction ds arbitrary: p k)
  case Nil
  then show ?case by simp
next
  case (Cons d ds)
  then show ?case by (cases k) (auto simp: nth_Cons')
qed

lemma decl_table_0: "ds \<noteq> [] \<Longrightarrow> decl_table ds ! 0 = decl_field FIRST (d_member (ds ! 0)) (ds ! 0)"
  by (cases ds) auto

lemma decl_table_Suc:
  "Suc k < length ds \<Longrightarrow> decl_table ds ! Suc k = decl_field OTHER (d_member (ds ! k)) (ds ! Suc k)"
  by (cases ds) (auto simp: decls_after_nth nth_Cons')

lemma decl_table_nth: "k < length ds \<Longrightarrow> \<exists>place prev. decl_table ds ! k = decl_field place prev (ds ! k)"
  by (cases k) (use decl_table_0 decl_table_Suc in fastforce)+

lemma decl_table_last: "decl_table ds ! length ds = PB_LAST_FIELD"
proof -
  have "decls_after p es ! length es = PB_LAST_FIELD" for p es
    by (induction es arbitrary: p) auto
  then show ?thesis by (cases ds) auto
qed

lemma decl_field_tag [simp]: "f_tag (decl_field place prev d) = d_tag d"
  by (cases "d_rules d"; cases "d_alloc d")
    (simp_all add: decl_field_def PB_FIELD_def PB_REQUIRED_STATIC_def PB_OPTIONAL_STATIC_def
      PB_SINGULAR_STATIC_def PB_REPEATED_STATIC_def PB_REQUIRED_POINTER_def PB_OPTIONAL_POINTER_def
      PB_SINGULAR_POINTER_def PB_REPEATED_POINTER_def PB_REQUIRED_CALLBACK_def
      PB_OPTIONAL_CALLBACK_def PB_SINGULAR_CALLBACK_def PB_REPEATED_CALLBACK_def
      PB_OPTEXT_STATIC_def PB_OPTEXT_POINTER_def PB_OPTEXT_CALLBACK_def)

lemma LTYPE_MAP_mask: "PB_LTYPE_MAP ty AND PB_LTYPE_MASK = PB_LTYPE_MAP ty"
  by (cases ty) (simp_all add: pb_consts)

lemma const_masks:
  "PB_ATYPE_STATIC AND PB_ATYPE_MASK = PB_ATYPE_STATIC" "PB_ATYPE_POINTER AND PB_ATYPE_MASK = PB_ATYPE_POINTER"
  "PB_ATYPE_CALLBACK AND PB_ATYPE_MASK = PB_ATYPE_CALLBACK"
  "PB_HTYPE_REQUIRED AND PB_HTYPE_MASK = PB_HTYPE_REQUIRED" "PB_HTYPE_OPTIONAL AND PB_HTYPE_MASK = PB_HTYPE_OPTIONAL"
  "PB_HTYPE_REPEATED AND PB_HTYPE_MASK = PB_HTYPE_REPEATED" "PB_HTYPE_ONEOF AND PB_HTYPE_MASK = PB_HTYPE_ONEOF"
  by (simp_all add: pb_consts)

lemmas macro_defs = PB_REQUIRED_STATIC_def PB_OPTIONAL_STATIC_def PB_SINGULAR_STATIC_def
  PB_REPEATED_STATIC_def PB_REQUIRED_POINTER_def PB_OPTIONAL_POINTER_def PB_SINGULAR_POINTER_def
  PB_REPEATED_POINTER_def PB_REQUIRED_CALLBACK_def PB_OPTIONAL_CALLBACK_def
  PB_SINGULAR_CALLBACK_def PB_REPEATED_CALLBACK_def

text \<open>What the iterator reads of a descriptor that \<^verbatim>\<open>PB_FIELD\<close> wrote.\<close>

lemma decl_field_parts:
  assumes "d_rules d \<noteq> OPTEXT"
  shows "PB_HTYPE (f_type (decl_field place prev d)) \<noteq> PB_HTYPE_ONEOF"
    and "f_data_offset (decl_field place prev d) = PB_DATAOFFSET place (d_member d) prev"
    and "f_size_offset (decl_field place prev d) = (if has_companion d then pb_delta (d_member d) else 0)"
  using assms
  by (cases "d_rules d"; cases "d_alloc d";
      simp add: decl_field_def PB_FIELD_def macro_defs has_companion_def
        PB_type_parts [OF _ _ LTYPE_MAP_mask] const_masks; simp add: pb_consts)+

lemma decl_field_extent:
  assumes "decl_ok d"
  shows "uint (prev_size (decl_field place prev d)) = int (m_size (d_member d))"
proof -
  have small: "m_size (d_member d) < 2 ^ 31" using assms by (auto simp: decl_ok_def)
  have u: "uint (ucast (of_nat x :: 32 word) :: 64 word) = int x" if "x \<le> m_size (d_member d)" for x
    using that small by (simp add: uint_up_ucast is_up unsigned_of_nat take_bit_nat_eq_self)
  show ?thesis
  proof (cases "d_alloc d = STATIC \<and> d_rules d = REPEATED")
    case True
    then have dvd: "m_elem (d_member d) dvd m_size (d_member d)" using assms by (simp add: decl_ok_def)
    have le: "m_elem (d_member d) \<le> m_size (d_member d) \<or> m_size (d_member d) = 0"
      using dvd by (auto dest: dvd_imp_le)
    show ?thesis
    proof (cases "m_size (d_member d) = 0")
      case True
      then show ?thesis using \<open>d_alloc d = STATIC \<and> d_rules d = REPEATED\<close>
        by (simp add: decl_field_def PB_FIELD_def macro_defs prev_size_def
            PB_type_parts [OF _ _ LTYPE_MAP_mask] const_masks pb_arraysize_def)
    next
      case False
      have "int (m_elem (d_member d)) * int (m_size (d_member d) div m_elem (d_member d)) = int (m_size (d_member d))"
        using dvd by (simp flip: of_nat_mult)
      moreover have "m_size (d_member d) div m_elem (d_member d) < 2 ^ 32"
        using small by (intro le_less_trans [OF div_le_dividend]) simp
      moreover have "m_elem (d_member d) < 2 ^ 32" using le False small by auto
      ultimately have e: "uint (pb_elemsize (d_member d)) * uint (pb_arraysize (d_member d)) = int (m_size (d_member d))"
        by (simp add: pb_arraysize_def pb_elemsize_def unsigned_of_nat take_bit_nat_eq_self)
      have "prev_size (decl_field place prev d) = ucast (pb_elemsize (d_member d)) * ucast (pb_arraysize (d_member d))"
        using True by (simp add: decl_field_def PB_FIELD_def macro_defs prev_size_def
            PB_type_parts [OF _ _ LTYPE_MAP_mask] const_masks)
      then show ?thesis by (simp only: uint_prev_size_array e)
    qed
  next
    case False
    then show ?thesis using assms u [of "m_size (d_member d)"]
      by (cases "d_rules d"; cases "d_alloc d";
          simp add: decl_ok_def decl_field_def PB_FIELD_def macro_defs prev_size_def
            PB_type_parts [OF _ _ LTYPE_MAP_mask] const_masks pb_membersize_def; simp add: pb_consts)
  qed
qed

lemma layout_ok_nth: "layout_ok ds \<Longrightarrow> k < length ds \<Longrightarrow> decl_ok (ds ! k)"
  by (simp add: layout_ok_def list_all_length)

lemma in_order_nth:
  "in_order ds \<Longrightarrow> Suc k < length ds \<Longrightarrow>
     m_off (d_member (ds ! k)) + m_size (d_member (ds ! k)) \<le> m_off (d_member (ds ! Suc k))"
proof (induction ds arbitrary: k rule: in_order.induct)
  case (1 d e ds)
  then show ?case by (cases k) auto
qed simp_all

lemma decl_table_wf:
  assumes "layout_ok ds"
  shows "nfields (decl_table ds) = length ds" and "table_wf (decl_table ds)"
proof -
  have tags: "f_tag (decl_table ds ! k) \<noteq> 0" if "k < length ds" for k
    using that decl_table_nth [OF that] layout_ok_nth [OF assms that] by (auto simp: decl_ok_def)
  have "f_tag (decl_table ds ! length ds) = 0"
    by (simp add: decl_table_last PB_LAST_FIELD_def)
  moreover have "nfields (decl_table ds) \<le> length (decl_table ds)" by (rule nfields_le)
  ultimately show n: "nfields (decl_table ds) = length ds"
    using tags [of "nfields (decl_table ds)"] nfields_tag [of "length ds" "decl_table ds"]
      nth_length_takeWhile [of "\<lambda>f. f_tag f \<noteq> 0" "decl_table ds"]
    by (cases "nfields (decl_table ds)" "length ds" rule: linorder_cases)
      (auto simp: decl_table_length nfields_def)
  show "table_wf (decl_table ds)" by (simp add: table_wf_def n decl_table_length)
qed

lemma decl_table_not_union:
  assumes "layout_ok ds" and "k < length ds"
  shows "\<not> in_union (decl_table ds ! k) g"
proof -
  obtain place prev where "decl_table ds ! k = decl_field place prev (ds ! k)"
    using decl_table_nth [OF assms(2)] by blast
  then show ?thesis
    using decl_field_parts(1) [of "ds ! k" place prev] layout_ok_nth [OF assms]
    by (auto simp: in_union_def decl_ok_def)
qed

lemma field_offset_decl:
  assumes ok: "layout_ok ds"
  shows "k < length ds \<Longrightarrow> field_offset (decl_table ds) k = int (m_off (d_member (ds ! k)))"
proof (induction k)
  case 0
  then have "m_off (d_member (ds ! 0)) < 2 ^ 32" "ds \<noteq> []" "d_rules (ds ! 0) \<noteq> OPTEXT"
    using layout_ok_nth [OF ok, of 0] by (auto simp: decl_ok_def)
  then show ?case
    by (simp add: decl_table_0 decl_field_parts PB_DATAOFFSET_FIRST_def unsigned_of_nat take_bit_nat_eq_self)
next
  case (Suc k)
  let ?m = "d_member (ds ! k)" and ?m' = "d_member (ds ! Suc k)"
  have k: "k < length ds" using Suc.prems by simp
  obtain place prev where tk: "decl_table ds ! k = decl_field place prev (ds ! k)"
    using decl_table_nth [OF k] by blast
  have ext: "uint (prev_size (decl_table ds ! k)) = int (m_size ?m)"
    unfolding tk by (rule decl_field_extent) (rule layout_ok_nth [OF ok k])
  have gap: "m_off ?m + m_size ?m \<le> m_off ?m'"
    using ok Suc.prems by (intro in_order_nth) (auto simp: layout_ok_def)
  have "m_off ?m' < 2 ^ 31" "d_rules (ds ! Suc k) \<noteq> OPTEXT"
    using layout_ok_nth [OF ok Suc.prems] by (auto simp: decl_ok_def)
  then have "uint (f_data_offset (decl_table ds ! Suc k)) = int (m_off ?m') - int (m_off ?m) - int (m_size ?m)"
    using gap Suc.prems
    by (simp add: decl_table_Suc decl_field_parts PB_DATAOFFSET_OTHER_def uint_word_of_int del: of_int_diff)
  then show ?case
    using Suc.IH [OF k] ext decl_table_not_union [OF ok k] by simp
qed

lemma sint_pb_delta:
  "m_off m < 2 ^ 31 \<Longrightarrow> m_aux m < 2 ^ 31 \<Longrightarrow> sint (pb_delta m) = int (m_aux m) - int (m_off m)"
  by (simp add: pb_delta_def sint_sbintrunc' signed_take_bit_int_eq_self del: of_int_diff)

lemma count_offset_decl:
  assumes ok: "layout_ok ds" and k: "k < length ds"
  shows "count_offset (decl_table ds) k =
    (if has_companion (ds ! k) then int (m_aux (d_member (ds ! k))) else int (m_off (d_member (ds ! k))))"
proof -
  obtain place prev where tk: "decl_table ds ! k = decl_field place prev (ds ! k)"
    using decl_table_nth [OF k] by blast
  have d: "d_rules (ds ! k) \<noteq> OPTEXT" "m_off (d_member (ds ! k)) < 2 ^ 31" "m_aux (d_member (ds ! k)) < 2 ^ 31"
    using layout_ok_nth [OF ok k] by (auto simp: decl_ok_def)
  have "count_offset (decl_table ds) k =
      field_offset (decl_table ds) k + sint (f_size_offset (decl_table ds ! k))"
    using k decl_table_not_union [OF ok] by (cases k) auto
  then show ?thesis
    using d by (simp add: field_offset_decl [OF ok k] tk decl_field_parts sint_pb_delta)
qed

section \<open>The iterator arrives at every member\<close>

text \<open>
  C32: For a descriptor table written with \<^verbatim>\<open>PB_FIELD\<close> (FIRST for the first member, OTHER for
  the rest) from a structure layout, \<^verbatim>\<open>pb_field_iter_begin\<close> starts at member 0 and every
  \<^verbatim>\<open>pb_field_iter_next\<close> moves from member k to member k+1, with \<^verbatim>\<open>pData\<close> the real address of the
  member and \<^verbatim>\<open>pSize\<close> the real address of its count or has-flag (the member itself where there is
  none); after the last member it returns false and is back at member 0.
\<close>

theorem pb_field_iter_visits_members:
  assumes "layout_ok ds" and "T t = decl_table ds" and "k < length ds"
  shows "\<exists>it. pb_field_iter_begin T (t, 0) base = Some (True, iter_at (T t) t base 0) \<and>
    it_pos it = (t, k) \<and>
    it_pData it = base + int (m_off (d_member (ds ! k))) \<and>
    it_pSize it = base + (if has_companion (ds ! k) then int (m_aux (d_member (ds ! k)))
                          else int (m_off (d_member (ds ! k)))) \<and>
    it = iter_at (T t) t base k \<and>
    pb_field_iter_next T it =
      Some (Suc k < length ds, iter_at (T t) t base (if Suc k < length ds then Suc k else 0))"
proof (intro exI conjI)
  note wf = decl_table_wf [OF assms(1)]
  show "pb_field_iter_begin T (t, 0) base = Some (True, iter_at (T t) t base 0)"
    using iter_begin_at [of T t "T t" base] wf assms(2,3) by (cases "ds = []") simp_all
  show "pb_field_iter_next T (iter_at (T t) t base k) =
      Some (Suc k < length ds, iter_at (T t) t base (if Suc k < length ds then Suc k else 0))"
    using iter_next_at [of T t "T t" k base] wf assms(2,3) by simp
qed (use assms in \<open>simp_all add: field_offset_decl count_offset_decl\<close>)

text \<open>
  \<^verbatim>\<open>struct { uint32_t a; bool has_s; char s[8]; pb_size_t n_count; int32_t n[3]; Sub sub; }\<close>
  with a \<^verbatim>\<open>Sub\<close> of four bytes, in the layout that a compiler gives it.
\<close>

definition ex_decls :: "field_decl list" where
  "ex_decls =
     [\<lparr>d_tag = 1, d_type = UINT32, d_rules = REQUIRED, d_alloc = STATIC,
        d_member = \<lparr>m_off = 0, m_size = 4, m_elem = 4, m_aux = 0\<rparr>, d_ptr = FNull\<rparr>,
      \<lparr>d_tag = 2, d_type = STRING, d_rules = OPTIONAL, d_alloc = STATIC,
        d_member = \<lparr>m_off = 5, m_size = 8, m_elem = 1, m_aux = 4\<rparr>, d_ptr = FNull\<rparr>,
      \<lparr>d_tag = 3, d_type = SINT32, d_rules = REPEATED, d_alloc = STATIC,
        d_member = \<lparr>m_off = 20, m_size = 12, m_elem = 4, m_aux = 16\<rparr>, d_ptr = FNull\<rparr>,
      \<lparr>d_tag = 4, d_type = MESSAGE, d_rules = REQUIRED, d_alloc = STATIC,
        d_member = \<lparr>m_off = 32, m_size = 4, m_elem = 4, m_aux = 0\<rparr>, d_ptr = FFields 1\<rparr>]"

lemma pb_field_iter_visits_members_witness:
  "\<exists>it. pb_field_iter_begin (\<lambda>_. decl_table ex_decls) (0, 0) 1000 =
      Some (True, iter_at (decl_table ex_decls) 0 1000 0) \<and>
    it_pos it = (0, 2) \<and> it_pData it = 1020 \<and> it_pSize it = 1016 \<and>
    it = iter_at (decl_table ex_decls) 0 1000 2 \<and>
    pb_field_iter_next (\<lambda>_. decl_table ex_decls) it = Some (True, iter_at (decl_table ex_decls) 0 1000 3)"
  using pb_field_iter_visits_members [of ex_decls "\<lambda>_. decl_table ex_decls" 0 2 1000]
  by (simp add: ex_decls_def layout_ok_def decl_ok_def has_companion_def)

end
