(* ===== verification/Pb_Ostream.thy ===== *)
theory Pb_Ostream
  imports Pb_Common
begin

text \<open>
  Output streams of \<^verbatim>\<open>nanopb/pb_encode.c\<close>: the stream record, the memory-buffer writer and
  \<^verbatim>\<open>pb_write\<close>, through which all output goes. The state of an encoder operation is the stream
  together with the memory; the environment holds what the user of the library provides (descriptor
  tables, extension types, and the callbacks, as parameters of the model).
\<close>

section \<open>Streams\<close>

datatype ocallback = OC_NULL | OC_buf_write | OC_user nat

record pb_ostream =
  os_callback :: ocallback
  os_state :: addr
  os_max_size :: size_t
  os_bytes_written :: size_t
  os_errmsg :: "string option"

type_synonym est = "pb_ostream \<times> mem"
type_synonym enc_op = "est \<Rightarrow> (bool \<times> est) option"

text \<open>A \<^verbatim>\<open>const pb_byte_t *\<close> argument: \<^verbatim>\<open>NULL\<close>, a local array (its contents), or memory.\<close>

datatype cbuf = BufNull | BufStack "byte list" | BufMem addr

record pb_enc_env =
  env_tables :: field_tables
  env_ext_types :: "addr \<Rightarrow> pb_extension_type option"
  env_os_user :: "nat \<Rightarrow> byte list \<Rightarrow> enc_op"
  env_enc_cb :: "addr \<Rightarrow> pb_field \<Rightarrow> addr \<Rightarrow> enc_op"
  env_ext_enc :: "addr \<Rightarrow> addr \<Rightarrow> enc_op"

definition PB_OSTREAM_SIZING :: pb_ostream where
  "PB_OSTREAM_SIZING = \<lparr>os_callback = OC_NULL, os_state = 0, os_max_size = 0, os_bytes_written = 0,
     os_errmsg = None\<rparr>"

definition os_error :: "string \<Rightarrow> enc_op" where
  "os_error msg st = Some (False, ((fst st)\<lparr>os_errmsg := PB_SET_ERROR (os_errmsg (fst st)) msg\<rparr>, snd st))"

section \<open>Writing\<close>

fun cbuf_byte :: "mem \<Rightarrow> cbuf \<Rightarrow> nat \<Rightarrow> byte option" where
  "cbuf_byte m BufNull i = None"
| "cbuf_byte m (BufStack bs) i = (if i < length bs then Some (bs ! i) else None)"
| "cbuf_byte m (BufMem p) i = mbytes m (p + int i)"

definition set_byte :: "mem \<Rightarrow> addr \<Rightarrow> byte \<Rightarrow> mem option" where
  "set_byte m p b = (if mbytes m p = None then None else Some (m\<lparr>mbytes := (mbytes m)(p \<mapsto> b)\<rparr>))"

fun copy_loop :: "cbuf \<Rightarrow> addr \<Rightarrow> nat \<Rightarrow> nat \<Rightarrow> mem \<Rightarrow> mem option" where
  "copy_loop buf dest i 0 m = Some m"
| "copy_loop buf dest i (Suc n) m = do {
     b \<leftarrow> cbuf_byte m buf i;
     m' \<leftarrow> set_byte m (dest + int i) b;
     copy_loop buf dest (Suc i) n m' }"

definition buf_write :: "cbuf \<Rightarrow> size_t \<Rightarrow> enc_op" where
  "buf_write buf count st =
     (let dest = os_state (fst st) in do {
        m' \<leftarrow> copy_loop buf dest 0 (unat count) (snd st);
        Some (True, ((fst st)\<lparr>os_state := dest + uint count\<rparr>, m')) })"

definition pb_ostream_from_buffer :: "addr \<Rightarrow> size_t \<Rightarrow> pb_ostream" where
  "pb_ostream_from_buffer buf bufsize = \<lparr>os_callback = OC_buf_write, os_state = buf,
     os_max_size = bufsize, os_bytes_written = 0, os_errmsg = None\<rparr>"

fun cbuf_bytes :: "mem \<Rightarrow> cbuf \<Rightarrow> nat \<Rightarrow> byte list option" where
  "cbuf_bytes m BufNull n = (if n = 0 then Some [] else None)"
| "cbuf_bytes m (BufStack bs) n = (if n \<le> length bs then Some (take n bs) else None)"
| "cbuf_bytes m (BufMem p) n = load_bytes m p n"

definition os_call :: "'a pb_enc_env_scheme \<Rightarrow> cbuf \<Rightarrow> size_t \<Rightarrow> enc_op" where
  "os_call E buf count st =
     (case os_callback (fst st) of
        OC_NULL \<Rightarrow> None
      | OC_buf_write \<Rightarrow> buf_write buf count st
      | OC_user u \<Rightarrow> do { bs \<leftarrow> cbuf_bytes (snd st) buf (unat count); env_os_user E u bs st })"

definition os_wrote :: "size_t \<Rightarrow> est \<Rightarrow> est" where
  "os_wrote count st = ((fst st)\<lparr>os_bytes_written := os_bytes_written (fst st) + count\<rparr>, snd st)"

definition pb_write :: "'a pb_enc_env_scheme \<Rightarrow> cbuf \<Rightarrow> size_t \<Rightarrow> enc_op" where
  "pb_write E buf count st =
     (if os_callback (fst st) \<noteq> OC_NULL then
        if os_bytes_written (fst st) + count > os_max_size (fst st) then os_error ''stream full'' st
        else do {
          (ok, st') \<leftarrow> os_call E buf count st;
          if \<not> ok then os_error ''io error'' st' else Some (True, os_wrote count st') }
      else Some (True, os_wrote count st))"

section \<open>What a copy into memory does\<close>

lemma set_byte_dom: "set_byte m p b = Some m' \<Longrightarrow> dom (mbytes m') = dom (mbytes m)"
  by (auto simp: set_byte_def split: if_splits)

lemma copy_loop_frame:
  assumes "copy_loop buf dest i n m = Some m'"
  shows "dom (mbytes m') = dom (mbytes m) \<and>
    (\<forall>a. a \<notin> region (dest + int i) n \<longrightarrow> mbytes m' a = mbytes m a) \<and>
    region (dest + int i) n \<subseteq> dom (mbytes m) \<and>
    mblocks m' = mblocks m \<and> mbrk m' = mbrk m \<and> mfail m' = mfail m \<and> mjunk m' = mjunk m"
  using assms
proof (induction n arbitrary: i m)
  case 0
  then show ?case by (auto simp: region_def)
next
  case (Suc n)
  from Suc.prems obtain b m1 where b: "set_byte m (dest + int i) b = Some m1"
    and rest: "copy_loop buf dest (Suc i) n m1 = Some m'"
    by (auto simp: Option.bind_eq_Some_conv)
  from b have m1: "mbytes m1 = (mbytes m)(dest + int i \<mapsto> b)" "dest + int i \<in> dom (mbytes m)"
    "mblocks m1 = mblocks m" "mbrk m1 = mbrk m" "mfail m1 = mfail m" "mjunk m1 = mjunk m"
    by (auto simp: set_byte_def split: if_splits)
  have r: "region (dest + int i) (Suc n) = insert (dest + int i) (region (dest + int (Suc i)) n)"
    by (auto simp: region_def)
  have d: "dom (mbytes m1) = dom (mbytes m)" using m1 by auto
  note ih = Suc.IH [OF rest, unfolded d]
  show ?case unfolding r
  proof (intro conjI allI impI)
    fix a assume "a \<notin> insert (dest + int i) (region (dest + int (Suc i)) n)"
    then show "mbytes m' a = mbytes m a" using ih m1(1) by simp
  next
    show "insert (dest + int i) (region (dest + int (Suc i)) n) \<subseteq> dom (mbytes m)"
      using ih m1(2) by blast
  qed (use ih m1 in simp_all)
qed

text \<open>Copying a local array, or memory that does not overlap the destination, stores its bytes.\<close>

lemma copy_loop_bytes:
  assumes "length bs = n"
    and "\<And>j m'. j < n \<Longrightarrow> dom (mbytes m') = dom (mbytes m) \<Longrightarrow>
           (\<forall>a. a \<notin> region (dest + int i) n \<longrightarrow> mbytes m' a = mbytes m a) \<Longrightarrow>
           cbuf_byte m' buf (i + j) = Some (bs ! j)"
    and "live m (dest + int i) n"
  shows "copy_loop buf dest i n m = Some (m\<lparr>mbytes := mput (mbytes m) (dest + int i) bs\<rparr>)"
  using assms
proof (induction n arbitrary: i m bs)
  case 0
  then show ?case by simp
next
  case (Suc n)
  obtain b bs' where bs: "bs = b # bs'" and len: "length bs' = n"
    using Suc.prems(1) by (cases bs) auto
  have b: "cbuf_byte m buf i = Some b" using Suc.prems(2) [of 0 m] by (simp add: bs)
  have r: "region (dest + int i) (Suc n) = insert (dest + int i) (region (dest + int (Suc i)) n)"
    by (auto simp: region_def)
  have live0: "mbytes m (dest + int i) \<noteq> None" and liven: "region (dest + int (Suc i)) n \<subseteq> dom (mbytes m)"
    using Suc.prems(3) unfolding live_iff r by auto
  let ?m1 = "m\<lparr>mbytes := (mbytes m)(dest + int i \<mapsto> b)\<rparr>"
  have d: "dom (mbytes ?m1) = dom (mbytes m)" using live0 by auto
  have "copy_loop buf dest (Suc i) n ?m1 = Some (?m1\<lparr>mbytes := mput (mbytes ?m1) (dest + int (Suc i)) bs'\<rparr>)"
  proof (rule Suc.IH [OF len])
    fix j and m' :: mem
    assume "j < n" and "dom (mbytes m') = dom (mbytes ?m1)"
      and "\<forall>a. a \<notin> region (dest + int (Suc i)) n \<longrightarrow> mbytes m' a = mbytes ?m1 a"
    then show "cbuf_byte m' buf (Suc i + j) = Some (bs' ! j)"
      using Suc.prems(2) [of "Suc j" m'] d unfolding r bs by auto
  next
    show "live ?m1 (dest + int (Suc i)) n" using liven d by (simp add: live_iff)
  qed
  moreover have "mput ((mbytes m)(dest + int i \<mapsto> b)) (dest + int (Suc i)) bs' = mput (mbytes m) (dest + int i) bs"
    unfolding bs mput_Cons by (simp add: algebra_simps)
  ultimately show ?case using b live0 by (simp add: set_byte_def)
qed

lemma copy_loop_stack:
  assumes "n \<le> length bs" and "live m dest n"
  shows "copy_loop (BufStack bs) dest 0 n m = Some (m\<lparr>mbytes := mput (mbytes m) dest (take n bs)\<rparr>)"
  using copy_loop_bytes [of "take n bs" n m dest 0 "BufStack bs"] assms by simp

lemma copy_loop_mem:
  assumes "load_bytes m p n = Some bs" and "region p n \<inter> region dest n = {}" and "live m dest n"
  shows "copy_loop (BufMem p) dest 0 n m = Some (m\<lparr>mbytes := mput (mbytes m) dest bs\<rparr>)"
proof -
  have "copy_loop (BufMem p) dest 0 n m = Some (m\<lparr>mbytes := mput (mbytes m) (dest + int 0) bs\<rparr>)"
  proof (rule copy_loop_bytes)
    show "length bs = n" using assms(1) by (rule load_bytes_length)
  next
    fix j and m' :: mem
    assume j: "j < n" and eq: "\<forall>a. a \<notin> region (dest + int 0) n \<longrightarrow> mbytes m' a = mbytes m a"
    have "p + int j \<in> region p n" using j by (simp add: region_def)
    with assms(2) have "p + int j \<notin> region (dest + int 0) n" by auto
    with eq load_bytes_nth [OF assms(1) j] show "cbuf_byte m' (BufMem p) (0 + j) = Some (bs ! j)"
      by simp
  qed (use assms(3) in simp)
  then show ?thesis by simp
qed

end
