(* ===== verification/Pb_Encode.thy ===== *)
theory Pb_Encode
  imports Pb_Ostream
begin

text \<open>
  \<^verbatim>\<open>nanopb/pb_encode.c\<close>: the primitive encoders, the field encoders with their dispatch table, the
  field and array logic, and \<^verbatim>\<open>pb_encode\<close> itself. The recursion of the C code through
  submessages goes through the argument \<open>enc\<close> of the field encoders; \<open>pb_encode\<close> ties the knot
  with a fuel argument that bounds the nesting (and the length of the lists of extensions).
\<close>

section \<open>Primitive encoders\<close>

function encode_varint_loop :: "uint64 \<Rightarrow> byte list \<Rightarrow> byte list option" where
  "encode_varint_loop v buffer =
     (if v = 0 then Some buffer
      else if length buffer < 10
      then encode_varint_loop (drop_bit 7 v) (buffer @ [ucast ((v AND 0x7F) OR 0x80)])
      else None)"
  by pat_completeness auto
termination
  by (relation "measure (\<lambda>(v, buffer). 10 - length buffer)") auto

declare encode_varint_loop.simps [simp del]

definition pb_encode_varint :: "'a pb_enc_env_scheme \<Rightarrow> uint64 \<Rightarrow> enc_op" where
  "pb_encode_varint E v st =
     (if v \<le> 0x7F then pb_write E (BufStack [ucast v]) 1 st
      else do {
        buffer \<leftarrow> encode_varint_loop v [];
        let i = length buffer;
        pb_write E (BufStack (buffer[i - 1 := (buffer ! (i - 1)) AND 0x7F])) (of_nat i) st })"

definition pb_encode_svarint :: "'a pb_enc_env_scheme \<Rightarrow> uint64 \<Rightarrow> enc_op" where
  "pb_encode_svarint E v st =
     (let zigzagged = (if sint v < 0 then NOT (push_bit 1 v) else push_bit 1 v)
      in pb_encode_varint E zigzagged st)"

definition pb_encode_fixed32 :: "'a pb_enc_env_scheme \<Rightarrow> addr \<Rightarrow> enc_op" where
  "pb_encode_fixed32 E p st = do {
     v \<leftarrow> load32 (snd st) p;
     pb_write E (BufStack [ucast (v AND 0xFF), ucast (drop_bit 8 v AND 0xFF),
       ucast (drop_bit 16 v AND 0xFF), ucast (drop_bit 24 v AND 0xFF)]) 4 st }"

definition pb_encode_fixed64 :: "'a pb_enc_env_scheme \<Rightarrow> addr \<Rightarrow> enc_op" where
  "pb_encode_fixed64 E p st = do {
     v \<leftarrow> load64 (snd st) p;
     pb_write E (BufStack [ucast (v AND 0xFF), ucast (drop_bit 8 v AND 0xFF),
       ucast (drop_bit 16 v AND 0xFF), ucast (drop_bit 24 v AND 0xFF),
       ucast (drop_bit 32 v AND 0xFF), ucast (drop_bit 40 v AND 0xFF),
       ucast (drop_bit 48 v AND 0xFF), ucast (drop_bit 56 v AND 0xFF)]) 8 st }"

definition pb_encode_tag :: "'a pb_enc_env_scheme \<Rightarrow> pb_wire_type_t \<Rightarrow> uint32 \<Rightarrow> enc_op" where
  "pb_encode_tag E wiretype field_number st =
     pb_encode_varint E (push_bit 3 (ucast field_number) OR ucast wiretype) st"

definition wire_type_of :: "pb_type_t \<Rightarrow> pb_wire_type_t option" where
  "wire_type_of l =
     (if l = PB_LTYPE_VARINT \<or> l = PB_LTYPE_UVARINT \<or> l = PB_LTYPE_SVARINT then Some PB_WT_VARINT
      else if l = PB_LTYPE_FIXED32 then Some PB_WT_32BIT
      else if l = PB_LTYPE_FIXED64 then Some PB_WT_64BIT
      else if l = PB_LTYPE_BYTES \<or> l = PB_LTYPE_STRING \<or> l = PB_LTYPE_SUBMESSAGE \<or>
              l = PB_LTYPE_FIXED_LENGTH_BYTES then Some PB_WT_STRING
      else None)"

definition pb_encode_tag_for_field :: "'a pb_enc_env_scheme \<Rightarrow> pb_field \<Rightarrow> enc_op" where
  "pb_encode_tag_for_field E field st =
     (case wire_type_of (PB_LTYPE (f_type field)) of
        None \<Rightarrow> os_error ''invalid field type'' st
      | Some wiretype \<Rightarrow> pb_encode_tag E wiretype (f_tag field) st)"

definition pb_encode_string :: "'a pb_enc_env_scheme \<Rightarrow> cbuf \<Rightarrow> size_t \<Rightarrow> enc_op" where
  "pb_encode_string E buffer sz st =
     and_then (pb_encode_varint E sz st) (pb_write E buffer sz)"

section \<open>Field encoders\<close>

type_synonym encoder = "pb_field \<Rightarrow> addr \<Rightarrow> enc_op"

text \<open>The value of an integer member, read at the width \<^verbatim>\<open>data_size\<close> and extended to 64 bits.\<close>

definition load_signed :: "mem \<Rightarrow> uint32 \<Rightarrow> addr \<Rightarrow> uint64 option option" where
  "load_signed m data_size src =
     (if data_size = 1 then Some (map_option scast (load8 m src))
      else if data_size = 2 then Some (map_option scast (load16 m src))
      else if data_size = 4 then Some (map_option scast (load32 m src))
      else if data_size = 8 then Some (load64 m src)
      else None)"

definition load_unsigned :: "mem \<Rightarrow> uint32 \<Rightarrow> addr \<Rightarrow> uint64 option option" where
  "load_unsigned m data_size src =
     (if data_size = 1 then Some (map_option ucast (load8 m src))
      else if data_size = 2 then Some (map_option ucast (load16 m src))
      else if data_size = 4 then Some (map_option ucast (load32 m src))
      else if data_size = 8 then Some (load64 m src)
      else None)"

definition pb_enc_varint :: "'a pb_enc_env_scheme \<Rightarrow> encoder" where
  "pb_enc_varint E field src st =
     (case load_signed (snd st) (f_data_size field) src of
        None \<Rightarrow> os_error ''invalid data_size'' st
      | Some r \<Rightarrow> do { v \<leftarrow> r; pb_encode_varint E v st })"

definition pb_enc_uvarint :: "'a pb_enc_env_scheme \<Rightarrow> encoder" where
  "pb_enc_uvarint E field src st =
     (case load_unsigned (snd st) (f_data_size field) src of
        None \<Rightarrow> os_error ''invalid data_size'' st
      | Some r \<Rightarrow> do { v \<leftarrow> r; pb_encode_varint E v st })"

definition pb_enc_svarint :: "'a pb_enc_env_scheme \<Rightarrow> encoder" where
  "pb_enc_svarint E field src st =
     (case load_signed (snd st) (f_data_size field) src of
        None \<Rightarrow> os_error ''invalid data_size'' st
      | Some r \<Rightarrow> do { v \<leftarrow> r; pb_encode_svarint E v st })"

definition pb_enc_fixed64 :: "'a pb_enc_env_scheme \<Rightarrow> encoder" where
  "pb_enc_fixed64 E field src st = pb_encode_fixed64 E src st"

definition pb_enc_fixed32 :: "'a pb_enc_env_scheme \<Rightarrow> encoder" where
  "pb_enc_fixed32 E field src st = pb_encode_fixed32 E src st"

definition pb_enc_bytes :: "'a pb_enc_env_scheme \<Rightarrow> encoder" where
  "pb_enc_bytes E field src st =
     (if src = 0 then pb_encode_string E BufNull 0 st
      else do {
        size \<leftarrow> bytes_array_size (snd st) src;
        if PB_ATYPE (f_type field) = PB_ATYPE_STATIC \<and>
           PB_BYTES_ARRAY_T_ALLOCSIZE size > ucast (f_data_size field)
        then os_error ''bytes size exceeded'' st
        else pb_encode_string E (BufMem (bytes_array_data src)) (ucast size) st })"

function enc_strlen :: "mem \<Rightarrow> size_t \<Rightarrow> size_t \<Rightarrow> addr \<Rightarrow> size_t option" where
  "enc_strlen m max_size n p =
     (if n < max_size then do {
        c \<leftarrow> load8 m p;
        if c \<noteq> 0 then enc_strlen m max_size (n + 1) (p + 1) else Some n }
      else Some n)"
  by pat_completeness auto
termination
proof (relation "measure (\<lambda>(m, max_size, n, p). unat (max_size - n))", goal_cases)
  case (2 m max_size n p)
  then have "max_size - (n + 1) < max_size - n" by uint_arith
  then show ?case by (simp add: word_less_nat_alt)
qed simp

declare enc_strlen.simps [simp del]

definition pb_enc_string :: "'a pb_enc_env_scheme \<Rightarrow> encoder" where
  "pb_enc_string E field src st =
     (let max_size = (if PB_ATYPE (f_type field) = PB_ATYPE_POINTER then - 1
                      else ucast (f_data_size field)) in
      do {
        size \<leftarrow> (if src = 0 then Some 0 else enc_strlen (snd st) max_size 0 src);
        pb_encode_string E (if src = 0 then BufNull else BufMem src) size st })"

definition pb_enc_fixed_length_bytes :: "'a pb_enc_env_scheme \<Rightarrow> encoder" where
  "pb_enc_fixed_length_bytes E field src st =
     pb_encode_string E (BufMem src) (ucast (f_data_size field)) st"

section \<open>Submessages\<close>

text \<open>\<open>enc t src\<close> is the call of \<^verbatim>\<open>pb_encode\<close> with the descriptor table \<open>t\<close> on the structure at \<open>src\<close>.\<close>

type_synonym msg_encoder = "nat \<Rightarrow> addr \<Rightarrow> enc_op"

definition pb_encode_submessage :: "'a pb_enc_env_scheme \<Rightarrow> msg_encoder \<Rightarrow> msg_encoder" where
  "pb_encode_submessage E enc t src st = do {
     (ok, sub) \<leftarrow> enc t src (PB_OSTREAM_SIZING, snd st);
     let st = (fst st, snd sub);
     if \<not> ok then Some (False, ((fst st)\<lparr>os_errmsg := os_errmsg (fst sub)\<rparr>, snd st))
     else do {
       let size = os_bytes_written (fst sub);
       and_then (pb_encode_varint E size st) (\<lambda>st.
         if os_callback (fst st) = OC_NULL then pb_write E BufNull size st
         else if os_bytes_written (fst st) + size > os_max_size (fst st) then os_error ''stream full'' st
         else do {
           (status, sub) \<leftarrow> enc t src
             ((fst sub)\<lparr>os_callback := os_callback (fst st), os_state := os_state (fst st),
                os_max_size := size, os_bytes_written := 0, os_errmsg := None\<rparr>, snd st);
           let st = ((fst st)\<lparr>os_bytes_written := os_bytes_written (fst st) + os_bytes_written (fst sub),
                        os_state := os_state (fst sub), os_errmsg := os_errmsg (fst sub)\<rparr>, snd sub);
           if os_bytes_written (fst sub) \<noteq> size then os_error ''submsg size changed'' st
           else Some (status, st) }) } }"

definition pb_enc_submessage :: "'a pb_enc_env_scheme \<Rightarrow> msg_encoder \<Rightarrow> encoder" where
  "pb_enc_submessage E enc field src st =
     (case f_ptr field of
        FNull \<Rightarrow> os_error ''invalid field descriptor'' st
      | FFields t \<Rightarrow> pb_encode_submessage E enc t src st
      | FDefault _ \<Rightarrow> None)"

text \<open>
  The dispatch table. An index past its end has no result; the entry of the extension
  pseudo-type is \<^verbatim>\<open>NULL\<close>, and calling it has no result.
\<close>

definition PB_ENCODERS :: "'a pb_enc_env_scheme \<Rightarrow> msg_encoder \<Rightarrow> pb_type_t \<Rightarrow> encoder option" where
  "PB_ENCODERS E enc l =
     (if l = PB_LTYPE_VARINT then Some (pb_enc_varint E)
      else if l = PB_LTYPE_UVARINT then Some (pb_enc_uvarint E)
      else if l = PB_LTYPE_SVARINT then Some (pb_enc_svarint E)
      else if l = PB_LTYPE_FIXED32 then Some (pb_enc_fixed32 E)
      else if l = PB_LTYPE_FIXED64 then Some (pb_enc_fixed64 E)
      else if l = PB_LTYPE_BYTES then Some (pb_enc_bytes E)
      else if l = PB_LTYPE_STRING then Some (pb_enc_string E)
      else if l = PB_LTYPE_SUBMESSAGE then Some (pb_enc_submessage E enc)
      else if l = PB_LTYPE_EXTENSION then Some (\<lambda>_ _ _. None)
      else if l = PB_LTYPE_FIXED_LENGTH_BYTES then Some (pb_enc_fixed_length_bytes E)
      else None)"

section \<open>Arrays and fields\<close>

fun array_loop :: "nat \<Rightarrow> (addr \<Rightarrow> enc_op) \<Rightarrow> addr \<Rightarrow> int \<Rightarrow> enc_op" where
  "array_loop 0 f p step st = Some (True, st)"
| "array_loop (Suc n) f p step st = and_then (f p st) (array_loop n f (p + step) step)"

definition packed_size :: "encoder \<Rightarrow> pb_field \<Rightarrow> addr \<Rightarrow> size_t \<Rightarrow> mem \<Rightarrow> (bool \<times> size_t \<times> mem) option" where
  "packed_size func field pData count m =
     (if PB_LTYPE (f_type field) = PB_LTYPE_FIXED32 then Some (True, 4 * count, m)
      else if PB_LTYPE (f_type field) = PB_LTYPE_FIXED64 then Some (True, 8 * count, m)
      else do {
        (ok, sizest) \<leftarrow> array_loop (unat count) (func field) pData (uint (f_data_size field)) (PB_OSTREAM_SIZING, m);
        Some (ok, os_bytes_written (fst sizest), snd sizest) })"

definition array_item :: "'a pb_enc_env_scheme \<Rightarrow> encoder \<Rightarrow> pb_field \<Rightarrow> addr \<Rightarrow> enc_op" where
  "array_item E func field p st =
     and_then (pb_encode_tag_for_field E field st) (\<lambda>st.
       if PB_ATYPE (f_type field) = PB_ATYPE_POINTER \<and>
          (PB_LTYPE (f_type field) = PB_LTYPE_STRING \<or> PB_LTYPE (f_type field) = PB_LTYPE_BYTES)
       then do { q \<leftarrow> load_ptr (snd st) p; func field q st }
       else func field p st)"

definition encode_array :: "'a pb_enc_env_scheme \<Rightarrow> pb_field \<Rightarrow> addr \<Rightarrow> size_t \<Rightarrow> encoder \<Rightarrow> enc_op" where
  "encode_array E field pData count func st =
     (if count = 0 then Some (True, st)
      else if PB_ATYPE (f_type field) \<noteq> PB_ATYPE_POINTER \<and> count > ucast (f_array_size field)
      then os_error ''array max size exceeded'' st
      else if PB_LTYPE (f_type field) \<le> PB_LTYPE_LAST_PACKABLE
      then and_then (pb_encode_tag E PB_WT_STRING (f_tag field) st) (\<lambda>st. do {
        (ok, size, m) \<leftarrow> packed_size func field pData count (snd st);
        let st = (fst st, m);
        if \<not> ok then Some (False, st)
        else and_then (pb_encode_varint E size st) (\<lambda>st.
          if os_callback (fst st) = OC_NULL then pb_write E BufNull size st
          else array_loop (unat count) (func field) pData (uint (f_data_size field)) st) })
      else array_loop (unat count) (array_item E func field) pData (uint (f_data_size field)) st)"

fun all_zero :: "mem \<Rightarrow> addr \<Rightarrow> nat \<Rightarrow> bool option" where
  "all_zero m p 0 = Some True"
| "all_zero m p (Suc n) = do {
     c \<leftarrow> load8 m p;
     if c \<noteq> 0 then Some False else all_zero m (p + 1) n }"

fun pb_check_proto3_default_value :: "nat \<Rightarrow> field_tables \<Rightarrow> mem \<Rightarrow> pb_field \<Rightarrow> addr \<Rightarrow> bool option" where
  "pb_check_proto3_default_value 0 T m field pData = None"
| "pb_check_proto3_default_value (Suc n) T m field pData =
     (let ty = f_type field; pSize = pData + sint (f_size_offset field) in
      if PB_HTYPE ty = PB_HTYPE_REQUIRED then Some False
      else if PB_HTYPE ty = PB_HTYPE_REPEATED then map_option (\<lambda>c. c = 0) (load32 m pSize)
      else if PB_HTYPE ty = PB_HTYPE_ONEOF then map_option (\<lambda>c. c = 0) (load32 m pSize)
      else if PB_HTYPE ty = PB_HTYPE_OPTIONAL \<and> f_size_offset field \<noteq> 0
      then map_option Not (load_bool m pSize)
      else if PB_ATYPE ty = PB_ATYPE_STATIC \<and> PB_LTYPE ty = PB_LTYPE_BYTES
      then map_option (\<lambda>s. s = 0) (bytes_array_size m pData)
      else if PB_ATYPE ty = PB_ATYPE_STATIC \<and> PB_LTYPE ty = PB_LTYPE_STRING
      then map_option (\<lambda>c. c = 0) (load8 m pData)
      else if PB_ATYPE ty = PB_ATYPE_STATIC \<and> PB_LTYPE ty = PB_LTYPE_FIXED_LENGTH_BYTES
      then Some (f_data_size field = 0)
      else if PB_ATYPE ty = PB_ATYPE_STATIC \<and> PB_LTYPE ty = PB_LTYPE_SUBMESSAGE
      then (case f_ptr field of
          FFields t \<Rightarrow> do {
            (nonempty, iter) \<leftarrow> pb_field_iter_begin T (t, 0) pData;
            if \<not> nonempty then Some True
            else map_option fst
              (iter_loop (length (T t)) (pb_field_iter_next T) (\<lambda>iter u. do {
                 f \<leftarrow> field_at T (it_pos iter);
                 b \<leftarrow> pb_check_proto3_default_value n T m f (it_pData iter);
                 Some (b, u) }) iter ()) }
        | _ \<Rightarrow> None)
      else all_zero m pData (unat (f_data_size field)))"

definition encode_present :: "'a pb_enc_env_scheme \<Rightarrow> encoder \<Rightarrow> pb_field \<Rightarrow> addr \<Rightarrow> enc_op" where
  "encode_present E func field pData st =
     and_then (pb_encode_tag_for_field E field st) (func field pData)"

definition encode_basic_field :: "nat \<Rightarrow> 'a pb_enc_env_scheme \<Rightarrow> msg_encoder \<Rightarrow> encoder" where
  "encode_basic_field n E enc field pField st = do {
     let m = snd st;
     let ty = f_type field;
     func \<leftarrow> PB_ENCODERS E enc (PB_LTYPE ty);
     let pSize = pField + sint (f_size_offset field);
     implicit_has \<leftarrow>
       (if f_size_offset field \<noteq> 0 then Some True
        else if PB_HTYPE ty = PB_HTYPE_OPTIONAL
        then map_option Not (pb_check_proto3_default_value n (env_tables E) m field pField)
        else Some True);
     pData \<leftarrow> (if PB_ATYPE ty = PB_ATYPE_POINTER then load_ptr m pField else Some pField);
     let implicit_has = (if PB_ATYPE ty = PB_ATYPE_POINTER then pData \<noteq> 0 else implicit_has);
     if PB_HTYPE ty = PB_HTYPE_REQUIRED then
       if pData = 0 then os_error ''missing required field'' st
       else encode_present E func field pData st
     else if PB_HTYPE ty = PB_HTYPE_OPTIONAL then do {
       has \<leftarrow> (if f_size_offset field \<noteq> 0 then load_bool m pSize else Some implicit_has);
       if has then encode_present E func field pData st else Some (True, st) }
     else if PB_HTYPE ty = PB_HTYPE_REPEATED then do {
       count \<leftarrow> (if f_size_offset field \<noteq> 0 then load32 m pSize else Some (f_array_size field));
       encode_array E field pData (ucast count) func st }
     else if PB_HTYPE ty = PB_HTYPE_ONEOF then do {
       which \<leftarrow> (if f_size_offset field \<noteq> 0 then load32 m pSize else None);
       if which = f_tag field then encode_present E func field pData st else Some (True, st) }
     else os_error ''invalid field type'' st }"

definition encode_callback_field :: "'a pb_enc_env_scheme \<Rightarrow> encoder" where
  "encode_callback_field E field pData st = do {
     fn \<leftarrow> callback_funcs (snd st) pData;
     if fn \<noteq> 0 then do {
       (ok, st') \<leftarrow> env_enc_cb E fn field (callback_arg pData) st;
       if \<not> ok then os_error ''callback error'' st' else Some (True, st') }
     else Some (True, st) }"

definition encode_field :: "nat \<Rightarrow> 'a pb_enc_env_scheme \<Rightarrow> msg_encoder \<Rightarrow> encoder" where
  "encode_field n E enc field pData st =
     (if PB_ATYPE (f_type field) = PB_ATYPE_STATIC \<or> PB_ATYPE (f_type field) = PB_ATYPE_POINTER
      then encode_basic_field n E enc field pData st
      else if PB_ATYPE (f_type field) = PB_ATYPE_CALLBACK then encode_callback_field E field pData st
      else os_error ''invalid field type'' st)"

section \<open>Extensions\<close>

definition default_extension_encoder :: "nat \<Rightarrow> 'a pb_enc_env_scheme \<Rightarrow> msg_encoder \<Rightarrow> pb_extension_type \<Rightarrow> addr \<Rightarrow> enc_op" where
  "default_extension_encoder n E enc xt extension st = do {
     field \<leftarrow> field_at (env_tables E) (xt_arg xt);
     if PB_ATYPE (f_type field) = PB_ATYPE_POINTER
     then encode_field n E enc field (ext_dest_addr extension) st
     else do { dest \<leftarrow> ext_dest (snd st) extension; encode_field n E enc field dest st } }"

fun extension_loop :: "nat \<Rightarrow> nat \<Rightarrow> 'a pb_enc_env_scheme \<Rightarrow> msg_encoder \<Rightarrow> addr \<Rightarrow> enc_op" where
  "extension_loop 0 n E enc extension st = None"
| "extension_loop (Suc k) n E enc extension st =
     (if extension = 0 then Some (True, st)
      else do {
        p \<leftarrow> ext_type (snd st) extension;
        xt \<leftarrow> env_ext_types E p;
        and_then
          (if xt_encode xt \<noteq> 0 then env_ext_enc E (xt_encode xt) extension st
           else default_extension_encoder n E enc xt extension st)
          (\<lambda>st. do {
            nx \<leftarrow> ext_next (snd st) extension;
            extension_loop k n E enc nx st }) })"

definition encode_extension_field :: "nat \<Rightarrow> 'a pb_enc_env_scheme \<Rightarrow> msg_encoder \<Rightarrow> addr \<Rightarrow> enc_op" where
  "encode_extension_field n E enc pData st = do {
     extension \<leftarrow> load_ptr (snd st) pData;
     extension_loop (Suc n) n E enc extension st }"

section \<open>Messages\<close>

definition encode_member :: "nat \<Rightarrow> 'a pb_enc_env_scheme \<Rightarrow> msg_encoder \<Rightarrow> pb_field_iter \<Rightarrow> enc_op" where
  "encode_member n E enc iter st = do {
     field \<leftarrow> field_at (env_tables E) (it_pos iter);
     if PB_LTYPE (f_type field) = PB_LTYPE_EXTENSION
     then encode_extension_field n E enc (it_pData iter) st
     else encode_field n E enc field (it_pData iter) st }"

definition encode_message :: "nat \<Rightarrow> 'a pb_enc_env_scheme \<Rightarrow> msg_encoder \<Rightarrow> msg_encoder" where
  "encode_message n E enc t src st = do {
     (nonempty, iter) \<leftarrow> pb_field_iter_begin (env_tables E) (t, 0) src;
     if \<not> nonempty then Some (True, st)
     else iter_loop (length (env_tables E t)) (pb_field_iter_next (env_tables E))
            (encode_member n E enc) iter st }"

primrec pb_encode :: "nat \<Rightarrow> 'a pb_enc_env_scheme \<Rightarrow> msg_encoder" where
  "pb_encode 0 E = (\<lambda>t src st. None)"
| "pb_encode (Suc n) E = encode_message n E (pb_encode n E)"

definition pb_encode_delimited :: "nat \<Rightarrow> 'a pb_enc_env_scheme \<Rightarrow> msg_encoder" where
  "pb_encode_delimited n E t src st = pb_encode_submessage E (pb_encode n E) t src st"

definition pb_encode_nullterminated :: "nat \<Rightarrow> 'a pb_enc_env_scheme \<Rightarrow> msg_encoder" where
  "pb_encode_nullterminated n E t src st =
     and_then (pb_encode n E t src st) (pb_write E (BufStack [0]) 1)"

text \<open>The result is the value stored at \<^verbatim>\<open>*size\<close>, or \<open>None\<close> inside where the call returns false.\<close>

definition pb_get_encoded_size :: "nat \<Rightarrow> 'a pb_enc_env_scheme \<Rightarrow> nat \<Rightarrow> addr \<Rightarrow> mem \<Rightarrow> (size_t option \<times> mem) option" where
  "pb_get_encoded_size n E t src m = do {
     (ok, st) \<leftarrow> pb_encode n E t src (PB_OSTREAM_SIZING, m);
     Some (if ok then Some (os_bytes_written (fst st)) else None, snd st) }"

end
