(* ===== verification/Pb_Varint.thy ===== *)
theory Pb_Varint
  imports Pb_Encode
begin

text \<open>
  The base-128 encoding of integers as the Protocol Buffers wire format defines it, and the
  proof that \<^verbatim>\<open>pb_encode_varint\<close> and its callers in \<^verbatim>\<open>nanopb/pb_encode.c\<close> produce it.
\<close>

section \<open>The wire format\<close>

function varint_bytes :: "uint64 \<Rightarrow> byte list" where
  "varint_bytes v =
     (if v \<le> 0x7F then [ucast v]
      else (ucast (v AND 0x7F) OR 0x80) # varint_bytes (drop_bit 7 v))"
  by pat_completeness auto

lemma unat_drop7: "unat (drop_bit 7 (v :: uint64)) = unat v div 128"
  by (simp add: drop_bit_eq_div unat_div_distrib)

termination varint_bytes
  by (relation "measure unat") (auto simp: unat_drop7 word_le_nat_alt intro!: div_less_dividend)

declare varint_bytes.simps [simp del]

text \<open>The value of a list of base-128 digits, least significant first.\<close>

primrec varint_value :: "byte list \<Rightarrow> nat" where
  "varint_value [] = 0"
| "varint_value (b # bs) = unat b mod 128 + 128 * varint_value bs"

text \<open>Every byte but the last has its continuation bit set.\<close>

fun varint_form :: "byte list \<Rightarrow> bool" where
  "varint_form [] = False"
| "varint_form [b] = (unat b < 128)"
| "varint_form (b # bs) = (128 \<le> unat b \<and> varint_form bs)"

section \<open>Digits\<close>

lemma digit_small: "v \<le> 0x7F \<Longrightarrow> unat (ucast (v :: uint64) :: byte) = unat v"
  by (simp add: word_le_nat_alt unsigned_ucast_eq take_bit_nat_eq_self)

lemma unat_and_7F: "unat ((v :: uint64) AND 0x7F) = unat v mod 128"
proof -
  have "v AND 0x7F = take_bit 7 v" by (simp add: take_bit_eq_mask mask_eq_exp_minus_1)
  then show ?thesis by (simp add: take_bit_eq_mod unat_mod_distrib)
qed

lemma unset_80: "unat (b :: byte) < 128 \<Longrightarrow> (b OR 0x80) AND 0x7F = b"
proof -
  assume b: "unat b < 128"
  have "(b OR 0x80) AND 0x7F = take_bit 7 (b OR 0x80)" by (simp add: take_bit_eq_mask mask_eq_exp_minus_1)
  then have "unat ((b OR 0x80) AND 0x7F) = (unat b + 128) mod 128"
    using unat_or_80 [OF b] by (simp add: take_bit_eq_mod unat_mod_distrib)
  with b show ?thesis by (intro unsigned_word_eqI) simp
qed

lemma digit_low: "unat (ucast ((v :: uint64) AND 0x7F) :: byte) = unat v mod 128"
proof -
  have "unat v mod 128 < 2 ^ 8" by (rule less_trans [of _ 128]) simp_all
  then show ?thesis by (simp add: unsigned_ucast_eq unat_and_7F take_bit_nat_eq_self)
qed

lemma digit_last:
  assumes "v \<le> 0x7F"
  shows "ucast ((v :: uint64) AND 0x7F) = (ucast v :: byte)"
  using assms by (intro unsigned_word_eqI) (simp add: digit_low digit_small word_le_nat_alt)

lemma ucast_or_80: "ucast ((v AND 0x7F) OR (0x80 :: uint64)) = (ucast (v AND 0x7F) OR 0x80 :: byte)"
  by (rule bit_word_eqI) (auto simp: bit_simps)

section \<open>The bytes of a varint\<close>

lemma varint_bytes_small: "v \<le> 0x7F \<Longrightarrow> varint_bytes v = [ucast v]"
  by (simp add: varint_bytes.simps)

lemma varint_bytes_large:
  "\<not> v \<le> 0x7F \<Longrightarrow> varint_bytes v = (ucast (v AND 0x7F) OR 0x80) # varint_bytes (drop_bit 7 v)"
  by (subst varint_bytes.simps) simp

lemma varint_bytes_Nil [simp]: "varint_bytes v \<noteq> []"
  by (subst varint_bytes.simps) simp

lemma varint_value_bytes: "varint_value (varint_bytes v) = unat v"
proof (induction v rule: varint_bytes.induct)
  case (1 v)
  show ?case
  proof (cases "v \<le> 0x7F")
    case True
    then show ?thesis by (simp add: varint_bytes_small digit_small word_le_nat_alt)
  next
    case False
    have "unat v mod 128 < 128" by simp
    with False 1 show ?thesis
      by (simp add: varint_bytes_large unat_or_80 digit_low unat_drop7)
  qed
qed

lemma varint_form_bytes: "varint_form (varint_bytes v)"
proof (induction v rule: varint_bytes.induct)
  case (1 v)
  show ?case
  proof (cases "v \<le> 0x7F")
    case True
    then show ?thesis by (simp add: varint_bytes_small digit_small word_le_nat_alt)
  next
    case False
    obtain b bs where bs: "varint_bytes (drop_bit 7 v) = b # bs"
      using varint_bytes_Nil by (cases "varint_bytes (drop_bit 7 v)") blast+
    have "unat v mod 128 < 128" by simp
    with False 1 show ?thesis by (simp add: varint_bytes_large bs unat_or_80 digit_low)
  qed
qed

lemma varint_bytes_length_le:
  assumes "unat v < 128 ^ k" and "0 < k"
  shows "length (varint_bytes v) \<le> k"
  using assms
proof (induction v arbitrary: k rule: varint_bytes.induct)
  case (1 v)
  show ?case
  proof (cases "v \<le> 0x7F")
    case True
    then show ?thesis using "1.prems"(2) by (simp add: varint_bytes_small)
  next
    case False
    then have "128 \<le> unat v" by (simp add: word_le_nat_alt)
    with "1.prems" obtain j where k: "k = Suc j" "0 < j"
      by (cases k; cases "k - 1") auto
    then have "unat (drop_bit 7 v) < 128 ^ j"
      using "1.prems"(1) by (simp add: unat_drop7 less_mult_imp_div_less mult.commute)
    from "1.IH" [OF False this k(2)] show ?thesis using False by (simp add: varint_bytes_large k)
  qed
qed

lemma varint_bytes_length: "length (varint_bytes v) \<le> 10"
proof -
  have "unat v < 2 ^ 64" using unsigned_less [of v] by simp
  also have "(2 :: nat) ^ 64 < 128 ^ 10" by simp
  finally show ?thesis by (rule varint_bytes_length_le) simp
qed

section \<open>What the encoder writes\<close>

lemma encode_varint_loop_bytes:
  assumes "v \<noteq> 0" and "length buf + length (varint_bytes v) \<le> 10"
  shows "\<exists>bs b. varint_bytes v = bs @ [b] \<and> unat b < 128 \<and>
           encode_varint_loop v buf = Some (buf @ bs @ [b OR 0x80])"
  using assms
proof (induction v arbitrary: buf rule: varint_bytes.induct)
  case (1 v)
  have room: "length buf < 10" using "1.prems"(2) by (cases "varint_bytes v") auto
  have step: "encode_varint_loop v buf =
      encode_varint_loop (drop_bit 7 v) (buf @ [ucast (v AND 0x7F) OR 0x80])"
    using "1.prems"(1) room by (subst encode_varint_loop.simps) (simp add: ucast_or_80)
  show ?case
  proof (cases "v \<le> 0x7F")
    case True
    then have "unat (drop_bit 7 v) = unat 0" by (simp add: unat_drop7 word_le_nat_alt)
    then have "drop_bit 7 v = 0" by (rule unsigned_word_eqI)
    with True step show ?thesis
      by (simp add: varint_bytes_small digit_small digit_last word_le_nat_alt encode_varint_loop.simps)
  next
    case False
    then have "unat (drop_bit 7 v) \<noteq> 0" by (simp add: unat_drop7 word_le_nat_alt)
    then have nz: "drop_bit 7 v \<noteq> 0" by auto
    have "length (buf @ [ucast (v AND 0x7F) OR 0x80]) + length (varint_bytes (drop_bit 7 v)) \<le> 10"
      using "1.prems"(2) False by (simp add: varint_bytes_large)
    from "1.IH" [OF False nz this] show ?thesis
      using False by (auto simp: step varint_bytes_large)
  qed
qed

lemma pb_encode_varint_bytes:
  "pb_encode_varint E v st =
     pb_write E (BufStack (varint_bytes v)) (of_nat (length (varint_bytes v))) st"
proof (cases "v \<le> 0x7F")
  case True
  then show ?thesis by (simp add: pb_encode_varint_def varint_bytes_small)
next
  case False
  then have "v \<noteq> 0" by auto
  then obtain bs b where *: "varint_bytes v = bs @ [b]" "unat b < 128"
    "encode_varint_loop v [] = Some (bs @ [b OR 0x80])"
    using encode_varint_loop_bytes [of v "[]"] varint_bytes_length [of v] by auto
  then show ?thesis using False by (simp add: pb_encode_varint_def unset_80)
qed

end
