(* ===== verification/Pb_Wire.thy ===== *)
theory Pb_Wire
  imports Pb_Varint
begin

text \<open>
  A reference for \<^verbatim>\<open>nanopb/pb_encode.c\<close> that has no streams, no sizing passes and no limits: the
  bytes that the wire format assigns to a structure in memory, as a function of the memory.
\<close>

section \<open>Output as a function of the memory\<close>

text \<open>
  \<open>None\<close> where the code has no defined result (an access outside live memory, a missing table),
  \<open>Some None\<close> where the encoder reports an error, \<open>Some (Some bs)\<close> for the output \<open>bs\<close>.
\<close>

type_synonym wire = "mem \<Rightarrow> byte list option option"

definition wire_bytes :: "byte list \<Rightarrow> wire" where
  "wire_bytes bs m = Some (Some bs)"

definition wire_error :: wire where
  "wire_error m = Some None"

definition wire_read :: "(mem \<Rightarrow> 'x option) \<Rightarrow> ('x \<Rightarrow> wire) \<Rightarrow> wire" where
  "wire_read rd k m = do { x \<leftarrow> rd m; k x m }"

definition wire_seq :: "wire \<Rightarrow> wire \<Rightarrow> wire" where
  "wire_seq a b m = do {
     r \<leftarrow> a m;
     case r of None \<Rightarrow> Some None
     | Some xs \<Rightarrow> map_option (map_option (\<lambda>ys. xs @ ys)) (b m) }"

fun wire_list :: "wire list \<Rightarrow> wire" where
  "wire_list [] = wire_bytes []"
| "wire_list (a # as) = wire_seq a (wire_list as)"

text \<open>
  A length-delimited item. Items of \<open>2 ^ 62\<close> bytes and more, which no memory can hold, have no
  reference output.
\<close>

definition wire_delimited :: "wire \<Rightarrow> wire" where
  "wire_delimited a m = do {
     r \<leftarrow> a m;
     case r of None \<Rightarrow> Some None
     | Some bs \<Rightarrow> if length bs < 2 ^ 62 then Some (Some (varint_bytes (of_nat (length bs)) @ bs)) else None }"

lemma wire_delimited_code [code]:
  "wire_delimited a m = do {
     r \<leftarrow> a m;
     case r of None \<Rightarrow> Some None
     | Some bs \<Rightarrow> if int (length bs) < 2 ^ 62 then Some (Some (varint_bytes (of_nat (length bs)) @ bs)) else None }"
proof -
  have "int n < 2 ^ 62 \<longleftrightarrow> n < 2 ^ 62" for n by (metis of_nat_less_iff of_nat_numeral of_nat_power)
  then show ?thesis by (simp only: wire_delimited_def)
qed

definition wire_varint :: "uint64 \<Rightarrow> wire" where
  "wire_varint v = wire_bytes (varint_bytes v)"

definition wire_key :: "uint32 \<Rightarrow> pb_wire_type_t \<Rightarrow> wire" where
  "wire_key t w = wire_varint (push_bit 3 (ucast t) OR ucast w)"

definition wire_tag :: "pb_field \<Rightarrow> wire" where
  "wire_tag f = (case wire_type_of (PB_LTYPE (f_type f)) of None \<Rightarrow> wire_error | Some w \<Rightarrow> wire_key (f_tag f) w)"

section \<open>Values\<close>

definition zigzag :: "uint64 \<Rightarrow> uint64" where
  "zigzag v = (if sint v < 0 then - 2 * v - 1 else 2 * v)"

definition wire_int :: "(mem \<Rightarrow> uint32 \<Rightarrow> addr \<Rightarrow> uint64 option option) \<Rightarrow> (uint64 \<Rightarrow> uint64) \<Rightarrow> pb_field \<Rightarrow> addr \<Rightarrow> wire" where
  "wire_int ld conv f p m =
     (case ld m (f_data_size f) p of None \<Rightarrow> Some None | Some r \<Rightarrow> wire_read (\<lambda>_. r) (\<lambda>v. wire_varint (conv v)) m)"

definition wire_memory :: "nat \<Rightarrow> addr \<Rightarrow> wire" where
  "wire_memory n p m = map_option Some (load_bytes m p n)"

definition wire_bytes_field :: "pb_field \<Rightarrow> addr \<Rightarrow> wire" where
  "wire_bytes_field f p =
     (if p = 0 then wire_delimited (wire_bytes [])
      else wire_read (\<lambda>m. bytes_array_size m p) (\<lambda>n.
        if PB_ATYPE (f_type f) = PB_ATYPE_STATIC \<and> uint n + 4 > uint (f_data_size f) then wire_error
        else wire_delimited (wire_memory (unat n) (bytes_array_data p))))"

definition wire_string_field :: "pb_field \<Rightarrow> addr \<Rightarrow> wire" where
  "wire_string_field f p =
     (if p = 0 then wire_delimited (wire_bytes [])
      else wire_read (\<lambda>m. enc_strlen m (if PB_ATYPE (f_type f) = PB_ATYPE_POINTER then - 1 else ucast (f_data_size f)) 0 p)
        (\<lambda>n. wire_delimited (wire_memory (unat n) p)))"

definition wire_value :: "(nat \<Rightarrow> addr \<Rightarrow> wire) \<Rightarrow> pb_field \<Rightarrow> addr \<Rightarrow> wire" where
  "wire_value sub f p =
     (let l = PB_LTYPE (f_type f) in
      if l = PB_LTYPE_VARINT then wire_int load_signed id f p
      else if l = PB_LTYPE_UVARINT then wire_int load_unsigned id f p
      else if l = PB_LTYPE_SVARINT then wire_int load_signed zigzag f p
      else if l = PB_LTYPE_FIXED32 then wire_memory 4 p
      else if l = PB_LTYPE_FIXED64 then wire_memory 8 p
      else if l = PB_LTYPE_BYTES then wire_bytes_field f p
      else if l = PB_LTYPE_STRING then wire_string_field f p
      else if l = PB_LTYPE_SUBMESSAGE then
        (case f_ptr f of FNull \<Rightarrow> wire_error | FFields t \<Rightarrow> wire_delimited (sub t p) | FDefault _ \<Rightarrow> (\<lambda>_. None))
      else if l = PB_LTYPE_FIXED_LENGTH_BYTES then wire_delimited (wire_memory (unat (f_data_size f)) p)
      else (\<lambda>_. None))"

section \<open>Fields\<close>

definition wire_present :: "(nat \<Rightarrow> addr \<Rightarrow> wire) \<Rightarrow> pb_field \<Rightarrow> addr \<Rightarrow> wire" where
  "wire_present sub f p = wire_seq (wire_tag f) (wire_value sub f p)"

definition wire_item :: "(nat \<Rightarrow> addr \<Rightarrow> wire) \<Rightarrow> pb_field \<Rightarrow> addr \<Rightarrow> wire" where
  "wire_item sub f p = wire_seq (wire_tag f)
     (if PB_ATYPE (f_type f) = PB_ATYPE_POINTER \<and>
         (PB_LTYPE (f_type f) = PB_LTYPE_STRING \<or> PB_LTYPE (f_type f) = PB_LTYPE_BYTES)
      then wire_read (\<lambda>m. load_ptr m p) (wire_value sub f) else wire_value sub f p)"

definition element_addr :: "pb_field \<Rightarrow> addr \<Rightarrow> nat \<Rightarrow> addr" where
  "element_addr f p i = p + int i * uint (f_data_size f)"

definition wire_array :: "(nat \<Rightarrow> addr \<Rightarrow> wire) \<Rightarrow> pb_field \<Rightarrow> addr \<Rightarrow> uint32 \<Rightarrow> wire" where
  "wire_array sub f p count =
     (if count = 0 then wire_bytes []
      else if PB_ATYPE (f_type f) \<noteq> PB_ATYPE_POINTER \<and> count > f_array_size f then wire_error
      else if PB_LTYPE (f_type f) \<le> PB_LTYPE_LAST_PACKABLE
      then wire_seq (wire_key (f_tag f) PB_WT_STRING)
        (wire_delimited (wire_list (map (\<lambda>i. wire_value sub f (element_addr f p i)) [0..<unat count])))
      else wire_list (map (\<lambda>i. wire_item sub f (element_addr f p i)) [0..<unat count]))"

text \<open>
  Where the presence of an optional field is recorded: in its companion member, in its pointer, or
  (proto3) in its value being different from the default.
\<close>

definition optional_present :: "nat \<Rightarrow> field_tables \<Rightarrow> pb_field \<Rightarrow> addr \<Rightarrow> addr \<Rightarrow> mem \<Rightarrow> bool option" where
  "optional_present n T f pField pData m =
     (if f_size_offset f \<noteq> 0 then load_bool m (pField + sint (f_size_offset f))
      else do {
        d \<leftarrow> pb_check_proto3_default_value n T m f pField;
        Some (if PB_ATYPE (f_type f) = PB_ATYPE_POINTER then pData \<noteq> 0 else \<not> d) })"

definition wire_basic :: "nat \<Rightarrow> field_tables \<Rightarrow> (nat \<Rightarrow> addr \<Rightarrow> wire) \<Rightarrow> pb_field \<Rightarrow> addr \<Rightarrow> wire" where
  "wire_basic n T sub f p =
     (let ty = f_type f; pSize = p + sint (f_size_offset f) in
      wire_read (\<lambda>m. if PB_LTYPES_COUNT \<le> PB_LTYPE ty then None
                     else if PB_ATYPE ty = PB_ATYPE_POINTER then load_ptr m p else Some p) (\<lambda>d.
        if PB_HTYPE ty = PB_HTYPE_REQUIRED then
          if d = 0 then wire_error else wire_present sub f d
        else if PB_HTYPE ty = PB_HTYPE_OPTIONAL then
          wire_read (optional_present n T f p d) (\<lambda>has. if has then wire_present sub f d else wire_bytes [])
        else if PB_HTYPE ty = PB_HTYPE_REPEATED then
          wire_read (\<lambda>m. if f_size_offset f \<noteq> 0 then load32 m pSize else Some (f_array_size f))
            (wire_array sub f d)
        else if PB_HTYPE ty = PB_HTYPE_ONEOF then
          wire_read (\<lambda>m. if f_size_offset f \<noteq> 0 then load32 m pSize else None)
            (\<lambda>which. if which = f_tag f then wire_present sub f d else wire_bytes [])
        else wire_error))"

text \<open>What the callbacks of the user write.\<close>

record wire_env =
  we_cb :: "addr \<Rightarrow> pb_field \<Rightarrow> addr \<Rightarrow> wire"
  we_ext :: "addr \<Rightarrow> addr \<Rightarrow> wire"

definition wire_callback :: "wire_env \<Rightarrow> pb_field \<Rightarrow> addr \<Rightarrow> wire" where
  "wire_callback W f p = wire_read (\<lambda>m. callback_funcs m p)
     (\<lambda>fn. if fn = 0 then wire_bytes [] else we_cb W fn f (callback_arg p))"

definition wire_field :: "nat \<Rightarrow> field_tables \<Rightarrow> wire_env \<Rightarrow> (nat \<Rightarrow> addr \<Rightarrow> wire) \<Rightarrow> pb_field \<Rightarrow> addr \<Rightarrow> wire" where
  "wire_field n T W sub f p =
     (if PB_ATYPE (f_type f) = PB_ATYPE_STATIC \<or> PB_ATYPE (f_type f) = PB_ATYPE_POINTER
      then wire_basic n T sub f p
      else if PB_ATYPE (f_type f) = PB_ATYPE_CALLBACK then wire_callback W f p
      else wire_error)"

section \<open>Extensions and messages\<close>

definition wire_extension :: "nat \<Rightarrow> 'a pb_enc_env_scheme \<Rightarrow> wire_env \<Rightarrow> (nat \<Rightarrow> addr \<Rightarrow> wire) \<Rightarrow> addr \<Rightarrow> wire" where
  "wire_extension n E W sub x =
     wire_read (\<lambda>m. Option.bind (ext_type m x) (env_ext_types E)) (\<lambda>xt.
       if xt_encode xt \<noteq> 0 then we_ext W (xt_encode xt) x
       else wire_read (\<lambda>_. field_at (env_tables E) (xt_arg xt)) (\<lambda>f.
         if PB_ATYPE (f_type f) = PB_ATYPE_POINTER then wire_field n (env_tables E) W sub f (ext_dest_addr x)
         else wire_read (\<lambda>m. ext_dest m x) (wire_field n (env_tables E) W sub f)))"

fun wire_extensions :: "nat \<Rightarrow> nat \<Rightarrow> 'a pb_enc_env_scheme \<Rightarrow> wire_env \<Rightarrow> (nat \<Rightarrow> addr \<Rightarrow> wire) \<Rightarrow> addr \<Rightarrow> wire" where
  "wire_extensions 0 n E W sub x = (\<lambda>_. None)"
| "wire_extensions (Suc k) n E W sub x =
     (if x = 0 then wire_bytes []
      else wire_seq (wire_extension n E W sub x)
        (wire_read (\<lambda>m. ext_next m x) (wire_extensions k n E W sub)))"

definition wire_member :: "nat \<Rightarrow> 'a pb_enc_env_scheme \<Rightarrow> wire_env \<Rightarrow> (nat \<Rightarrow> addr \<Rightarrow> wire) \<Rightarrow> pb_field \<Rightarrow> addr \<Rightarrow> wire" where
  "wire_member n E W sub f p =
     (if PB_LTYPE (f_type f) = PB_LTYPE_EXTENSION
      then wire_read (\<lambda>m. load_ptr m p) (wire_extensions (Suc n) n E W sub)
      else wire_field n (env_tables E) W sub f p)"

text \<open>The members in the order of the table, each at its offset in the structure.\<close>

primrec wire_message :: "nat \<Rightarrow> 'a pb_enc_env_scheme \<Rightarrow> wire_env \<Rightarrow> nat \<Rightarrow> addr \<Rightarrow> wire" where
  "wire_message 0 E W = (\<lambda>t src _. None)"
| "wire_message (Suc n) E W = (\<lambda>t src.
     (let fs = env_tables E t in
      if table_wf fs
      then wire_list (map (\<lambda>k. wire_member n E W (wire_message n E W) (fs ! k) (src + field_offset fs k)) [0..<nfields fs])
      else (\<lambda>_. None)))"

end
