(* ===== verification/Pb_Encode_Correct.thy ===== *)
theory Pb_Encode_Correct
  imports Pb_Wire
begin

text \<open>
  The encoder of \<^verbatim>\<open>nanopb/pb_encode.c\<close> implements the reference of \<open>Pb_Wire\<close>: on a sizing stream
  every operation counts exactly the bytes of the reference, on a memory buffer it stores exactly
  these bytes when they fit and reports failure when they do not, and in no case does it touch
  memory outside the buffer. The proofs follow the structure of the code, with one closure lemma
  per way of combining operations.
\<close>

section \<open>The contract\<close>

named_theorems reads_intros \<open>functions of the memory that only depend on what they read\<close>
named_theorems impl_intros \<open>operations that implement their reference\<close>

definition reads :: "(mem \<Rightarrow> 'x option) \<Rightarrow> bool" where
  "reads rd \<longleftrightarrow> (\<forall>m m' x. mbytes m \<subseteq>\<^sub>m mbytes m' \<longrightarrow> rd m = Some x \<longrightarrow> rd m' = Some x)"

definition mhide :: "mem \<Rightarrow> addr \<Rightarrow> nat \<Rightarrow> mem" where
  "mhide m p n = m\<lparr>mbytes := mdrop (mbytes m) p n\<rparr>"

definition room :: "est \<Rightarrow> nat" where
  "room st = unat (os_max_size (fst st)) - unat (os_bytes_written (fst st))"

definition buffer_ready :: "est \<Rightarrow> bool" where
  "buffer_ready st \<longleftrightarrow> os_callback (fst st) = OC_buf_write \<and>
     os_bytes_written (fst st) \<le> os_max_size (fst st) \<and> unat (os_max_size (fst st)) < 2 ^ 62 \<and>
     live (snd st) (os_state (fst st)) (room st)"

definition visible :: "est \<Rightarrow> mem" where
  "visible st = mhide (snd st) (os_state (fst st)) (room st)"

definition wrote :: "byte list \<Rightarrow> est \<Rightarrow> est \<Rightarrow> bool" where
  "wrote bs st st' \<longleftrightarrow>
     os_callback (fst st') = os_callback (fst st) \<and>
     os_max_size (fst st') = os_max_size (fst st) \<and>
     os_state (fst st') = os_state (fst st) + int (length bs) \<and>
     os_bytes_written (fst st') = os_bytes_written (fst st) + of_nat (length bs) \<and>
     snd st' = (snd st)\<lparr>mbytes := mput (mbytes (snd st)) (os_state (fst st)) bs\<rparr>"

definition sized :: "nat \<Rightarrow> est \<Rightarrow> est \<Rightarrow> bool" where
  "sized n st st' \<longleftrightarrow>
     os_callback (fst st') = os_callback (fst st) \<and>
     os_max_size (fst st') = os_max_size (fst st) \<and>
     os_state (fst st') = os_state (fst st) \<and>
     os_bytes_written (fst st') = os_bytes_written (fst st) + of_nat n \<and>
     snd st' = snd st"

definition counted :: "byte list option \<Rightarrow> bool \<Rightarrow> est \<Rightarrow> est \<Rightarrow> bool" where
  "counted r ok st st' \<longleftrightarrow>
     (case r of Some bs \<Rightarrow> ok \<and> sized (length bs) st st' | None \<Rightarrow> \<not> ok \<and> snd st' = snd st)"

definition sizes :: "enc_op \<Rightarrow> wire \<Rightarrow> bool" where
  "sizes f a \<longleftrightarrow> (\<forall>st r. os_callback (fst st) = OC_NULL \<longrightarrow> a (snd st) = Some r \<longrightarrow>
     (\<exists>ok st'. f st = Some (ok, st') \<and> counted r ok st st'))"

definition outcome :: "nat \<Rightarrow> byte list option \<Rightarrow> bool \<Rightarrow> byte list \<Rightarrow> bool" where
  "outcome n r ok bs' \<longleftrightarrow> length bs' \<le> n \<and>
     (case r of Some bs \<Rightarrow> (if length bs \<le> n then ok \<and> bs' = bs else \<not> ok) | None \<Rightarrow> \<not> ok)"

definition fills :: "enc_op \<Rightarrow> wire \<Rightarrow> bool" where
  "fills f a \<longleftrightarrow> (\<forall>st r. buffer_ready st \<longrightarrow> a (visible st) = Some r \<longrightarrow>
     (\<exists>ok st' bs'. f st = Some (ok, st') \<and> wrote bs' st st' \<and> outcome (room st) r ok bs'))"

definition implements :: "enc_op \<Rightarrow> wire \<Rightarrow> bool" where
  "implements f a \<longleftrightarrow> reads a \<and> sizes f a \<and> fills f a"

section \<open>Memory views\<close>

lemma readsD: "reads rd \<Longrightarrow> mbytes m \<subseteq>\<^sub>m mbytes m' \<Longrightarrow> rd m = Some x \<Longrightarrow> rd m' = Some x"
  unfolding reads_def by blast

lemma reads_const [reads_intros]: "reads (\<lambda>_. r)"
  by (simp add: reads_def)

lemma reads_bind [reads_intros]:
  assumes "reads rd" and "\<And>x. reads (k x)"
  shows "reads (\<lambda>m. do { x \<leftarrow> rd m; k x m })"
  using assms unfolding reads_def by (fastforce simp: bind_eq_Some_conv)

lemma reads_map [reads_intros]: "reads rd \<Longrightarrow> reads (\<lambda>m. map_option g (rd m))"
  unfolding reads_def by auto

lemma reads_if [reads_intros]: "(b \<Longrightarrow> reads f) \<Longrightarrow> (\<not> b \<Longrightarrow> reads g) \<Longrightarrow> reads (\<lambda>m. if b then f m else g m)"
  by (cases b) auto

lemma reads_case_option [reads_intros]:
  "(c = None \<Longrightarrow> reads f) \<Longrightarrow> (\<And>x. c = Some x \<Longrightarrow> reads (g x)) \<Longrightarrow> reads (\<lambda>m. case c of None \<Rightarrow> f m | Some x \<Rightarrow> g x m)"
  by (cases c) auto

lemma reads_case_prod [reads_intros]:
  "(\<And>x y. reads (\<lambda>m. f x y m)) \<Longrightarrow> reads (\<lambda>m. case p of (x, y) \<Rightarrow> f x y m)"
  by (cases p) auto

lemma reads_case_field_ptr [reads_intros]:
  "reads f \<Longrightarrow> (\<And>t. c = FFields t \<Longrightarrow> reads (g t)) \<Longrightarrow> (\<And>bs. reads (h bs)) \<Longrightarrow>
   reads (\<lambda>m. case c of FNull \<Rightarrow> f m | FFields t \<Rightarrow> g t m | FDefault bs \<Rightarrow> h bs m)"
  by (cases c) auto

lemma reads_load_bytes [reads_intros]: "reads (\<lambda>m. load_bytes m p n)"
  unfolding reads_def load_bytes_iff by (metis map_le_def domI)

lemma reads_loads [reads_intros]:
  "reads (\<lambda>m. load8 m p)" "reads (\<lambda>m. load16 m p)" "reads (\<lambda>m. load32 m p)" "reads (\<lambda>m. load64 m p)"
  "reads (\<lambda>m. load_ptr m p)" "reads (\<lambda>m. load_bool m p)"
  unfolding load8_def load16_def load32_def load64_def load_ptr_def load_bool_def
  by (intro reads_intros)+

lemma visible_le: "mbytes (visible st) \<subseteq>\<^sub>m mbytes (snd st)"
  by (auto simp: visible_def mhide_def mdrop_def map_le_def)

lemma visible_reads: "reads rd \<Longrightarrow> rd (visible st) = Some x \<Longrightarrow> rd (snd st) = Some x"
  by (rule readsD [OF _ visible_le])

lemma wrote_Nil: "os_callback s = os_callback (fst st) \<Longrightarrow> os_max_size s = os_max_size (fst st) \<Longrightarrow>
  os_state s = os_state (fst st) \<Longrightarrow> os_bytes_written s = os_bytes_written (fst st) \<Longrightarrow>
  wrote [] st (s, snd st)"
  by (simp add: wrote_def)

lemma wrote_trans: "wrote xs st st1 \<Longrightarrow> wrote ys st1 st2 \<Longrightarrow> wrote (xs @ ys) st st2"
  by (simp add: wrote_def mput_append algebra_simps)

lemma sized_trans: "sized m st st1 \<Longrightarrow> sized n st1 st2 \<Longrightarrow> sized (m + n) st st2"
  by (simp add: sized_def algebra_simps)

lemma unat_add_of_nat:
  fixes w :: size_t
  assumes "unat w + n < 2 ^ 64"
  shows "unat (w + of_nat n) = unat w + n"
  using assms by (simp add: unat_word_ariths unat_of_nat)

lemma wrote_ready:
  assumes w: "wrote xs st st1" and ready: "buffer_ready st" and le: "length xs \<le> room st"
  shows "buffer_ready st1 \<and> room st1 = room st - length xs \<and> mbytes (visible st) \<subseteq>\<^sub>m mbytes (visible st1)"
proof -
  let ?b = "unat (os_bytes_written (fst st))" and ?m = "unat (os_max_size (fst st))"
  have b: "?b \<le> ?m" "?m < 2 ^ 62" "live (snd st) (os_state (fst st)) (room st)"
    using ready by (auto simp: buffer_ready_def word_le_nat_alt)
  have nw: "?b + length xs \<le> ?m" using le b by (simp add: room_def)
  then have bw: "unat (os_bytes_written (fst st1)) = ?b + length xs"
    using w b by (simp add: wrote_def unat_add_of_nat)
  have rm: "room st1 = room st - length xs"
    using w unfolding room_def bw by (simp add: wrote_def)
  have sub: "region (os_state (fst st1)) (room st1) \<subseteq> region (os_state (fst st)) (room st)"
    using w le by (auto simp: rm region_def wrote_def)
  have dom: "dom (mbytes (snd st)) \<subseteq> dom (mbytes (snd st1))" using w by (auto simp: wrote_def dom_mput)
  have "live (snd st1) (os_state (fst st1)) (room st1)"
    using b(3) sub dom unfolding live_iff by blast
  moreover have le1: "os_bytes_written (fst st1) \<le> os_max_size (fst st1)"
    using nw w unfolding word_le_nat_alt bw by (simp add: wrote_def)
  ultimately have "buffer_ready st1"
    using ready w le1 by (simp add: buffer_ready_def wrote_def)
  moreover have "mbytes (visible st) \<subseteq>\<^sub>m mbytes (visible st1)"
    using w le rm by (auto simp: map_le_def visible_def mhide_def mdrop_def mput_def wrote_def split: if_splits)
  ultimately show ?thesis using rm by blast
qed

section \<open>Combining operations\<close>

lemma implementsI: "reads a \<Longrightarrow> sizes f a \<Longrightarrow> fills f a \<Longrightarrow> implements f a"
  by (simp add: implements_def)

lemma implements_reads: "implements f a \<Longrightarrow> reads a"
  by (simp add: implements_def)

lemma reads_wire [reads_intros]:
  "reads (wire_bytes bs)" "reads wire_error"
  "reads rd \<Longrightarrow> (\<And>x. reads (k x)) \<Longrightarrow> reads (wire_read rd k)"
  "reads a \<Longrightarrow> reads b \<Longrightarrow> reads (wire_seq a b)"
  "reads a \<Longrightarrow> reads (wire_delimited a)"
  unfolding wire_bytes_def wire_error_def wire_read_def wire_seq_def wire_delimited_def
  by (intro reads_intros; assumption)+

lemma implements_return [impl_intros]: "implements (\<lambda>st. Some (True, st)) (wire_bytes [])"
proof (rule implementsI)
  show "sizes (\<lambda>st. Some (True, st)) (wire_bytes [])"
    by (auto simp: sizes_def counted_def sized_def wire_bytes_def)
  have "wrote [] st st" for st by (simp add: wrote_def)
  then show "fills (\<lambda>st. Some (True, st)) (wire_bytes [])"
    by (auto simp: fills_def outcome_def wire_bytes_def)
qed (rule reads_intros)

lemma implements_error [impl_intros]: "implements (os_error msg) wire_error"
proof (rule implementsI)
  show "sizes (os_error msg) wire_error"
    by (auto simp: sizes_def counted_def os_error_def wire_error_def)
  show "fills (os_error msg) wire_error"
    by (fastforce simp: fills_def outcome_def os_error_def wire_error_def wrote_def)
qed (rule reads_intros)

lemma sizesD:
  "implements f a \<Longrightarrow> os_callback (fst st) = OC_NULL \<Longrightarrow> a (snd st) = Some r \<Longrightarrow>
     \<exists>ok st'. f st = Some (ok, st') \<and> counted r ok st st'"
  unfolding implements_def sizes_def by blast

lemma fillsD:
  "implements f a \<Longrightarrow> buffer_ready st \<Longrightarrow> a (visible st) = Some r \<Longrightarrow>
     \<exists>ok st' bs'. f st = Some (ok, st') \<and> wrote bs' st st' \<and> outcome (room st) r ok bs'"
  unfolding implements_def fills_def by blast

lemma implements_read [impl_intros]:
  assumes rd: "reads rd" and k: "\<And>x. implements (f x) (a x)"
  shows "implements (\<lambda>st. do { x \<leftarrow> rd (snd st); f x st }) (wire_read rd a)"
proof (rule implementsI)
  show "reads (wire_read rd a)" using rd k by (intro reads_intros implements_reads)
  show "sizes (\<lambda>st. do { x \<leftarrow> rd (snd st); f x st }) (wire_read rd a)"
    unfolding sizes_def
  proof (intro allI impI)
    fix st :: est and r assume null: "os_callback (fst st) = OC_NULL" and "wire_read rd a (snd st) = Some r"
    then obtain x where x: "rd (snd st) = Some x" "a x (snd st) = Some r"
      by (auto simp: wire_read_def bind_eq_Some_conv)
    from sizesD [OF k null x(2)] x(1)
    show "\<exists>ok st'. Option.bind (rd (snd st)) (\<lambda>x. f x st) = Some (ok, st') \<and> counted r ok st st'"
      by simp
  qed
  show "fills (\<lambda>st. do { x \<leftarrow> rd (snd st); f x st }) (wire_read rd a)"
    unfolding fills_def
  proof (intro allI impI)
    fix st :: est and r assume ready: "buffer_ready st" and "wire_read rd a (visible st) = Some r"
    then obtain x where x: "rd (visible st) = Some x" "a x (visible st) = Some r"
      by (auto simp: wire_read_def bind_eq_Some_conv)
    from fillsD [OF k ready x(2)] visible_reads [OF rd x(1)]
    show "\<exists>ok st' bs'. Option.bind (rd (snd st)) (\<lambda>x. f x st) = Some (ok, st') \<and> wrote bs' st st' \<and>
        outcome (room st) r ok bs'" by simp
  qed
qed

lemma counted_simps:
  fixes st st' :: est
  shows
  "counted (Some bs) ok st st' \<longleftrightarrow> ok \<and> sized (length bs) st st'"
  "counted None ok st st' \<longleftrightarrow> \<not> ok \<and> snd st' = snd st"
  by (simp_all add: counted_def)

lemma outcome_simps:
  "outcome n None ok bs' \<longleftrightarrow> \<not> ok \<and> length bs' \<le> n"
  "length bs \<le> n \<Longrightarrow> outcome n (Some bs) ok bs' \<longleftrightarrow> ok \<and> bs' = bs"
  "n < length bs \<Longrightarrow> outcome n (Some bs) ok bs' \<longleftrightarrow> \<not> ok \<and> length bs' \<le> n"
  by (auto simp: outcome_def)

lemma sized_null: "sized n st st' \<Longrightarrow> os_callback (fst st) = OC_NULL \<Longrightarrow> os_callback (fst st') = OC_NULL"
  by (simp add: sized_def)

lemma implements_and_then [impl_intros]:
  assumes f: "implements f a" and g: "implements g b"
  shows "implements (\<lambda>st. and_then (f st) g) (wire_seq a b)"
proof (rule implementsI)
  show "reads (wire_seq a b)" using f g by (intro reads_intros implements_reads)
  show "sizes (\<lambda>st. and_then (f st) g) (wire_seq a b)"
    unfolding sizes_def
  proof (intro allI impI)
    fix st :: est and r assume null: "os_callback (fst st) = OC_NULL" and ab: "wire_seq a b (snd st) = Some r"
    then obtain ra where ra: "a (snd st) = Some ra" by (auto simp: wire_seq_def bind_eq_Some_conv)
    with ab consider "a (snd st) = Some None" "r = None"
      | xs q where "a (snd st) = Some (Some xs)" "b (snd st) = Some q" "r = map_option (\<lambda>ys. xs @ ys) q"
      by (cases ra) (auto simp: wire_seq_def)
    then show "\<exists>ok st'. and_then (f st) g = Some (ok, st') \<and> counted r ok st st'"
    proof cases
      case 1
      from sizesD [OF f null 1(1)] show ?thesis using 1(2) by (auto simp: counted_simps)
    next
      case 2
      from sizesD [OF f null 2(1)] obtain st1 where st1: "f st = Some (True, st1)" "sized (length xs) st st1"
        by (auto simp: counted_simps)
      then have "b (snd st1) = Some q" using 2(2) by (simp add: sized_def)
      from sizesD [OF g sized_null [OF st1(2) null] this] show ?thesis
        using st1 2(3) by (cases q) (auto simp: counted_simps sized_def dest: sized_trans)
    qed
  qed
  show "fills (\<lambda>st. and_then (f st) g) (wire_seq a b)"
    unfolding fills_def
  proof (intro allI impI)
    fix st :: est and r assume ready: "buffer_ready st" and ab: "wire_seq a b (visible st) = Some r"
    then obtain ra where ra: "a (visible st) = Some ra"
      by (auto simp: wire_seq_def bind_eq_Some_conv)
    from fillsD [OF f ready ra] obtain ok1 st1 bs1 where
      f1: "f st = Some (ok1, st1)" "wrote bs1 st st1" "outcome (room st) ra ok1 bs1" by blast
    show "\<exists>ok st' bs'. and_then (f st) g = Some (ok, st') \<and> wrote bs' st st' \<and> outcome (room st) r ok bs'"
    proof (cases ok1)
      case False
      then have "outcome (room st) r False bs1" using f1(3) ab ra
        by (auto simp: outcome_def wire_seq_def split: option.splits if_splits)
      with f1 False show ?thesis by auto
    next
      case True
      then have xs: "ra = Some bs1" "length bs1 \<le> room st" using f1(3)
        by (auto simp: outcome_def split: option.splits if_splits)
      then obtain q where q: "b (visible st) = Some q" "r = map_option (\<lambda>ys. bs1 @ ys) q"
        using ab ra by (auto simp: wire_seq_def)
      from wrote_ready [OF f1(2) ready xs(2)] have
        r1: "buffer_ready st1" "room st1 = room st - length bs1" "mbytes (visible st) \<subseteq>\<^sub>m mbytes (visible st1)"
        by blast+
      have "b (visible st1) = Some q" using implements_reads [OF g] r1(3) q(1) by (rule readsD)
      from fillsD [OF g r1(1) this] obtain ok st2 bs2 where
        g2: "g st1 = Some (ok, st2)" "wrote bs2 st1 st2" "outcome (room st1) q ok bs2" by blast
      have "wrote (bs1 @ bs2) st st2" using f1(2) g2(2) by (rule wrote_trans)
      moreover have "outcome (room st) r ok (bs1 @ bs2)"
        using g2(3) q(2) xs(2) r1(2) by (cases q) (auto simp: outcome_def split: if_splits)
      ultimately show ?thesis using f1(1) True g2(1) by auto
    qed
  qed
qed

section \<open>Writing\<close>

lemma pb_write_sizes:
  assumes "os_callback (fst st) = OC_NULL" and "unat count = length bs"
  shows "\<exists>ok st'. pb_write E buf count st = Some (ok, st') \<and> counted (Some bs) ok st st'"
proof -
  have "count = of_nat (length bs)" by (simp flip: assms(2))
  then show ?thesis using assms(1)
    by (auto simp: pb_write_def counted_simps sized_def os_wrote_def)
qed

lemma room_iff:
  assumes ready: "buffer_ready st" and n: "unat count < 2 ^ 62"
  shows "os_bytes_written (fst st) + count > os_max_size (fst st) \<longleftrightarrow> room st < unat count"
proof -
  have b: "unat (os_bytes_written (fst st)) \<le> unat (os_max_size (fst st))" "unat (os_max_size (fst st)) < 2 ^ 62"
    using ready by (auto simp: buffer_ready_def word_le_nat_alt)
  then have "unat (os_bytes_written (fst st) + count) = unat (os_bytes_written (fst st)) + unat count"
    using n unat_add_of_nat [of "os_bytes_written (fst st)" "unat count"] by simp
  then show ?thesis using b unfolding room_def word_less_nat_alt by linarith
qed

lemma pb_write_fills:
  assumes ready: "buffer_ready st" and len: "unat count = length bs" "length bs < 2 ^ 62"
    and copy: "length bs \<le> room st \<Longrightarrow> copy_loop buf (os_state (fst st)) 0 (length bs) (snd st) =
      Some ((snd st)\<lparr>mbytes := mput (mbytes (snd st)) (os_state (fst st)) bs\<rparr>)"
  shows "\<exists>ok st' bs'. pb_write E buf count st = Some (ok, st') \<and> wrote bs' st st' \<and>
    outcome (room st) (Some bs) ok bs'"
proof -
  have count: "count = of_nat (length bs)" "uint count = int (length bs)"
    by (simp_all flip: len(1))
  have cb: "os_callback (fst st) = OC_buf_write" using ready by (simp add: buffer_ready_def)
  have full: "os_bytes_written (fst st) + count > os_max_size (fst st) \<longleftrightarrow> room st < length bs"
    using room_iff [OF ready, of count] len by simp
  show ?thesis
  proof (cases "room st < length bs")
    case True
    then show ?thesis using cb full
      by (intro exI [of _ False] exI [of _ "[]"]) (auto simp: pb_write_def os_error_def wrote_def outcome_simps)
  next
    case False
    then show ?thesis using cb full copy len(1) count
      by (intro exI [of _ True] exI [of _ bs])
        (auto simp: pb_write_def os_call_def buf_write_def os_wrote_def wrote_def outcome_simps Let_def)
  qed
qed

lemma ready_live: "buffer_ready st \<Longrightarrow> k \<le> room st \<Longrightarrow> live (snd st) (os_state (fst st)) k"
  by (fastforce simp: buffer_ready_def live_iff region_def)

lemma implements_write_stack [impl_intros]:
  assumes "length bs < 2 ^ 62"
  shows "implements (pb_write E (BufStack bs) (of_nat (length bs))) (wire_bytes bs)"
proof -
  have n: "unat (of_nat (length bs) :: size_t) = length bs" using assms by (simp add: unat_of_nat)
  show ?thesis
  proof (rule implementsI)
    show "sizes (pb_write E (BufStack bs) (of_nat (length bs))) (wire_bytes bs)"
      using pb_write_sizes [OF _ n] by (auto simp: sizes_def wire_bytes_def)
    show "fills (pb_write E (BufStack bs) (of_nat (length bs))) (wire_bytes bs)"
      unfolding fills_def
    proof (intro allI impI)
      fix st :: est and r assume ready: "buffer_ready st" and r: "wire_bytes bs (visible st) = Some r"
      have "copy_loop (BufStack bs) (os_state (fst st)) 0 (length bs) (snd st) =
          Some ((snd st)\<lparr>mbytes := mput (mbytes (snd st)) (os_state (fst st)) bs\<rparr>)" if "length bs \<le> room st"
        using copy_loop_stack [OF le_refl ready_live [OF ready that]] by simp
      from pb_write_fills [OF ready n assms this] r
      show "\<exists>ok st' bs'. pb_write E (BufStack bs) (of_nat (length bs)) st = Some (ok, st') \<and> wrote bs' st st' \<and>
          outcome (room st) r ok bs'" by (simp add: wire_bytes_def)
    qed
  qed (rule reads_intros)
qed

lemma visible_disjoint:
  assumes "load_bytes (visible st) p n = Some bs" and "k \<le> room st"
  shows "region p n \<inter> region (os_state (fst st)) k = {}"
proof -
  have "a \<in> dom (mbytes (visible st))" if "a \<in> region p n" for a
    using load_bytes_nth [OF assms(1), of "nat (a - p)"] that by (auto simp: region_def)
  then show ?thesis using assms(2)
    by (fastforce simp: visible_def mhide_def mdrop_def region_def split: if_splits)
qed

lemma reads_wire_memory [reads_intros]: "reads (wire_memory n p)"
  unfolding wire_memory_def by (intro reads_intros)

lemma implements_write_mem [impl_intros]:
  assumes n: "unat count < 2 ^ 62"
  shows "implements (pb_write E (BufMem p) count) (wire_memory (unat count) p)"
proof (rule implementsI)
  show "sizes (pb_write E (BufMem p) count) (wire_memory (unat count) p)"
    unfolding sizes_def
  proof (intro allI impI)
    fix st :: est and r
    assume null: "os_callback (fst st) = OC_NULL" and "wire_memory (unat count) p (snd st) = Some r"
    then obtain bs where "load_bytes (snd st) p (unat count) = Some bs" "r = Some bs"
      by (auto simp: wire_memory_def)
    with pb_write_sizes [OF null, of count bs] load_bytes_length
    show "\<exists>ok st'. pb_write E (BufMem p) count st = Some (ok, st') \<and> counted r ok st st'" by fastforce
  qed
  show "fills (pb_write E (BufMem p) count) (wire_memory (unat count) p)"
    unfolding fills_def
  proof (intro allI impI)
    fix st :: est and r assume ready: "buffer_ready st" and r: "wire_memory (unat count) p (visible st) = Some r"
    then obtain bs where bs: "load_bytes (visible st) p (unat count) = Some bs" "r = Some bs"
      by (auto simp: wire_memory_def)
    have len: "unat count = length bs" using load_bytes_length [OF bs(1)] by simp
    have m: "load_bytes (snd st) p (length bs) = Some bs"
      using visible_reads [OF reads_load_bytes bs(1)] len by simp
    have "copy_loop (BufMem p) (os_state (fst st)) 0 (length bs) (snd st) =
        Some ((snd st)\<lparr>mbytes := mput (mbytes (snd st)) (os_state (fst st)) bs\<rparr>)" if "length bs \<le> room st"
    proof (rule copy_loop_mem [OF m])
      show "region p (length bs) \<inter> region (os_state (fst st)) (length bs) = {}"
        using visible_disjoint [OF bs(1) that] len by simp
      show "live (snd st) (os_state (fst st)) (length bs)"
        using ready that by (rule ready_live)
    qed
    from pb_write_fills [OF ready len _ this] n len bs(2)
    show "\<exists>ok st' bs'. pb_write E (BufMem p) count st = Some (ok, st') \<and> wrote bs' st st' \<and>
        outcome (room st) r ok bs'" by simp
  qed
qed (rule reads_intros)

lemma implements_varint [impl_intros]: "implements (pb_encode_varint E v) (wire_varint v)"
proof -
  have "length (varint_bytes v) < 2 ^ 62" using varint_bytes_length [of v] by (rule le_less_trans) simp
  from implements_write_stack [OF this, of E] show ?thesis
    by (simp add: pb_encode_varint_bytes [abs_def] wire_varint_def)
qed

section \<open>Primitive encoders\<close>

lemma implements_tag [impl_intros]: "implements (pb_encode_tag E w t) (wire_key t w)"
  using implements_varint by (simp add: pb_encode_tag_def [abs_def] wire_key_def)

lemma implements_tag_for_field [impl_intros]: "implements (pb_encode_tag_for_field E f) (wire_tag f)"
  by (cases "wire_type_of (PB_LTYPE (f_type f))")
    (simp_all add: pb_encode_tag_for_field_def [abs_def] wire_tag_def implements_tag implements_error)

lemma push_bit_1: "push_bit 1 (v :: uint64) = 2 * v"
  by (simp add: push_bit_eq_mult)

lemma implements_svarint [impl_intros]: "implements (pb_encode_svarint E v) (wire_varint (zigzag v))"
proof -
  have "pb_encode_svarint E v = pb_encode_varint E (zigzag v)"
    by (rule ext) (simp add: pb_encode_svarint_def zigzag_def push_bit_1 not_eq_complement Let_def mult.commute)
  then show ?thesis by (simp add: implements_varint)
qed

lemma byte_and_FF: "ucast ((w :: 'a::len word) AND 0xFF) = (ucast w :: byte)"
proof (rule bit_word_eqI)
  fix i assume "i < LENGTH(8)"
  moreover have "bit (0xFF :: 'a word) i \<longleftrightarrow> i < LENGTH('a)" if "i < 8"
    using that bit_mask_iff [of 8 i, where ?'a = "'a word"] by (simp add: mask_eq_exp_minus_1 possible_bit_def)
  ultimately show "bit (ucast (w AND 0xFF) :: byte) i = bit (ucast w :: byte) i"
    by (auto simp: bit_simps dest: bit_imp_le_length)
qed

lemma fixed_bytes:
  "[ucast (v AND 0xFF), ucast (drop_bit 8 v AND 0xFF), ucast (drop_bit 16 v AND 0xFF),
    ucast (drop_bit 24 v AND 0xFF)] = le_bytes 4 v"
  "[ucast (w AND 0xFF), ucast (drop_bit 8 w AND 0xFF), ucast (drop_bit 16 w AND 0xFF),
    ucast (drop_bit 24 w AND 0xFF), ucast (drop_bit 32 w AND 0xFF), ucast (drop_bit 40 w AND 0xFF),
    ucast (drop_bit 48 w AND 0xFF), ucast (drop_bit 56 w AND 0xFF)] = le_bytes 8 w"
  by (simp_all add: numeral_eq_Suc byte_and_FF drop_bit_drop_bit)

lemma load_le_bytes:
  "load_bytes m p 4 = map_option (le_bytes 4) (load32 m p)"
  "load_bytes m p 8 = map_option (le_bytes 8) (load64 m p)"
  unfolding load32_def load64_def
  by (cases "load_bytes m p 4"; simp add: le_bytes_le_word [OF load_bytes_length])
    (cases "load_bytes m p 8"; simp add: le_bytes_le_word [OF load_bytes_length])

lemma implements_fixed [impl_intros]:
  "implements (pb_encode_fixed32 E p) (wire_memory 4 p)"
  "implements (pb_encode_fixed64 E p) (wire_memory 8 p)"
proof -
  have w: "wire_memory 4 p = wire_read (\<lambda>m. load32 m p) (\<lambda>v. wire_bytes (le_bytes 4 v))"
    "wire_memory 8 p = wire_read (\<lambda>m. load64 m p) (\<lambda>v. wire_bytes (le_bytes 8 v))"
    by (rule ext, auto simp: wire_memory_def wire_read_def wire_bytes_def load_le_bytes map_option_case
        split: option.split)+
  have s: "implements (pb_write E (BufStack (le_bytes n v)) (of_nat n)) (wire_bytes (le_bytes n v))"
    if "n < 2 ^ 62" for n and v :: "'l::len word"
    using implements_write_stack [of "le_bytes n v" E] that by simp
  show "implements (pb_encode_fixed32 E p) (wire_memory 4 p)"
    unfolding w pb_encode_fixed32_def [abs_def] fixed_bytes
    using s [of 4] by (intro implements_read reads_intros) simp
  show "implements (pb_encode_fixed64 E p) (wire_memory 8 p)"
    unfolding w pb_encode_fixed64_def [abs_def] fixed_bytes
    using s [of 8] by (intro implements_read reads_intros) simp
qed

text \<open>A reference output that is defined less often is implemented as well.\<close>

definition wire_le :: "wire \<Rightarrow> wire \<Rightarrow> bool" where
  "wire_le a b \<longleftrightarrow> (\<forall>m r. a m = Some r \<longrightarrow> b m = Some r)"

lemma implements_le: "implements f b \<Longrightarrow> wire_le a b \<Longrightarrow> reads a \<Longrightarrow> implements f a"
  unfolding implements_def sizes_def fills_def wire_le_def by blast

lemma implements_string [impl_intros]:
  "implements (pb_encode_string E (BufMem p) n) (wire_delimited (wire_memory (unat n) p))"
proof (cases "unat n < 2 ^ 62")
  case True
  have "implements (pb_encode_string E (BufMem p) n) (wire_seq (wire_varint n) (wire_memory (unat n) p))"
    unfolding pb_encode_string_def [abs_def]
    by (intro implements_and_then implements_varint implements_write_mem True)
  moreover have "wire_le (wire_delimited (wire_memory (unat n) p)) (wire_seq (wire_varint n) (wire_memory (unat n) p))"
    using load_bytes_length [of _ p "unat n"]
    by (fastforce simp: wire_le_def wire_delimited_def wire_seq_def wire_memory_def wire_varint_def wire_bytes_def
        bind_eq_Some_conv split: if_splits)
  ultimately show ?thesis by (rule implements_le) (intro reads_intros)
next
  case False
  have "wire_delimited (wire_memory (unat n) p) m = None" for m
    using False load_bytes_length [of m p "unat n"]
    by (cases "load_bytes m p (unat n)") (auto simp: wire_delimited_def wire_memory_def)
  then have "wire_delimited (wire_memory (unat n) p) = (\<lambda>_. None)" by (rule ext)
  then show ?thesis by (simp add: implements_def sizes_def fills_def reads_const)
qed

lemma implements_empty_string [impl_intros]:
  "implements (pb_encode_string E BufNull 0) (wire_delimited (wire_bytes []))"
proof -
  have "pb_write E BufNull 0 = pb_write E (BufStack []) (of_nat (length ([] :: byte list)))"
    by (rule ext) (simp add: pb_write_def os_call_def buf_write_def split: ocallback.split)
  then have "pb_encode_string E BufNull 0 =
      (\<lambda>st. and_then (pb_encode_varint E 0 st) (pb_write E (BufStack []) (of_nat (length ([] :: byte list)))))"
    by (simp add: pb_encode_string_def [abs_def])
  moreover have "wire_delimited (wire_bytes []) = wire_seq (wire_varint 0) (wire_bytes [])"
    by (rule ext) (simp add: wire_delimited_def wire_seq_def wire_varint_def wire_bytes_def)
  moreover have "implements (pb_write E (BufStack []) (of_nat (length ([] :: byte list)))) (wire_bytes [])"
    by (rule implements_write_stack) simp
  ultimately show ?thesis by (simp only: implements_and_then [OF implements_varint])
qed

section \<open>Sizing first, writing second\<close>

text \<open>
  Packed arrays and submessages are encoded twice: once into a sizing stream for the length
  prefix, once into the output. The two passes agree.
\<close>

lemma wire_delimitedE:
  assumes "wire_delimited a m = Some r"
  obtains "a m = Some None" "r = None"
    | bs where "a m = Some (Some bs)" "length bs < 2 ^ 62" "r = Some (varint_bytes (of_nat (length bs)) @ bs)"
proof (cases "a m")
  case None
  then show ?thesis using assms by (simp add: wire_delimited_def)
next
  case (Some q)
  then show ?thesis using assms that by (cases q) (auto simp: wire_delimited_def split: if_splits)
qed

lemma unat_length: "n < 2 ^ 62 \<Longrightarrow> unat (of_nat n :: size_t) = n"
  by (simp add: unat_of_nat)

text \<open>The writes of a prefix and of what follows it, on a buffer.\<close>

lemma fills_prefix:
  assumes "implements f (wire_bytes xs)" and ready: "buffer_ready st"
    and k: "\<And>st1. f st = Some (True, st1) \<Longrightarrow> wrote xs st st1 \<Longrightarrow> buffer_ready st1 \<Longrightarrow>
      room st1 = room st - length xs \<Longrightarrow> mbytes (visible st) \<subseteq>\<^sub>m mbytes (visible st1) \<Longrightarrow>
      \<exists>ok st' bs'. k st1 = Some (ok, st') \<and> wrote bs' st1 st' \<and> outcome (room st1) (Some bs) ok bs'"
  shows "\<exists>ok st' bs'. and_then (f st) k = Some (ok, st') \<and> wrote bs' st st' \<and>
    outcome (room st) (Some (xs @ bs)) ok bs'"
proof -
  have "wire_bytes xs (visible st) = Some (Some xs)" by (simp add: wire_bytes_def)
  from fillsD [OF assms(1) ready this] obtain ok1 st1 bs1 where
    f: "f st = Some (ok1, st1)" "wrote bs1 st st1" "outcome (room st) (Some xs) ok1 bs1" by blast
  show ?thesis
  proof (cases ok1)
    case False
    with f show ?thesis by (auto simp: outcome_def split: if_splits)
  next
    case True
    then have xs: "bs1 = xs" "length xs \<le> room st" using f(3) by (auto simp: outcome_def split: if_splits)
    from wrote_ready [OF f(2) ready] xs have r1: "buffer_ready st1" "room st1 = room st - length xs"
      "mbytes (visible st) \<subseteq>\<^sub>m mbytes (visible st1)" by auto
    have "\<exists>ok st' bs'. k st1 = Some (ok, st') \<and> wrote bs' st1 st' \<and> outcome (room st1) (Some bs) ok bs'"
      by (rule k) (use f True xs r1 in auto)
    then obtain ok st' bs' where
      g: "k st1 = Some (ok, st')" "wrote bs' st1 st'" "outcome (room st1) (Some bs) ok bs'" by blast
    have "wrote (xs @ bs') st st'" using f(2) g(2) xs(1) by (blast intro: wrote_trans)
    moreover have "outcome (room st) (Some (xs @ bs)) ok (xs @ bs')"
      using g(3) xs(2) r1(2) by (auto simp: outcome_def split: if_splits)
    ultimately show ?thesis using f(1) True g(1) by auto
  qed
qed

lemma fills_error:
  "buffer_ready st \<Longrightarrow> r = None \<or> (\<exists>bs. r = Some bs \<and> room st < length bs) \<Longrightarrow>
   \<exists>ok st' bs'. os_error msg st = Some (ok, st') \<and> wrote bs' st st' \<and> outcome (room st) r ok bs'"
  by (intro exI [of _ False] exI [of _ "[]"]) (auto simp: os_error_def wrote_def outcome_def)

lemma submessage_buffer:
  assumes ready: "buffer_ready st" and enc: "implements (enc t src) a"
    and bs: "a (visible st) = Some (Some bs)" and len: "length bs < 2 ^ 62"
    and sub: "os_callback s = os_callback (fst st)" "os_state s = os_state (fst st)"
      "os_max_size s = of_nat (length bs)" "os_bytes_written s = 0" and fit: "length bs \<le> room st"
  shows "\<exists>st'. enc t src (s, snd st) = Some (True, st') \<and> wrote bs (s, snd st) st'"
proof -
  have r: "room (s, snd st) = length bs" using sub len by (simp add: room_def unat_length)
  have "live (snd st) (os_state (fst st)) (length bs)" using ready fit by (rule ready_live)
  then have rd: "buffer_ready (s, snd st)" using ready sub len r
    by (simp add: buffer_ready_def unat_length)
  have "mbytes (visible st) \<subseteq>\<^sub>m mbytes (visible (s, snd st))"
    using r fit sub by (auto simp: map_le_def visible_def mhide_def mdrop_def split: if_splits)
  from readsD [OF implements_reads [OF enc] this bs]
  have "a (visible (s, snd st)) = Some (Some bs)" .
  from fillsD [OF enc rd this] show ?thesis by (auto simp: r outcome_simps)
qed

lemma sizing_pass:
  assumes "implements f a"
  shows "a m = Some None \<Longrightarrow> \<exists>sub. f (PB_OSTREAM_SIZING, m) = Some (False, (sub, m))"
    and "a m = Some (Some bs) \<Longrightarrow> \<exists>sub. f (PB_OSTREAM_SIZING, m) = Some (True, (sub, m)) \<and>
      os_bytes_written sub = of_nat (length bs)"
  using sizesD [OF assms, of "(PB_OSTREAM_SIZING, m)"]
  by (fastforce simp: PB_OSTREAM_SIZING_def counted_simps sized_def)+

lemma submessage_sizes:
  assumes enc: "implements (enc t src) a"
  shows "sizes (pb_encode_submessage E enc t src) (wire_delimited a)"
  unfolding sizes_def
proof (intro allI impI)
  fix st :: est and r
  assume null: "os_callback (fst st) = OC_NULL" and "wire_delimited a (snd st) = Some r"
  from this(2) show "\<exists>ok st'. pb_encode_submessage E enc t src st = Some (ok, st') \<and> counted r ok st st'"
  proof (cases rule: wire_delimitedE)
    case 1
    from sizing_pass(1) [OF enc 1(1)] 1(2) show ?thesis
      by (auto simp: pb_encode_submessage_def counted_simps)
  next
    case (2 bs)
    let ?n = "of_nat (length bs) :: size_t"
    from sizesD [OF enc, of "(PB_OSTREAM_SIZING, snd st)" "Some bs"] 2(1) obtain sub where
      sub: "enc t src ((PB_OSTREAM_SIZING, snd st)) = Some (True, (sub, snd st))" "os_bytes_written sub = ?n"
      by (auto simp: PB_OSTREAM_SIZING_def counted_simps sized_def)
    from sizesD [OF implements_varint [of E ?n] null, of "Some (varint_bytes ?n)"] obtain st1 where
      st1: "pb_encode_varint E ?n st = Some (True, st1)" "sized (length (varint_bytes ?n)) st st1"
      by (auto simp: wire_varint_def wire_bytes_def counted_simps)
    have null1: "os_callback (fst st1) = OC_NULL" using st1(2) null by (rule sized_null)
    from pb_write_sizes [OF null1, of ?n bs E BufNull] 2(2) obtain st2 where
      st2: "pb_write E BufNull ?n st1 = Some (True, st2)" "sized (length bs) st1 st2"
      by (auto simp: unat_length counted_simps)
    have "sized (length (varint_bytes ?n @ bs)) st st2" using sized_trans [OF st1(2) st2(2)] by simp
    then show ?thesis using sub st1(1) st2(1) null1 2(3)
      by (auto simp: pb_encode_submessage_def counted_simps)
  qed
qed

lemma submessage_fills:
  assumes enc: "implements (enc t src) a"
  shows "fills (pb_encode_submessage E enc t src) (wire_delimited a)"
  unfolding fills_def
proof (intro allI impI)
  fix st :: est and r
  assume ready: "buffer_ready st" and "wire_delimited a (visible st) = Some r"
  from this(2) show "\<exists>ok st' bs'. pb_encode_submessage E enc t src st = Some (ok, st') \<and> wrote bs' st st' \<and>
      outcome (room st) r ok bs'"
  proof (cases rule: wire_delimitedE)
    case 1
    have "a (snd st) = Some None"
      using visible_reads [OF implements_reads [OF enc] 1(1)] by simp
    from sizing_pass(1) [OF enc this] obtain sub where "enc t src ((PB_OSTREAM_SIZING, snd st)) = Some (False, (sub, snd st))"
      by blast
    then show ?thesis using 1(2)
      by (intro exI [of _ False] exI [of _ "[]"])
        (auto simp: pb_encode_submessage_def wrote_def outcome_simps)
  next
    case (2 bs)
    let ?n = "of_nat (length bs) :: size_t"
    have "a (snd st) = Some (Some bs)"
      using visible_reads [OF implements_reads [OF enc] 2(1)] by simp
    from sizing_pass(2) [OF enc this] obtain sub where
      sub: "enc t src ((PB_OSTREAM_SIZING, snd st)) = Some (True, (sub, snd st))" "os_bytes_written sub = ?n"
      by blast
    have cb: "os_callback (fst st) = OC_buf_write" using ready by (simp add: buffer_ready_def)
    let ?k = "\<lambda>st :: est.
       if os_callback (fst st) = OC_NULL then pb_write E BufNull ?n st
       else if os_bytes_written (fst st) + ?n > os_max_size (fst st) then os_error ''stream full'' st
       else do {
         (status, sub) \<leftarrow> enc t src
           (sub\<lparr>os_callback := os_callback (fst st), os_state := os_state (fst st),
              os_max_size := ?n, os_bytes_written := 0, os_errmsg := None\<rparr>, snd st);
         let st = ((fst st)\<lparr>os_bytes_written := os_bytes_written (fst st) + os_bytes_written (fst sub),
                      os_state := os_state (fst sub), os_errmsg := os_errmsg (fst sub)\<rparr>, snd sub);
         if os_bytes_written (fst sub) \<noteq> ?n then os_error ''submsg size changed'' st
         else Some (status, st) }"
    have op: "pb_encode_submessage E enc t src st = and_then (pb_encode_varint E ?n st) ?k"
      by (simp add: pb_encode_submessage_def sub Let_def cong: if_cong)
    show ?thesis unfolding op 2(3)
    proof (rule fills_prefix [OF implements_varint [unfolded wire_varint_def] ready])
      fix st1 :: est
      assume r1: "buffer_ready st1" and mono: "mbytes (visible st) \<subseteq>\<^sub>m mbytes (visible st1)"
      have cb: "os_callback (fst st1) = OC_buf_write" using r1 by (simp add: buffer_ready_def)
      have full: "os_bytes_written (fst st1) + ?n > os_max_size (fst st1) \<longleftrightarrow> room st1 < length bs"
        using room_iff [OF r1, of ?n] 2(2) by (simp add: unat_length)
      have a1: "a (visible st1) = Some (Some bs)" using implements_reads [OF enc] mono 2(1) by (rule readsD)
      show "\<exists>ok st' bs'. ?k st1 = Some (ok, st') \<and> wrote bs' st1 st' \<and> outcome (room st1) (Some bs) ok bs'"
      proof (cases "room st1 < length bs")
        case True
        with cb full fills_error [OF r1] show ?thesis by simp
      next
        case False
        let ?s = "sub\<lparr>os_callback := os_callback (fst st1), os_state := os_state (fst st1),
              os_max_size := ?n, os_bytes_written := 0, os_errmsg := None\<rparr>"
        obtain st' where st': "enc t src (?s, snd st1) = Some (True, st')" "wrote bs (?s, snd st1) st'"
          using submessage_buffer [where s = ?s and enc = enc and t = t and src = src, OF r1 enc a1 2(2)] False by auto
        show ?thesis using False cb full st'
          by (intro exI [of _ True] exI [of _ bs]) (auto simp: wrote_def outcome_simps)
      qed
    qed
  qed
qed

lemma implements_submessage [impl_intros]:
  assumes enc: "implements (enc t src) a"
  shows "implements (pb_encode_submessage E enc t src) (wire_delimited a)"
proof (rule implementsI)
  show "reads (wire_delimited a)" using enc by (intro reads_intros implements_reads)
  show "sizes (pb_encode_submessage E enc t src) (wire_delimited a)" using enc by (rule submessage_sizes)
  show "fills (pb_encode_submessage E enc t src) (wire_delimited a)" using enc by (rule submessage_fills)
qed

definition packed_run :: "'a pb_enc_env_scheme \<Rightarrow> (mem \<Rightarrow> (bool \<times> size_t \<times> mem) option) \<Rightarrow> enc_op \<Rightarrow> enc_op" where
  "packed_run E ps g st = do {
     (ok, size, m) \<leftarrow> ps (snd st);
     let st = (fst st, m);
     if \<not> ok then Some (False, st)
     else and_then (pb_encode_varint E size st) (\<lambda>st.
       if os_callback (fst st) = OC_NULL then pb_write E BufNull size st else g st) }"

lemma implements_packed:
  assumes g: "implements g a"
    and err: "\<And>m. a m = Some None \<Longrightarrow> \<exists>sz. ps m = Some (False, sz, m)"
    and ok: "\<And>m bs. a m = Some (Some bs) \<Longrightarrow> ps m = Some (True, of_nat (length bs), m)"
  shows "implements (packed_run E ps g) (wire_delimited a)"
proof (rule implementsI)
  show "reads (wire_delimited a)" using g by (intro reads_intros implements_reads)
  show "sizes (packed_run E ps g) (wire_delimited a)"
    unfolding sizes_def
  proof (intro allI impI)
    fix st :: est and r
    assume null: "os_callback (fst st) = OC_NULL" and "wire_delimited a (snd st) = Some r"
    from this(2) show "\<exists>ok st'. packed_run E ps g st = Some (ok, st') \<and> counted r ok st st'"
    proof (cases rule: wire_delimitedE)
      case 1
      from err [OF 1(1)] 1(2) show ?thesis by (cases st) (auto simp: packed_run_def counted_simps)
    next
      case (2 bs)
      let ?n = "of_nat (length bs) :: size_t"
      from sizesD [OF implements_varint [of E ?n] null, of "Some (varint_bytes ?n)"] obtain st1 where
        st1: "pb_encode_varint E ?n st = Some (True, st1)" "sized (length (varint_bytes ?n)) st st1"
        by (auto simp: wire_varint_def wire_bytes_def counted_simps)
      have null1: "os_callback (fst st1) = OC_NULL" using st1(2) null by (rule sized_null)
      from pb_write_sizes [OF null1, of ?n bs E BufNull] 2(2) obtain st2 where
        st2: "pb_write E BufNull ?n st1 = Some (True, st2)" "sized (length bs) st1 st2"
        by (auto simp: unat_length counted_simps)
      have "sized (length (varint_bytes ?n @ bs)) st st2" using sized_trans [OF st1(2) st2(2)] by simp
      then show ?thesis using ok [OF 2(1)] st1(1) st2(1) null1 2(3)
        by (auto simp: packed_run_def counted_simps)
    qed
  qed
  show "fills (packed_run E ps g) (wire_delimited a)"
    unfolding fills_def
  proof (intro allI impI)
    fix st :: est and r
    assume ready: "buffer_ready st" and "wire_delimited a (visible st) = Some r"
    from this(2) show "\<exists>ok st' bs'. packed_run E ps g st = Some (ok, st') \<and> wrote bs' st st' \<and>
        outcome (room st) r ok bs'"
    proof (cases rule: wire_delimitedE)
      case 1
      from err [OF visible_reads [OF implements_reads [OF g] 1(1)]] 1(2) show ?thesis
        by (intro exI [of _ False] exI [of _ st] exI [of _ "[]"]) (auto simp: packed_run_def wrote_def outcome_simps)
    next
      case (2 bs)
      let ?n = "of_nat (length bs) :: size_t"
      let ?k = "\<lambda>st. if os_callback (fst st) = OC_NULL then pb_write E BufNull ?n st else g st"
      have op: "packed_run E ps g st = and_then (pb_encode_varint E ?n st) ?k"
        using ok [OF visible_reads [OF implements_reads [OF g] 2(1)]] by (simp add: packed_run_def)
      show ?thesis unfolding op 2(3)
      proof (rule fills_prefix [OF implements_varint [unfolded wire_varint_def] ready])
        fix st1 :: est
        assume r1: "buffer_ready st1" and mono: "mbytes (visible st) \<subseteq>\<^sub>m mbytes (visible st1)"
        have "a (visible st1) = Some (Some bs)" using implements_reads [OF g] mono 2(1) by (rule readsD)
        from fillsD [OF g r1 this] r1
        show "\<exists>ok st' bs'. ?k st1 = Some (ok, st') \<and> wrote bs' st1 st' \<and> outcome (room st1) (Some bs) ok bs'"
          by (simp add: buffer_ready_def)
      qed
    qed
  qed
qed

section \<open>Arrays\<close>

lemma implements_array_loop [impl_intros]:
  assumes "\<And>i. i < n \<Longrightarrow> implements (f (p + int i * step)) (a i)"
  shows "implements (array_loop n f p step) (wire_list (map a [0..<n]))"
  using assms
proof (induction n arbitrary: p a)
  case 0
  have "array_loop 0 f p step = (\<lambda>st. Some (True, st))" by (rule ext) simp
  then show ?case by (simp add: implements_return)
next
  case (Suc n)
  have "implements (f (p + step + int i * step)) (a (Suc i))" if "i < n" for i
    using Suc.prems [of "Suc i"] that by (simp add: algebra_simps)
  from Suc.IH [of "p + step" "\<lambda>i. a (Suc i)", OF this]
  have "implements (array_loop n f (p + step) step) (wire_list (map (\<lambda>i. a (Suc i)) [0..<n]))" .
  moreover have "implements (f p) (a 0)" using Suc.prems [of 0] by simp
  moreover have "array_loop (Suc n) f p step = (\<lambda>st. and_then (f p st) (array_loop n f (p + step) step))"
    by (rule ext) simp
  moreover have "map a [0..<Suc n] = a 0 # map (\<lambda>i. a (Suc i)) [0..<n]"
    by (simp add: upt_rec [of 0] map_Suc_upt [symmetric] del: upt_Suc)
  ultimately show ?case by (simp only: wire_list.simps implements_and_then)
qed

section \<open>What the field encoders read\<close>

lemma reads_enc_strlen [reads_intros]: "reads (\<lambda>m. enc_strlen m max_size n p)"
proof -
  have "mbytes m \<subseteq>\<^sub>m mbytes m' \<Longrightarrow> enc_strlen m max_size n p = Some x \<Longrightarrow> enc_strlen m' max_size n p = Some x"
    for m m' :: mem and x
  proof (induction m max_size n p rule: enc_strlen.induct)
    case (1 m max_size n p)
    show ?case
    proof (cases "n < max_size")
      case False
      then show ?thesis using "1.prems"(2) by (simp add: enc_strlen.simps)
    next
      case True
      then obtain c where c: "load8 m p = Some c"
        and x: "(if c \<noteq> 0 then enc_strlen m max_size (n + 1) (p + 1) else Some n) = Some x"
        using "1.prems"(2) by (subst (asm) enc_strlen.simps) (auto simp: bind_eq_Some_conv)
      have c': "load8 m' p = Some c" using reads_loads(1) "1.prems"(1) c by (rule readsD)
      show ?thesis using True c c' x "1.IH" [OF True] "1.prems"(1)
        by (subst enc_strlen.simps) (auto split: if_splits)
    qed
  qed
  then show ?thesis by (simp add: reads_def)
qed

lemma reads_all_zero [reads_intros]: "reads (\<lambda>m. all_zero m p n)"
proof (induction n arbitrary: p)
  case 0
  then show ?case by (simp add: reads_const)
next
  case (Suc n)
  then show ?case unfolding all_zero.simps by (intro reads_intros)
qed

lemma reads_and_then [reads_intros]:
  assumes "reads r" and "\<And>u. reads (\<lambda>m. k m u)"
  shows "reads (\<lambda>m. and_then (r m) (k m))"
  using assms unfolding reads_def and_then_def by (fastforce simp: bind_eq_Some_conv split: if_splits)

lemma reads_iter_loop [reads_intros]:
  assumes "\<And>iter u. reads (\<lambda>m. body m iter u)"
  shows "reads (\<lambda>m. iter_loop n nxt (body m) iter u)"
proof (induction n arbitrary: iter u)
  case 0
  then show ?case by (simp add: reads_const)
next
  case (Suc n)
  show ?case unfolding iter_loop.simps by (intro reads_intros assms Suc.IH)
qed

lemma reads_proto3_default [reads_intros]: "reads (\<lambda>m. pb_check_proto3_default_value n T m f p)"
proof (induction n arbitrary: f p)
  case 0
  then show ?case by (simp add: reads_const)
next
  case (Suc n)
  show ?case
    unfolding pb_check_proto3_default_value.simps Let_def bytes_array_size_def
    by (intro reads_intros Suc.IH)
qed

definition int_loader :: "(mem \<Rightarrow> uint32 \<Rightarrow> addr \<Rightarrow> uint64 option option) \<Rightarrow> bool" where
  "int_loader ld \<longleftrightarrow> (\<forall>l p. (\<forall>m. ld m l p = None) \<or> (\<exists>rd. reads rd \<and> (\<forall>m. ld m l p = Some (rd m))))"

lemma int_loader_by_size:
  assumes "\<And>p. reads (r1 p)" "\<And>p. reads (r2 p)" "\<And>p. reads (r4 p)" "\<And>p. reads (r8 p)"
  shows "int_loader (\<lambda>m l p. if l = 1 then Some (r1 p m) else if l = 2 then Some (r2 p m)
    else if l = 4 then Some (r4 p m) else if l = 8 then Some (r8 p m) else None)"
  unfolding int_loader_def
proof (intro allI)
  fix l :: uint32 and p
  consider "l = 1" | "l = 2" | "l = 4" | "l = 8" | "l \<notin> {1, 2, 4, 8}" by blast
  then show "(\<forall>m. (if l = 1 then Some (r1 p m) else if l = 2 then Some (r2 p m)
      else if l = 4 then Some (r4 p m) else if l = 8 then Some (r8 p m) else None) = None) \<or>
    (\<exists>rd. reads rd \<and> (\<forall>m. (if l = 1 then Some (r1 p m) else if l = 2 then Some (r2 p m)
      else if l = 4 then Some (r4 p m) else if l = 8 then Some (r8 p m) else None) = Some (rd m)))"
    using assms [of p] by cases (auto intro: exI [of _ "r8 p"])
qed

lemma int_loader_load: "int_loader load_signed" "int_loader load_unsigned"
  unfolding load_signed_def [abs_def] load_unsigned_def [abs_def]
  by (intro int_loader_by_size reads_intros)+

lemma reads_members [reads_intros]:
  "reads (\<lambda>m. bytes_array_size m p)" "reads (\<lambda>m. callback_funcs m p)" "reads (\<lambda>m. ext_type m p)"
  "reads (\<lambda>m. ext_dest m p)" "reads (\<lambda>m. ext_next m p)"
  unfolding bytes_array_size_def callback_funcs_def ext_type_def ext_dest_def ext_next_def
  by (intro reads_intros)+

section \<open>Field encoders\<close>

lemma implements_int:
  assumes ld: "int_loader ld" and enc: "\<And>v. implements (enc v) (wire_varint (conv v))"
  shows "implements (\<lambda>st. case ld (snd st) (f_data_size f) p of
      None \<Rightarrow> os_error ''invalid data_size'' st | Some r \<Rightarrow> do { v \<leftarrow> r; enc v st }) (wire_int ld conv f p)"
proof -
  consider "\<forall>m. ld m (f_data_size f) p = None"
    | rd where "reads rd" "\<forall>m. ld m (f_data_size f) p = Some (rd m)"
    using ld unfolding int_loader_def by blast
  then show ?thesis
  proof cases
    case 1
    have "wire_int ld conv f p = wire_error" by (rule ext) (simp add: 1 wire_int_def wire_error_def)
    then show ?thesis using implements_error by (simp add: 1)
  next
    case 2
    have "wire_int ld conv f p = wire_read rd (\<lambda>v. wire_varint (conv v))"
      by (rule ext) (simp add: 2 wire_int_def wire_read_def)
    then show ?thesis using implements_read [OF 2(1) enc] by (simp add: 2(2))
  qed
qed

lemma implements_undefined: "reads a \<Longrightarrow> (\<And>m. a m = None) \<Longrightarrow> implements f a"
  by (simp add: implements_def sizes_def fills_def)

lemma implements_none [impl_intros]: "implements f (\<lambda>_. None)"
  by (rule implements_undefined) (auto intro: reads_intros)

lemma alloc_size_exceeds:
  "PB_BYTES_ARRAY_T_ALLOCSIZE n > ucast (k :: uint32) \<longleftrightarrow> uint n + 4 > uint k"
proof -
  have "uint n < 2 ^ 32" using uint_lt2p [of n] by simp
  then have "uint (ucast n + 4 :: size_t) = uint n + 4"
    by (simp add: uint_word_ariths uint_up_ucast is_up)
  then show ?thesis by (simp add: PB_BYTES_ARRAY_T_ALLOCSIZE_def word_less_def uint_up_ucast is_up)
qed

lemma implements_if [impl_intros]:
  "(b \<Longrightarrow> implements f a) \<Longrightarrow> (\<not> b \<Longrightarrow> implements g c) \<Longrightarrow> implements (\<lambda>st. if b then f st else g st) (if b then a else c)"
  by (cases b) auto

lemma unat_ucast_32: "unat (ucast (n :: uint32) :: size_t) = unat n"
proof -
  have "unat n < 2 ^ 64" using unsigned_less [of n] by (rule less_trans) simp
  then show ?thesis by (simp add: unsigned_ucast_eq take_bit_nat_eq_self)
qed

lemma implements_bytes_field: "implements (pb_enc_bytes E f p) (wire_bytes_field f p)"
  unfolding pb_enc_bytes_def [abs_def] wire_bytes_field_def alloc_size_exceeds
  using implements_string [of E _ "ucast n" for n :: uint32, unfolded unat_ucast_32]
  by (intro implements_if implements_read reads_intros implements_empty_string implements_error)

lemma implements_string_field: "implements (pb_enc_string E f p) (wire_string_field f p)"
proof (cases "p = 0")
  case True
  then have "pb_enc_string E f p = pb_encode_string E BufNull 0"
    by (intro ext) (simp add: pb_enc_string_def)
  then show ?thesis using True by (simp add: wire_string_field_def implements_empty_string)
next
  case False
  have "implements (\<lambda>st. do { size \<leftarrow> enc_strlen (snd st)
      (if PB_ATYPE (f_type f) = PB_ATYPE_POINTER then - 1 else ucast (f_data_size f)) 0 p;
      pb_encode_string E (BufMem p) size st }) (wire_string_field f p)"
    unfolding wire_string_field_def if_not_P [OF False]
    by (intro implements_read reads_intros implements_string)
  then show ?thesis using False by (simp add: pb_enc_string_def [abs_def] Let_def)
qed

lemma if_SomeE:
  assumes "(if b then Some x else r) = Some y"
  obtains "b" "y = x" | "\<not> b" "r = Some y"
  using assms by (auto split: if_splits)

lemma implements_value:
  assumes sub: "\<And>t p. implements (enc t p) (sub t p)" and func: "PB_ENCODERS E enc (PB_LTYPE (f_type f)) = Some func"
  shows "implements (func f p) (wire_value sub f p)"
proof -
  have s: "implements (pb_enc_submessage E enc f p)
      (case f_ptr f of FNull \<Rightarrow> wire_error | FFields t \<Rightarrow> wire_delimited (sub t p) | FDefault _ \<Rightarrow> (\<lambda>_. None))"
    using sub by (cases "f_ptr f")
      (simp_all add: pb_enc_submessage_def [abs_def] implements_error implements_submessage implements_none)
  have v: "implements (pb_enc_varint E f p) (wire_int load_signed id f p)"
    "implements (pb_enc_uvarint E f p) (wire_int load_unsigned id f p)"
    "implements (pb_enc_svarint E f p) (wire_int load_signed zigzag f p)"
    unfolding pb_enc_varint_def [abs_def] pb_enc_uvarint_def [abs_def] pb_enc_svarint_def [abs_def]
    by (rule implements_int [OF int_loader_load(1)], simp add: implements_varint)
      (rule implements_int [OF int_loader_load(2)], simp add: implements_varint,
       rule implements_int [OF int_loader_load(1)], simp add: implements_svarint)
  have l: "implements (pb_enc_fixed_length_bytes E f p) (wire_delimited (wire_memory (unat (f_data_size f)) p))"
    using implements_string [of E p "ucast (f_data_size f)"]
    by (simp add: pb_enc_fixed_length_bytes_def [abs_def] unat_ucast_32)
  have x: "implements (pb_enc_fixed32 E f p) (wire_memory 4 p)" "implements (pb_enc_fixed64 E f p) (wire_memory 8 p)"
    using implements_fixed by (simp_all add: pb_enc_fixed32_def [abs_def] pb_enc_fixed64_def [abs_def])
  have ne: "PB_LTYPE_EXTENSION \<noteq> PB_LTYPE_FIXED_LENGTH_BYTES" by (simp add: pb_consts)
  from func show ?thesis
    unfolding PB_ENCODERS_def wire_value_def Let_def
    by (elim if_SomeE)
      (simp_all add: v x l s ne implements_bytes_field implements_string_field implements_none split: if_splits)
qed

lemma implements_present:
  assumes "\<And>t p. implements (enc t p) (sub t p)" and "PB_ENCODERS E enc (PB_LTYPE (f_type f)) = Some func"
  shows "implements (encode_present E func f p) (wire_present sub f p)"
  unfolding encode_present_def [abs_def] wire_present_def
  by (intro implements_and_then implements_tag_for_field implements_value [OF assms])

lemma implements_item:
  assumes "\<And>t p. implements (enc t p) (sub t p)" and "PB_ENCODERS E enc (PB_LTYPE (f_type f)) = Some func"
  shows "implements (array_item E func f p) (wire_item sub f p)"
  unfolding array_item_def [abs_def] wire_item_def
  by (intro implements_and_then implements_tag_for_field implements_if implements_read reads_intros
      implements_value [OF assms])

lemma wire_list_memory:
  "wire_list (map (\<lambda>i. wire_memory k (q i)) js) m \<noteq> Some None"
  "wire_list (map (\<lambda>i. wire_memory k (q i)) js) m = Some (Some bs) \<Longrightarrow> length bs = k * length js"
proof (induction js arbitrary: bs)
  case Nil
  { case 1 then show ?case by (simp add: wire_bytes_def) }
  { case 2 then show ?case by (simp add: wire_bytes_def) }
next
  case (Cons j js)
  { case 1 then show ?case using Cons(1)
      by (auto simp: wire_seq_def wire_memory_def map_option_case bind_eq_Some_conv split: option.splits) }
  { case 2 then show ?case using Cons(2) load_bytes_length [of m "q j" k]
      by (auto simp: wire_seq_def wire_memory_def bind_eq_Some_conv split: option.splits) }
qed

lemma wire_value_fixed:
  "PB_LTYPE (f_type f) = PB_LTYPE_FIXED32 \<Longrightarrow> wire_value sub f = wire_memory 4"
  "PB_LTYPE (f_type f) = PB_LTYPE_FIXED64 \<Longrightarrow> wire_value sub f = wire_memory 8"
  by (rule ext; simp add: wire_value_def pb_consts)+

text \<open>The length that precedes a packed array is the number of bytes of its elements.\<close>

lemma packed_size_exact:
  assumes impl: "implements (array_loop (unat count) (func f) p (uint (f_data_size f))) a"
    and a: "a = wire_list (map (\<lambda>i. wire_value sub f (element_addr f p i)) [0..<unat count])"
  shows "a m = Some None \<Longrightarrow> \<exists>sz. packed_size func f p count m = Some (False, sz, m)"
    and "a m = Some (Some bs) \<Longrightarrow> packed_size func f p count m = Some (True, of_nat (length bs), m)"
proof -
  assume "a m = Some None"
  then show "\<exists>sz. packed_size func f p count m = Some (False, sz, m)"
    using sizing_pass(1) [OF impl, of m] unfolding a
    by (auto simp: packed_size_def wire_value_fixed wire_list_memory(1))
next
  assume bs: "a m = Some (Some bs)"
  show "packed_size func f p count m = Some (True, of_nat (length bs), m)"
  proof (cases "PB_LTYPE (f_type f) = PB_LTYPE_FIXED32 \<or> PB_LTYPE (f_type f) = PB_LTYPE_FIXED64")
    case True
    then show ?thesis using bs wire_list_memory(2) [of _ "element_addr f p" "[0..<unat count]" m bs] unfolding a
      by (auto simp: packed_size_def wire_value_fixed)
  next
    case False
    then show ?thesis using sizing_pass(2) [OF impl bs] by (auto simp: packed_size_def)
  qed
qed

lemma implements_array:
  assumes sub: "\<And>t p. implements (enc t p) (sub t p)" and func: "PB_ENCODERS E enc (PB_LTYPE (f_type f)) = Some func"
  shows "implements (encode_array E f p (ucast count) func) (wire_array sub f p count)"
proof -
  let ?c = "ucast count :: size_t"
  have c: "?c = 0 \<longleftrightarrow> count = 0" "unat ?c = unat count" "?c > ucast (f_array_size f) \<longleftrightarrow> count > f_array_size f"
    by (simp_all add: word_less_nat_alt unat_ucast_32 word_unat_eq_iff)
  let ?g = "array_loop (unat count) (func f) p (uint (f_data_size f))"
  let ?a = "wire_list (map (\<lambda>i. wire_value sub f (element_addr f p i)) [0..<unat count])"
  have g: "implements ?g ?a"
    by (rule implements_array_loop) (simp add: element_addr_def implements_value [OF sub func])
  have "implements (packed_run E (packed_size func f p ?c) ?g) (wire_delimited ?a)"
    using packed_size_exact [where count = ?c and func = func and f = f and p = p and sub = sub, unfolded c, OF g refl] by (intro implements_packed g)
  then have packed: "implements (\<lambda>st. and_then (pb_encode_tag E PB_WT_STRING (f_tag f) st)
      (packed_run E (packed_size func f p ?c) ?g))
      (wire_seq (wire_key (f_tag f) PB_WT_STRING) (wire_delimited ?a))"
    by (intro implements_and_then implements_tag)
  have items: "implements (array_loop (unat count) (array_item E func f) p (uint (f_data_size f)))
      (wire_list (map (\<lambda>i. wire_item sub f (element_addr f p i)) [0..<unat count]))"
    by (rule implements_array_loop) (simp add: element_addr_def implements_item [OF sub func])
  show ?thesis
    unfolding encode_array_def [abs_def] wire_array_def c
    using packed by (intro implements_if implements_return implements_error items)
      (simp add: packed_run_def [abs_def] Let_def)
qed

section \<open>Fields\<close>

lemma encoder_exists:
  assumes "\<not> PB_LTYPES_COUNT \<le> l"
  shows "\<exists>func. PB_ENCODERS E enc l = Some func"
proof -
  have "unat l < 10" using assms by (simp add: pb_consts word_le_nat_alt)
  then have "unat l \<in> {0, 1, 2, 3, 4, 5, 6, 7, 8, 9}" by auto
  then show ?thesis by (elim insertE emptyE) (simp_all add: PB_ENCODERS_def pb_consts word_unat_eq_iff)
qed

lemma encode_basic_field_eq:
  assumes "PB_ENCODERS E enc (PB_LTYPE (f_type f)) = Some func"
  shows "encode_basic_field n E enc f p = (\<lambda>st. do {
    d \<leftarrow> (if PB_ATYPE (f_type f) = PB_ATYPE_POINTER then load_ptr (snd st) p else Some p);
    if PB_HTYPE (f_type f) = PB_HTYPE_REQUIRED then
      (if d = 0 then os_error ''missing required field'' st else encode_present E func f d st)
    else if PB_HTYPE (f_type f) = PB_HTYPE_OPTIONAL then do {
      has \<leftarrow> optional_present n (env_tables E) f p d (snd st);
      if has then encode_present E func f d st else Some (True, st) }
    else if PB_HTYPE (f_type f) = PB_HTYPE_REPEATED then do {
      count \<leftarrow> (if f_size_offset f \<noteq> 0 then load32 (snd st) (p + sint (f_size_offset f)) else Some (f_array_size f));
      encode_array E f d (ucast count) func st }
    else if PB_HTYPE (f_type f) = PB_HTYPE_ONEOF then do {
      which \<leftarrow> (if f_size_offset f \<noteq> 0 then load32 (snd st) (p + sint (f_size_offset f)) else None);
      if which = f_tag f then encode_present E func f d st else Some (True, st) }
    else os_error ''invalid field type'' st })"
proof (cases "PB_HTYPE (f_type f) = PB_HTYPE_OPTIONAL")
  case True
  then have "PB_HTYPE (f_type f) \<noteq> PB_HTYPE_REQUIRED" by (simp add: pb_consts)
  with True show ?thesis
    unfolding encode_basic_field_def optional_present_def Let_def assms
    by (intro ext, cases "f_size_offset f = 0")
      (auto split: bind_splits simp: map_option_case split: option.splits)
next
  case False
  then show ?thesis unfolding encode_basic_field_def Let_def assms by (intro ext) (simp cong: if_cong)
qed

lemma implements_basic:
  assumes sub: "\<And>t p. implements (enc t p) (sub t p)"
  shows "implements (encode_basic_field n E enc f p) (wire_basic n (env_tables E) sub f p)"
proof (cases "PB_LTYPES_COUNT \<le> PB_LTYPE (f_type f)")
  case True
  then have "wire_basic n (env_tables E) sub f p = (\<lambda>_. None)"
    by (intro ext) (simp add: wire_basic_def wire_read_def Let_def)
  then show ?thesis by (simp add: implements_none)
next
  case False
  from encoder_exists [OF False] obtain func where func: "PB_ENCODERS E enc (PB_LTYPE (f_type f)) = Some func" by blast
  show ?thesis
    unfolding encode_basic_field_eq [OF func] wire_basic_def Let_def if_not_P [OF False] optional_present_def
    by (intro implements_read reads_intros implements_if implements_error implements_return
        implements_present [OF sub func] implements_array [OF sub func])
qed

text \<open>
  What the documentation of the library asks of the user's callbacks: the same output on every
  call, written through the stream.
\<close>

definition callbacks_implement :: "'a pb_enc_env_scheme \<Rightarrow> wire_env \<Rightarrow> bool" where
  "callbacks_implement E W \<longleftrightarrow>
     (\<forall>fn f arg. implements (env_enc_cb E fn f arg) (we_cb W fn f arg)) \<and>
     (\<forall>fn x. implements (env_ext_enc E fn x) (we_ext W fn x))"

lemma implements_relabel_error:
  assumes "implements f a"
  shows "implements (\<lambda>st. do { (ok, st') \<leftarrow> f st; if \<not> ok then os_error msg st' else Some (True, st') }) a"
proof (rule implementsI)
  let ?f = "\<lambda>st. do { (ok, st') \<leftarrow> f st; if \<not> ok then os_error msg st' else Some (True, st') }"
  have e: "?f st = (case f st of None \<Rightarrow> None | Some (ok, st') \<Rightarrow>
      Some (ok, if ok then st' else ((fst st')\<lparr>os_errmsg := PB_SET_ERROR (os_errmsg (fst st')) msg\<rparr>, snd st')))" for st
    by (auto simp: os_error_def split: bind_splits option.splits)
  show "reads a" using assms by (rule implements_reads)
  show "sizes ?f a"
    unfolding sizes_def
  proof (intro allI impI)
    fix st :: est and r assume "os_callback (fst st) = OC_NULL" "a (snd st) = Some r"
    from sizesD [OF assms this] show "\<exists>ok st'. ?f st = Some (ok, st') \<and> counted r ok st st'"
      unfolding e by (fastforce simp: counted_def split: option.splits)
  qed
  show "fills ?f a"
    unfolding fills_def
  proof (intro allI impI)
    fix st :: est and r assume "buffer_ready st" "a (visible st) = Some r"
    from fillsD [OF assms this]
    show "\<exists>ok st' bs'. ?f st = Some (ok, st') \<and> wrote bs' st st' \<and> outcome (room st) r ok bs'"
      unfolding e by (fastforce simp: wrote_def)
  qed
qed

lemma implements_callback:
  assumes "callbacks_implement E W"
  shows "implements (encode_callback_field E f p) (wire_callback W f p)"
proof -
  have cb: "implements (env_enc_cb E fn f (callback_arg p)) (we_cb W fn f (callback_arg p))" for fn
    using assms by (simp add: callbacks_implement_def)
  have "implements (\<lambda>st. do { fn \<leftarrow> callback_funcs (snd st) p;
      if fn = 0 then Some (True, st) else do {
        (ok, st') \<leftarrow> env_enc_cb E fn f (callback_arg p) st;
        if \<not> ok then os_error ''callback error'' st' else Some (True, st') } }) (wire_callback W f p)"
    unfolding wire_callback_def
    by (intro implements_read reads_intros implements_if implements_return
        implements_relabel_error [OF cb])
  moreover have "encode_callback_field E f p = (\<lambda>st. do { fn \<leftarrow> callback_funcs (snd st) p;
      if fn = 0 then Some (True, st) else do {
        (ok, st') \<leftarrow> env_enc_cb E fn f (callback_arg p) st;
        if \<not> ok then os_error ''callback error'' st' else Some (True, st') } })"
    by (intro ext) (simp add: encode_callback_field_def split: bind_splits)
  ultimately show ?thesis by simp
qed

lemma implements_field:
  assumes "callbacks_implement E W" and "\<And>t p. implements (enc t p) (sub t p)"
  shows "implements (encode_field n E enc f p) (wire_field n (env_tables E) W sub f p)"
  unfolding encode_field_def [abs_def] wire_field_def
  by (intro implements_if implements_basic implements_callback implements_error assms)

section \<open>Extensions and messages\<close>

lemma implements_extension:
  assumes "callbacks_implement E W" and "\<And>t p. implements (enc t p) (sub t p)"
  shows "implements (\<lambda>st. do { q \<leftarrow> ext_type (snd st) x; xt \<leftarrow> env_ext_types E q;
      if xt_encode xt \<noteq> 0 then env_ext_enc E (xt_encode xt) x st
      else default_extension_encoder n E enc xt x st }) (wire_extension n E W sub x)"
proof -
  have user: "implements (env_ext_enc E fn x) (we_ext W fn x)" for fn
    using assms(1) by (simp add: callbacks_implement_def)
  have field: "implements (encode_field n E enc f p) (wire_field n (env_tables E) W sub f p)" for f p
    using assms by (rule implements_field)
  have std: "implements (default_extension_encoder n E enc xt x)
      (wire_read (\<lambda>_. field_at (env_tables E) (xt_arg xt)) (\<lambda>f.
         if PB_ATYPE (f_type f) = PB_ATYPE_POINTER then wire_field n (env_tables E) W sub f (ext_dest_addr x)
         else wire_read (\<lambda>m. ext_dest m x) (wire_field n (env_tables E) W sub f)))" for xt
    unfolding default_extension_encoder_def [abs_def]
    by (intro implements_read reads_intros implements_if field)
  have "implements (\<lambda>st. do { xt \<leftarrow> Option.bind (ext_type (snd st) x) (env_ext_types E);
      if xt_encode xt \<noteq> 0 then env_ext_enc E (xt_encode xt) x st
      else default_extension_encoder n E enc xt x st }) (wire_extension n E W sub x)"
    unfolding wire_extension_def
    by (intro implements_read [where rd = "\<lambda>m. Option.bind (ext_type m x) (env_ext_types E)"]
        reads_intros implements_if user std)
  then show ?thesis by (simp add: bind_assoc)
qed

lemma implements_extension_loop:
  assumes "callbacks_implement E W" and "\<And>t p. implements (enc t p) (sub t p)"
  shows "implements (extension_loop k n E enc x) (wire_extensions k n E W sub x)"
proof (induction k arbitrary: x)
  case 0
  then show ?case by (simp add: implements_none)
next
  case (Suc k)
  have "implements (\<lambda>st. and_then (do { q \<leftarrow> ext_type (snd st) x; xt \<leftarrow> env_ext_types E q;
      if xt_encode xt \<noteq> 0 then env_ext_enc E (xt_encode xt) x st
      else default_extension_encoder n E enc xt x st })
      (\<lambda>st. do { nx \<leftarrow> ext_next (snd st) x; extension_loop k n E enc nx st }))
    (wire_seq (wire_extension n E W sub x) (wire_read (\<lambda>m. ext_next m x) (wire_extensions k n E W sub)))"
    by (intro implements_and_then implements_extension [OF assms] implements_read reads_intros Suc.IH)
  moreover have "extension_loop (Suc k) n E enc x = (\<lambda>st. if x = 0 then Some (True, st) else
      and_then (do { q \<leftarrow> ext_type (snd st) x; xt \<leftarrow> env_ext_types E q;
      if xt_encode xt \<noteq> 0 then env_ext_enc E (xt_encode xt) x st
      else default_extension_encoder n E enc xt x st })
      (\<lambda>st. do { nx \<leftarrow> ext_next (snd st) x; extension_loop k n E enc nx st }))"
    by (intro ext) (auto simp: and_then_def split: bind_splits)
  ultimately show ?case by (simp only: wire_extensions.simps implements_if implements_return)
qed

lemma implements_member:
  assumes "callbacks_implement E W" and "\<And>t p. implements (enc t p) (sub t p)"
    and wf: "table_wf (env_tables E t)" and k: "k < nfields (env_tables E t)"
  shows "implements (encode_member n E enc (iter_at (env_tables E t) t src k))
    (wire_member n E W sub (env_tables E t ! k) (src + field_offset (env_tables E t) k))"
proof -
  have f: "field_at (env_tables E) (t, k) = Some (env_tables E t ! k)"
    using field_at_table [where T = "env_tables E" and t = t, OF refl wf] k by simp
  show ?thesis
    unfolding encode_member_def [abs_def] wire_member_def encode_extension_field_def [abs_def]
    by (simp only: iter_at_sel f bind.bind_lunit, intro implements_if implements_read reads_intros
        implements_extension_loop [OF assms(1,2)] implements_field [OF assms(1,2)])
qed

lemma implements_run_all:
  "(\<And>x. x \<in> set xs \<Longrightarrow> implements (f x) (a x)) \<Longrightarrow> implements (run_all (map f xs)) (wire_list (map a xs))"
proof (induction xs)
  case Nil
  have "run_all [] = (\<lambda>st :: est. Some (True, st))" by (rule ext) simp
  then show ?case by (simp add: implements_return)
next
  case (Cons x xs)
  then have "implements (\<lambda>st. and_then (f x st) (run_all (map f xs))) (wire_seq (a x) (wire_list (map a xs)))"
    by (intro implements_and_then) simp_all
  moreover have "run_all (map f (x # xs)) = (\<lambda>st. and_then (f x st) (run_all (map f xs)))" by (rule ext) simp
  ultimately show ?case by simp
qed

lemma implements_message:
  assumes cb: "callbacks_implement E W"
  shows "implements (pb_encode n E t src) (wire_message n E W t src)"
proof (induction n arbitrary: t src)
  case 0
  then show ?case by (simp add: implements_none)
next
  case (Suc n)
  let ?fs = "env_tables E t"
  show ?case
  proof (cases "table_wf ?fs")
    case False
    then show ?thesis by (simp add: Let_def implements_none)
  next
    case wf: True
    have beg: "pb_field_iter_begin (env_tables E) (t, 0) src = Some (0 < nfields ?fs, iter_at ?fs t src 0)"
      by (rule iter_begin_at [where T = "env_tables E" and t = t, OF refl wf])
    have "implements (run_all (map (\<lambda>k. encode_member n E (pb_encode n E) (iter_at ?fs t src k)) [0..<nfields ?fs]))
        (wire_list (map (\<lambda>k. wire_member n E W (wire_message n E W) (?fs ! k) (src + field_offset ?fs k)) [0..<nfields ?fs]))"
      by (rule implements_run_all) (simp add: implements_member [OF cb Suc.IH wf])
    moreover have "pb_encode (Suc n) E t src =
        run_all (map (\<lambda>k. encode_member n E (pb_encode n E) (iter_at ?fs t src k)) [0..<nfields ?fs])"
      by (intro ext) (simp add: encode_message_def beg iter_loop_at [where T = "env_tables E" and t = t, OF wf])
    ultimately show ?thesis using wf by (simp add: Let_def)
  qed
qed

end
