(* ===== verification/Pb_Encode_Theorems.thy ===== *)
theory Pb_Encode_Theorems
  imports Pb_Encode_Correct
begin

text \<open>
  What a caller of \<^verbatim>\<open>nanopb/pb_encode.c\<close> may rely on, with a concrete message on which each
  theorem applies.
\<close>

section \<open>A concrete message\<close>

text \<open>
  \<^verbatim>\<open>struct { uint32_t a; bool has_s; char s[8]; pb_size_t n_count; int32_t n[3]; Sub sub; }\<close> with
  \<^verbatim>\<open>struct Sub { uint32_t x; }\<close>, filled with \<^verbatim>\<open>a = 300\<close>, \<^verbatim>\<open>s = "hi"\<close>, \<^verbatim>\<open>n = {-1, 1}\<close>
  and \<^verbatim>\<open>sub.x = 7\<close>, at address 1000; an output buffer of 32 bytes at address 2000.
\<close>

definition ex_field :: "uint32 \<Rightarrow> pb_type_t \<Rightarrow> uint32 \<Rightarrow> uint32 \<Rightarrow> uint32 \<Rightarrow> uint32 \<Rightarrow> field_ptr \<Rightarrow> pb_field" where
  "ex_field t ty off so ds n p = \<lparr>f_tag = t, f_type = ty, f_data_offset = off, f_size_offset = so,
     f_data_size = ds, f_array_size = n, f_ptr = p\<rparr>"

definition ex_tables :: field_tables where
  "ex_tables t =
     (if t = 0 then
        [ex_field 1 (PB_HTYPE_REQUIRED OR PB_LTYPE_UVARINT) 0 0 4 0 FNull,
         ex_field 2 (PB_HTYPE_OPTIONAL OR PB_LTYPE_STRING) 1 (- 1) 8 0 FNull,
         ex_field 3 (PB_HTYPE_REPEATED OR PB_LTYPE_SVARINT) 7 (- 4) 4 3 FNull,
         ex_field 4 (PB_HTYPE_REQUIRED OR PB_LTYPE_SUBMESSAGE) 0 0 4 0 (FFields 1),
         ex_field 0 0 0 0 0 0 FNull]
      else if t = 1 then
        [ex_field 1 (PB_HTYPE_REQUIRED OR PB_LTYPE_UVARINT) 0 0 4 0 FNull,
         ex_field 0 0 0 0 0 0 FNull]
      else [])"

definition ex_env :: pb_enc_env where
  "ex_env = \<lparr>env_tables = ex_tables, env_ext_types = (\<lambda>_. None), env_os_user = (\<lambda>_ _ _. None),
     env_enc_cb = (\<lambda>_ _ _ _. None), env_ext_enc = (\<lambda>_ _ _. None)\<rparr>"

definition ex_wire_env :: wire_env where
  "ex_wire_env = \<lparr>we_cb = (\<lambda>_ _ _ _. None), we_ext = (\<lambda>_ _ _. None)\<rparr>"

definition ex_struct :: "byte list" where
  "ex_struct = [0x2C, 1, 0, 0, 1, 0x68, 0x69, 0, 0, 0, 0, 0, 0, 0, 0, 0, 2, 0, 0, 0,
     0xFF, 0xFF, 0xFF, 0xFF, 1, 0, 0, 0, 0, 0, 0, 0, 7, 0, 0, 0]"

definition ex_bytes :: "addr \<rightharpoonup> byte" where
  "ex_bytes a = (if 1000 \<le> a \<and> a < 1036 then Some (ex_struct ! nat (a - 1000))
     else if 2000 \<le> a \<and> a < 2032 then Some 0 else None)"

definition ex_mem :: mem where
  "ex_mem = \<lparr>mbytes = ex_bytes, mblocks = Map.empty, mbrk = 4096, mfail = [], mjunk = (\<lambda>_. 0)\<rparr>"

definition ex_message :: "byte list" where
  "ex_message = [8, 0xAC, 2, 0x12, 2, 0x68, 0x69, 0x1A, 2, 1, 2, 0x22, 2, 8, 7]"

lemma ex_callbacks: "callbacks_implement ex_env ex_wire_env"
  by (simp add: callbacks_implement_def ex_wire_env_def implements_none)

lemma ex_wire: "wire_message 2 ex_env ex_wire_env 0 1000 (mhide ex_mem 2000 32) = Some (Some ex_message)"
  by code_simp

section \<open>Encoding into a buffer\<close>

lemma buffer_stream:
  assumes "live m buf (unat bufsize)" and "unat bufsize < 2 ^ 62"
  shows "buffer_ready (pb_ostream_from_buffer buf bufsize, m)"
    and "room (pb_ostream_from_buffer buf bufsize, m) = unat bufsize"
    and "visible (pb_ostream_from_buffer buf bufsize, m) = mhide m buf (unat bufsize)"
  using assms by (simp_all add: buffer_ready_def room_def visible_def pb_ostream_from_buffer_def)

lemma fills_buffer:
  assumes f: "implements f a" and live: "live m buf (unat bufsize)" and sz: "unat bufsize < 2 ^ 62"
    and r: "a (mhide m buf (unat bufsize)) = Some r"
  shows "\<exists>ok s bs. f (pb_ostream_from_buffer buf bufsize, m) = Some (ok, s, m\<lparr>mbytes := mput (mbytes m) buf bs\<rparr>) \<and>
    os_bytes_written s = of_nat (length bs) \<and> length bs \<le> unat bufsize \<and>
    (ok \<longleftrightarrow> (\<exists>out. r = Some out \<and> length out \<le> unat bufsize)) \<and> (ok \<longrightarrow> r = Some bs)"
proof -
  note b = buffer_stream [OF live sz]
  from r have "a (visible (pb_ostream_from_buffer buf bufsize, m)) = Some r" by (simp add: b)
  from fillsD [OF f b(1) this] obtain ok s m' bs where
    *: "f (pb_ostream_from_buffer buf bufsize, m) = Some (ok, s, m')"
      "wrote bs (pb_ostream_from_buffer buf bufsize, m) (s, m')" "outcome (unat bufsize) r ok bs"
    by (auto simp: b)
  have "m' = m\<lparr>mbytes := mput (mbytes m) buf bs\<rparr>" "os_bytes_written s = of_nat (length bs)"
    using *(2) by (simp_all add: wrote_def pb_ostream_from_buffer_def)
  with *(1,3) show ?thesis
    by (cases r) (auto simp: outcome_def split: if_splits)
qed

text \<open>
  C1: \<open>pb_encode\<close> into a memory buffer produces the reference encoding of the message, byte for
  byte, if and only if it fits; when it does not fit, or the message cannot be encoded, it returns
  false. In every case the only memory it changes is the first \<open>bytes_written\<close> bytes of the buffer,
  and \<open>bytes_written\<close> never exceeds the buffer's size.
\<close>

theorem pb_encode_into_buffer:
  assumes "callbacks_implement E W" and "live m buf (unat bufsize)" and "unat bufsize < 2 ^ 62"
    and "wire_message n E W t src (mhide m buf (unat bufsize)) = Some r"
  shows "\<exists>ok s bs. pb_encode n E t src (pb_ostream_from_buffer buf bufsize, m) =
      Some (ok, s, m\<lparr>mbytes := mput (mbytes m) buf bs\<rparr>) \<and>
    os_bytes_written s = of_nat (length bs) \<and> length bs \<le> unat bufsize \<and>
    (ok \<longleftrightarrow> (\<exists>out. r = Some out \<and> length out \<le> unat bufsize)) \<and> (ok \<longrightarrow> r = Some bs)"
  using implements_message [OF assms(1)] assms(2-4) by (rule fills_buffer)

lemma ex_buffer_live: "live ex_mem 2000 (unat (32 :: size_t))"
  by code_simp

lemma pb_encode_into_buffer_witness:
  "\<exists>ok s bs. pb_encode 2 ex_env 0 1000 (pb_ostream_from_buffer 2000 32, ex_mem) =
      Some (ok, s, ex_mem\<lparr>mbytes := mput (mbytes ex_mem) 2000 bs\<rparr>) \<and>
    os_bytes_written s = of_nat (length bs) \<and> length bs \<le> unat (32 :: size_t) \<and>
    (ok \<longleftrightarrow> (\<exists>out. Some ex_message = Some out \<and> length out \<le> unat (32 :: size_t))) \<and>
    (ok \<longrightarrow> Some ex_message = Some bs)"
  by (rule pb_encode_into_buffer [OF ex_callbacks ex_buffer_live]) (simp_all add: ex_wire)

section \<open>Sizes\<close>

lemma get_encoded_size_wire:
  assumes "implements (pb_encode n E t src) a" and "a m = Some r"
  shows "pb_get_encoded_size n E t src m = Some (map_option (\<lambda>bs. of_nat (length bs)) r, m)"
proof (cases r)
  case None
  with assms(2) sizing_pass(1) [OF assms(1)] show ?thesis
    by (fastforce simp: pb_get_encoded_size_def)
next
  case (Some bs)
  with assms(2) sizing_pass(2) [OF assms(1)] show ?thesis
    by (fastforce simp: pb_get_encoded_size_def)
qed

text \<open>
  C2: \<open>pb_get_encoded_size\<close> returns the length of the reference encoding (as a \<^verbatim>\<open>size_t\<close>) without
  changing memory, and fails exactly when the message cannot be encoded.
\<close>

theorem pb_get_encoded_size_exact:
  assumes "callbacks_implement E W" and "wire_message n E W t src m = Some r"
  shows "pb_get_encoded_size n E t src m = Some (map_option (\<lambda>bs. of_nat (length bs)) r, m)"
  using implements_message [OF assms(1)] assms(2) by (rule get_encoded_size_wire)

lemma ex_wire_full: "wire_message 2 ex_env ex_wire_env 0 1000 ex_mem = Some (Some ex_message)"
  by code_simp

lemma pb_get_encoded_size_exact_witness: "pb_get_encoded_size 2 ex_env 0 1000 ex_mem = Some (Some 15, ex_mem)"
  using pb_get_encoded_size_exact [OF ex_callbacks ex_wire_full] by (simp add: ex_message_def)

text \<open>
  C3: the documented way to size a buffer works: when \<open>pb_get_encoded_size\<close> has returned \<open>k\<close> and the
  buffer, which the message does not overlap, has at least \<open>k\<close> bytes, \<open>pb_encode\<close> succeeds and writes
  exactly \<open>k\<close> bytes.
\<close>

theorem encoded_size_suffices:
  assumes cb: "callbacks_implement E W" and live: "live m buf (unat bufsize)" and sz: "unat bufsize < 2 ^ 62"
    and def: "wire_message n E W t src (mhide m buf (unat bufsize)) = Some (Some bs)" and len: "length bs < 2 ^ 62"
    and size: "pb_get_encoded_size n E t src m = Some (Some k, m)" and fit: "k \<le> bufsize"
  shows "\<exists>s. pb_encode n E t src (pb_ostream_from_buffer buf bufsize, m) =
      Some (True, s, m\<lparr>mbytes := mput (mbytes m) buf bs\<rparr>) \<and> os_bytes_written s = k"
proof -
  note impl = implements_message [OF cb, of n t src]
  have "mbytes (mhide m buf (unat bufsize)) \<subseteq>\<^sub>m mbytes m"
    by (auto simp: mhide_def mdrop_def map_le_def)
  then have "wire_message n E W t src m = Some (Some bs)"
    by (rule readsD [OF implements_reads [OF impl] _ def])
  from sizing_pass(2) [OF impl this] size have k: "k = of_nat (length bs)"
    by (auto simp: pb_get_encoded_size_def)
  then have "length bs \<le> unat bufsize" using fit len by (simp add: word_le_nat_alt unat_length)
  then show ?thesis using fills_buffer [OF impl live sz def] k by auto
qed

lemma encoded_size_suffices_witness:
  "\<exists>s. pb_encode 2 ex_env 0 1000 (pb_ostream_from_buffer 2000 32, ex_mem) =
      Some (True, s, ex_mem\<lparr>mbytes := mput (mbytes ex_mem) 2000 ex_message\<rparr>) \<and> os_bytes_written s = 15"
proof (rule encoded_size_suffices [OF ex_callbacks ex_buffer_live])
  show "wire_message 2 ex_env ex_wire_env 0 1000 (mhide ex_mem 2000 (unat (32 :: size_t))) = Some (Some ex_message)"
    using ex_wire by simp
  show "pb_get_encoded_size 2 ex_env 0 1000 ex_mem = Some (Some 15, ex_mem)"
    using get_encoded_size_wire [OF implements_message [OF ex_callbacks] ex_wire_full]
    by (simp add: ex_message_def)
qed (simp_all add: ex_message_def)

section \<open>Framed messages\<close>

text \<open>
  C31: \<open>pb_encode_delimited\<close> writes the length of the message as a varint and then the message. Its
  two passes over the message agree on a buffer, so the error \<open>submsg size changed\<close> and an output
  cut short do not occur: it succeeds exactly when prefix and message fit.
\<close>

theorem pb_encode_delimited_into_buffer:
  assumes "callbacks_implement E W" and "live m buf (unat bufsize)" and "unat bufsize < 2 ^ 62"
    and "wire_message n E W t src (mhide m buf (unat bufsize)) = Some (Some msg)" and "length msg < 2 ^ 62"
  shows "\<exists>ok s bs. pb_encode_delimited n E t src (pb_ostream_from_buffer buf bufsize, m) =
      Some (ok, s, m\<lparr>mbytes := mput (mbytes m) buf bs\<rparr>) \<and>
    os_bytes_written s = of_nat (length bs) \<and> length bs \<le> unat bufsize \<and>
    (ok \<longleftrightarrow> length (varint_bytes (of_nat (length msg))) + length msg \<le> unat bufsize) \<and>
    (ok \<longrightarrow> bs = varint_bytes (of_nat (length msg)) @ msg)"
proof -
  have "implements (pb_encode_delimited n E t src) (wire_delimited (wire_message n E W t src))"
    unfolding pb_encode_delimited_def [abs_def]
    by (rule implements_submessage [OF implements_message [OF assms(1)]])
  moreover have "wire_delimited (wire_message n E W t src) (mhide m buf (unat bufsize)) =
      Some (Some (varint_bytes (of_nat (length msg)) @ msg))"
    using assms(4,5) by (simp add: wire_delimited_def)
  ultimately show ?thesis using fills_buffer [OF _ assms(2,3)] by fastforce
qed

lemma pb_encode_delimited_into_buffer_witness:
  "\<exists>ok s bs. pb_encode_delimited 2 ex_env 0 1000 (pb_ostream_from_buffer 2000 32, ex_mem) =
      Some (ok, s, ex_mem\<lparr>mbytes := mput (mbytes ex_mem) 2000 bs\<rparr>) \<and>
    os_bytes_written s = of_nat (length bs) \<and> length bs \<le> unat (32 :: size_t) \<and>
    (ok \<longleftrightarrow> length (varint_bytes (of_nat (length ex_message))) + length ex_message \<le> unat (32 :: size_t)) \<and>
    (ok \<longrightarrow> bs = varint_bytes (of_nat (length ex_message)) @ ex_message)"
  by (rule pb_encode_delimited_into_buffer [OF ex_callbacks ex_buffer_live])
    (use ex_wire in \<open>simp_all add: ex_message_def\<close>)

text \<open>
  \<open>pb_encode_nullterminated\<close> writes the message followed by one zero byte, and succeeds exactly
  when both fit.
\<close>

lemma pb_encode_nullterminated_into_buffer:
  assumes "callbacks_implement E W" and "live m buf (unat bufsize)" and "unat bufsize < 2 ^ 62"
    and "wire_message n E W t src (mhide m buf (unat bufsize)) = Some (Some msg)"
  shows "\<exists>ok s bs. pb_encode_nullterminated n E t src (pb_ostream_from_buffer buf bufsize, m) =
      Some (ok, s, m\<lparr>mbytes := mput (mbytes m) buf bs\<rparr>) \<and>
    os_bytes_written s = of_nat (length bs) \<and> length bs \<le> unat bufsize \<and>
    (ok \<longleftrightarrow> length msg + 1 \<le> unat bufsize) \<and> (ok \<longrightarrow> bs = msg @ [0])"
proof -
  have "implements (pb_write E (BufStack [0]) 1) (wire_bytes [0])"
    using implements_write_stack [of "[0]" E] by simp
  then have "implements (pb_encode_nullterminated n E t src) (wire_seq (wire_message n E W t src) (wire_bytes [0]))"
    unfolding pb_encode_nullterminated_def [abs_def]
    by (intro implements_and_then implements_message [OF assms(1)])
  moreover have "wire_seq (wire_message n E W t src) (wire_bytes [0]) (mhide m buf (unat bufsize)) =
      Some (Some (msg @ [0]))"
    using assms(4) by (simp add: wire_seq_def wire_bytes_def)
  ultimately show ?thesis using fills_buffer [OF _ assms(2,3)] by fastforce
qed

lemma pb_encode_nullterminated_into_buffer_witness:
  "\<exists>ok s bs. pb_encode_nullterminated 2 ex_env 0 1000 (pb_ostream_from_buffer 2000 32, ex_mem) =
      Some (ok, s, ex_mem\<lparr>mbytes := mput (mbytes ex_mem) 2000 bs\<rparr>) \<and>
    os_bytes_written s = of_nat (length bs) \<and> length bs \<le> unat (32 :: size_t) \<and>
    (ok \<longleftrightarrow> length ex_message + 1 \<le> unat (32 :: size_t)) \<and> (ok \<longrightarrow> bs = ex_message @ [0])"
  by (rule pb_encode_nullterminated_into_buffer [OF ex_callbacks ex_buffer_live])
    (use ex_wire in \<open>simp_all add: ex_message_def\<close>)

section \<open>Varints\<close>

lemma unat_zigzag: "int (unat (zigzag v)) = (if sint v < 0 then - 2 * sint v - 1 else 2 * sint v)"
proof -
  have range: "- (2 ^ 63) \<le> sint v" "sint v < 2 ^ 63"
    using sint_greater_eq [of v] sint_lt [of v] by simp_all
  have v: "v = of_int (sint v)" by simp
  have "zigzag v = of_int (if sint v < 0 then - 2 * sint v - 1 else 2 * sint v)"
    unfolding zigzag_def by (subst (2 3) v) simp
  moreover have "uint (of_int k :: uint64) = k" if "0 \<le> k" "k < 2 ^ 64" for k
    using that by (simp add: uint_word_of_int)
  ultimately show ?thesis using range by (simp add: uint_nat [symmetric])
qed

text \<open>
  \<open>pb_encode_varint\<close> writes, on every stream, one canonical varint of its argument: at most ten
  bytes (so its local buffer is never overrun), the continuation bit on all bytes but the last, and
  digits that add up to the value.
\<close>

lemma pb_encode_varint_canonical:
  "\<exists>bs. pb_encode_varint E v st = pb_write E (BufStack bs) (of_nat (length bs)) st \<and>
     length bs \<le> 10 \<and> varint_form bs \<and> varint_value bs = unat v"
  using pb_encode_varint_bytes varint_bytes_length varint_form_bytes varint_value_bytes by blast

text \<open>\<open>pb_encode_svarint\<close> writes the varint of the zigzag encoding of its argument: \<open>0, -1, 1, -2, ...\<close>
  become \<open>0, 1, 2, 3, ...\<close>, for every 64-bit value.\<close>

lemma pb_encode_svarint_zigzag:
  "\<exists>bs. pb_encode_svarint E v st = pb_write E (BufStack bs) (of_nat (length bs)) st \<and>
     varint_form bs \<and> int (varint_value bs) = (if sint v < 0 then - 2 * sint v - 1 else 2 * sint v)"
proof -
  have "pb_encode_svarint E v st = pb_encode_varint E (zigzag v) st"
    by (simp add: pb_encode_svarint_def zigzag_def push_bit_1 not_eq_complement Let_def mult.commute)
  moreover have "int (unat (zigzag v)) = (if sint v < 0 then - 2 * sint v - 1 else 2 * sint v)"
    by (rule unat_zigzag)
  ultimately show ?thesis using pb_encode_varint_bytes varint_form_bytes varint_value_bytes by metis
qed

end
