(* ===== verification/Pb_Istream.thy ===== *)
theory Pb_Istream
  imports Pb_Common
begin

text \<open>
  Input streams of \<^verbatim>\<open>nanopb/pb_decode.c\<close> and the primitive decoders on them. The state of a
  decoder operation is the stream together with the memory. A function that stores a value through a
  pointer argument when it succeeds returns that value; \<open>None\<close> for the value is the result
  \<^verbatim>\<open>false\<close>. Loops whose length a user's stream callback controls are partial functions: a loop
  that does not end has no result.
\<close>

section \<open>Streams\<close>

datatype icallback = IC_buf_read | IC_user nat

record pb_istream =
  is_callback :: icallback
  is_state :: addr
  is_bytes_left :: size_t
  is_errmsg :: "string option"

type_synonym ist = "pb_istream \<times> mem"
type_synonym dec_op = "ist \<Rightarrow> (bool \<times> ist) option"
type_synonym 'v reader = "ist \<Rightarrow> ('v option \<times> ist) option"

text \<open>
  What the user of the library provides: descriptor tables, extension types, and the callbacks, as
  parameters of the model. A stream callback is asked for a number of bytes and yields its result,
  the bytes it stored in the buffer, and the new state.
\<close>

record pb_dec_env =
  dv_tables :: field_tables
  dv_ext_types :: "addr \<Rightarrow> pb_extension_type option"
  dv_is_user :: "nat \<Rightarrow> nat \<Rightarrow> ist \<Rightarrow> (bool \<times> byte list \<times> ist) option"
  dv_dec_cb :: "addr \<Rightarrow> pb_field \<Rightarrow> addr \<Rightarrow> dec_op"
  dv_ext_dec :: "addr \<Rightarrow> addr \<Rightarrow> uint32 \<Rightarrow> pb_wire_type_t \<Rightarrow> dec_op"

definition is_error :: "string \<Rightarrow> dec_op" where
  "is_error msg st = Some (False, ((fst st)\<lparr>is_errmsg := PB_SET_ERROR (is_errmsg (fst st)) msg\<rparr>, snd st))"

definition fails :: "dec_op \<Rightarrow> 'v reader" where
  "fails f st = do { (_, st') \<leftarrow> f st; Some (None, st') }"

text \<open>\<^verbatim>\<open>if (!read(stream, &x)) return false;\<close> followed by \<open>k x\<close>, for the two kinds of results.\<close>

definition reading :: "('v option \<times> ist) option \<Rightarrow> ('v \<Rightarrow> dec_op) \<Rightarrow> (bool \<times> ist) option" where
  "reading r k = do { (x, st) \<leftarrow> r; case x of None \<Rightarrow> Some (False, st) | Some v \<Rightarrow> k v st }"

definition reading_value :: "('v option \<times> ist) option \<Rightarrow> ('v \<Rightarrow> 'w reader) \<Rightarrow> ('w option \<times> ist) option" where
  "reading_value r k = do { (x, st) \<leftarrow> r; case x of None \<Rightarrow> Some (None, st) | Some v \<Rightarrow> k v st }"

lemma reading_simps [simp]:
  "reading None k = None"
  "reading (Some (None, st)) k = Some (False, st)"
  "reading (Some (Some v, st)) k = k v st"
  "reading_value None k' = None"
  "reading_value (Some (None, st)) k' = Some (None, st)"
  "reading_value (Some (Some v, st)) k' = k' v st"
  by (simp_all add: reading_def reading_value_def)

section \<open>Reading\<close>

text \<open>
  The destination of a read: \<^verbatim>\<open>NULL\<close>, a local array (whose bytes are the result), or memory.
  \<open>is_call\<close> is the call \<^verbatim>\<open>stream->callback(stream, buf, count)\<close>.
\<close>

datatype rdest = RNull | RLocal | RMem addr

fun copy_in :: "addr \<Rightarrow> addr \<Rightarrow> nat \<Rightarrow> nat \<Rightarrow> mem \<Rightarrow> mem option" where
  "copy_in buf source i 0 m = Some m"
| "copy_in buf source i (Suc n) m = do {
     b \<leftarrow> mbytes m (source + int i);
     m' \<leftarrow> store8 m (buf + int i) b;
     copy_in buf source (Suc i) n m' }"

definition buf_read :: "rdest \<Rightarrow> size_t \<Rightarrow> ist \<Rightarrow> (bool \<times> byte list \<times> ist) option" where
  "buf_read buf count st =
     (let source = is_state (fst st);
          s = (fst st)\<lparr>is_state := is_state (fst st) + uint count\<rparr> in
      case buf of
        RNull \<Rightarrow> Some (True, [], (s, snd st))
      | RLocal \<Rightarrow> do { bs \<leftarrow> load_bytes (snd st) source (unat count); Some (True, bs, (s, snd st)) }
      | RMem p \<Rightarrow> do { m' \<leftarrow> copy_in p source 0 (unat count) (snd st); Some (True, [], (s, m')) })"

definition is_call :: "'a pb_dec_env_scheme \<Rightarrow> rdest \<Rightarrow> size_t \<Rightarrow> ist \<Rightarrow> (bool \<times> byte list \<times> ist) option" where
  "is_call E buf count st =
     (case is_callback (fst st) of
        IC_buf_read \<Rightarrow> buf_read buf count st
      | IC_user u \<Rightarrow> do {
          (ok, bs, st') \<leftarrow> dv_is_user E u (unat count) st;
          if unat count < length bs \<or> (ok \<and> length bs \<noteq> unat count) then None
          else case buf of
            RMem p \<Rightarrow> do { m' \<leftarrow> store_bytes (snd st') p bs; Some (ok, [], (fst st', m')) }
          | _ \<Rightarrow> Some (ok, bs, st') })"

text \<open>\<^verbatim>\<open>pb_read\<close> where the destination is not \<^verbatim>\<open>NULL\<close> or the stream is a buffer.\<close>

definition pb_read_direct :: "'a pb_dec_env_scheme \<Rightarrow> rdest \<Rightarrow> size_t \<Rightarrow> byte list reader" where
  "pb_read_direct E buf count st =
     (if is_bytes_left (fst st) < count then fails (is_error ''end-of-stream'') st
      else do {
        (ok, bs, st') \<leftarrow> is_call E buf count st;
        if \<not> ok then fails (is_error ''io error'') st'
        else Some (Some bs, ((fst st')\<lparr>is_bytes_left := is_bytes_left (fst st') - count\<rparr>, snd st')) })"

function skip_loop :: "'a pb_dec_env_scheme \<Rightarrow> size_t \<Rightarrow> byte list reader" where
  "skip_loop E count st =
     (if count > 16 then reading_value (pb_read_direct E RLocal 16 st) (\<lambda>_. skip_loop E (count - 16))
      else pb_read_direct E RLocal count st)"
  by pat_completeness auto
termination
proof (relation "measure (\<lambda>(E, count, st). unat count)", goal_cases)
  case (2 E count st x xa)
  then have "count - 16 < count" by unat_arith
  then show ?case by (simp add: word_less_nat_alt)
qed simp

declare skip_loop.simps [simp del]

definition pb_read :: "'a pb_dec_env_scheme \<Rightarrow> rdest \<Rightarrow> size_t \<Rightarrow> byte list reader" where
  "pb_read E buf count st =
     (if buf = RNull \<and> is_callback (fst st) \<noteq> IC_buf_read then skip_loop E count st
      else pb_read_direct E buf count st)"

definition pb_skip :: "'a pb_dec_env_scheme \<Rightarrow> size_t \<Rightarrow> dec_op" where
  "pb_skip E count st = reading (pb_read E RNull count st) (\<lambda>_ st. Some (True, st))"

definition pb_readbyte :: "'a pb_dec_env_scheme \<Rightarrow> byte reader" where
  "pb_readbyte E st =
     (if is_bytes_left (fst st) = 0 then fails (is_error ''end-of-stream'') st
      else do {
        (ok, bs, st') \<leftarrow> is_call E RLocal 1 st;
        if \<not> ok then fails (is_error ''io error'') st'
        else Some (Some (hd bs), ((fst st')\<lparr>is_bytes_left := is_bytes_left (fst st') - 1\<rparr>, snd st')) })"

definition pb_istream_from_buffer :: "addr \<Rightarrow> size_t \<Rightarrow> pb_istream" where
  "pb_istream_from_buffer buf bufsize = \<lparr>is_callback = IC_buf_read, is_state = buf,
     is_bytes_left = bufsize, is_errmsg = None\<rparr>"

section \<open>Varints\<close>

text \<open>
  \<^verbatim>\<open>uint_fast8_t bitpos\<close> has 8 bits on the targets of the application. The loop returns the
  result, the final \<open>bitpos\<close> and the last byte.
\<close>

partial_function (option) varint32_loop ::
  "'a pb_dec_env_scheme \<Rightarrow> 8 word \<Rightarrow> uint32 \<Rightarrow> ist \<Rightarrow> ((uint32 \<times> 8 word \<times> byte) option \<times> ist) option" where
  "varint32_loop E bitpos result st = do {
     (x, st) \<leftarrow> pb_readbyte E st;
     case x of None \<Rightarrow> Some (None, st)
     | Some byte \<Rightarrow>
         let sign_extension = (if bitpos < 63 then 0xFF else 0x01 :: byte) in
         if bitpos \<ge> 32 \<and> byte AND 0x7F \<noteq> 0 \<and> (drop_bit 31 result = 0 \<or> byte \<noteq> sign_extension)
         then fails (is_error ''varint overflow'') st
         else let result = (if bitpos \<ge> 32 then result
                            else result OR push_bit (unat bitpos) (ucast (byte AND 0x7F)));
                  bitpos = bitpos + 7 in
           if byte AND 0x80 \<noteq> 0 then varint32_loop E bitpos result st
           else Some (Some (result, bitpos, byte), st) }"

definition pb_decode_varint32_eof ::
  "'a pb_dec_env_scheme \<Rightarrow> ist \<Rightarrow> (uint32 option \<times> bool \<times> ist) option" where
  "pb_decode_varint32_eof E st = do {
     (x, st) \<leftarrow> pb_readbyte E st;
     case x of None \<Rightarrow> Some (None, is_bytes_left (fst st) = 0, st)
     | Some byte \<Rightarrow>
         if byte AND 0x80 = 0 then Some (Some (ucast byte), False, st)
         else do {
           (r, st) \<leftarrow> varint32_loop E 7 (ucast (byte AND 0x7F)) st;
           case r of None \<Rightarrow> Some (None, False, st)
           | Some (result, bitpos, byte) \<Rightarrow>
               if bitpos = 35 \<and> byte AND 0x70 \<noteq> 0
               then do { (_, st) \<leftarrow> is_error ''varint overflow'' st; Some (None, False, st) }
               else Some (Some result, False, st) } }"

definition pb_decode_varint32 :: "'a pb_dec_env_scheme \<Rightarrow> uint32 reader" where
  "pb_decode_varint32 E st = do { (x, _, st) \<leftarrow> pb_decode_varint32_eof E st; Some (x, st) }"

partial_function (option) varint_loop ::
  "'a pb_dec_env_scheme \<Rightarrow> 8 word \<Rightarrow> uint64 \<Rightarrow> ist \<Rightarrow> (uint64 option \<times> ist) option" where
  "varint_loop E bitpos result st =
     (if bitpos \<ge> 64 then fails (is_error ''varint overflow'') st
      else do {
        (x, st) \<leftarrow> pb_readbyte E st;
        case x of None \<Rightarrow> Some (None, st)
        | Some byte \<Rightarrow>
            let result = result OR push_bit (unat bitpos) (ucast (byte AND 0x7F)) in
            if byte AND 0x80 \<noteq> 0 then varint_loop E (bitpos + 7) result st
            else Some (Some result, st) })"

definition pb_decode_varint :: "'a pb_dec_env_scheme \<Rightarrow> uint64 reader" where
  "pb_decode_varint E st = varint_loop E 0 0 st"

partial_function (option) pb_skip_varint :: "'a pb_dec_env_scheme \<Rightarrow> ist \<Rightarrow> (bool \<times> ist) option" where
  "pb_skip_varint E st = do {
     (x, st) \<leftarrow> pb_read E RLocal 1 st;
     case x of None \<Rightarrow> Some (False, st)
     | Some bs \<Rightarrow> if hd bs AND 0x80 \<noteq> 0 then pb_skip_varint E st else Some (True, st) }"

definition pb_skip_string :: "'a pb_dec_env_scheme \<Rightarrow> dec_op" where
  "pb_skip_string E st = reading (pb_decode_varint32 E st) (\<lambda>length. pb_skip E (ucast length))"

section \<open>Tags and fields of the wire format\<close>

text \<open>The result is the wire type and the tag; \<open>*wire_type\<close> and \<open>*tag\<close> are 0 after a failure.\<close>

definition pb_decode_tag ::
  "'a pb_dec_env_scheme \<Rightarrow> ist \<Rightarrow> ((pb_wire_type_t \<times> uint32) option \<times> bool \<times> ist) option" where
  "pb_decode_tag E st = do {
     (x, eof, st) \<leftarrow> pb_decode_varint32_eof E st;
     case x of None \<Rightarrow> Some (None, eof, st)
     | Some temp \<Rightarrow>
         if temp = 0 then Some (None, True, st)
         else Some (Some (temp AND 7, drop_bit 3 temp), False, st) }"

definition pb_skip_field :: "'a pb_dec_env_scheme \<Rightarrow> pb_wire_type_t \<Rightarrow> dec_op" where
  "pb_skip_field E wire_type st =
     (if wire_type = PB_WT_VARINT then pb_skip_varint E st
      else if wire_type = PB_WT_64BIT then pb_skip E 8 st
      else if wire_type = PB_WT_STRING then pb_skip_string E st
      else if wire_type = PB_WT_32BIT then pb_skip E 4 st
      else is_error ''invalid wire_type'' st)"

text \<open>The varint case reads at most \<open>n\<close> more bytes to \<open>buf\<close>; the result is the number of bytes read.\<close>

fun raw_varint_loop :: "nat \<Rightarrow> 'a pb_dec_env_scheme \<Rightarrow> addr \<Rightarrow> size_t \<Rightarrow> size_t reader" where
  "raw_varint_loop 0 E buf sz st = Some (None, st)"
| "raw_varint_loop (Suc n) E buf sz st =
     reading_value (pb_read E (RMem buf) 1 st) (\<lambda>_ st. do {
       b \<leftarrow> load8 (snd st) buf;
       if b AND 0x80 \<noteq> 0 then raw_varint_loop n E (buf + 1) (sz + 1) st else Some (Some (sz + 1), st) })"

definition read_raw_value :: "'a pb_dec_env_scheme \<Rightarrow> pb_wire_type_t \<Rightarrow> addr \<Rightarrow> size_t \<Rightarrow> size_t reader" where
  "read_raw_value E wire_type buf max_size st =
     (if wire_type = PB_WT_VARINT then raw_varint_loop (unat max_size) E buf 0 st
      else if wire_type = PB_WT_64BIT then reading_value (pb_read E (RMem buf) 8 st) (\<lambda>_ st. Some (Some 8, st))
      else if wire_type = PB_WT_32BIT then reading_value (pb_read E (RMem buf) 4 st) (\<lambda>_ st. Some (Some 4, st))
      else fails (is_error ''invalid wire_type'') st)"

section \<open>Substreams\<close>

definition pb_make_string_substream :: "'a pb_dec_env_scheme \<Rightarrow> pb_istream reader" where
  "pb_make_string_substream E st =
     reading_value (pb_decode_varint32 E st) (\<lambda>sz st.
       if is_bytes_left (fst st) < ucast sz then fails (is_error ''parent stream too short'') st
       else Some (Some ((fst st)\<lparr>is_bytes_left := ucast sz\<rparr>),
                  ((fst st)\<lparr>is_bytes_left := is_bytes_left (fst st) - ucast sz\<rparr>, snd st)))"

definition pb_close_string_substream :: "'a pb_dec_env_scheme \<Rightarrow> pb_istream \<Rightarrow> dec_op" where
  "pb_close_string_substream E substream st = do {
     (ok, substream, m) \<leftarrow>
       (if is_bytes_left substream \<noteq> 0 then pb_skip E (is_bytes_left substream) (substream, snd st)
        else Some (True, (substream, snd st)));
     if \<not> ok then Some (False, (fst st, m))
     else Some (True, ((fst st)\<lparr>is_state := is_state substream, is_errmsg := is_errmsg substream\<rparr>, m)) }"

section \<open>Scalars\<close>

definition pb_decode_svarint :: "'a pb_dec_env_scheme \<Rightarrow> uint64 reader" where
  "pb_decode_svarint E st =
     reading_value (pb_decode_varint E st) (\<lambda>v st.
       Some (Some (if v AND 1 \<noteq> 0 then NOT (drop_bit 1 v) else drop_bit 1 v), st))"

definition pb_decode_fixed32 :: "'a pb_dec_env_scheme \<Rightarrow> addr \<Rightarrow> dec_op" where
  "pb_decode_fixed32 E dest st =
     reading (pb_read E RLocal 4 st) (\<lambda>bytes st. do {
       m \<leftarrow> store32 (snd st) dest
         (push_bit 0 (ucast (bytes ! 0)) OR push_bit 8 (ucast (bytes ! 1)) OR
          push_bit 16 (ucast (bytes ! 2)) OR push_bit 24 (ucast (bytes ! 3)));
       Some (True, (fst st, m)) })"

definition pb_decode_fixed64 :: "'a pb_dec_env_scheme \<Rightarrow> addr \<Rightarrow> dec_op" where
  "pb_decode_fixed64 E dest st =
     reading (pb_read E RLocal 8 st) (\<lambda>bytes st. do {
       m \<leftarrow> store64 (snd st) dest
         (push_bit 0 (ucast (bytes ! 0)) OR push_bit 8 (ucast (bytes ! 1)) OR
          push_bit 16 (ucast (bytes ! 2)) OR push_bit 24 (ucast (bytes ! 3)) OR
          push_bit 32 (ucast (bytes ! 4)) OR push_bit 40 (ucast (bytes ! 5)) OR
          push_bit 48 (ucast (bytes ! 6)) OR push_bit 56 (ucast (bytes ! 7)));
       Some (True, (fst st, m)) })"

declare varint32_loop.simps [code] varint_loop.simps [code] pb_skip_varint.simps [code]

end
