(* ===== verification/Pb_Istream_Props.thy ===== *)
theory Pb_Istream_Props
  imports Pb_Istream Pb_Varint
begin

text \<open>
  What the primitive decoders of \<^verbatim>\<open>nanopb/pb_decode.c\<close> compute on a memory buffer, on every branch:
  the value and the number of bytes consumed, or the error; and that they invert the encoders.
\<close>

lemma unat_lt_64: "unat (w :: size_t) < 2 ^ 64"
  by (rule less_le_trans [OF unsigned_less]) simp

section \<open>A buffer that holds given bytes\<close>

definition input :: "ist \<Rightarrow> byte list \<Rightarrow> bool" where
  "input st bs \<longleftrightarrow> is_callback (fst st) = IC_buf_read \<and> unat (is_bytes_left (fst st)) = length bs \<and>
     load_bytes (snd st) (is_state (fst st)) (length bs) = Some bs"

definition advance :: "nat \<Rightarrow> ist \<Rightarrow> ist" where
  "advance k st = ((fst st)\<lparr>is_state := is_state (fst st) + int k,
     is_bytes_left := is_bytes_left (fst st) - of_nat k\<rparr>, snd st)"

lemma advance_0 [simp]: "advance 0 st = st"
  by (cases st) (simp add: advance_def)

lemma advance_advance [simp]: "advance j (advance k st) = advance (j + k) st"
  by (simp add: advance_def algebra_simps)

lemma snd_advance [simp]: "snd (advance k st) = snd st"
  by (simp add: advance_def)

lemma load_bytes_append:
  "load_bytes m p (length xs + length ys) = Some (xs @ ys) \<longleftrightarrow>
     load_bytes m p (length xs) = Some xs \<and> load_bytes m (p + int (length xs)) (length ys) = Some ys"
proof
  assume l: "load_bytes m p (length xs + length ys) = Some (xs @ ys)"
  have "mbytes m (p + int i) = Some (xs ! i)" if "i < length xs" for i
    using load_bytes_nth [OF l, of i] that by (simp add: nth_append)
  moreover have "mbytes m (p + int (length xs) + int j) = Some (ys ! j)" if "j < length ys" for j
    using load_bytes_nth [OF l, of "length xs + j"] that by (simp add: add.assoc)
  ultimately show "load_bytes m p (length xs) = Some xs \<and> load_bytes m (p + int (length xs)) (length ys) = Some ys"
    by (simp add: load_bytes_iff)
next
  assume *: "load_bytes m p (length xs) = Some xs \<and> load_bytes m (p + int (length xs)) (length ys) = Some ys"
  have "mbytes m (p + int i) = Some ((xs @ ys) ! i)" if "i < length xs + length ys" for i
  proof (cases "i < length xs")
    case True
    then show ?thesis using * by (simp add: load_bytes_iff nth_append)
  next
    case False
    then have "mbytes m (p + int (length xs) + int (i - length xs)) = Some (ys ! (i - length xs))"
      using * that by (auto simp: load_bytes_iff simp del: of_nat_diff)
    moreover have "p + int (length xs) + int (i - length xs) = p + int i" using False by simp
    ultimately show ?thesis using False by (simp add: nth_append del: of_nat_diff)
  qed
  then show "load_bytes m p (length xs + length ys) = Some (xs @ ys)" by (simp add: load_bytes_iff)
qed

lemma input_advance:
  assumes "input st (xs @ ys)"
  shows "input (advance (length xs) st) ys"
proof -
  have l: "unat (is_bytes_left (fst st)) = length xs + length ys" using assms by (simp add: input_def)
  then have "length xs < 2 ^ 64" using unat_lt_64 [of "is_bytes_left (fst st)"] by simp
  then have "unat (is_bytes_left (fst st) - of_nat (length xs)) = length ys"
    using l by (subst unat_sub) (simp_all add: word_le_nat_alt unat_of_nat)
  then show ?thesis using assms by (simp add: input_def advance_def load_bytes_append)
qed

lemma input_Cons: "input st (b # bs) \<Longrightarrow> input (advance 1 st) bs"
  using input_advance [of st "[b]" bs] by simp

lemma input_left:
  assumes "input st bs"
  shows "is_bytes_left (fst st) = of_nat (length bs)" and "length bs < 2 ^ 64"
proof -
  have l: "unat (is_bytes_left (fst st)) = length bs" using assms by (simp add: input_def)
  show "is_bytes_left (fst st) = of_nat (length bs)" by (simp flip: l)
  show "length bs < 2 ^ 64" using unat_lt_64 by (simp flip: l)
qed

lemma input_left_0: "input st bs \<Longrightarrow> is_bytes_left (fst st) = 0 \<longleftrightarrow> bs = []"
  by (auto simp: input_def word_unat_eq_iff)

text \<open>A read of \<open>k\<close> bytes to a local array, or over them.\<close>

lemma pb_read_input:
  assumes "input st (xs @ ys)" and "buf = RNull \<or> buf = RLocal"
  shows "pb_read E buf (of_nat (length xs)) st =
    Some (Some (if buf = RNull then [] else xs), advance (length xs) st)"
proof -
  have cb: "is_callback (fst st) = IC_buf_read" and left: "unat (is_bytes_left (fst st)) = length xs + length ys"
    and l: "load_bytes (snd st) (is_state (fst st)) (length xs) = Some xs"
    using assms(1) by (simp_all add: input_def load_bytes_append)
  have "length xs < 2 ^ 64" using left unat_lt_64 [of "is_bytes_left (fst st)"] by simp
  then have n: "unat (of_nat (length xs) :: size_t) = length xs" "uint (of_nat (length xs) :: size_t) = int (length xs)"
    by (simp_all add: unat_of_nat uint_nat)
  then have "\<not> is_bytes_left (fst st) < of_nat (length xs)" using left by (simp add: word_less_nat_alt)
  then show ?thesis using assms(2) cb l n
    by (auto simp: pb_read_def pb_read_direct_def is_call_def buf_read_def advance_def Let_def)
qed

lemma pb_read_eof:
  assumes "input st bs" and "length bs < unat count"
  shows "pb_read E buf count st = fails (is_error ''end-of-stream'') st"
proof -
  have "is_bytes_left (fst st) < count" using assms by (simp add: input_def word_less_nat_alt)
  then show ?thesis using assms(1) by (simp add: pb_read_def pb_read_direct_def input_def)
qed

lemma pb_readbyte_input: "input st (b # bs) \<Longrightarrow> pb_readbyte E st = Some (Some b, advance 1 st)"
  using pb_read_input [of st "[b]" bs RLocal E] input_left_0 [of st "b # bs"]
  by (auto simp: pb_readbyte_def pb_read_def pb_read_direct_def input_def advance_def is_call_def buf_read_def
      Let_def load_bytes_append [of _ _ "[b]" bs, simplified])

lemma pb_readbyte_eof: "input st [] \<Longrightarrow> pb_readbyte E st = fails (is_error ''end-of-stream'') st"
  by (simp add: pb_readbyte_def input_left_0)

section \<open>Varints\<close>

lemma unat_byte: "unat (b :: byte) < 256"
  by (rule less_le_trans [OF unsigned_less]) simp

lemma continuation_bit: "b AND 0x80 = 0 \<longleftrightarrow> unat (b :: byte) < 128"
proof -
  have "b AND 0x80 = 0 \<longleftrightarrow> \<not> bit b 7" using and_exp_eq_0_iff_not_bit [of b 7] by simp
  also have "bit b 7 \<longleftrightarrow> odd (unat b div 128)"
    using bit_unsigned_iff [of b 7, where ?'a = nat] by (simp add: bit_iff_odd)
  also have "(\<not> odd (unat b div 128)) \<longleftrightarrow> unat b < 128"
  proof (cases "unat b < 128")
    case False
    then have "unat b div 128 = 1" using unat_byte [of b] by (simp add: div_nat_eqI)
    with False show ?thesis by simp
  qed simp
  finally show ?thesis .
qed

lemma digit_value: "unat (ucast (b AND 0x7F) :: 'a::len word) = unat (b :: byte) mod 128"
  if "8 \<le> LENGTH('a)"
proof -
  have "b AND 0x7F = take_bit 7 b" by (simp add: take_bit_eq_mask mask_eq_exp_minus_1)
  then have u: "unat (b AND 0x7F) = unat b mod 128" by (simp add: take_bit_eq_mod unat_mod_distrib)
  have "unat b mod 128 < 2 ^ 8" by (rule less_trans [of _ 128]) simp_all
  also have "(2 :: nat) ^ 8 \<le> 2 ^ LENGTH('a)" using that by (rule power_increasing) simp
  finally show ?thesis using u by (simp add: unsigned_ucast_eq take_bit_nat_eq_self)
qed

definition leading_run :: "byte list \<Rightarrow> nat" where
  "leading_run bs = length (takeWhile (\<lambda>b. 128 \<le> unat b) bs)"

lemma leading_run_simps [simp]:
  "leading_run [] = 0"
  "leading_run (b # bs) = (if 128 \<le> unat b then Suc (leading_run bs) else 0)"
  by (simp_all add: leading_run_def)

lemma leading_run_le: "leading_run bs \<le> length bs"
  by (simp add: leading_run_def length_takeWhile_le)

lemma push_bit_or_digit:
  fixes x :: nat
  assumes "x < 128"
  shows "push_bit i (of_nat x :: uint64) OR push_bit (i + 7) (of_nat y) = push_bit i (of_nat (x + 128 * y))"
proof -
  have "x OR push_bit 7 y = x + 128 * y"
  proof -
    have "\<not> bit x j" if "7 \<le> j" for j
    proof -
      have "x < 2 ^ j" using assms power_increasing [OF that, of "2 :: nat"] by simp
      then show ?thesis by (simp add: bit_iff_odd)
    qed
    then have "x AND push_bit 7 y = 0"
      by (intro bit_eqI) (auto simp only: bit_and_iff bit_push_bit_iff bit_0_eq bot_apply bot_bool_def)
    then have "x OR push_bit 7 y = x + push_bit 7 y" by (rule disjunctive_add_eq_or [symmetric])
    then show ?thesis by (simp add: push_bit_eq_mult mult.commute)
  qed
  then have "(of_nat (x + 128 * y) :: uint64) = of_nat (x OR push_bit 7 y)" by simp
  then have "(of_nat (x + 128 * y) :: uint64) = of_nat x OR push_bit 7 (of_nat y)"
    by (simp only: of_nat_or_eq of_nat_push_bit)
  then show ?thesis by (simp add: push_bit_or push_bit_push_bit add.commute)
qed

lemma fails_error:
  "fails (is_error msg) st = Some (None, ((fst st)\<lparr>is_errmsg := PB_SET_ERROR (is_errmsg (fst st)) msg\<rparr>, snd st))"
  by (simp add: fails_def is_error_def)

lemma push_digit: "push_bit n (ucast (b AND 0x7F) :: uint64) = push_bit n (of_nat (unat (b :: byte) mod 128))"
proof -
  have u: "unat (ucast (b AND 0x7F) :: uint64) = unat b mod 128" by (rule digit_value) simp
  have "(ucast (b AND 0x7F) :: uint64) = of_nat (unat b mod 128)" by (simp flip: u)
  then show ?thesis by simp
qed

lemma unat_bitpos: "i \<le> 10 \<Longrightarrow> unat (of_nat (7 * i) :: 8 word) = 7 * i"
  by (subst unat_of_nat) (simp del: of_nat_mult)

lemma varint_loop_input:
  assumes "input st bs" and "i \<le> 10"
  shows "varint_loop E (of_nat (7 * i)) res st =
    (if i + leading_run bs < 10 \<and> leading_run bs < length bs
     then Some (Some (res OR push_bit (7 * i) (of_nat (varint_value (take (Suc (leading_run bs)) bs)))),
            advance (Suc (leading_run bs)) st)
     else if 10 \<le> i + leading_run bs then fails (is_error ''varint overflow'') (advance (10 - i) st)
     else fails (is_error ''end-of-stream'') (advance (leading_run bs) st))"
  using assms
proof (induction bs arbitrary: i res st)
  case Nil
  note pos = unat_bitpos [OF Nil.prems(2)]
  show ?case
  proof (cases "i = 10")
    case True
    then show ?thesis by (subst varint_loop.simps) simp
  next
    case False
    then have "\<not> (64 :: 8 word) \<le> of_nat (7 * i)" using pos Nil.prems(2) by (simp add: word_le_nat_alt)
    then show ?thesis using False Nil.prems pb_readbyte_eof [OF Nil.prems(1), of E]
      by (subst varint_loop.simps) (simp add: fails_error)
  qed
next
  case (Cons b bs)
  note pos = unat_bitpos [OF Cons.prems(2)]
  show ?case
  proof (cases "i = 10")
    case True
    then show ?thesis by (subst varint_loop.simps) simp
  next
    case False
    then have i: "i < 10" and no: "\<not> (64 :: 8 word) \<le> of_nat (7 * i)"
      using pos Cons.prems(2) by (simp_all add: word_le_nat_alt)
    note rd = pb_readbyte_input [OF Cons.prems(1), of E]
    note inp = input_Cons [OF Cons.prems(1)]
    let ?d = "unat b mod 128"
    have nxt: "of_nat (7 * i) + 7 = (of_nat (7 * Suc i) :: 8 word)" by simp
    have step: "varint_loop E (of_nat (7 * i)) res st =
        (if 128 \<le> unat b then varint_loop E (of_nat (7 * Suc i)) (res OR push_bit (7 * i) (of_nat ?d)) (advance 1 st)
         else Some (Some (res OR push_bit (7 * i) (of_nat ?d)), advance 1 st))"
      using no continuation_bit [of b]
      by (subst varint_loop.simps) (simp add: rd pos push_digit nxt Let_def del: of_nat_mult)
    show ?thesis
    proof (cases "128 \<le> unat b")
      case False
      then show ?thesis using i step by simp
    next
      case True
      have or: "(res OR push_bit (7 * i) (of_nat ?d)) OR push_bit (7 * Suc i) (of_nat y) =
          res OR push_bit (7 * i) (of_nat (?d + 128 * y))" for y
        using push_bit_or_digit [of ?d "7 * i" y] by (simp add: or.assoc add.commute)
      have "Suc (9 - i) = 10 - i" using i by simp
      then show ?thesis
        using True i step Cons.IH [OF inp, of "Suc i"]
        by (simp add: or [unfolded mult_Suc_right] del: of_nat_add of_nat_mult)
    qed
  qed
qed

lemma pb_decode_varint_input:
  assumes "input st bs"
  shows "pb_decode_varint E st =
    (if leading_run bs < 10 \<and> leading_run bs < length bs
     then Some (Some (of_nat (varint_value (take (Suc (leading_run bs)) bs))), advance (Suc (leading_run bs)) st)
     else if 10 \<le> leading_run bs then fails (is_error ''varint overflow'') (advance 10 st)
     else fails (is_error ''end-of-stream'') (advance (leading_run bs) st))"
  using varint_loop_input [OF assms, of 0 E 0] by (simp add: pb_decode_varint_def)

text \<open>On the bytes the encoder writes, whatever follows them.\<close>

lemma leading_run_form:
  "varint_form xs \<Longrightarrow> leading_run (xs @ ys) = length xs - 1 \<and> take (length xs) (xs @ ys) = xs"
  by (induction xs rule: varint_form.induct) (auto simp: Suc_le_eq)

lemma pb_decode_varint_form:
  assumes "input st (xs @ ys)" and "varint_form xs" and "length xs \<le> 10"
  shows "pb_decode_varint E st = Some (Some (of_nat (varint_value xs)), advance (length xs) st)"
proof -
  have "xs \<noteq> []" using assms(2) by auto
  then show ?thesis
    using pb_decode_varint_input [OF assms(1), of E] leading_run_form [OF assms(2), of ys] assms(3)
    by (cases xs) auto
qed

lemma pb_decode_varint_bytes:
  "input st (varint_bytes v @ ys) \<Longrightarrow>
     pb_decode_varint E st = Some (Some v, advance (length (varint_bytes v)) st)"
  using pb_decode_varint_form [OF _ varint_form_bytes varint_bytes_length]
  by (simp add: varint_value_bytes)

section \<open>32-bit varints\<close>

lemma push_bit_or_digit32:
  fixes x :: nat
  assumes "x < 128"
  shows "push_bit i (of_nat x :: uint32) OR push_bit (i + 7) (of_nat y) = push_bit i (of_nat (x + 128 * y))"
proof -
  have "ucast (push_bit i (of_nat x :: uint64) OR push_bit (i + 7) (of_nat y)) =
      (ucast (push_bit i (of_nat (x + 128 * y) :: uint64)) :: uint32)"
    by (simp only: push_bit_or_digit [OF assms])
  moreover have "ucast (push_bit j (of_nat z :: uint64)) = push_bit j (of_nat z :: uint32)" for j z
    by (rule bit_word_eqI) (auto simp: bit_simps)
  moreover have "ucast (a OR b) = (ucast a OR ucast b :: uint32)" for a b :: uint64
    by (rule bit_word_eqI) (simp add: bit_simps)
  ultimately show ?thesis by (simp del: of_nat_add of_nat_mult)
qed

lemma push_digit32: "push_bit n (ucast (b AND 0x7F) :: uint32) = push_bit n (of_nat (unat (b :: byte) mod 128))"
proof -
  have u: "unat (ucast (b AND 0x7F) :: uint32) = unat b mod 128" by (rule digit_value) simp
  have "(ucast (b AND 0x7F) :: uint32) = of_nat (unat b mod 128)" by (simp flip: u)
  then show ?thesis by simp
qed

lemma varint32_loop_form:
  assumes "input st (xs @ ys)" and "varint_form xs" and "i + length xs \<le> 5"
  shows "varint32_loop E (of_nat (7 * i)) res st =
    Some (Some (res OR push_bit (7 * i) (of_nat (varint_value xs)), of_nat (7 * (i + length xs)), last xs),
      advance (length xs) st)"
  using assms
proof (induction xs arbitrary: i res st rule: varint_form.induct)
  case 1
  then show ?case by simp
next
  case (2 b)
  then have "unat (of_nat (7 * i) :: 8 word) = 7 * i" by (intro unat_bitpos) simp
  moreover from this have "\<not> (32 :: 8 word) \<le> of_nat (7 * i)" using 2 by (simp add: word_le_nat_alt)
  moreover have "of_nat (7 * i) + 7 = (of_nat (7 * Suc i) :: 8 word)" by simp
  ultimately show ?case
    using 2 pb_readbyte_input [of st b ys E] continuation_bit [of b]
    by (subst varint32_loop.simps) (simp add: push_digit32 Let_def del: of_nat_mult)
next
  case (3 b c bs)
  note pos = unat_bitpos [of i]
  have i: "\<not> (32 :: 8 word) \<le> of_nat (7 * i)" using "3.prems"(3) pos by (simp add: word_le_nat_alt)
  have nxt: "of_nat (7 * i) + 7 = (of_nat (7 * Suc i) :: 8 word)" by simp
  have inp: "input (advance 1 st) ((c # bs) @ ys)" using input_Cons [of st b] "3.prems"(1) by simp
  have b: "\<not> unat b < 128" "varint_form (c # bs)" using "3.prems"(2) by simp_all
  let ?d = "unat b mod 128"
  have step: "varint32_loop E (of_nat (7 * i)) res st =
      varint32_loop E (of_nat (7 * Suc i)) (res OR push_bit (7 * i) (of_nat ?d)) (advance 1 st)"
    using i b pos "3.prems"(3) pb_readbyte_input [of st b "(c # bs) @ ys" E] "3.prems"(1) continuation_bit [of b]
    by (subst varint32_loop.simps) (simp add: push_digit32 nxt Let_def del: of_nat_mult)
  have or: "(res OR push_bit (7 * i) (of_nat ?d)) OR push_bit (7 * Suc i) (of_nat y) =
      res OR push_bit (7 * i) (of_nat (?d + 128 * y))" for y
    using push_bit_or_digit32 [of ?d "7 * i" y] by (simp add: or.assoc add.commute)
  have eq: "Suc i + length (c # bs) = i + length (b # c # bs)" by simp
  have v: "varint_value (b # c # bs) = ?d + 128 * varint_value (c # bs)" by simp
  have "Suc i + length (c # bs) \<le> 5" using "3.prems"(3) by simp
  from "3.IH" [OF inp b(2) this] show ?case
    by (simp only: step or eq v) simp
qed

lemma varint_value_last: "xs \<noteq> [] \<Longrightarrow> unat (last xs) mod 128 * 128 ^ (length xs - 1) \<le> varint_value xs"
proof (induction xs)
  case (Cons b xs)
  show ?case
  proof (cases "xs = []")
    case False
    then obtain n where n: "length xs = Suc n" by (cases xs) auto
    from Cons.IH [OF False] have "unat (last xs) mod 128 * 128 ^ n * 128 \<le> varint_value xs * 128" by (simp add: n)
    with False n show ?thesis by (simp add: mult.commute mult.left_commute)
  qed simp
qed simp

lemma varint_form_last: "varint_form xs \<Longrightarrow> xs \<noteq> [] \<and> unat (last xs) < 128"
  by (induction xs rule: varint_form.induct) auto

lemma last_nibble:
  assumes "unat (b :: byte) < 16"
  shows "b AND 0x70 = 0"
proof (rule bit_word_eqI)
  fix j assume j: "j < LENGTH(8)"
  have "\<not> bit b j" if "4 \<le> j"
  proof -
    have "unat b < 2 ^ j" using assms power_increasing [OF that, of "2 :: nat"] by simp
    then have "\<not> bit (unat b) j" by (simp add: bit_iff_odd)
    then show ?thesis by (simp add: bit_unsigned_iff)
  qed
  moreover have "\<not> bit (0x70 :: byte) j" if "j < 4"
    using that by (auto simp: less_Suc_eq numeral_eq_Suc)
  ultimately show "bit (b AND 0x70) j = bit (0 :: byte) j"
    by (cases "4 \<le> j") (simp_all add: bit_and_iff)
qed

lemma pb_decode_varint32_form:
  assumes inp: "input st (xs @ ys)" and form: "varint_form xs" and len: "length xs \<le> 5"
    and small: "varint_value xs < 2 ^ 32"
  shows "pb_decode_varint32_eof E st = Some (Some (of_nat (varint_value xs)), False, advance (length xs) st)"
proof (cases xs)
  case Nil
  then show ?thesis using form by simp
next
  case (Cons b bs)
  note rd = pb_readbyte_input [of st b "bs @ ys" E]
  have inp1: "input (advance 1 st) (bs @ ys)" using inp input_Cons [of st b] by (simp add: Cons)
  show ?thesis
  proof (cases bs)
    case Nil
    then have "unat b < 128" using form Cons by simp
    moreover have "(ucast b :: uint32) = of_nat (unat b)" by simp
    ultimately show ?thesis using inp rd continuation_bit [of b] Nil Cons
      by (simp add: pb_decode_varint32_eof_def)
  next
    case bs: (Cons c cs)
    then have f: "varint_form bs" and b: "\<not> unat b < 128" using form Cons by simp_all
    have loop: "varint32_loop E 7 (ucast (b AND 0x7F)) (advance 1 st) =
        Some (Some (of_nat (varint_value xs), of_nat (7 * length xs), last xs), advance (length xs) st)"
      using varint32_loop_form [OF inp1 f, of 1 E "ucast (b AND 0x7F)"] len
        push_bit_or_digit32 [of "unat b mod 128" 0 "varint_value bs"] push_digit32 [of 0 b]
      by (simp add: Cons bs)
    have "last xs AND 0x70 = 0" if "length xs = 5"
    proof (rule last_nibble)
      have "unat (last xs) * 128 ^ 4 < 2 ^ 32"
        using varint_value_last [of xs] varint_form_last [OF form] small that by simp
      then show "unat (last xs) < 16" by simp
    qed
    moreover have "(of_nat (7 * length xs) :: 8 word) = 35 \<longleftrightarrow> length xs = 5"
    proof -
      have "unat (of_nat (7 * length xs) :: 8 word) = 7 * length xs" using len by (intro unat_bitpos) simp
      then show ?thesis by (auto simp: word_unat_eq_iff simp del: of_nat_mult)
    qed
    ultimately show ?thesis using inp rd continuation_bit [of b] b loop
      by (auto simp: pb_decode_varint32_eof_def Cons bs)
  qed
qed

end
