(* ===== verification/Pb_Roundtrip.thy ===== *)
theory Pb_Roundtrip
  imports Pb_Istream_Props Pb_Encode_Theorems
begin

text \<open>
  The primitive decoders of \<^verbatim>\<open>nanopb/pb_decode.c\<close> read back what the primitive encoders of
  \<^verbatim>\<open>nanopb/pb_encode.c\<close> have written to the same buffer, and the functions that skip unknown fields
  consume exactly one field.
\<close>

section \<open>Reading what was written\<close>

lemma load_mput: "load_bytes (m\<lparr>mbytes := mput (mbytes m) p bs\<rparr>) p (length bs) = Some bs"
  by (simp add: load_bytes_iff mput_def)

lemma input_written:
  assumes "length bs < 2 ^ 64"
  shows "input (pb_istream_from_buffer buf (of_nat (length bs)), m\<lparr>mbytes := mput (mbytes m) buf bs\<rparr>) bs"
  using assms by (simp add: input_def pb_istream_from_buffer_def load_mput unat_of_nat)

text \<open>An encoder with a known reference output leaves it in the buffer when it succeeds.\<close>

lemma written_input:
  assumes f: "implements f a" and live: "live m buf (unat bufsize)" and sz: "unat bufsize < 2 ^ 62"
    and a: "a (mhide m buf (unat bufsize)) = Some (Some bs)"
    and run: "f (pb_ostream_from_buffer buf bufsize, m) = Some (True, s, m')"
  shows "input (pb_istream_from_buffer buf (os_bytes_written s), m') bs \<and>
    os_bytes_written s = of_nat (length bs)"
proof -
  from fills_buffer [OF f live sz a] run
  have w: "m' = m\<lparr>mbytes := mput (mbytes m) buf bs\<rparr>" "os_bytes_written s = of_nat (length bs)"
    "length bs \<le> unat bufsize"
    by auto
  have "length bs < 2 ^ 64" using w(3) sz by simp
  then show ?thesis using input_written [of bs buf m] w by simp
qed

lemma wire_bytes_hide: "wire_bytes bs (mhide m p n) = Some (Some bs)"
  by (simp add: wire_bytes_def)

definition stream_end :: "addr \<Rightarrow> size_t \<Rightarrow> ist \<Rightarrow> bool" where
  "stream_end buf n st \<longleftrightarrow> is_bytes_left (fst st) = 0 \<and> is_state (fst st) = buf + uint n"

lemma stream_end_advance:
  assumes "length bs < 2 ^ 62"
  shows "stream_end buf (of_nat (length bs)) (advance (length bs) (pb_istream_from_buffer buf (of_nat (length bs)), m))"
proof -
  have "uint (of_nat (length bs) :: size_t) = int (length bs)" using assms by (simp add: uint_nat unat_of_nat)
  then show ?thesis by (simp add: stream_end_def advance_def pb_istream_from_buffer_def)
qed

text \<open>
  C4: a 64-bit value encoded with \<open>pb_encode_varint\<close> into a buffer is decoded by \<open>pb_decode_varint\<close>
  from the bytes written: the same value, with all bytes consumed.
\<close>

theorem varint_roundtrip:
  assumes "live m buf (unat bufsize)" and "unat bufsize < 2 ^ 62"
    and "pb_encode_varint E v (pb_ostream_from_buffer buf bufsize, m) = Some (True, s, m')"
  shows "\<exists>st. pb_decode_varint D (pb_istream_from_buffer buf (os_bytes_written s), m') = Some (Some v, st) \<and>
    stream_end buf (os_bytes_written s) st"
proof -
  have len: "length (varint_bytes v) < 2 ^ 62" using varint_bytes_length [of v] by (rule le_less_trans) simp
  from written_input [OF implements_varint [unfolded wire_varint_def] assms(1,2) wire_bytes_hide assms(3)]
  have i: "input (pb_istream_from_buffer buf (os_bytes_written s), m') (varint_bytes v @ [])"
    "os_bytes_written s = of_nat (length (varint_bytes v))" by auto
  show ?thesis
    using pb_decode_varint_bytes [OF i(1), of D] stream_end_advance [OF len, of buf m'] i(2) by simp
qed

definition ex_dec_env :: pb_dec_env where
  "ex_dec_env = \<lparr>dv_tables = ex_tables, dv_ext_types = (\<lambda>_. None), dv_is_user = (\<lambda>_ _ _. None),
     dv_dec_cb = (\<lambda>_ _ _ _. None), dv_ext_dec = (\<lambda>_ _ _ _ _. None)\<rparr>"

lemma ex_run_varint:
  "\<exists>s m'. pb_encode_varint ex_env 300 (pb_ostream_from_buffer 2000 32, ex_mem) = Some (True, s, m') \<and>
     os_bytes_written s = 2"
proof -
  have "varint_bytes 300 = [0xAC, 2]" by code_simp
  then have "wire_varint 300 (mhide ex_mem 2000 (unat (32 :: size_t))) = Some (Some [0xAC, 2])"
    by (simp add: wire_varint_def wire_bytes_def)
  from fills_buffer [OF implements_varint [of ex_env] ex_buffer_live _ this] show ?thesis by auto
qed

lemma varint_roundtrip_witness:
  "\<exists>s m' st. pb_encode_varint ex_env 300 (pb_ostream_from_buffer 2000 32, ex_mem) = Some (True, s, m') \<and>
     pb_decode_varint ex_dec_env (pb_istream_from_buffer 2000 (os_bytes_written s), m') = Some (Some 300, st) \<and>
     stream_end 2000 (os_bytes_written s) st"
  using ex_run_varint varint_roundtrip [OF ex_buffer_live, of ex_env 300] by fastforce

text \<open>\<open>pb_decode_svarint\<close> undoes the zigzag encoding of \<open>pb_encode_svarint\<close>.\<close>

lemma zigzag_inverse:
  "(if zigzag v AND 1 \<noteq> 0 then NOT (drop_bit 1 (zigzag v)) else drop_bit 1 (zigzag v)) = v"
proof -
  have neg: "sint v < 0 \<longleftrightarrow> bit v 63" using bit_last_iff [of v] by simp
  have z: "zigzag v = (if sint v < 0 then NOT (push_bit 1 v) else push_bit 1 v)"
    by (simp add: zigzag_def push_bit_1 not_eq_complement)
  have one: "w AND 1 \<noteq> 0 \<longleftrightarrow> bit w 0" for w :: uint64 by (simp add: and_one_eq odd_iff_mod_2_eq_one bit_0)
  show ?thesis
  proof (cases "bit v 63")
    case True
    have "NOT (drop_bit 1 (NOT (push_bit 1 v))) = v"
    proof (rule bit_word_eqI)
      fix i assume "i < LENGTH(64)"
      then show "bit (NOT (drop_bit 1 (NOT (push_bit 1 v)))) i = bit v i"
        using True by (cases "i = 63") (auto simp: bit_simps bit_double_iff mult.commute [of v])
    qed
    then show ?thesis using True by (simp add: z neg one bit_simps bit_double_iff mult.commute [of v])
  next
    case False
    have "drop_bit 1 (push_bit 1 v) = v"
    proof (rule bit_word_eqI)
      fix i assume "i < LENGTH(64)"
      then show "bit (drop_bit 1 (push_bit 1 v)) i = bit v i"
        using False by (cases "i = 63") (auto simp: bit_simps bit_double_iff mult.commute [of v])
    qed
    then show ?thesis using False by (simp add: z neg one bit_simps bit_double_iff mult.commute [of v])
  qed
qed

text \<open>C5: signed values survive the zigzag round trip through a buffer, all 2^64 of them.\<close>

theorem svarint_roundtrip:
  assumes "live m buf (unat bufsize)" and "unat bufsize < 2 ^ 62"
    and "pb_encode_svarint E v (pb_ostream_from_buffer buf bufsize, m) = Some (True, s, m')"
  shows "\<exists>st. pb_decode_svarint D (pb_istream_from_buffer buf (os_bytes_written s), m') = Some (Some v, st) \<and>
    stream_end buf (os_bytes_written s) st"
proof -
  have len: "length (varint_bytes (zigzag v)) < 2 ^ 62"
    using varint_bytes_length [of "zigzag v"] by (rule le_less_trans) simp
  from written_input [OF implements_svarint [unfolded wire_varint_def] assms(1,2) wire_bytes_hide assms(3)]
  have i: "input (pb_istream_from_buffer buf (os_bytes_written s), m') (varint_bytes (zigzag v) @ [])"
    "os_bytes_written s = of_nat (length (varint_bytes (zigzag v)))" by auto
  show ?thesis
    using pb_decode_varint_bytes [OF i(1), of D] stream_end_advance [OF len, of buf m'] i(2) zigzag_inverse [of v]
    by (simp add: pb_decode_svarint_def)
qed

lemma svarint_roundtrip_witness:
  "\<exists>s m' st. pb_encode_svarint ex_env (- 5) (pb_ostream_from_buffer 2000 32, ex_mem) = Some (True, s, m') \<and>
     pb_decode_svarint ex_dec_env (pb_istream_from_buffer 2000 (os_bytes_written s), m') = Some (Some (- 5), st) \<and>
     stream_end 2000 (os_bytes_written s) st"
proof -
  have "varint_bytes (zigzag (- 5)) = [9]" by code_simp
  then have "wire_varint (zigzag (- 5)) (mhide ex_mem 2000 (unat (32 :: size_t))) = Some (Some [9])"
    by (simp add: wire_varint_def wire_bytes_def)
  from fills_buffer [OF implements_svarint [of ex_env] ex_buffer_live _ this]
  obtain s m' where "pb_encode_svarint ex_env (- 5) (pb_ostream_from_buffer 2000 32, ex_mem) = Some (True, s, m')"
    by auto
  then show ?thesis using svarint_roundtrip [OF ex_buffer_live, of ex_env "- 5"] by fastforce
qed

section \<open>Tags\<close>

lemma wire_key_value:
  assumes "unat t < 2 ^ 29" and "unat w < 8"
  shows "unat (push_bit 3 (ucast t) OR ucast w :: uint64) = 8 * unat (t :: uint32) + unat (w :: uint32)"
proof -
  have disj: "push_bit 3 (ucast t) AND (ucast w :: uint64) = 0"
  proof (rule bit_word_eqI)
    fix i assume "i < LENGTH(64)"
    have "\<not> bit w i" if "3 \<le> i"
    proof -
      have "unat w < 2 ^ i" using assms(2) power_increasing [OF that, of "2 :: nat"] by simp
      then have "\<not> bit (unat w) i" by (simp add: bit_iff_odd)
      then show ?thesis by (simp add: bit_unsigned_iff)
    qed
    then show "bit (push_bit 3 (ucast t) AND (ucast w :: uint64)) i = bit (0 :: uint64) i"
      by (cases "3 \<le> i") (auto simp: bit_simps)
  qed
  have "unat (ucast t :: uint64) = unat t" "unat (ucast w :: uint64) = unat w"
    using unat_ucast_32 by simp_all
  then have "unat (8 * ucast t + ucast w :: uint64) = 8 * unat t + unat w"
    using assms by (simp add: unat_word_ariths)
  then show ?thesis using disj by (simp add: push_bit_eq_mult mult.commute disjunctive_add_eq_or [symmetric])
qed

lemma low_bits: "unat (w :: uint32) < 8 \<Longrightarrow> (of_nat (8 * k + unat w) :: uint32) AND 7 = w"
proof -
  assume w: "unat w < 8"
  have "(of_nat (8 * k + unat w) :: uint32) AND 7 = take_bit 3 (of_nat (8 * k + unat w))"
    by (simp add: take_bit_eq_mask mask_eq_exp_minus_1)
  also have "\<dots> = of_nat (take_bit 3 (8 * k + unat w))" by (simp add: take_bit_of_nat del: of_nat_add of_nat_mult)
  also have "take_bit 3 (8 * k + unat w) = unat w" using w by (simp add: take_bit_eq_mod)
  finally show ?thesis by simp
qed

lemma high_bits:
  assumes "unat (t :: uint32) < 2 ^ 29" and "k < 8"
  shows "drop_bit 3 (of_nat (8 * unat t + k) :: uint32) = t"
proof -
  have "unat (of_nat (8 * unat t + k) :: uint32) = 8 * unat t + k"
    using assms by (subst unat_of_nat) simp
  then have "unat (drop_bit 3 (of_nat (8 * unat t + k) :: uint32)) = unat t"
    using assms(2) by (simp add: drop_bit_eq_div unat_div_distrib del: of_nat_add of_nat_mult)
  then show ?thesis by (simp add: word_unat_eq_iff)
qed

lemma pb_decode_tag_input:
  assumes inp: "input st (varint_bytes (push_bit 3 (ucast t) OR ucast w) @ ys)"
    and t: "0 < unat t" "unat t < 2 ^ 29" and w: "unat w < 8"
  shows "pb_decode_tag E st = Some (Some (w, t), False,
    advance (length (varint_bytes (push_bit 3 (ucast t) OR ucast w))) st)"
proof -
  let ?v = "push_bit 3 (ucast t) OR ucast w :: uint64"
  have v: "unat ?v = 8 * unat t + unat w" using t w by (intro wire_key_value)
  then have small: "unat ?v < 2 ^ 32" using t w by simp
  have "unat ?v < 128 ^ 5" using small by (rule less_le_trans) simp
  then have "length (varint_bytes ?v) \<le> 5" by (rule varint_bytes_length_le) simp
  from pb_decode_varint32_form [OF inp varint_form_bytes this, of E] small
  have d: "pb_decode_varint32_eof E st = Some (Some (of_nat (8 * unat t + unat w)), False,
      advance (length (varint_bytes ?v)) st)"
    by (simp add: varint_value_bytes v del: of_nat_add of_nat_mult)
  have "unat (of_nat (8 * unat t + unat w) :: uint32) = 8 * unat t + unat w"
    using t w by (subst unat_of_nat) simp
  then have "(of_nat (8 * unat t + unat w) :: uint32) \<noteq> 0" using t by (metis add_is_0 mult_is_0 not_less0 unat_0 zero_neq_numeral)
  then show ?thesis using low_bits [OF w, of "unat t"] high_bits [OF t(2) w]
    by (simp add: pb_decode_tag_def d del: of_nat_add of_nat_mult)
qed

text \<open>
  C30: the tag of a field written by \<open>pb_encode_tag\<close> is read back by \<open>pb_decode_tag\<close>, for every
  field number the wire format allows (1 to 2^29 - 1) and every wire type.
\<close>

theorem tag_roundtrip:
  assumes "live m buf (unat bufsize)" and "unat bufsize < 2 ^ 62"
    and "0 < unat t" and "unat t < 2 ^ 29" and "unat w < 8"
    and "pb_encode_tag E w t (pb_ostream_from_buffer buf bufsize, m) = Some (True, s, m')"
  shows "\<exists>st. pb_decode_tag D (pb_istream_from_buffer buf (os_bytes_written s), m') = Some (Some (w, t), False, st) \<and>
    stream_end buf (os_bytes_written s) st"
proof -
  let ?bs = "varint_bytes (push_bit 3 (ucast t) OR ucast w)"
  have len: "length ?bs < 2 ^ 62" using varint_bytes_length by (rule le_less_trans) simp
  have "implements (pb_encode_tag E w t) (wire_bytes ?bs)"
    using implements_tag by (simp add: wire_key_def wire_varint_def)
  from written_input [OF this assms(1,2) wire_bytes_hide assms(6)]
  have i: "input (pb_istream_from_buffer buf (os_bytes_written s), m') (?bs @ [])"
    "os_bytes_written s = of_nat (length ?bs)" by auto
  show ?thesis
    using pb_decode_tag_input [OF i(1) assms(3-5), of D] stream_end_advance [OF len, of buf m'] i(2) by simp
qed

lemma tag_roundtrip_witness:
  "\<exists>s m' st. pb_encode_tag ex_env PB_WT_STRING 15 (pb_ostream_from_buffer 2000 32, ex_mem) = Some (True, s, m') \<and>
     pb_decode_tag ex_dec_env (pb_istream_from_buffer 2000 (os_bytes_written s), m') =
       Some (Some (PB_WT_STRING, 15), False, st) \<and> stream_end 2000 (os_bytes_written s) st"
proof -
  have "varint_bytes (push_bit 3 (ucast (15 :: uint32)) OR ucast PB_WT_STRING) = [122]" by code_simp
  then have "wire_key 15 PB_WT_STRING (mhide ex_mem 2000 (unat (32 :: size_t))) = Some (Some [122])"
    by (simp add: wire_key_def wire_varint_def wire_bytes_def)
  from fills_buffer [OF implements_tag [of ex_env] ex_buffer_live _ this]
  obtain s m' where "pb_encode_tag ex_env PB_WT_STRING 15 (pb_ostream_from_buffer 2000 32, ex_mem) = Some (True, s, m')"
    by auto
  then show ?thesis
    using tag_roundtrip [OF ex_buffer_live, of 15 PB_WT_STRING ex_env] by (fastforce simp: pb_consts)
qed

section \<open>Fixed-width values\<close>

lemma fixed32_word:
  assumes "length bs = 4"
  shows "(push_bit 0 (ucast (bs ! 0)) OR push_bit 8 (ucast (bs ! 1)) OR push_bit 16 (ucast (bs ! 2)) OR
    push_bit 24 (ucast (bs ! 3)) :: uint32) = le_word bs"
proof -
  obtain a b c d where bs: "bs = [a, b, c, d]" using assms by (auto simp: numeral_eq_Suc length_Suc_conv)
  show ?thesis by (simp add: bs push_bit_or push_bit_push_bit)
qed

lemma fixed64_word:
  assumes "length bs = 8"
  shows "(push_bit 0 (ucast (bs ! 0)) OR push_bit 8 (ucast (bs ! 1)) OR push_bit 16 (ucast (bs ! 2)) OR
    push_bit 24 (ucast (bs ! 3)) OR push_bit 32 (ucast (bs ! 4)) OR push_bit 40 (ucast (bs ! 5)) OR
    push_bit 48 (ucast (bs ! 6)) OR push_bit 56 (ucast (bs ! 7)) :: uint64) = le_word bs"
proof -
  obtain a b c d e f g h where bs: "bs = [a, b, c, d, e, f, g, h]"
    using assms by (auto simp: numeral_eq_Suc length_Suc_conv)
  show ?thesis by (simp add: bs push_bit_or push_bit_push_bit)
qed

text \<open>
  a 32-bit word encoded from memory with \<open>pb_encode_fixed32\<close> is stored unchanged by
  \<open>pb_decode_fixed32\<close>, through a little-endian byte string in the buffer.
\<close>

lemma fixed32_roundtrip:
  assumes "live m buf (unat bufsize)" and "unat bufsize < 2 ^ 62"
    and "load32 (mhide m buf (unat bufsize)) p = Some v"
    and "pb_encode_fixed32 E p (pb_ostream_from_buffer buf bufsize, m) = Some (True, s, m')"
    and "live m' q 4"
  shows "\<exists>st. pb_decode_fixed32 D q (pb_istream_from_buffer buf (os_bytes_written s), m') = Some (True, st) \<and>
    load32 (snd st) q = Some v \<and> stream_end buf (os_bytes_written s) st"
proof -
  have w: "wire_memory 4 p (mhide m buf (unat bufsize)) = Some (Some (le_bytes 4 v))"
    using assms(3) by (simp add: wire_memory_def load_le_bytes)
  from written_input [OF implements_fixed(1) assms(1,2) w assms(4)]
  have i: "input (pb_istream_from_buffer buf (os_bytes_written s), m') (le_bytes 4 v @ [])"
    "os_bytes_written s = of_nat (length (le_bytes 4 v))" by auto
  obtain m2 where m2: "store32 m' q v = Some m2" "load32 m2 q = Some v"
    using m32.store_total [OF assms(5), of v] by blast
  have "(le_word (le_bytes 4 v) :: uint32) = v" by (rule le_word_le_bytes) simp
  then show ?thesis
    using pb_read_input [OF i(1), of RLocal D] i(2) m2 fixed32_word [of "le_bytes 4 v"]
      stream_end_advance [of "le_bytes 4 v" buf m']
    by (simp add: pb_decode_fixed32_def stream_end_def)
qed

lemma fixed32_roundtrip_witness:
  "\<exists>s m' st. pb_encode_fixed32 ex_env 1020 (pb_ostream_from_buffer 2000 32, ex_mem) = Some (True, s, m') \<and>
     pb_decode_fixed32 ex_dec_env 1000 (pb_istream_from_buffer 2000 (os_bytes_written s), m') = Some (True, st) \<and>
     load32 (snd st) 1000 = Some (- 1) \<and> stream_end 2000 (os_bytes_written s) st"
proof -
  have l: "load32 (mhide ex_mem 2000 (unat (32 :: size_t))) 1020 = Some (- 1)" by code_simp
  then have w: "wire_memory 4 1020 (mhide ex_mem 2000 (unat (32 :: size_t))) = Some (Some (le_bytes 4 (- 1 :: uint32)))"
    by (simp add: wire_memory_def load_le_bytes)
  from fills_buffer [OF implements_fixed(1) [of ex_env] ex_buffer_live _ this]
  obtain s m' bs where r: "pb_encode_fixed32 ex_env 1020 (pb_ostream_from_buffer 2000 32, ex_mem) = Some (True, s, m')"
    "m' = ex_mem\<lparr>mbytes := mput (mbytes ex_mem) 2000 bs\<rparr>" by auto
  have "live ex_mem 1000 4" by code_simp
  then have "live m' 1000 4" unfolding r(2) live_iff by (auto simp: dom_mput)
  from fixed32_roundtrip [OF ex_buffer_live _ l r(1) this, of ex_dec_env] r(1) show ?thesis by auto
qed

section \<open>Skipping\<close>

text \<open>The bytes that follow a tag with a given wire type.\<close>

inductive wire_payload :: "pb_wire_type_t \<Rightarrow> byte list \<Rightarrow> bool" where
  payload_varint: "varint_form bs \<Longrightarrow> wire_payload PB_WT_VARINT bs"
| payload_64bit: "length bs = 8 \<Longrightarrow> wire_payload PB_WT_64BIT bs"
| payload_string: "length data < 2 ^ 32 \<Longrightarrow>
    wire_payload PB_WT_STRING (varint_bytes (of_nat (length data)) @ data)"
| payload_32bit: "length bs = 4 \<Longrightarrow> wire_payload PB_WT_32BIT bs"

lemma pb_read_1: "input st (b # bs) \<Longrightarrow> pb_read E RLocal 1 st = Some (Some [b], advance 1 st)"
  using pb_read_input [of st "[b]" bs RLocal E] by simp

lemma pb_skip_varint_form:
  "input st (xs @ ys) \<Longrightarrow> varint_form xs \<Longrightarrow> pb_skip_varint E st = Some (True, advance (length xs) st)"
proof (induction xs arbitrary: st rule: varint_form.induct)
  case 1
  then show ?case by simp
next
  case (2 b)
  then show ?case using pb_read_1 [of st b ys E] continuation_bit [of b]
    by (subst pb_skip_varint.simps) simp
next
  case (3 b c bs)
  then have "input (advance 1 st) ((c # bs) @ ys)" using input_Cons [of st b] by simp
  then show ?case using 3 pb_read_1 [of st b "(c # bs) @ ys" E] continuation_bit [of b]
    by (subst pb_skip_varint.simps) simp
qed

lemma pb_skip_input: "input st (xs @ ys) \<Longrightarrow> n = of_nat (length xs) \<Longrightarrow> pb_skip E n st = Some (True, advance (length xs) st)"
  by (simp add: pb_skip_def pb_read_input)

lemma pb_decode_length:
  assumes "input st (varint_bytes (of_nat n) @ ys)" and "n < 2 ^ 32"
  shows "pb_decode_varint32 E st = Some (Some (of_nat n), advance (length (varint_bytes (of_nat n))) st)"
proof -
  have n: "unat (of_nat n :: uint64) = n" using assms(2) by (simp add: unat_of_nat)
  then have "length (varint_bytes (of_nat n)) \<le> 5" using assms(2)
    by (intro varint_bytes_length_le) (simp_all add: less_le_trans [of n "2 ^ 32"])
  from pb_decode_varint32_form [OF assms(1) varint_form_bytes this, of E] assms(2) show ?thesis
    by (simp add: varint_value_bytes n pb_decode_varint32_def)
qed

lemma ucast_of_nat_32: "n < 2 ^ 32 \<Longrightarrow> (ucast (of_nat n :: uint32) :: size_t) = of_nat n"
  by (simp add: word_unat_eq_iff unat_ucast_32 unat_of_nat)

lemma pb_skip_string_input:
  assumes "input st (varint_bytes (of_nat (length data)) @ data @ ys)" and "length data < 2 ^ 32"
  shows "pb_skip_string E st = Some (True, advance (length (varint_bytes (of_nat (length data))) + length data) st)"
  using pb_decode_length [OF assms, of E] pb_skip_input [OF input_advance [OF assms(1)] refl, of E]
  by (simp add: pb_skip_string_def ucast_of_nat_32 [OF assms(2)] add.commute)

text \<open>
  C33: \<open>pb_skip_field\<close> consumes the payload of exactly one field, whatever its wire type and whatever
  follows it, so that decoding goes on at the next tag.
\<close>

theorem pb_skip_field_exact:
  assumes "input st (bs @ ys)" and "wire_payload w bs"
  shows "pb_skip_field E w st = Some (True, advance (length bs) st) \<and> input (advance (length bs) st) ys"
  using assms(2,1)
proof cases
  case payload_varint
  then show ?thesis using pb_skip_varint_form [OF assms(1)] input_advance [OF assms(1)]
    by (simp add: pb_skip_field_def)
next
  case payload_64bit
  then show ?thesis using pb_skip_input [OF assms(1), of _ E] input_advance [OF assms(1)]
    by (simp add: pb_skip_field_def pb_consts)
next
  case (payload_string data)
  then show ?thesis using pb_skip_string_input [of st data ys E] input_advance [OF assms(1)] assms(1)
    by (simp add: pb_skip_field_def pb_consts)
next
  case payload_32bit
  then show ?thesis using pb_skip_input [OF assms(1), of _ E] input_advance [OF assms(1)]
    by (simp add: pb_skip_field_def pb_consts)
qed

definition ex_input :: "byte list \<Rightarrow> ist" where
  "ex_input bs = (pb_istream_from_buffer 3000 (of_nat (length bs)), ex_mem\<lparr>mbytes := mput (mbytes ex_mem) 3000 bs\<rparr>)"

lemma input_ex: "length bs < 2 ^ 64 \<Longrightarrow> input (ex_input bs) bs"
  unfolding ex_input_def by (rule input_written)

lemma pb_skip_field_exact_witness:
  "pb_skip_field ex_dec_env PB_WT_STRING (ex_input [3, 10, 20, 30, 8, 1]) =
     Some (True, advance 4 (ex_input [3, 10, 20, 30, 8, 1])) \<and>
   input (advance 4 (ex_input [3, 10, 20, 30, 8, 1])) [8, 1]"
proof -
  have "varint_bytes 3 = [3]" by code_simp
  then have p: "wire_payload PB_WT_STRING [3, 10, 20, 30]"
    using payload_string [of "[10, 20, 30]"] by simp
  have i: "input (ex_input [3, 10, 20, 30, 8, 1]) ([3, 10, 20, 30] @ [8, 1])"
    using input_ex [of "[3, 10, 20, 30, 8, 1]"] by simp
  show ?thesis using pb_skip_field_exact [OF i p, of ex_dec_env] by (simp add: eval_nat_numeral)
qed

section \<open>Substreams\<close>

text \<open>
  C34: \<open>pb_make_string_substream\<close> on a length-delimited item gives a stream that holds exactly the
  item and leaves the parent what follows it; after any part of the item has been read,
  \<open>pb_close_string_substream\<close> puts the parent behind the item.
\<close>

theorem substream_exact:
  assumes "input st (varint_bytes (of_nat (length data)) @ data @ ys)" and "length data < 2 ^ 32"
    and "k \<le> length data"
  shows "\<exists>sub st1. pb_make_string_substream E st = Some (Some sub, st1) \<and>
    input (sub, snd st1) data \<and> is_bytes_left (fst st1) = of_nat (length ys) \<and>
    (\<exists>st2. pb_close_string_substream E (fst (advance k (sub, snd st1))) st1 = Some (True, st2) \<and> input st2 ys)"
proof -
  let ?hd = "varint_bytes (of_nat (length data)) :: byte list"
  let ?st = "advance (length ?hd) st"
  have inp: "input ?st (data @ ys)" using input_advance [OF assms(1)] .
  have left: "unat (is_bytes_left (fst ?st)) = length data + length ys" using inp by (simp add: input_def)
  have n: "unat (of_nat (length data) :: size_t) = length data" using assms(2) by (simp add: unat_of_nat)
  have ge: "\<not> is_bytes_left (fst ?st) < of_nat (length data)" using left n by (simp add: word_less_nat_alt)
  define sub where "sub = (fst ?st)\<lparr>is_bytes_left := of_nat (length data)\<rparr>"
  define st1 where "st1 = ((fst ?st)\<lparr>is_bytes_left := is_bytes_left (fst ?st) - of_nat (length data)\<rparr>, snd st)"
  have mk: "pb_make_string_substream E st = Some (Some sub, st1)"
    using pb_decode_length [OF assms(1,2), of E] ge
    by (simp add: pb_make_string_substream_def ucast_of_nat_32 [OF assms(2)] sub_def st1_def)
  have i1: "input (sub, snd st1) (data @ [])"
    using inp n by (simp add: input_def sub_def st1_def load_bytes_append)
  have a: "input (advance (length data) ?st) ys" using input_advance [OF inp] .
  have l1: "is_bytes_left (fst st1) = of_nat (length ys)" using input_left(1) [OF a] by (simp add: st1_def advance_def)
  let ?sub = "advance k (sub, snd st1)"
  have i2: "input ?sub (drop k data @ [])"
    using input_advance [of "(sub, snd st1)" "take k data" "drop k data"] i1 assms(3) by (simp add: min_absorb2)
  obtain st2 where st2: "pb_close_string_substream E (fst ?sub) st1 = Some (True, st2)"
    and s2: "is_state (fst st2) = is_state (fst ?st) + int (length data)"
    "is_callback (fst st2) = is_callback (fst st1)" "is_bytes_left (fst st2) = is_bytes_left (fst st1)" "snd st2 = snd st1"
  proof (cases "drop k data = []")
    case True
    then have "is_bytes_left (fst ?sub) = 0" and k: "k = length data" using i2 input_left_0 [OF i2] assms(3) by auto
    then show ?thesis
      by (intro that [of "((fst st1)\<lparr>is_state := is_state (fst ?sub), is_errmsg := is_errmsg (fst ?sub)\<rparr>, snd st1)"])
        (auto simp: pb_close_string_substream_def sub_def advance_def)
  next
    case False
    have nz: "is_bytes_left (fst ?sub) \<noteq> 0" using input_left_0 [OF i2] False by simp
    have "pb_skip E (is_bytes_left (fst ?sub)) ?sub = Some (True, advance (length (drop k data)) ?sub)"
      using i2 input_left(1) [OF i2] by (intro pb_skip_input [where ys = "[]"]) simp_all
    moreover have "(fst ?sub, snd st1) = ?sub" by (simp add: advance_def)
    ultimately show ?thesis using nz assms(3)
      by (intro that [of "((fst st1)\<lparr>is_state := is_state (fst ?sub) + int (length (drop k data)),
          is_errmsg := is_errmsg (fst ?sub)\<rparr>, snd st1)"])
        (auto simp: pb_close_string_substream_def sub_def advance_def)
  qed
  have "input st2 ys" using a s2 l1 input_left(1) [OF a]
    by (simp add: input_def st1_def advance_def)
  then show ?thesis using mk i1 l1 st2 by (cases st2) auto
qed

lemma substream_exact_witness:
  "\<exists>sub st1. pb_make_string_substream ex_dec_env (ex_input [2, 7, 8, 9]) = Some (Some sub, st1) \<and>
    input (sub, snd st1) [7, 8] \<and> is_bytes_left (fst st1) = of_nat (length [9 :: byte]) \<and>
    (\<exists>st2. pb_close_string_substream ex_dec_env (fst (advance 1 (sub, snd st1))) st1 = Some (True, st2) \<and> input st2 [9])"
proof -
  have v: "varint_bytes 2 = [2]" by code_simp
  have "input (ex_input [2, 7, 8, 9]) (varint_bytes (of_nat (length [7, 8 :: byte])) @ [7, 8] @ [9])"
    using input_ex [of "[2, 7, 8, 9]"] by (simp add: v)
  from substream_exact [OF this, of 1 ex_dec_env] show ?thesis by simp
qed

section \<open>Over-long varints\<close>

lemma byte_80: "(0x80 :: byte) AND 0x7F = 0" "(0x80 :: byte) AND 0x80 \<noteq> 0"
  by simp_all

lemma varint32_loop_zeros:
  "input st (replicate k 0x80 @ ys) \<Longrightarrow>
   varint32_loop E bp res st = varint32_loop E (bp + of_nat (7 * k)) res (advance k st)"
proof (induction k arbitrary: st bp)
  case 0
  then show ?case by simp
next
  case (Suc k)
  have rd: "pb_readbyte E st = Some (Some 0x80, advance 1 st)"
    by (rule pb_readbyte_input) (use Suc.prems in simp)
  have inp: "input (advance 1 st) (replicate k 0x80 @ ys)"
    by (rule input_Cons) (use Suc.prems in simp)
  have "varint32_loop E bp res st = varint32_loop E (bp + 7) res (advance 1 st)"
    by (subst varint32_loop.simps) (simp add: rd byte_80 Let_def)
  also have "\<dots> = varint32_loop E (bp + 7 + of_nat (7 * k)) res (advance k (advance 1 st))"
    using inp by (rule Suc.IH)
  also have "bp + 7 + of_nat (7 * k) = bp + of_nat (7 * Suc k)" by simp
  finally show ?case by simp
qed

lemma leading_run_zeros: "unat b < 128 \<Longrightarrow> leading_run (replicate k 0x80 @ b # ys) = k"
  by (induction k) simp_all

text \<open>
  C36: the 8-bit \<open>bitpos\<close> of \<open>pb_decode_varint32\<close> wraps around: a varint of 38 bytes, which the wire
  format does not allow and \<open>pb_decode_varint\<close> rejects, is accepted with the value 8.
\<close>

theorem pb_decode_varint32_overlong:
  assumes "input st (replicate 37 0x80 @ [1] @ ys)"
  shows "pb_decode_varint32 E st = Some (Some 8, advance 38 st) \<and>
    pb_decode_varint E st = fails (is_error ''varint overflow'') (advance 10 st)"
proof
  have e: "replicate 37 (0x80 :: byte) = 0x80 # replicate 36 0x80" by (simp add: numeral_eq_Suc)
  have rd: "pb_readbyte E st = Some (Some 0x80, advance 1 st)"
    by (rule pb_readbyte_input) (use assms in \<open>simp add: e\<close>)
  have inp: "input (advance 1 st) (replicate 36 0x80 @ [1] @ ys)"
    by (rule input_Cons) (use assms in \<open>simp add: e\<close>)
  have inp37: "input (advance 37 st) (1 # ys)"
    using input_advance [OF assms] by simp
  have rd37: "pb_readbyte E (advance 37 st) = Some (Some 1, advance 38 st)"
    using pb_readbyte_input [OF inp37, of E] by simp
  have wrap: "(259 :: 8 word) = 3" by code_simp
  have "varint32_loop E 7 0 (advance 1 st) = varint32_loop E 3 0 (advance 37 st)"
    using varint32_loop_zeros [OF inp, of E 7 0] wrap by simp
  also have "\<dots> = Some (Some (8, 10, 1), advance 38 st)"
    by (subst varint32_loop.simps) (simp add: rd37 Let_def)
  finally show "pb_decode_varint32 E st = Some (Some 8, advance 38 st)"
    by (simp add: pb_decode_varint32_def pb_decode_varint32_eof_def rd byte_80)
  have "leading_run (replicate 37 0x80 @ [1] @ ys) = 37" by (simp add: leading_run_zeros)
  then show "pb_decode_varint E st = fails (is_error ''varint overflow'') (advance 10 st)"
    using pb_decode_varint_input [OF assms, of E] by simp
qed

lemma pb_decode_varint32_overlong_witness:
  "pb_decode_varint32 ex_dec_env (ex_input (replicate 37 0x80 @ [1])) =
     Some (Some 8, advance 38 (ex_input (replicate 37 0x80 @ [1]))) \<and>
   pb_decode_varint ex_dec_env (ex_input (replicate 37 0x80 @ [1])) =
     fails (is_error ''varint overflow'') (advance 10 (ex_input (replicate 37 0x80 @ [1])))"
  using pb_decode_varint32_overlong [of "ex_input (replicate 37 0x80 @ [1])" "[]" ex_dec_env]
    input_ex [of "replicate 37 0x80 @ [1]"] by simp

end
