(* ===== verification/Pb_Decode.thy ===== *)
theory Pb_Decode
  imports Pb_Istream
begin

text \<open>
  \<^verbatim>\<open>nanopb/pb_decode.c\<close>: the field decoders with their dispatch table, the decoding of static,
  pointer, callback and extension fields, default values, the release of allocated fields, and
  \<^verbatim>\<open>pb_decode\<close> itself. The recursion through submessages goes through arguments of the field
  decoders; the functions that tie it have a fuel argument that bounds the nesting.
\<close>

section \<open>Lists of extensions\<close>

text \<open>
  \<^verbatim>\<open>while (ext != NULL) { body; ext = ext->next; }\<close> on a list the user built, which may be cyclic.
\<close>

partial_function (option) ext_list_loop ::
  "(addr \<Rightarrow> mem \<Rightarrow> mem option) \<Rightarrow> addr \<Rightarrow> mem \<Rightarrow> mem option" where
  "ext_list_loop body ext m =
     (if ext = 0 then Some m
      else do { m \<leftarrow> body ext m; nx \<leftarrow> ext_next m ext; ext_list_loop body nx m })"

definition ext_field :: "'a pb_dec_env_scheme \<Rightarrow> mem \<Rightarrow> addr \<Rightarrow> field_pos option" where
  "ext_field E m ext = do { p \<leftarrow> ext_type m ext; xt \<leftarrow> dv_ext_types E p; Some (xt_arg xt) }"

definition iter_from_extension :: "'a pb_dec_env_scheme \<Rightarrow> mem \<Rightarrow> addr \<Rightarrow> pb_field_iter option" where
  "iter_from_extension E m ext = do {
     pos \<leftarrow> ext_field E m ext;
     field \<leftarrow> field_at (dv_tables E) pos;
     dest \<leftarrow> ext_dest m ext;
     (_, iter) \<leftarrow> pb_field_iter_begin (dv_tables E) pos dest;
     Some (iter\<lparr>it_pData := (if PB_ATYPE (f_type field) = PB_ATYPE_POINTER then ext_dest_addr ext else dest),
                it_pSize := ext_found_addr ext\<rparr>) }"

section \<open>Default values\<close>

definition each_member :: "field_tables \<Rightarrow> (pb_field_iter \<Rightarrow> mem \<Rightarrow> mem option) \<Rightarrow> nat \<Rightarrow> addr \<Rightarrow> mem \<Rightarrow> mem option" where
  "each_member T body t dest m = do {
     (nonempty, iter) \<leftarrow> pb_field_iter_begin T (t, 0) dest;
     if \<not> nonempty then Some m
     else map_option snd (iter_loop (length (T t)) (pb_field_iter_next T)
       (\<lambda>iter m. map_option (\<lambda>m. (True, m)) (body iter m)) iter m) }"

definition init_data :: "pb_field \<Rightarrow> addr \<Rightarrow> mem \<Rightarrow> mem option" where
  "init_data field pData m =
     (case f_ptr field of
        FNull \<Rightarrow> memset0 m pData (unat (f_data_size field))
      | FDefault bs \<Rightarrow>
          if unat (f_data_size field) \<le> length bs
          then store_bytes m pData (take (unat (f_data_size field)) bs) else None
      | FFields _ \<Rightarrow> None)"

definition set_static_default :: "(nat \<Rightarrow> addr \<Rightarrow> mem \<Rightarrow> mem option) \<Rightarrow> pb_field \<Rightarrow> pb_field_iter \<Rightarrow> mem \<Rightarrow> mem option" where
  "set_static_default defaults field iter m =
     (let ty = f_type field in do {
        (init, m) \<leftarrow>
          (if PB_HTYPE ty = PB_HTYPE_OPTIONAL \<and> it_pSize iter \<noteq> it_pData iter
           then map_option (\<lambda>m. (True, m)) (store_bool m (it_pSize iter) False)
           else if PB_HTYPE ty = PB_HTYPE_REPEATED \<or> PB_HTYPE ty = PB_HTYPE_ONEOF
           then map_option (\<lambda>m. (False, m)) (store32 m (it_pSize iter) 0)
           else Some (True, m));
        if \<not> init then Some m
        else if PB_LTYPE ty = PB_LTYPE_SUBMESSAGE
        then (case f_ptr field of FFields t \<Rightarrow> defaults t (it_pData iter) m | _ \<Rightarrow> None)
        else init_data field (it_pData iter) m })"

fun pb_field_set_to_default :: "nat \<Rightarrow> 'a pb_dec_env_scheme \<Rightarrow> pb_field_iter \<Rightarrow> mem \<Rightarrow> mem option" where
  "pb_field_set_to_default 0 E iter m = None"
| "pb_field_set_to_default (Suc n) E iter m = do {
     field \<leftarrow> field_at (dv_tables E) (it_pos iter);
     let ty = f_type field;
     if PB_LTYPE ty = PB_LTYPE_EXTENSION then do {
       ext \<leftarrow> load_ptr m (it_pData iter);
       ext_list_loop (\<lambda>ext m. do {
         m \<leftarrow> store_bool m (ext_found_addr ext) False;
         ext_iter \<leftarrow> iter_from_extension E m ext;
         pb_field_set_to_default n E ext_iter m }) ext m }
     else if PB_ATYPE ty = PB_ATYPE_STATIC
     then set_static_default (each_member (dv_tables E) (pb_field_set_to_default n E)) field iter m
     else if PB_ATYPE ty = PB_ATYPE_POINTER then do {
       m \<leftarrow> store_ptr m (it_pData iter) 0;
       if PB_HTYPE ty = PB_HTYPE_REPEATED \<or> PB_HTYPE ty = PB_HTYPE_ONEOF
       then store32 m (it_pSize iter) 0 else Some m }
     else Some m }"

definition pb_message_set_to_defaults :: "nat \<Rightarrow> 'a pb_dec_env_scheme \<Rightarrow> nat \<Rightarrow> addr \<Rightarrow> mem \<Rightarrow> mem option" where
  "pb_message_set_to_defaults n E t dest m = each_member (dv_tables E) (pb_field_set_to_default n E) t dest m"

section \<open>Release of allocated fields\<close>

fun release_items :: "(addr \<Rightarrow> mem \<Rightarrow> mem option) \<Rightarrow> nat \<Rightarrow> int \<Rightarrow> addr \<Rightarrow> mem \<Rightarrow> mem option" where
  "release_items rel 0 step pItem m = Some m"
| "release_items rel (Suc c) step pItem m = do {
     m \<leftarrow> rel pItem m;
     release_items rel c step (pItem + step) m }"

definition release_pointer_entry :: "addr \<Rightarrow> mem \<Rightarrow> mem option" where
  "release_pointer_entry pItem m = do {
     p \<leftarrow> load_ptr m pItem;
     m \<leftarrow> free_mem m p;
     store_ptr m pItem 0 }"

definition release_count :: "pb_field \<Rightarrow> pb_field_iter \<Rightarrow> mem \<Rightarrow> uint32 option" where
  "release_count field iter m =
     (let ty = f_type field in
      if PB_HTYPE ty = PB_HTYPE_REPEATED then do {
        count \<leftarrow> (if PB_ATYPE ty = PB_ATYPE_STATIC \<and> it_pSize iter = it_pData iter
                  then Some (f_array_size field) else load32 m (it_pSize iter));
        Some (if PB_ATYPE ty = PB_ATYPE_STATIC \<and> count > f_array_size field
              then f_array_size field else count) }
      else Some 1)"

definition release_pointer_field :: "pb_field \<Rightarrow> pb_field_iter \<Rightarrow> mem \<Rightarrow> mem option" where
  "release_pointer_field field iter m =
     (let ty = f_type field in do {
        m \<leftarrow> (if PB_HTYPE ty = PB_HTYPE_REPEATED \<and>
                (PB_LTYPE ty = PB_LTYPE_STRING \<or> PB_LTYPE ty = PB_LTYPE_BYTES)
              then do {
                pItem \<leftarrow> load_ptr m (it_pData iter);
                count \<leftarrow> load32 m (it_pSize iter);
                release_items release_pointer_entry (unat count) 8 pItem m }
              else Some m);
        m \<leftarrow> (if PB_HTYPE ty = PB_HTYPE_REPEATED then store32 m (it_pSize iter) 0 else Some m);
        p \<leftarrow> load_ptr m (it_pData iter);
        m \<leftarrow> free_mem m p;
        store_ptr m (it_pData iter) 0 })"

definition pb_release_with :: "field_tables \<Rightarrow> (pb_field_iter \<Rightarrow> mem \<Rightarrow> mem option) \<Rightarrow> nat \<Rightarrow> addr \<Rightarrow> mem \<Rightarrow> mem option" where
  "pb_release_with T single t dest m = (if dest = 0 then Some m else each_member T single t dest m)"

fun pb_release_single_field :: "nat \<Rightarrow> 'a pb_dec_env_scheme \<Rightarrow> pb_field_iter \<Rightarrow> mem \<Rightarrow> mem option" where
  "pb_release_single_field 0 E iter m = None"
| "pb_release_single_field (Suc n) E iter m = do {
     field \<leftarrow> field_at (dv_tables E) (it_pos iter);
     let ty = f_type field;
     current \<leftarrow> (if PB_HTYPE ty = PB_HTYPE_ONEOF
                 then map_option (\<lambda>which. which = f_tag field) (load32 m (it_pSize iter)) else Some True);
     if \<not> current then Some m
     else do {
       m \<leftarrow>
         (if PB_LTYPE ty = PB_LTYPE_EXTENSION then do {
            ext \<leftarrow> load_ptr m (it_pData iter);
            ext_list_loop (\<lambda>ext m. do {
              ext_iter \<leftarrow> iter_from_extension E m ext;
              pb_release_single_field n E ext_iter m }) ext m }
          else if PB_LTYPE ty = PB_LTYPE_SUBMESSAGE then do {
            pItem \<leftarrow> (if PB_ATYPE ty = PB_ATYPE_POINTER then load_ptr m (it_pData iter)
                      else Some (it_pData iter));
            count \<leftarrow> release_count field iter m;
            if pItem \<noteq> 0
            then release_items (\<lambda>pItem m.
                case f_ptr field of
                  FFields t \<Rightarrow> pb_release_with (dv_tables E) (pb_release_single_field n E) t pItem m
                | _ \<Rightarrow> None)
              (unat count) (uint (f_data_size field)) pItem m
            else Some m }
          else Some m);
       if PB_ATYPE ty = PB_ATYPE_POINTER then release_pointer_field field iter m else Some m } }"

definition pb_release :: "nat \<Rightarrow> 'a pb_dec_env_scheme \<Rightarrow> nat \<Rightarrow> addr \<Rightarrow> mem \<Rightarrow> mem option" where
  "pb_release n E t dest m = pb_release_with (dv_tables E) (pb_release_single_field n E) t dest m"

text \<open>The result holds the iterator as the call leaves it.\<close>

definition pb_release_union_field ::
  "nat \<Rightarrow> 'a pb_dec_env_scheme \<Rightarrow> pb_field_iter \<Rightarrow> ist \<Rightarrow> (bool \<times> pb_field_iter \<times> ist) option" where
  "pb_release_union_field n E iter st = do {
     old_tag \<leftarrow> load32 (snd st) (it_pSize iter);
     field \<leftarrow> field_at (dv_tables E) (it_pos iter);
     let new_tag = f_tag field;
     if old_tag = 0 \<or> old_tag = new_tag then Some (True, iter, st)
     else do {
       (found, iter) \<leftarrow> pb_field_iter_find (dv_tables E) iter old_tag;
       if \<not> found then map_option (\<lambda>(ok, st). (ok, iter, st)) (is_error ''invalid union tag'' st)
       else do {
         m \<leftarrow> pb_release_single_field n E iter (snd st);
         (found, iter) \<leftarrow> pb_field_iter_find (dv_tables E) iter new_tag;
         if \<not> found then map_option (\<lambda>(ok, st). (ok, iter, st)) (is_error ''iterator error'' (fst st, m))
         else Some (True, iter, (fst st, m)) } } }"

section \<open>Allocation\<close>

definition allocate_field :: "addr \<Rightarrow> size_t \<Rightarrow> size_t \<Rightarrow> dec_op" where
  "allocate_field pData data_size array_size st = do {
     ptr \<leftarrow> load_ptr (snd st) pData;
     if data_size = 0 \<or> array_size = 0 then is_error ''invalid size'' st
     else if (data_size \<ge> push_bit 32 1 \<or> array_size \<ge> push_bit 32 1) \<and> (- 1) div array_size < data_size
     then is_error ''size too large'' st
     else do {
       (ptr, m) \<leftarrow> realloc_mem (snd st) ptr (unat (array_size * data_size));
       if ptr = 0 then is_error ''realloc failed'' (fst st, m)
       else do { m \<leftarrow> store_ptr m pData ptr; Some (True, (fst st, m)) } } }"

definition initialize_pointer_field :: "nat \<Rightarrow> 'a pb_dec_env_scheme \<Rightarrow> pb_field \<Rightarrow> addr \<Rightarrow> mem \<Rightarrow> mem option" where
  "initialize_pointer_field n E field pItem m =
     (if PB_LTYPE (f_type field) = PB_LTYPE_STRING \<or> PB_LTYPE (f_type field) = PB_LTYPE_BYTES
      then store_ptr m pItem 0
      else if PB_LTYPE (f_type field) = PB_LTYPE_SUBMESSAGE
      then do {
        m \<leftarrow> memset0 m pItem (unat (f_data_size field));
        case f_ptr field of FFields t \<Rightarrow> pb_message_set_to_defaults n E t pItem m | _ \<Rightarrow> None }
      else Some m)"

section \<open>Field decoders\<close>

type_synonym decoder = "pb_field \<Rightarrow> addr \<Rightarrow> dec_op"
type_synonym msg_decoder = "nat \<Rightarrow> addr \<Rightarrow> dec_op"

text \<open>
  The store of an integer at the width \<^verbatim>\<open>data_size\<close>; the result is the value read back at 64 bits.
\<close>

definition store_signed :: "mem \<Rightarrow> uint32 \<Rightarrow> addr \<Rightarrow> uint64 \<Rightarrow> (mem option \<times> uint64) option" where
  "store_signed m data_size dest v =
     (if data_size = 8 then Some (store64 m dest v, v)
      else if data_size = 4 then Some (store32 m dest (ucast v), scast (ucast v :: uint32))
      else if data_size = 2 then Some (store16 m dest (ucast v), scast (ucast v :: 16 word))
      else if data_size = 1 then Some (store8 m dest (ucast v), scast (ucast v :: byte))
      else None)"

definition store_unsigned :: "mem \<Rightarrow> uint32 \<Rightarrow> addr \<Rightarrow> uint64 \<Rightarrow> (mem option \<times> uint64) option" where
  "store_unsigned m data_size dest v =
     (if data_size = 8 then Some (store64 m dest v, v)
      else if data_size = 4 then Some (store32 m dest (ucast v), ucast (ucast v :: uint32))
      else if data_size = 2 then Some (store16 m dest (ucast v), ucast (ucast v :: 16 word))
      else if data_size = 1 then Some (store8 m dest (ucast v), ucast (ucast v :: byte))
      else None)"

definition store_checked :: "(mem option \<times> uint64) option \<Rightarrow> uint64 \<Rightarrow> dec_op" where
  "store_checked r v st =
     (case r of
        None \<Rightarrow> is_error ''invalid data_size'' st
      | Some (m, clamped) \<Rightarrow> do {
          m \<leftarrow> m;
          if clamped \<noteq> v then is_error ''integer too large'' (fst st, m) else Some (True, (fst st, m)) })"

definition pb_dec_varint :: "'a pb_dec_env_scheme \<Rightarrow> decoder" where
  "pb_dec_varint E field dest st =
     reading (pb_decode_varint E st) (\<lambda>v st.
       let svalue = (if f_data_size field = 8 then v else scast (ucast v :: uint32))
       in store_checked (store_signed (snd st) (f_data_size field) dest svalue) svalue st)"

definition pb_dec_uvarint :: "'a pb_dec_env_scheme \<Rightarrow> decoder" where
  "pb_dec_uvarint E field dest st =
     reading (pb_decode_varint E st) (\<lambda>v st.
       store_checked (store_unsigned (snd st) (f_data_size field) dest v) v st)"

definition pb_dec_svarint :: "'a pb_dec_env_scheme \<Rightarrow> decoder" where
  "pb_dec_svarint E field dest st =
     reading (pb_decode_svarint E st) (\<lambda>v st.
       store_checked (store_signed (snd st) (f_data_size field) dest v) v st)"

definition pb_dec_fixed32 :: "'a pb_dec_env_scheme \<Rightarrow> decoder" where
  "pb_dec_fixed32 E field dest st = pb_decode_fixed32 E dest st"

definition pb_dec_fixed64 :: "'a pb_dec_env_scheme \<Rightarrow> decoder" where
  "pb_dec_fixed64 E field dest st = pb_decode_fixed64 E dest st"

text \<open>The read into memory and its result as a Boolean.\<close>

definition pb_read_to :: "'a pb_dec_env_scheme \<Rightarrow> addr \<Rightarrow> size_t \<Rightarrow> dec_op" where
  "pb_read_to E dest count st = reading (pb_read E (RMem dest) count st) (\<lambda>_ st. Some (True, st))"

definition pb_dec_bytes :: "'a pb_dec_env_scheme \<Rightarrow> decoder" where
  "pb_dec_bytes E field dest st =
     reading (pb_decode_varint32 E st) (\<lambda>sz st.
       let alloc_size = PB_BYTES_ARRAY_T_ALLOCSIZE sz in
       if sz > PB_SIZE_MAX then is_error ''bytes overflow'' st
       else if ucast sz > alloc_size then is_error ''size too large'' st
       else
         let fill = (\<lambda>bdest st. do {
           m \<leftarrow> store32 (snd st) bdest sz;
           pb_read_to E (bytes_array_data bdest) (ucast sz) (fst st, m) }) in
         if PB_ATYPE (f_type field) = PB_ATYPE_POINTER
         then and_then (allocate_field dest alloc_size 1 st) (\<lambda>st. do {
           bdest \<leftarrow> load_ptr (snd st) dest; fill bdest st })
         else if alloc_size > ucast (f_data_size field) then is_error ''bytes overflow'' st
         else fill dest st)"

definition pb_dec_string :: "'a pb_dec_env_scheme \<Rightarrow> decoder" where
  "pb_dec_string E field dest st =
     reading (pb_decode_varint32 E st) (\<lambda>sz st.
       let alloc_size = (ucast (sz + 1) :: size_t) in
       if alloc_size < ucast sz then is_error ''size too large'' st
       else
         let fill = (\<lambda>dest st. do {
           (status, st) \<leftarrow> pb_read_to E dest (ucast sz) st;
           m \<leftarrow> store8 (snd st) (dest + uint sz) 0;
           Some (status, (fst st, m)) }) in
         if PB_ATYPE (f_type field) = PB_ATYPE_POINTER
         then and_then (allocate_field dest alloc_size 1 st) (\<lambda>st. do {
           p \<leftarrow> load_ptr (snd st) dest; fill p st })
         else if alloc_size > ucast (f_data_size field) then is_error ''string overflow'' st
         else fill dest st)"

text \<open>\<open>f(&substream)\<close> and the close of the substream, whose failure decides the result first.\<close>

definition with_substream :: "'a pb_dec_env_scheme \<Rightarrow> pb_istream \<Rightarrow> dec_op \<Rightarrow> dec_op" where
  "with_substream E substream f st = do {
     (status, substream, m) \<leftarrow> f (substream, snd st);
     and_then (pb_close_string_substream E substream (fst st, m)) (\<lambda>st. Some (status, st)) }"

definition pb_dec_submessage :: "'a pb_dec_env_scheme \<Rightarrow> msg_decoder \<Rightarrow> msg_decoder \<Rightarrow> decoder" where
  "pb_dec_submessage E dec noinit field dest st =
     reading (pb_make_string_substream E st) (\<lambda>substream st.
       case f_ptr field of
         FNull \<Rightarrow> is_error ''invalid field descriptor'' st
       | FFields t \<Rightarrow>
           with_substream E substream
             (if PB_HTYPE (f_type field) = PB_HTYPE_REPEATED then dec t dest else noinit t dest) st
       | FDefault _ \<Rightarrow> None)"

definition pb_dec_fixed_length_bytes :: "'a pb_dec_env_scheme \<Rightarrow> decoder" where
  "pb_dec_fixed_length_bytes E field dest st =
     reading (pb_decode_varint32 E st) (\<lambda>sz st.
       if sz > PB_SIZE_MAX then is_error ''bytes overflow'' st
       else if sz = 0 then do {
         m \<leftarrow> memset0 (snd st) dest (unat (f_data_size field));
         Some (True, (fst st, m)) }
       else if sz \<noteq> f_data_size field then is_error ''incorrect fixed length bytes size'' st
       else pb_read_to E dest (ucast (f_data_size field)) st)"

definition PB_DECODERS :: "'a pb_dec_env_scheme \<Rightarrow> msg_decoder \<Rightarrow> msg_decoder \<Rightarrow> pb_type_t \<Rightarrow> decoder option" where
  "PB_DECODERS E dec noinit l =
     (if l = PB_LTYPE_VARINT then Some (pb_dec_varint E)
      else if l = PB_LTYPE_UVARINT then Some (pb_dec_uvarint E)
      else if l = PB_LTYPE_SVARINT then Some (pb_dec_svarint E)
      else if l = PB_LTYPE_FIXED32 then Some (pb_dec_fixed32 E)
      else if l = PB_LTYPE_FIXED64 then Some (pb_dec_fixed64 E)
      else if l = PB_LTYPE_BYTES then Some (pb_dec_bytes E)
      else if l = PB_LTYPE_STRING then Some (pb_dec_string E)
      else if l = PB_LTYPE_SUBMESSAGE then Some (pb_dec_submessage E dec noinit)
      else if l = PB_LTYPE_EXTENSION then Some (\<lambda>_ _ _. None)
      else if l = PB_LTYPE_FIXED_LENGTH_BYTES then Some (pb_dec_fixed_length_bytes E)
      else None)"

section \<open>Static fields\<close>

text \<open>\<^verbatim>\<open>(char* )base + data_size * index\<close>, where the product is computed with 32 bits.\<close>

definition item_addr :: "pb_field \<Rightarrow> addr \<Rightarrow> uint32 \<Rightarrow> addr" where
  "item_addr field base i = base + uint (f_data_size field * i)"

partial_function (option) static_packed_loop ::
  "decoder \<Rightarrow> pb_field \<Rightarrow> pb_field_iter \<Rightarrow> ist \<Rightarrow> (bool \<times> ist) option" where
  "static_packed_loop func field iter st =
     (if is_bytes_left (fst st) = 0 then Some (True, st)
      else do {
        i \<leftarrow> load32 (snd st) (it_pSize iter);
        if i < f_array_size field then do {
          (ok, st) \<leftarrow> func field (item_addr field (it_pData iter) i) st;
          if \<not> ok then Some (False, st)
          else do {
            i \<leftarrow> load32 (snd st) (it_pSize iter);
            m \<leftarrow> store32 (snd st) (it_pSize iter) (i + 1);
            static_packed_loop func field iter (fst st, m) } }
        else Some (True, st) })"

definition decode_static_repeated ::
  "'a pb_dec_env_scheme \<Rightarrow> decoder \<Rightarrow> pb_wire_type_t \<Rightarrow> pb_field \<Rightarrow> pb_field_iter \<Rightarrow> dec_op" where
  "decode_static_repeated E func wire_type field iter st =
     (if wire_type = PB_WT_STRING \<and> PB_LTYPE (f_type field) \<le> PB_LTYPE_LAST_PACKABLE
      then reading (pb_make_string_substream E st) (\<lambda>substream st. do {
        (status, substream, m) \<leftarrow> static_packed_loop func field iter (substream, snd st);
        let st = (fst st, m);
        if is_bytes_left substream \<noteq> 0 then is_error ''array overflow'' st
        else and_then (pb_close_string_substream E substream st) (\<lambda>st. Some (status, st)) })
      else do {
        i \<leftarrow> load32 (snd st) (it_pSize iter);
        m \<leftarrow> store32 (snd st) (it_pSize iter) (i + 1);
        if i \<ge> f_array_size field then is_error ''array overflow'' (fst st, m)
        else func field (item_addr field (it_pData iter) i) (fst st, m) })"

definition decode_static_field ::
  "nat \<Rightarrow> 'a pb_dec_env_scheme \<Rightarrow> msg_decoder \<Rightarrow> msg_decoder \<Rightarrow> pb_wire_type_t \<Rightarrow> pb_field_iter \<Rightarrow> dec_op" where
  "decode_static_field n E dec noinit wire_type iter st = do {
     field \<leftarrow> field_at (dv_tables E) (it_pos iter);
     let ty = f_type field;
     func \<leftarrow> PB_DECODERS E dec noinit (PB_LTYPE ty);
     if PB_HTYPE ty = PB_HTYPE_REQUIRED then func field (it_pData iter) st
     else if PB_HTYPE ty = PB_HTYPE_OPTIONAL then do {
       m \<leftarrow> (if it_pSize iter \<noteq> it_pData iter then store_bool (snd st) (it_pSize iter) True else Some (snd st));
       func field (it_pData iter) (fst st, m) }
     else if PB_HTYPE ty = PB_HTYPE_REPEATED then decode_static_repeated E func wire_type field iter st
     else if PB_HTYPE ty = PB_HTYPE_ONEOF then do {
       m \<leftarrow> store32 (snd st) (it_pSize iter) (f_tag field);
       m \<leftarrow> (if PB_LTYPE ty = PB_LTYPE_SUBMESSAGE then do {
               m \<leftarrow> memset0 m (it_pData iter) (unat (f_data_size field));
               case f_ptr field of
                 FFields t \<Rightarrow> pb_message_set_to_defaults n E t (it_pData iter) m
               | _ \<Rightarrow> None }
             else Some m);
       func field (it_pData iter) (fst st, m) }
     else is_error ''invalid field type'' st }"

section \<open>Pointer fields\<close>

text \<open>
  The items of a packed array. The last value is the message the code stores in the parent stream's
  \<^verbatim>\<open>errmsg\<close>.
\<close>

partial_function (option) pointer_packed_loop ::
  "nat \<Rightarrow> 'a pb_dec_env_scheme \<Rightarrow> decoder \<Rightarrow> pb_field \<Rightarrow> pb_field_iter \<Rightarrow> size_t \<Rightarrow> ist \<Rightarrow>
   (bool \<times> string option \<times> ist) option" where
  "pointer_packed_loop n E func field iter allocated_size st =
     (if is_bytes_left (fst st) = 0 then Some (True, None, st)
      else do {
        i \<leftarrow> load32 (snd st) (it_pSize iter);
        (ok, allocated_size, st) \<leftarrow>
          (if ucast i + 1 > allocated_size
           then if f_data_size field = 0 then None
           else (let allocated_size = allocated_size +
                   ((is_bytes_left (fst st) - 1) div ucast (f_data_size field) + 1) in do {
             (ok, st) \<leftarrow> allocate_field (it_pData iter) (ucast (f_data_size field)) allocated_size st;
             Some (ok, allocated_size, st) })
           else Some (True, allocated_size, st));
        if \<not> ok then Some (False, None, st)
        else do {
          base \<leftarrow> load_ptr (snd st) (it_pData iter);
          i \<leftarrow> load32 (snd st) (it_pSize iter);
          let pItem = item_addr field base i;
          m \<leftarrow> initialize_pointer_field n E field pItem (snd st);
          (ok, st) \<leftarrow> func field pItem (fst st, m);
          if \<not> ok then Some (False, None, st)
          else do {
            i \<leftarrow> load32 (snd st) (it_pSize iter);
            if i = PB_SIZE_MAX then Some (False, Some ''too many array entries'', st)
            else do {
              m \<leftarrow> store32 (snd st) (it_pSize iter) (i + 1);
              pointer_packed_loop n E func field iter allocated_size (fst st, m) } } } })"

definition decode_pointer_repeated ::
  "nat \<Rightarrow> 'a pb_dec_env_scheme \<Rightarrow> decoder \<Rightarrow> pb_wire_type_t \<Rightarrow> pb_field \<Rightarrow> pb_field_iter \<Rightarrow> dec_op" where
  "decode_pointer_repeated n E func wire_type field iter st =
     (if wire_type = PB_WT_STRING \<and> PB_LTYPE (f_type field) \<le> PB_LTYPE_LAST_PACKABLE
      then do {
        allocated_size \<leftarrow> load32 (snd st) (it_pSize iter);
        reading (pb_make_string_substream E st) (\<lambda>substream st. do {
          (status, msg, substream, m) \<leftarrow>
            pointer_packed_loop n E func field iter (ucast allocated_size) (substream, snd st);
          let s = (case msg of None \<Rightarrow> fst st | Some e \<Rightarrow> (fst st)\<lparr>is_errmsg := Some e\<rparr>);
          and_then (pb_close_string_substream E substream (s, m)) (\<lambda>st. Some (status, st)) }) }
      else do {
        i \<leftarrow> load32 (snd st) (it_pSize iter);
        if i = PB_SIZE_MAX then is_error ''too many array entries'' st
        else do {
          m \<leftarrow> store32 (snd st) (it_pSize iter) (i + 1);
          and_then (allocate_field (it_pData iter) (ucast (f_data_size field)) (ucast (i + 1)) (fst st, m))
            (\<lambda>st. do {
              base \<leftarrow> load_ptr (snd st) (it_pData iter);
              i \<leftarrow> load32 (snd st) (it_pSize iter);
              let pItem = item_addr field base (i - 1);
              m \<leftarrow> initialize_pointer_field n E field pItem (snd st);
              func field pItem (fst st, m) }) } })"

definition decode_pointer_single ::
  "nat \<Rightarrow> 'a pb_dec_env_scheme \<Rightarrow> decoder \<Rightarrow> pb_field \<Rightarrow> pb_field_iter \<Rightarrow> dec_op" where
  "decode_pointer_single n E func field iter st = do {
     let ty = f_type field;
     m \<leftarrow> (if PB_LTYPE ty = PB_LTYPE_SUBMESSAGE then do {
             old \<leftarrow> load_ptr (snd st) (it_pData iter);
             if old \<noteq> 0 then pb_release_single_field n E iter (snd st) else Some (snd st) }
           else Some (snd st));
     m \<leftarrow> (if PB_HTYPE ty = PB_HTYPE_ONEOF then store32 m (it_pSize iter) (f_tag field) else Some m);
     if PB_LTYPE ty = PB_LTYPE_STRING \<or> PB_LTYPE ty = PB_LTYPE_BYTES
     then func field (it_pData iter) (fst st, m)
     else and_then (allocate_field (it_pData iter) (ucast (f_data_size field)) 1 (fst st, m)) (\<lambda>st. do {
       p \<leftarrow> load_ptr (snd st) (it_pData iter);
       m \<leftarrow> initialize_pointer_field n E field p (snd st);
       p \<leftarrow> load_ptr m (it_pData iter);
       func field p (fst st, m) }) }"

definition decode_pointer_field ::
  "nat \<Rightarrow> 'a pb_dec_env_scheme \<Rightarrow> msg_decoder \<Rightarrow> msg_decoder \<Rightarrow> pb_wire_type_t \<Rightarrow> pb_field_iter \<Rightarrow> dec_op" where
  "decode_pointer_field n E dec noinit wire_type iter st = do {
     field \<leftarrow> field_at (dv_tables E) (it_pos iter);
     let ty = f_type field;
     func \<leftarrow> PB_DECODERS E dec noinit (PB_LTYPE ty);
     if PB_HTYPE ty = PB_HTYPE_REQUIRED \<or> PB_HTYPE ty = PB_HTYPE_OPTIONAL \<or> PB_HTYPE ty = PB_HTYPE_ONEOF
     then decode_pointer_single n E func field iter st
     else if PB_HTYPE ty = PB_HTYPE_REPEATED then decode_pointer_repeated n E func wire_type field iter st
     else is_error ''invalid field type'' st }"

section \<open>Callback fields\<close>

partial_function (option) callback_loop :: "dec_op \<Rightarrow> ist \<Rightarrow> (bool \<times> ist) option" where
  "callback_loop cb st = do {
     (ok, st) \<leftarrow> cb st;
     if \<not> ok then Some (False, st)
     else if is_bytes_left (fst st) \<noteq> 0 then callback_loop cb st else Some (True, st) }"

text \<open>The local \<^verbatim>\<open>pb_byte_t buffer[10]\<close> has indeterminate contents.\<close>

definition local_buffer :: "mem \<Rightarrow> addr \<times> mem" where
  "local_buffer m = local_alloc m (map (\<lambda>i. mjunk m (mbrk m + int i)) [0..<10])"

definition decode_callback_field ::
  "'a pb_dec_env_scheme \<Rightarrow> pb_wire_type_t \<Rightarrow> pb_field_iter \<Rightarrow> dec_op" where
  "decode_callback_field E wire_type iter st = do {
     let pData = it_pData iter;
     field \<leftarrow> field_at (dv_tables E) (it_pos iter);
     fn \<leftarrow> (if pData = 0 then Some 0 else callback_funcs (snd st) pData);
     if fn = 0 then pb_skip_field E wire_type st
     else if wire_type = PB_WT_STRING then
       reading (pb_make_string_substream E st) (\<lambda>substream st. do {
         (ok, substream, m) \<leftarrow> callback_loop (dv_dec_cb E fn field (callback_arg pData)) (substream, snd st);
         if \<not> ok then is_error ''callback failed'' (fst st, m)
         else pb_close_string_substream E substream (fst st, m) })
     else do {
       let (buffer, m) = local_buffer (snd st);
       (r, st) \<leftarrow> read_raw_value E wire_type buffer 10 (fst st, m);
       (ok, s, m) \<leftarrow> (case r of
           None \<Rightarrow> Some (False, st)
         | Some sz \<Rightarrow> do {
             (ok, _, m) \<leftarrow> dv_dec_cb E fn field (callback_arg pData) (pb_istream_from_buffer buffer sz, snd st);
             Some (ok, (fst st, m)) });
       Some (ok, (s, local_free m buffer 10)) } }"

section \<open>Fields and extensions\<close>

text \<open>As in the code, a call may move the iterator; the result holds it.\<close>

definition decode_field ::
  "nat \<Rightarrow> 'a pb_dec_env_scheme \<Rightarrow> msg_decoder \<Rightarrow> msg_decoder \<Rightarrow> pb_wire_type_t \<Rightarrow> pb_field_iter \<Rightarrow>
   ist \<Rightarrow> (bool \<times> pb_field_iter \<times> ist) option" where
  "decode_field n E dec noinit wire_type iter st = do {
     field \<leftarrow> field_at (dv_tables E) (it_pos iter);
     (ok, iter, st) \<leftarrow>
       (if PB_HTYPE (f_type field) = PB_HTYPE_ONEOF then pb_release_union_field n E iter st
        else Some (True, iter, st));
     if \<not> ok then Some (False, iter, st)
     else do {
       field \<leftarrow> field_at (dv_tables E) (it_pos iter);
       (ok, st) \<leftarrow>
         (if PB_ATYPE (f_type field) = PB_ATYPE_STATIC then decode_static_field n E dec noinit wire_type iter st
          else if PB_ATYPE (f_type field) = PB_ATYPE_POINTER then decode_pointer_field n E dec noinit wire_type iter st
          else if PB_ATYPE (f_type field) = PB_ATYPE_CALLBACK then decode_callback_field E wire_type iter st
          else is_error ''invalid field type'' st);
       Some (ok, iter, st) } }"

definition default_extension_decoder ::
  "nat \<Rightarrow> 'a pb_dec_env_scheme \<Rightarrow> msg_decoder \<Rightarrow> msg_decoder \<Rightarrow> addr \<Rightarrow> uint32 \<Rightarrow> pb_wire_type_t \<Rightarrow> dec_op" where
  "default_extension_decoder n E dec noinit ext tag wire_type st = do {
     pos \<leftarrow> ext_field E (snd st) ext;
     field \<leftarrow> field_at (dv_tables E) pos;
     if f_tag field \<noteq> tag then Some (True, st)
     else do {
       iter \<leftarrow> iter_from_extension E (snd st) ext;
       m \<leftarrow> store_bool (snd st) (ext_found_addr ext) True;
       (ok, _, st) \<leftarrow> decode_field n E dec noinit wire_type iter (fst st, m);
       Some (ok, st) } }"

partial_function (option) decode_extension_loop ::
  "(addr \<Rightarrow> dec_op) \<Rightarrow> size_t \<Rightarrow> addr \<Rightarrow> ist \<Rightarrow> (bool \<times> ist) option" where
  "decode_extension_loop body pos ext st =
     (if ext \<noteq> 0 \<and> pos = is_bytes_left (fst st) then do {
        (status, st) \<leftarrow> body ext st;
        if \<not> status then Some (False, st)
        else do { nx \<leftarrow> ext_next (snd st) ext; decode_extension_loop body pos nx st } }
      else Some (True, st))"

definition decode_extension ::
  "nat \<Rightarrow> 'a pb_dec_env_scheme \<Rightarrow> msg_decoder \<Rightarrow> msg_decoder \<Rightarrow> uint32 \<Rightarrow> pb_wire_type_t \<Rightarrow> pb_field_iter \<Rightarrow> dec_op" where
  "decode_extension n E dec noinit tag wire_type iter st = do {
     ext \<leftarrow> load_ptr (snd st) (it_pData iter);
     decode_extension_loop (\<lambda>ext st. do {
       p \<leftarrow> ext_type (snd st) ext;
       xt \<leftarrow> dv_ext_types E p;
       if xt_decode xt \<noteq> 0 then dv_ext_dec E (xt_decode xt) ext tag wire_type st
       else default_extension_decoder n E dec noinit ext tag wire_type st })
     (is_bytes_left (fst st)) ext st }"

definition find_extension_field :: "field_tables \<Rightarrow> pb_field_iter \<Rightarrow> (bool \<times> pb_field_iter) option" where
  "find_extension_field T iter =
     iter_scan (table_length T iter) (pb_field_iter_next T)
       (iter_test T (\<lambda>f. PB_LTYPE (f_type f) = PB_LTYPE_EXTENSION)) it_pos (it_pos iter) iter"

section \<open>Messages\<close>

text \<open>
  The local variables of \<^verbatim>\<open>pb_decode_noinit\<close>; \<^verbatim>\<open>fixed_count_size\<close>, whose address is taken, is at the
  address \<open>fc\<close> of memory.
\<close>

record dec_locals =
  dl_iter :: pb_field_iter
  dl_fields_seen :: "uint32 list"
  dl_extension_range_start :: uint32
  dl_fixed_count_field :: "field_pos option"

type_synonym dec_step = "dec_locals \<Rightarrow> ist \<Rightarrow> (bool \<times> dec_locals \<times> ist) option"

definition keep_locals :: "dec_locals \<Rightarrow> (bool \<times> ist) option \<Rightarrow> (bool \<times> dec_locals \<times> ist) option" where
  "keep_locals L r = map_option (\<lambda>(ok, st). (ok, L, st)) r"

definition decode_unknown ::
  "nat \<Rightarrow> 'a pb_dec_env_scheme \<Rightarrow> msg_decoder \<Rightarrow> msg_decoder \<Rightarrow> pb_wire_type_t \<Rightarrow> uint32 \<Rightarrow> dec_step" where
  "decode_unknown n E dec noinit wire_type tag L st =
     (if tag \<ge> dl_extension_range_start L then do {
        (found, iter) \<leftarrow> find_extension_field (dv_tables E) (dl_iter L);
        start \<leftarrow> (if \<not> found then Some (- 1) else map_option f_tag (field_at (dv_tables E) (it_pos iter)));
        let L = L\<lparr>dl_iter := iter, dl_extension_range_start := start\<rparr>;
        if tag \<ge> start then do {
          let pos = is_bytes_left (fst st);
          (ok, st) \<leftarrow> decode_extension n E dec noinit tag wire_type iter st;
          if \<not> ok then Some (False, L, st)
          else if pos \<noteq> is_bytes_left (fst st) then Some (True, L, st)
          else keep_locals L (pb_skip_field E wire_type st) }
        else keep_locals L (pb_skip_field E wire_type st) }
      else keep_locals L (pb_skip_field E wire_type st))"

text \<open>\<^verbatim>\<open>fixed_count_field != NULL && fixed_count_size != fixed_count_field->array_size\<close>\<close>

definition fixed_count_wrong :: "field_tables \<Rightarrow> addr \<Rightarrow> dec_locals \<Rightarrow> mem \<Rightarrow> bool option" where
  "fixed_count_wrong T fc L m =
     (case dl_fixed_count_field L of
        None \<Rightarrow> Some False
      | Some pos \<Rightarrow> do { field \<leftarrow> field_at T pos; n \<leftarrow> load32 m fc; Some (n \<noteq> f_array_size field) })"

definition start_fixed_count :: "field_tables \<Rightarrow> addr \<Rightarrow> dec_step" where
  "start_fixed_count T fc L st =
     (let pos = it_pos (dl_iter L) in do {
        (ok, L, st) \<leftarrow>
          (if dl_fixed_count_field L \<noteq> Some pos then do {
             wrong \<leftarrow> fixed_count_wrong T fc L (snd st);
             if wrong then keep_locals L (is_error ''wrong size for fixed count field'' st)
             else do { m \<leftarrow> store32 (snd st) fc 0; Some (True, L\<lparr>dl_fixed_count_field := Some pos\<rparr>, (fst st, m)) } }
           else Some (True, L, st));
        Some (ok, (if ok then L\<lparr>dl_iter := (dl_iter L)\<lparr>it_pSize := fc\<rparr>\<rparr> else L), st) })"

definition mark_required :: "pb_field \<Rightarrow> dec_locals \<Rightarrow> dec_locals" where
  "mark_required field L =
     (let i = it_required (dl_iter L) in
      if PB_HTYPE (f_type field) = PB_HTYPE_REQUIRED \<and> i < PB_MAX_REQUIRED_FIELDS
      then let w = unat (drop_bit 5 i) in
        L\<lparr>dl_fields_seen := (dl_fields_seen L)[w := (dl_fields_seen L ! w) OR push_bit (unat (i AND 31)) 1]\<rparr>
      else L)"

definition decode_known ::
  "nat \<Rightarrow> 'a pb_dec_env_scheme \<Rightarrow> msg_decoder \<Rightarrow> msg_decoder \<Rightarrow> addr \<Rightarrow> pb_wire_type_t \<Rightarrow> dec_step" where
  "decode_known n E dec noinit fc wire_type L st = do {
     field \<leftarrow> field_at (dv_tables E) (it_pos (dl_iter L));
     (ok, L, st) \<leftarrow>
       (if PB_HTYPE (f_type field) = PB_HTYPE_REPEATED \<and> it_pSize (dl_iter L) = it_pData (dl_iter L)
        then start_fixed_count (dv_tables E) fc L st else Some (True, L, st));
     if \<not> ok then Some (False, L, st)
     else do {
       let L = mark_required field L;
       (ok, iter, st) \<leftarrow> decode_field n E dec noinit wire_type (dl_iter L) st;
       Some (ok, L\<lparr>dl_iter := iter\<rparr>, st) } }"

definition decode_one ::
  "nat \<Rightarrow> 'a pb_dec_env_scheme \<Rightarrow> msg_decoder \<Rightarrow> msg_decoder \<Rightarrow> addr \<Rightarrow> pb_wire_type_t \<Rightarrow> uint32 \<Rightarrow> dec_step" where
  "decode_one n E dec noinit fc wire_type tag L st = do {
     (found, iter) \<leftarrow> pb_field_iter_find (dv_tables E) (dl_iter L) tag;
     let L = L\<lparr>dl_iter := iter\<rparr>;
     if \<not> found then decode_unknown n E dec noinit wire_type tag L st
     else decode_known n E dec noinit fc wire_type L st }"

partial_function (option) decode_loop ::
  "'a pb_dec_env_scheme \<Rightarrow> (pb_wire_type_t \<Rightarrow> uint32 \<Rightarrow> dec_step) \<Rightarrow> dec_locals \<Rightarrow> ist \<Rightarrow>
   (bool \<times> dec_locals \<times> ist) option" where
  "decode_loop E one L st =
     (if is_bytes_left (fst st) = 0 then Some (True, L, st)
      else do {
        (x, eof, st) \<leftarrow> pb_decode_tag E st;
        case x of
          None \<Rightarrow> Some (eof, L, st)
        | Some (wire_type, tag) \<Rightarrow> do {
            (ok, L, st) \<leftarrow> one wire_type tag L st;
            if \<not> ok then Some (False, L, st) else decode_loop E one L st } })"

text \<open>\<^verbatim>\<open>do { req_field_count = ...; last_type = ...; } while (pb_field_iter_next(&iter))\<close>\<close>

fun seek_last :: "nat \<Rightarrow> field_tables \<Rightarrow> pb_field_iter \<Rightarrow> (uint32 \<times> pb_type_t \<times> pb_field_iter) option" where
  "seek_last 0 T iter = None"
| "seek_last (Suc k) T iter = do {
     field \<leftarrow> field_at T (it_pos iter);
     (more, iter') \<leftarrow> pb_field_iter_next T iter;
     if more then seek_last k T iter' else Some (it_required iter, f_type field, iter') }"

definition required_count :: "field_tables \<Rightarrow> pb_field_iter \<Rightarrow> uint32 option" where
  "required_count T iter = do {
     (n, last_type, iter') \<leftarrow> seek_last (length (T (fst (it_pos iter)))) T iter;
     field \<leftarrow> field_at T (it_pos iter');
     let n = (if PB_HTYPE last_type = PB_HTYPE_REQUIRED \<and> f_tag field \<noteq> 0 then n + 1 else n);
     Some (if n > PB_MAX_REQUIRED_FIELDS then PB_MAX_REQUIRED_FIELDS else n) }"

definition all_seen :: "uint32 list \<Rightarrow> uint32 \<Rightarrow> bool" where
  "all_seen seen n \<longleftrightarrow>
     list_all (\<lambda>i. seen ! i = - 1) [0..<unat (drop_bit 5 n)] \<and>
     (n AND 31 \<noteq> 0 \<longrightarrow> seen ! unat (drop_bit 5 n) = drop_bit (unat (32 - (n AND 31))) (- 1))"

definition final_checks :: "field_tables \<Rightarrow> addr \<Rightarrow> dec_locals \<Rightarrow> dec_op" where
  "final_checks T fc L st = do {
     wrong \<leftarrow> fixed_count_wrong T fc L (snd st);
     if wrong then is_error ''wrong size for fixed count field'' st
     else do {
       n \<leftarrow> required_count T (dl_iter L);
       if n > 0 \<and> \<not> all_seen (dl_fields_seen L) n then is_error ''missing required field'' st
       else Some (True, st) } }"

definition decode_message :: "nat \<Rightarrow> 'a pb_dec_env_scheme \<Rightarrow> msg_decoder \<Rightarrow> msg_decoder \<Rightarrow> msg_decoder" where
  "decode_message n E dec noinit t dest st = do {
     let (fc, m) = local_alloc (snd st) [0, 0, 0, 0];
     (_, iter) \<leftarrow> pb_field_iter_begin (dv_tables E) (t, 0) dest;
     (ok, L, st) \<leftarrow> decode_loop E (decode_one n E dec noinit fc)
       \<lparr>dl_iter = iter, dl_fields_seen = [0, 0], dl_extension_range_start = 0, dl_fixed_count_field = None\<rparr>
       (fst st, m);
     (ok, st) \<leftarrow> (if ok then final_checks (dv_tables E) fc L st else Some (False, st));
     Some (ok, (fst st, local_free (snd st) fc 4)) }"

definition decode_init :: "nat \<Rightarrow> 'a pb_dec_env_scheme \<Rightarrow> msg_decoder \<Rightarrow> msg_decoder" where
  "decode_init n E noinit t dest st = do {
     m \<leftarrow> pb_message_set_to_defaults n E t dest (snd st);
     (status, st) \<leftarrow> noinit t dest (fst st, m);
     if \<not> status then do { m \<leftarrow> pb_release n E t dest (snd st); Some (False, (fst st, m)) }
     else Some (True, st) }"

primrec pb_decode_noinit :: "nat \<Rightarrow> 'a pb_dec_env_scheme \<Rightarrow> msg_decoder" where
  "pb_decode_noinit 0 E = (\<lambda>t dest st. None)"
| "pb_decode_noinit (Suc n) E =
     decode_message n E (decode_init n E (pb_decode_noinit n E)) (pb_decode_noinit n E)"

definition pb_decode :: "nat \<Rightarrow> 'a pb_dec_env_scheme \<Rightarrow> msg_decoder" where
  "pb_decode n E = decode_init n E (pb_decode_noinit n E)"

definition pb_decode_delimited_noinit :: "nat \<Rightarrow> 'a pb_dec_env_scheme \<Rightarrow> msg_decoder" where
  "pb_decode_delimited_noinit n E t dest st =
     reading (pb_make_string_substream E st)
       (\<lambda>substream. with_substream E substream (pb_decode_noinit n E t dest))"

definition pb_decode_delimited :: "nat \<Rightarrow> 'a pb_dec_env_scheme \<Rightarrow> msg_decoder" where
  "pb_decode_delimited n E t dest st =
     reading (pb_make_string_substream E st)
       (\<lambda>substream. with_substream E substream (pb_decode n E t dest))"

definition pb_decode_nullterminated :: "nat \<Rightarrow> 'a pb_dec_env_scheme \<Rightarrow> msg_decoder" where
  "pb_decode_nullterminated n E t dest st = pb_decode n E t dest st"

declare ext_list_loop.simps [code] static_packed_loop.simps [code] pointer_packed_loop.simps [code] callback_loop.simps [code] decode_extension_loop.simps [code] decode_loop.simps [code]

end
