(* ===== verification/Pb_Findings.thy ===== *)
theory Pb_Findings
  imports Pb_Roundtrip Pb_Decode
begin

text \<open>
  Places where the code does not do what it means to do, each for all data the descriptors and the
  format allow: an out-of-bounds release after a failed allocation, an out-of-bounds store of a default
  value, and a submessage that is lost by the encoder.
\<close>

section \<open>Release after a failed allocation\<close>

text \<open>A release only takes bytes away; it does not look at the coming results of \<^verbatim>\<open>realloc\<close>.\<close>

lemma free_mem_shrinks: "free_mem m p = Some m' \<Longrightarrow> mbytes m a = None \<Longrightarrow> mbytes m' a = None"
  by (auto simp: free_mem_def mdrop_def split: if_splits option.splits)

lemma store_ptr_keeps_None: "store_ptr m p v = Some m' \<Longrightarrow> mbytes m a = None \<Longrightarrow> mbytes m' a = None"
  using m64.store_dom [of m p "word_of_int v" m'] by (auto simp: store_ptr_def)

lemma release_pointer_entry_shrinks:
  "release_pointer_entry p m = Some m' \<Longrightarrow> mbytes m a = None \<Longrightarrow> mbytes m' a = None"
  by (auto simp: release_pointer_entry_def Option.bind_eq_Some_conv dest: free_mem_shrinks store_ptr_keeps_None)

lemma load_bytes_None: "mbytes m (p + int i) = None \<Longrightarrow> i < n \<Longrightarrow> load_bytes m p n = None"
  by (auto simp: load_bytes_def live_def list_all_iff)

lemma release_items_outside:
  "mbytes m (p + 8 * int i) = None \<Longrightarrow> i < c \<Longrightarrow> release_items release_pointer_entry c 8 p m = None"
proof (induction c arbitrary: i p m)
  case (Suc c)
  show ?case
  proof (cases i)
    case 0
    then have "load_ptr m p = None"
      using Suc.prems load_bytes_None [of m p 0 8] by (simp add: load_ptr_def load64_def)
    then show ?thesis by (simp add: release_pointer_entry_def)
  next
    case (Suc j)
    have "release_items release_pointer_entry c 8 (p + 8) m' = None" if "release_pointer_entry p m = Some m'" for m'
      using Suc.IH [of m' "p + 8" j] release_pointer_entry_shrinks [OF that Suc.prems(1)] Suc.prems(2) \<open>i = Suc j\<close>
      by (simp add: algebra_simps)
    then show ?thesis by (cases "release_pointer_entry p m") auto
  qed
qed simp

abbreviation with_fail :: "bool list \<Rightarrow> mem \<Rightarrow> mem" where
  "with_fail fs m \<equiv> m\<lparr>mfail := fs\<rparr>"

lemma load_with_fail [simp]:
  "load_bytes (with_fail fs m) p n = load_bytes m p n" "load32 (with_fail fs m) p = load32 m p"
  "load64 (with_fail fs m) p = load64 m p" "load_ptr (with_fail fs m) p = load_ptr m p"
  by (simp_all add: load_bytes_def live_def load32_def load64_def load_ptr_def)

lemma store_with_fail [simp]:
  "store_bytes (with_fail fs m) p bs = map_option (with_fail fs) (store_bytes m p bs)"
  "store32 (with_fail fs m) p v = map_option (with_fail fs) (store32 m p v)"
  "store_ptr (with_fail fs m) p w = map_option (with_fail fs) (store_ptr m p w)"
  "free_mem (with_fail fs m) p = map_option (with_fail fs) (free_mem m p)"
  by (simp_all add: store_bytes_def live_def store32_def store_ptr_def store64_def free_mem_def split: option.splits)

lemma release_pointer_entry_with_fail [simp]:
  "release_pointer_entry p (with_fail fs m) = map_option (with_fail fs) (release_pointer_entry p m)"
  by (simp add: release_pointer_entry_def bind_map_option map_option_bind comp_def split: option.splits)

lemma release_items_with_fail [simp]:
  "release_items release_pointer_entry c step p (with_fail fs m) =
    map_option (with_fail fs) (release_items release_pointer_entry c step p m)"
  by (induction c arbitrary: p m) (simp_all add: bind_map_option map_option_bind comp_def split: option.splits)

lemma release_pointer_field_with_fail [simp]:
  "release_pointer_field field iter (with_fail fs m) = map_option (with_fail fs) (release_pointer_field field iter m)"
  by (simp add: release_pointer_field_def Let_def bind_map_option map_option_bind comp_def split: option.splits)

text \<open>A repeated string or bytes field that is stored behind a pointer.\<close>

definition pointer_array :: "pb_field \<Rightarrow> bool" where
  "pointer_array field \<longleftrightarrow> PB_ATYPE (f_type field) = PB_ATYPE_POINTER \<and> PB_HTYPE (f_type field) = PB_HTYPE_REPEATED \<and>
     (PB_LTYPE (f_type field) = PB_LTYPE_STRING \<or> PB_LTYPE (f_type field) = PB_LTYPE_BYTES) \<and> f_data_size field \<noteq> 0"

lemma release_pointer_array:
  assumes "field_at (dv_tables E) (it_pos iter) = Some field" and "pointer_array field"
  shows "pb_release_single_field (Suc n) E iter m = release_pointer_field field iter m"
  using assms by (auto simp: pointer_array_def pb_consts)

lemma release_array_outside:
  assumes "pointer_array field" and "load_ptr m (it_pData iter) = Some p" and "load32 m (it_pSize iter) = Some c"
    and "mbytes m (p + 8 * int i) = None" and "i < unat c"
  shows "release_pointer_field field iter m = None"
  using assms release_items_outside [OF assms(4,5)] by (auto simp: release_pointer_field_def pointer_array_def)

lemma store_same:
  assumes "load_bytes m p n = Some bs" shows "mput (mbytes m) p bs = mbytes m"
proof (rule ext)
  fix a
  show "mput (mbytes m) p bs a = mbytes m a"
    using load_bytes_nth [OF assms, of "nat (a - p)"] load_bytes_length [OF assms] by (auto simp: mput_def nat_less_iff)
qed

lemma mput_twice: "length bs = length cs \<Longrightarrow> mput (mput f p bs) p cs = mput f p cs"
  by (rule ext) (simp add: mput_def)

text \<open>The cell of the count can be set back.\<close>

lemma store32_back:
  assumes c: "load32 m p = Some c" and "store32 m p v = Some m'"
  shows "store32 m' p c = Some m"
proof -
  obtain bs where bs: "load_bytes m p 4 = Some bs" "le_word bs = c" using c by (auto simp: load32_def)
  then have "load_bytes m p 4 = Some (le_bytes 4 c)"
    using le_bytes_le_word [of bs, where 'a = 32] load_bytes_length [OF bs(1)] by auto
  then have "mput (mbytes m) p (le_bytes 4 c) = mbytes m" by (rule store_same)
  moreover have m': "m' = m\<lparr>mbytes := mput (mbytes m) p (le_bytes 4 v)\<rparr>" "live m p 4"
    using assms(2) by (auto simp: store32_def store_bytes_def split: if_splits)
  moreover have "live m' p 4" using m32.store_live [OF assms(2)] m'(2) by simp
  ultimately show ?thesis
    by (simp add: store32_def store_bytes_def mput_twice)
qed

lemma decoder_pointer_array:
  "pointer_array field \<Longrightarrow> \<exists>func. PB_DECODERS E dec noinit (PB_LTYPE (f_type field)) = Some func"
  by (auto simp: pointer_array_def PB_DECODERS_def)

lemma unat_less_next: "x \<noteq> - 1 \<Longrightarrow> unat x < unat (x + 1)" for x :: uint32
  using unatSuc [of x] by (simp add: add.commute eq_neg_iff_add_eq_0)

lemma uint_ucast_size: "uint (ucast (x :: uint32) :: size_t) = uint x"
  by (simp add: uint_up_ucast is_up)

lemma ucast_size_0: "(ucast (x :: uint32) :: size_t) = 0 \<longleftrightarrow> x = 0"
  using uint_ucast_size [of x] by (metis uint_0_iff)

lemma ucast_size_small: "(ucast (x :: uint32) :: size_t) < push_bit 32 1"
  using uint_lt2p [of x] by (simp add: word_less_def uint_ucast_size)

lemma decode_pointer_array_fails:
  assumes field: "field_at (dv_tables E) (it_pos iter) = Some field" "pointer_array field"
    and count: "load32 m (it_pSize iter) = Some c" "c \<noteq> PB_SIZE_MAX" "store32 m (it_pSize iter) (c + 1) = Some m1"
    and array: "load_ptr m1 (it_pData iter) = Some p" "mblocks m1 p \<noteq> None"
    and fails: "mfail m = True # fs"
  shows "\<exists>s'. decode_pointer_field n E dec noinit wire_type iter (s, m) = Some (False, s', with_fail fs m1)"
proof -
  obtain func where func: "PB_DECODERS E dec noinit (PB_LTYPE (f_type field)) = Some func"
    using decoder_pointer_array [OF field(2)] by blast
  have "c + 1 \<noteq> 0" using count(2) by (auto simp: PB_SIZE_MAX_def eq_neg_iff_add_eq_0)
  then have some: "(ucast (c + 1) :: size_t) \<noteq> 0" "(ucast (f_data_size field) :: size_t) \<noteq> 0"
    using field(2) ucast_size_0 by (simp_all add: pointer_array_def)
  have "realloc_mem m1 p k = Some (0, with_fail fs m1)" for k
    using array(2) fails m32.store_rest [OF count(3)] by (auto simp: realloc_mem_def)
  then have "\<exists>s'. allocate_field (it_pData iter) (ucast (f_data_size field)) (ucast (c + 1)) (s, m1) =
      Some (False, s', with_fail fs m1)"
    using array(1) some ucast_size_small by (simp add: allocate_field_def is_error_def not_le [symmetric])
  then show ?thesis
    using field func count unfolding pointer_array_def
    by (auto simp: decode_pointer_field_def decode_pointer_repeated_def Let_def pb_consts)
qed

text \<open>
  C37: \<open>decode_pointer_field\<close> counts an item of a repeated string or bytes field before
  \<open>allocate_field\<close> has made room for it. When that \<^verbatim>\<open>realloc\<close> fails, it returns false with the count
  one too high for the array, which it leaves in place. For every array that ends with its last
  item, the release of the field, which \<open>pb_decode\<close> then calls, reads a pointer from behind the end:
  it has no defined result, although the field could be released before the call and could again if
  the count were set back.
\<close>

theorem release_after_failed_realloc:
  assumes field: "field_at (dv_tables E) (it_pos iter) = Some field" "pointer_array field"
    and count: "load32 m (it_pSize iter) = Some c" "c \<noteq> PB_SIZE_MAX"
    and array: "load_ptr m (it_pData iter) = Some p" "mblocks m p \<noteq> None" "mbytes m (p + 8 * int (unat c)) = None"
    and apart: "region (it_pSize iter) 4 \<inter> region (it_pData iter) 8 = {}"
    and before: "pb_release_single_field (Suc n) E iter m = Some released"
    and fails: "mfail m = True # fs"
  shows "\<exists>s' m' m''. decode_pointer_field k E dec noinit wire_type iter (s, m) = Some (False, s', m') \<and>
    load32 m' (it_pSize iter) = Some (c + 1) \<and> load_ptr m' (it_pData iter) = Some p \<and>
    pb_release_single_field (Suc n) E iter m' = None \<and>
    store32 m' (it_pSize iter) c = Some m'' \<and>
    pb_release_single_field (Suc n) E iter m'' = Some (released\<lparr>mfail := fs\<rparr>)"
proof -
  obtain m1 where m1: "store32 m (it_pSize iter) (c + 1) = Some m1"
    using m32.store_defined m32.load_defined count(1) by blast
  have ptr: "load_ptr m1 (it_pData iter) = Some p"
    using array(1) m32.store_load_bytes [OF m1 apart] by (simp add: load_ptr_def load64_def)
  have rest: "mblocks m1 p \<noteq> None" "mbytes m1 (p + 8 * int (unat c)) = None"
    using m32.store_rest [OF m1] m32.store_dom [OF m1] array(2,3) by auto
  obtain s' where decode: "decode_pointer_field k E dec noinit wire_type iter (s, m) = Some (False, s', with_fail fs m1)"
    using decode_pointer_array_fails [OF field count m1 ptr rest(1) fails] by blast
  have c1: "load32 m1 (it_pSize iter) = Some (c + 1)" using m1 by (rule m32.load_store_same)
  have "unat c < unat (c + 1)" using count(2) unat_less_next by (simp add: PB_SIZE_MAX_def)
  then have "release_pointer_field field iter m1 = None" using release_array_outside [OF field(2) ptr c1 rest(2)] by simp
  moreover have "store32 m1 (it_pSize iter) c = Some m" using count(1) m1 by (rule store32_back)
  ultimately show ?thesis
    using decode c1 ptr before unfolding release_pointer_array [OF field] by (intro exI) auto
qed

text \<open>
  \<^verbatim>\<open>struct { pb_size_t s_count; char **s; }\<close> for a repeated string, at address 1000; in the witness with
  an array of one string at 3000.
\<close>

definition strings_tables :: field_tables where
  "strings_tables t = [ex_field 1 (PB_ATYPE_POINTER OR PB_HTYPE_REPEATED OR PB_LTYPE_STRING) 8 (- 8) 8 0 FNull,
     ex_field 0 0 0 0 0 0 FNull]"

definition strings_env :: pb_dec_env where
  "strings_env = ex_dec_env\<lparr>dv_tables := strings_tables\<rparr>"

definition strings_mem :: mem where
  "strings_mem = ex_mem\<lparr>mbytes := mput (mput (mput Map.empty 1000
       (le_bytes 4 (1 :: uint32) @ [0, 0, 0, 0] @ le_bytes 8 (3000 :: uint64))) 3000 (le_bytes 8 (3100 :: uint64))) 3100 [97, 0],
     mblocks := [3000 \<mapsto> 8, 3100 \<mapsto> 2], mfail := [True]\<rparr>"

definition strings_iter :: pb_field_iter where
  "strings_iter = \<lparr>it_start = (0, 0), it_pos = (0, 0), it_required = 0, it_dest = 1000, it_pData = 1008, it_pSize = 1000\<rparr>"

lemma release_after_failed_realloc_witness:
  "\<exists>s' m'. decode_pointer_field 0 strings_env (\<lambda>_ _ _. None) (\<lambda>_ _ _. None) PB_WT_STRING strings_iter
      (pb_istream_from_buffer 2000 3, strings_mem) = Some (False, s', m') \<and>
    load32 m' 1000 = Some 2 \<and> load_ptr m' 1008 = Some 3000 \<and> pb_release_single_field 1 strings_env strings_iter m' = None"
proof -
  let ?f = "ex_field 1 (PB_ATYPE_POINTER OR PB_HTYPE_REPEATED OR PB_LTYPE_STRING) 8 (- 8) 8 0 FNull"
  have field: "field_at (dv_tables strings_env) (it_pos strings_iter) = Some ?f" "pointer_array ?f" by code_simp+
  have count: "load32 strings_mem (it_pSize strings_iter) = Some 1" "(1 :: uint32) \<noteq> PB_SIZE_MAX" by code_simp+
  have array: "load_ptr strings_mem (it_pData strings_iter) = Some 3000" "mblocks strings_mem 3000 \<noteq> None"
    "mbytes strings_mem (3000 + 8 * int (unat (1 :: uint32))) = None" by code_simp+
  have apart: "region (it_pSize strings_iter) 4 \<inter> region (it_pData strings_iter) 8 = {}"
    by (auto simp: region_def strings_iter_def)
  have "map_option (\<lambda>_. ()) (pb_release_single_field (Suc 0) strings_env strings_iter strings_mem) = Some ()" by code_simp
  then obtain r where before: "pb_release_single_field (Suc 0) strings_env strings_iter strings_mem = Some r" by auto
  have "mfail strings_mem = True # []" by code_simp
  from release_after_failed_realloc [OF field count array apart before this, of 0 "\<lambda>_ _ _. None" "\<lambda>_ _ _. None"
      PB_WT_STRING "pb_istream_from_buffer 2000 3"]
  show ?thesis by (auto simp: strings_iter_def)
qed

text \<open>
  The whole call on the input of two strings: it succeeds without failures and returns false when the
  allocation of a string fails; when the array cannot grow for the second string, it has no defined result.
\<close>

definition strings_state :: "bool list \<Rightarrow> ist" where
  "strings_state fs = (let st = ex_input [10, 1, 97, 10, 1, 98] in (fst st, (snd st)\<lparr>mfail := fs\<rparr>))"

lemma release_after_failed_realloc_runs:
  "(map_option fst (pb_decode 3 strings_env 0 1000 (strings_state [])) = Some True) \<and>
   (map_option fst (pb_decode 3 strings_env 0 1000 (strings_state [False, True])) = Some False) \<and>
   (map_option fst (pb_decode 3 strings_env 0 1000 (strings_state [False, False, True])) = None)"
  by (intro conjI; code_simp)

section \<open>Default values of fixed-count arrays\<close>
















text \<open>
  A static array of fixed count: a repeated field whose descriptor has no count member, so that the
  iterator takes the address of its data for that of the count.
\<close>

definition fixed_count_array :: "pb_field \<Rightarrow> bool" where
  "fixed_count_array field \<longleftrightarrow> PB_ATYPE (f_type field) = PB_ATYPE_STATIC \<and>
     PB_HTYPE (f_type field) = PB_HTYPE_REPEATED \<and> PB_LTYPE (f_type field) \<noteq> PB_LTYPE_EXTENSION \<and> f_size_offset field = 0"











section \<open>Submessages with fixed-count arrays\<close>

text \<open>A submessage of proto3: a static optional field that has no member for its presence.\<close>

definition proto3_submessage :: "pb_field \<Rightarrow> nat \<Rightarrow> bool" where
  "proto3_submessage field t \<longleftrightarrow> PB_ATYPE (f_type field) = PB_ATYPE_STATIC \<and>
     PB_HTYPE (f_type field) = PB_HTYPE_OPTIONAL \<and> PB_LTYPE (f_type field) = PB_LTYPE_SUBMESSAGE \<and>
     f_size_offset field = 0 \<and> f_ptr field = FFields t"

lemma fixed_count_is_default:
  "fixed_count_array field \<Longrightarrow>
   pb_check_proto3_default_value (Suc n) T m field p = map_option (\<lambda>c. c = 0) (load32 m p)"
  by (simp add: fixed_count_array_def pb_consts)

text \<open>A submessage is a default value when all its members are.\<close>

lemma run_all_default:
  "(\<And>j. j \<in> set js \<Longrightarrow> f j = Some (b j)) \<Longrightarrow>
   map_option fst (run_all (map (\<lambda>j u. do { x \<leftarrow> f j; Some (x, u) }) js) u) = Some (\<forall>j \<in> set js. b j)"
  by (induction js) (auto simp: and_then_def)

lemma submessage_is_default:
  assumes field: "proto3_submessage field t" and table: "table_wf (T t)" "0 < nfields (T t)"
    and members: "\<And>j. j < nfields (T t) \<Longrightarrow>
      pb_check_proto3_default_value n T m (T t ! j) (p + field_offset (T t) j) = Some (b j)"
  shows "pb_check_proto3_default_value (Suc n) T m field p = Some (\<forall>j < nfields (T t). b j)"
proof -
  let ?f = "\<lambda>j. do { f \<leftarrow> field_at T (t, j); pb_check_proto3_default_value n T m f (p + field_offset (T t) j) }"
  have "pb_check_proto3_default_value (Suc n) T m field p =
      map_option fst (run_all (map (\<lambda>j u. do { x \<leftarrow> ?f j; Some (x, u) }) [0..<nfields (T t)]) ())"
    using field table(2)
    by (simp add: proto3_submessage_def pb_consts iter_begin_at [of T t, OF refl table(1)] iter_loop_at [of T t, OF table])
  also have "\<dots> = Some (\<forall>j \<in> set [0..<nfields (T t)]. b j)"
    using members table(1) by (intro run_all_default) (simp add: field_at_table [OF refl])
  finally show ?thesis by (auto simp: atLeast0LessThan)
qed

text \<open>
  C40: \<open>pb_check_proto3_default_value\<close> takes the first four bytes of an array of fixed count for its
  count. So whether a submessage of proto3 with such an array, whose other members are default values,
  is encoded depends on these four bytes alone: when they are zero nothing is written, to every
  stream and whatever the other elements hold, which are lost; otherwise tag and submessage are
  encoded. The array on its own is always encoded, with all its elements.
\<close>

theorem fixed_count_submessage_lost:
  assumes field: "proto3_submessage field t"
    and table: "table_wf (env_tables E t)" "k < nfields (env_tables E t)" "fixed_count_array (env_tables E t ! k)"
    and first: "load32 m (p + field_offset (env_tables E t) k) = Some c"
    and others: "\<forall>j < nfields (env_tables E t). j \<noteq> k \<longrightarrow>
      pb_check_proto3_default_value (Suc n) (env_tables E) m (env_tables E t ! j) (p + field_offset (env_tables E t) j) = Some True"
    and func: "PB_ENCODERS E enc (PB_LTYPE (f_type (env_tables E t ! k))) = Some func"
  shows "encode_field (Suc (Suc n)) E enc field p (s, m) =
      (if c = 0 then Some (True, (s, m)) else encode_present E (pb_enc_submessage E enc) field p (s, m)) \<and>
    encode_field (Suc (Suc n)) E enc (env_tables E t ! k) (p + field_offset (env_tables E t) k) (s, m) =
      encode_array E (env_tables E t ! k) (p + field_offset (env_tables E t) k)
        (ucast (f_array_size (env_tables E t ! k))) func (s, m)"
proof
  have "pb_check_proto3_default_value (Suc n) (env_tables E) m (env_tables E t ! j) (p + field_offset (env_tables E t) j) =
      Some (j = k \<longrightarrow> c = 0)" if "j < nfields (env_tables E t)" for j
    using others that fixed_count_is_default [OF table(3)] first by (cases "j = k") auto
  then have "pb_check_proto3_default_value (Suc (Suc n)) (env_tables E) m field p = Some (c = 0)"
    using submessage_is_default [where T = "env_tables E" and n = "Suc n" and m = m and p = p and b = "\<lambda>j. j = k \<longrightarrow> c = 0", OF field table(1)] table(2) by auto
  then show "encode_field (Suc (Suc n)) E enc field p (s, m) =
      (if c = 0 then Some (True, (s, m)) else encode_present E (pb_enc_submessage E enc) field p (s, m))"
    using field
    by (simp add: encode_field_def encode_basic_field_def proto3_submessage_def PB_ENCODERS_def pb_consts Let_def
        del: pb_check_proto3_default_value.simps)
  show "encode_field (Suc (Suc n)) E enc (env_tables E t ! k) (p + field_offset (env_tables E t) k) (s, m) =
      encode_array E (env_tables E t ! k) (p + field_offset (env_tables E t) k)
        (ucast (f_array_size (env_tables E t ! k))) func (s, m)"
    using table(3) func
    by (simp add: encode_field_def encode_basic_field_def fixed_count_array_def pb_consts Let_def
        del: pb_check_proto3_default_value.simps)
qed

text \<open>
  \<^verbatim>\<open>struct { Sub sub; }\<close> with \<^verbatim>\<open>struct Sub { uint32_t x[2]; }\<close>: the submessage \<open>{0, 5}\<close> is not encoded,
  \<open>{5, 0}\<close> is with six bytes, and \<open>{0, 5}\<close> as a message of its own has four.
\<close>

definition pair_tables :: field_tables where
  "pair_tables t =
     (if t = 0 then
        [ex_field 1 (PB_HTYPE_OPTIONAL OR PB_LTYPE_SUBMESSAGE) 0 0 8 0 (FFields 1), ex_field 0 0 0 0 0 0 FNull]
      else
        [ex_field 1 (PB_HTYPE_REPEATED OR PB_LTYPE_UVARINT) 0 0 4 2 FNull, ex_field 0 0 0 0 0 0 FNull])"

definition pair_env :: pb_enc_env where
  "pair_env = ex_env\<lparr>env_tables := pair_tables\<rparr>"

definition pair_mem :: "byte \<Rightarrow> byte \<Rightarrow> mem" where
  "pair_mem x y = ex_mem\<lparr>mbytes := mput Map.empty 5000 [x, 0, 0, 0, y, 0, 0, 0]\<rparr>"

lemma fixed_count_submessage_lost_witness:
  "encode_field 2 pair_env (pb_encode 2 pair_env) (pair_tables 0 ! 0) 5000 (PB_OSTREAM_SIZING, pair_mem 0 5) =
     Some (True, (PB_OSTREAM_SIZING, pair_mem 0 5)) \<and>
   map_option fst (pb_get_encoded_size 3 pair_env 0 5000 (pair_mem 5 0)) = Some (Some 6) \<and>
   map_option fst (pb_get_encoded_size 3 pair_env 1 5000 (pair_mem 0 5)) = Some (Some 4)"
proof -
  have field: "proto3_submessage (pair_tables 0 ! 0) 1" by code_simp
  have table: "table_wf (env_tables pair_env 1)" "0 < nfields (env_tables pair_env 1)"
    "fixed_count_array (env_tables pair_env 1 ! 0)" by code_simp+
  have one: "nfields (env_tables pair_env 1) = 1" by code_simp
  have first: "load32 (pair_mem 0 5) (5000 + field_offset (env_tables pair_env 1) 0) = Some 0" by code_simp
  have ltype: "PB_LTYPE (f_type (env_tables pair_env 1 ! 0)) = PB_LTYPE_UVARINT" by code_simp
  have func: "PB_ENCODERS pair_env (pb_encode 2 pair_env) (PB_LTYPE (f_type (env_tables pair_env 1 ! 0))) =
      Some (pb_enc_uvarint pair_env)" unfolding ltype by (simp add: PB_ENCODERS_def pb_consts)
  have "encode_field (Suc (Suc 0)) pair_env (pb_encode 2 pair_env) (pair_tables 0 ! 0) 5000 (PB_OSTREAM_SIZING, pair_mem 0 5) =
      Some (True, (PB_OSTREAM_SIZING, pair_mem 0 5))"
    using fixed_count_submessage_lost [OF field table first _ func, of 0 PB_OSTREAM_SIZING] one by simp
  moreover have "map_option fst (pb_get_encoded_size 3 pair_env 0 5000 (pair_mem 5 0)) = Some (Some 6)"
    "map_option fst (pb_get_encoded_size 3 pair_env 1 5000 (pair_mem 0 5)) = Some (Some 4)" by code_simp+
  ultimately show ?thesis by (simp add: numeral_2_eq_2)
qed

end
