(* ===== verification/F_Base64.thy ===== *)
theory F_Base64
  imports Pb_Prelude
begin

text \<open>
  \<^verbatim>\<open>FirebaseDatabase/.../SocketRocket/fbase64.c\<close>: base64 encoding and decoding between character
  arrays. An array is the list of its characters; an access outside of it has no result. \<^verbatim>\<open>int\<close>
  results have 32 bits, so that \<^verbatim>\<open>-1\<close> is the word \<open>- 1\<close>.
\<close>

section \<open>Arrays and the alphabet\<close>

definition Base64 :: "byte list" where
  "Base64 = map of_char ''ABCDEFGHIJKLMNOPQRSTUVWXYZabcdefghijklmnopqrstuvwxyz0123456789+/''"

definition Pad64 :: byte where
  "Pad64 = 0x3D"

definition array_store :: "byte list \<Rightarrow> nat \<Rightarrow> byte \<Rightarrow> byte list option" where
  "array_store xs i v = (if i < length xs then Some (xs[i := v]) else None)"

text \<open>\<^verbatim>\<open>target[n++] = c\<close> for the characters of a list, one after the other.\<close>

fun put_chars :: "byte list \<Rightarrow> size_t \<Rightarrow> byte list \<Rightarrow> byte list option" where
  "put_chars target n [] = Some target"
| "put_chars target n (c # cs) = do {
     target \<leftarrow> array_store target (unat n) c;
     put_chars target (n + 1) cs }"

text \<open>\<^verbatim>\<open>Base64[i]\<close>, where index 64 is the terminator of the string.\<close>

definition Base64_at :: "byte \<Rightarrow> byte option" where
  "Base64_at i = (if unat i < 64 then Some (Base64 ! unat i) else if i = 64 then Some 0 else None)"

text \<open>The characters of the alphabet at the given indices, one after the other.\<close>

definition put_digits :: "byte list \<Rightarrow> size_t \<Rightarrow> byte list \<Rightarrow> byte list option" where
  "put_digits target n is = do { cs \<leftarrow> those (map Base64_at is); put_chars target n cs }"

section \<open>Encoding\<close>

definition out0 :: "byte \<Rightarrow> byte" where
  "out0 i0 = drop_bit 2 i0"

definition out1 :: "byte \<Rightarrow> byte \<Rightarrow> byte" where
  "out1 i0 i1 = push_bit 4 (i0 AND 0x03) + drop_bit 4 i1"

definition out2 :: "byte \<Rightarrow> byte \<Rightarrow> byte" where
  "out2 i1 i2 = push_bit 2 (i1 AND 0x0F) + drop_bit 6 i2"

definition out3 :: "byte \<Rightarrow> byte" where
  "out3 i2 = i2 AND 0x3F"

text \<open>
  \<^verbatim>\<open>while (2 < srclength)\<close>: \<open>Inl\<close> holds the target where the code returns \<^verbatim>\<open>-1\<close>, \<open>Inr\<close> what is left
  of the source, \<^verbatim>\<open>srclength\<close>, the target and \<^verbatim>\<open>datalength\<close>.
\<close>

fun ntop_loop :: "byte list \<Rightarrow> size_t \<Rightarrow> byte list \<Rightarrow> size_t \<Rightarrow> size_t \<Rightarrow>
    (byte list + byte list \<times> size_t \<times> byte list \<times> size_t) option" where
  "ntop_loop src srclength target datalength targsize =
     (if 2 < srclength then
        (case src of
           i0 # i1 # i2 # src \<Rightarrow>
             if datalength + 4 > targsize then Some (Inl target)
             else do {
               target \<leftarrow> put_digits target datalength [out0 i0, out1 i0 i1, out2 i1 i2, out3 i2];
               ntop_loop src (srclength - 3) target (datalength + 4) targsize }
         | _ \<Rightarrow> None)
      else Some (Inr (src, srclength, target, datalength)))"

declare ntop_loop.simps [simp del]

text \<open>The padding: \<^verbatim>\<open>input\<close> is zeroed and filled with what is left.\<close>

definition ntop_padding :: "byte list \<Rightarrow> size_t \<Rightarrow> byte list \<Rightarrow> size_t \<Rightarrow> size_t \<Rightarrow>
    (byte list + byte list \<times> size_t) option" where
  "ntop_padding src srclength target datalength targsize =
     (if srclength \<noteq> 0 then do {
        input \<leftarrow> (if unat srclength \<le> length src
                 then Some (take (unat srclength) src @ replicate (3 - unat srclength) 0) else None);
        let i0 = input ! 0;
        let i1 = input ! 1;
        let i2 = input ! 2;
        if datalength + 4 > targsize then Some (Inl target)
        else do {
          target \<leftarrow> put_digits target datalength [out0 i0, out1 i0 i1];
          target \<leftarrow> (if srclength = 1 then put_chars target (datalength + 2) [Pad64]
                    else put_digits target (datalength + 2) [out2 i1 i2]);
          target \<leftarrow> put_chars target (datalength + 3) [Pad64];
          Some (Inr (target, datalength + 4)) } }
      else Some (Inr (target, datalength)))"

definition f_b64_ntop :: "byte list \<Rightarrow> size_t \<Rightarrow> byte list \<Rightarrow> size_t \<Rightarrow> (32 word \<times> byte list) option" where
  "f_b64_ntop src srclength target targsize = do {
     r \<leftarrow> ntop_loop src srclength target 0 targsize;
     case r of
       Inl target \<Rightarrow> Some (- 1, target)
     | Inr (src, srclength, target, datalength) \<Rightarrow> do {
         r \<leftarrow> ntop_padding src srclength target datalength targsize;
         case r of
           Inl target \<Rightarrow> Some (- 1, target)
         | Inr (target, datalength) \<Rightarrow>
             if datalength \<ge> targsize then Some (- 1, target)
             else do {
               target \<leftarrow> put_chars target datalength [0];
               Some (ucast datalength, target) } } }"

section \<open>Decoding\<close>

text \<open>
  \<^verbatim>\<open>isspace\<close> in the C locale, on a \<^verbatim>\<open>char\<close> that is sign-extended to \<^verbatim>\<open>int\<close>: it is defined for the
  values of \<^verbatim>\<open>unsigned char\<close> and for \<^verbatim>\<open>EOF\<close>, which is -1.
\<close>

definition c_space :: "byte \<Rightarrow> bool" where
  "c_space c \<longleftrightarrow> c = 0x20 \<or> (0x09 \<le> c \<and> c \<le> 0x0D)"

definition c_isspace :: "byte \<Rightarrow> bool option" where
  "c_isspace c = (if c < 0x80 then Some (c_space c) else if c = 0xFF then Some False else None)"

text \<open>\<^verbatim>\<open>strchr(Base64, ch) - Base64\<close> for a character other than the terminator.\<close>

definition Base64_index :: "byte \<Rightarrow> byte option" where
  "Base64_index ch = map_option of_nat (find (\<lambda>i. Base64 ! i = ch) [0..<64])"

definition array_or :: "byte list \<Rightarrow> nat \<Rightarrow> byte \<Rightarrow> byte list option" where
  "array_or xs i v = (if i < length xs then Some (xs[i := (xs ! i) OR v]) else None)"

text \<open>
  One digit \<open>d\<close> in one of the four states: \<open>Inl\<close> where the code returns \<^verbatim>\<open>-1\<close>, otherwise the next state,
  the target and \<^verbatim>\<open>tarindex\<close>. A null target is \<open>None\<close>.
\<close>

type_synonym pton_state = "nat \<times> byte list option \<times> uint32"

definition pton_digit :: "byte \<Rightarrow> size_t \<Rightarrow> pton_state \<Rightarrow> (byte list option + pton_state) option" where
  "pton_digit d targsize s =
     (case s of (state, target, tarindex) \<Rightarrow>
       if state = 0 then
         (case target of
            None \<Rightarrow> Some (Inr (1, None, tarindex))
          | Some t \<Rightarrow>
              if ucast tarindex \<ge> targsize then Some (Inl (Some t))
              else do { t \<leftarrow> array_store t (unat tarindex) (push_bit 2 d); Some (Inr (1, Some t, tarindex)) })
       else if state = 1 then
         (case target of
            None \<Rightarrow> Some (Inr (2, None, tarindex + 1))
          | Some t \<Rightarrow>
              if ucast (tarindex + 1) \<ge> targsize then Some (Inl (Some t))
              else do {
                t \<leftarrow> array_or t (unat tarindex) (drop_bit 4 d);
                t \<leftarrow> array_store t (unat (tarindex + 1)) (push_bit 4 (d AND 0x0F));
                Some (Inr (2, Some t, tarindex + 1)) })
       else if state = 2 then
         (case target of
            None \<Rightarrow> Some (Inr (3, None, tarindex + 1))
          | Some t \<Rightarrow>
              if ucast (tarindex + 1) \<ge> targsize then Some (Inl (Some t))
              else do {
                t \<leftarrow> array_or t (unat tarindex) (drop_bit 2 d);
                t \<leftarrow> array_store t (unat (tarindex + 1)) (push_bit 6 (d AND 0x03));
                Some (Inr (3, Some t, tarindex + 1)) })
       else if state = 3 then
         (case target of
            None \<Rightarrow> Some (Inr (0, None, tarindex + 1))
          | Some t \<Rightarrow>
              if ucast tarindex \<ge> targsize then Some (Inl (Some t))
              else do { t \<leftarrow> array_or t (unat tarindex) d; Some (Inr (0, Some t, tarindex + 1)) })
       else Some (Inr s))"

text \<open>
  \<^verbatim>\<open>while ((ch = *src++) != '\0')\<close>: where the loop ends, \<open>Inr\<close> holds \<^verbatim>\<open>ch\<close>, the characters behind
  it and the state. The source is a list of characters with a zero in it; reading behind its end
  has no result.
\<close>

fun pton_loop :: "byte list \<Rightarrow> size_t \<Rightarrow> pton_state \<Rightarrow>
    (byte list option + byte \<times> byte list \<times> pton_state) option" where
  "pton_loop [] targsize s = None"
| "pton_loop (ch # src) targsize s =
     (if ch = 0 then Some (Inr (ch, src, s))
      else do {
        space \<leftarrow> c_isspace ch;
        if space then pton_loop src targsize s
        else if ch = Pad64 then Some (Inr (ch, src, s))
        else case Base64_index ch of
          None \<Rightarrow> Some (Inl (fst (snd s)))
        | Some d \<Rightarrow> do {
            r \<leftarrow> pton_digit d targsize s;
            case r of Inl t \<Rightarrow> Some (Inl t) | Inr s \<Rightarrow> pton_loop src targsize s } })"

text \<open>\<^verbatim>\<open>for (; ch != '\0'; ch = *src++) if (!isspace(ch)) break;\<close> with \<open>ch\<close> in front of \<open>src\<close>.\<close>

fun skip_spaces :: "byte list \<Rightarrow> byte list option" where
  "skip_spaces [] = None"
| "skip_spaces (ch # src) =
     (if ch = 0 then Some (ch # src)
      else do { space \<leftarrow> c_isspace ch; if space then skip_spaces src else Some (ch # src) })"

text \<open>What follows \<^verbatim>\<open>if (ch == Pad64)\<close>, with \<open>src\<close> behind the pad: whether the code goes on to \<^verbatim>\<open>return (tarindex)\<close>.\<close>

definition trailing_ok :: "byte list \<Rightarrow> byte list option \<Rightarrow> uint32 \<Rightarrow> bool option" where
  "trailing_ok src target tarindex = do {
     rest \<leftarrow> skip_spaces src;
     if hd rest \<noteq> 0 then Some False
     else case target of
       None \<Rightarrow> Some True
     | Some t \<Rightarrow> if unat tarindex < length t then Some (t ! unat tarindex = 0) else None }"

definition pton_pad :: "byte list \<Rightarrow> pton_state \<Rightarrow> bool option" where
  "pton_pad src s =
     (case s of (state, target, tarindex) \<Rightarrow>
       if state = 0 \<or> state = 1 then (if src = [] then None else Some False)
       else if state = 2 then do {
         rest \<leftarrow> skip_spaces src;
         if hd rest \<noteq> Pad64 then Some False else trailing_ok (tl rest) target tarindex }
       else if state = 3 then trailing_ok src target tarindex
       else Some True)"

definition f_b64_pton :: "byte list \<Rightarrow> byte list option \<Rightarrow> size_t \<Rightarrow> (32 word \<times> byte list option) option" where
  "f_b64_pton src target targsize = do {
     r \<leftarrow> pton_loop src targsize (0, target, 0);
     case r of
       Inl t \<Rightarrow> Some (- 1, t)
     | Inr (ch, src, state, target, tarindex) \<Rightarrow> do {
         ok \<leftarrow> (if ch = Pad64 then pton_pad src (state, target, tarindex) else Some (state = 0));
         Some (if ok then tarindex else - 1, target) } }"

end
