(* ===== verification/F_Base64_Encode.thy ===== *)
theory F_Base64_Encode
  imports F_Base64
begin

text \<open>
  The encoder of \<^verbatim>\<open>fbase64.c\<close> against the definition of base64 in RFC 1521, which its comment
  quotes: three bytes form a group of 24 bits that is read as four digits of six bits.
\<close>

section \<open>The text of a byte string\<close>

definition digit :: "nat \<Rightarrow> byte" where
  "digit d = Base64 ! d"

definition group24 :: "byte \<Rightarrow> byte \<Rightarrow> byte \<Rightarrow> nat" where
  "group24 a b c = 2 ^ 16 * unat a + 2 ^ 8 * unat b + unat c"

definition sextets :: "nat \<Rightarrow> nat list" where
  "sextets n = [n div 2 ^ 18 mod 64, n div 2 ^ 12 mod 64, n div 2 ^ 6 mod 64, n mod 64]"

fun base64_text :: "byte list \<Rightarrow> byte list" where
  "base64_text (a # b # c # bs) = map digit (sextets (group24 a b c)) @ base64_text bs"
| "base64_text [a, b] = map digit (take 3 (sextets (group24 a b 0))) @ [Pad64]"
| "base64_text [a] = map digit (take 2 (sextets (group24 a 0 0))) @ [Pad64, Pad64]"
| "base64_text [] = []"

section \<open>The alphabet\<close>

text \<open>The codes of the characters in ASCII.\<close>

definition codes :: "nat list" where
  "codes = [65..<91] @ [97..<123] @ [48..<58] @ [43, 47]"

lemma Base64_codes: "Base64 = map of_nat codes"
  unfolding Base64_def codes_def by (simp add: upt_rec_numeral)

lemma length_codes: "length codes = 64" by (simp add: codes_def)

lemma distinct_codes: "distinct codes" by (auto simp: codes_def)

lemma codes_range: "c \<in> set codes \<Longrightarrow> 43 \<le> c \<and> c < 123 \<and> c \<noteq> 61"
  by (auto simp: codes_def)

lemma digit_code:
  assumes "d < 64"
  shows "unat (digit d) = codes ! d" "43 \<le> codes ! d" "codes ! d < 123" "codes ! d \<noteq> 61"
proof -
  have "codes ! d \<in> set codes" using assms by (simp add: length_codes)
  from codes_range [OF this] show "43 \<le> codes ! d" "codes ! d < 123" "codes ! d \<noteq> 61" by auto
  then show "unat (digit d) = codes ! d"
    using assms by (simp add: digit_def Base64_codes length_codes unat_of_nat take_bit_nat_eq_self)
qed

lemma digit_inj: "i < 64 \<Longrightarrow> j < 64 \<Longrightarrow> digit i = digit j \<longleftrightarrow> i = j"
  by (metis digit_code(1) distinct_codes length_codes nth_eq_iff_index_eq)

lemma digit_simps [simp]:
  assumes "d < 64"
  shows "digit d \<noteq> 0" "digit d \<noteq> Pad64" "c_isspace (digit d) = Some False"
    "Base64_index (digit d) = Some (of_nat d)" "Base64_at (of_nat d) = Some (digit d)"
proof -
  note c = digit_code [OF assms]
  show "digit d \<noteq> 0" "digit d \<noteq> Pad64" using c by (auto simp: Pad64_def)
  show "c_isspace (digit d) = Some False"
    using c by (auto simp: c_isspace_def c_space_def word_less_nat_alt word_le_nat_alt)
  have "find (\<lambda>i. Base64 ! i = digit d) [0..<64] = Some d"
    using assms digit_inj [OF _ assms] by (auto simp: find_Some_iff digit_def)
  then show "Base64_index (digit d) = Some (of_nat d)" by (simp add: Base64_index_def)
  show "Base64_at (of_nat d) = Some (digit d)"
    using assms by (simp add: Base64_at_def digit_def unat_of_nat take_bit_nat_eq_self)
qed

lemma Base64_indexD: "Base64_index ch = Some d \<Longrightarrow> unat d < 64 \<and> ch = digit (unat d)"
  by (auto simp: Base64_index_def digit_def find_Some_iff unat_of_nat take_bit_nat_eq_self)

section \<open>Bytes and digits\<close>

lemma byte_bound: "unat (b :: byte) < 256"
  using unsigned_less [of b] by simp

lemma sextets_group24:
  "sextets (group24 a b c) = [unat a div 4, unat a mod 4 * 16 + unat b div 16, unat b mod 16 * 4 + unat c div 64, unat c mod 64]"
proof -
  obtain a1 a0 where a: "unat a = 4 * a1 + a0" "a0 < 4" "a1 < 64"
    using byte_bound [of a] by (intro that [of "unat a div 4" "unat a mod 4"]) auto
  obtain b1 b0 where b: "unat b = 16 * b1 + b0" "b0 < 16" "b1 < 16"
    using byte_bound [of b] by (intro that [of "unat b div 16" "unat b mod 16"]) auto
  obtain c1 c0 where c: "unat c = 64 * c1 + c0" "c0 < 64" "c1 < 4"
    using byte_bound [of c] by (intro that [of "unat c div 64" "unat c mod 64"]) auto
  have n: "group24 a b c = ((a1 * 64 + (a0 * 16 + b1)) * 64 + (b0 * 4 + c1)) * 64 + c0"
    unfolding group24_def a b c by simp
  have lt: "a0 * 16 + b1 < 64" "b0 * 4 + c1 < 64" using a b c by simp_all
  have p: "n div 262144 = n div 64 div 64 div 64" "n div 4096 = n div 64 div 64" for n :: nat
    by (simp_all flip: div_mult2_eq)
  have "unat a div 4 = a1" "unat a mod 4 = a0" "unat b div 16 = b1" "unat b mod 16 = b0"
     "unat c div 64 = c1" "unat c mod 64 = c0" using a b c by simp_all
  then show ?thesis unfolding sextets_def n using lt a b c
    by (simp add: p del: add_mult_distrib add_mult_distrib2 distrib_left_numeral distrib_right_numeral)
qed

lemma unat_mask:
  "unat (x AND 3) = unat x mod 4" "unat (x AND 0xF) = unat x mod 16" "unat (x AND 0x3F) = unat x mod 64" for x :: byte
  using take_bit_eq_mod [of 2 "unat x"] take_bit_eq_mod [of 4 "unat x"] take_bit_eq_mod [of 6 "unat x"]
  by (simp_all add: unsigned_and_eq take_bit_eq_mask mask_numeral)

lemma unat_drop: "unat (drop_bit n x) = unat x div 2 ^ n" for x :: byte
  using unsigned_drop_bit_eq [of n x, where ?'a = nat]
  by (simp only: drop_bit_eq_div [where ?'a = nat]) (simp add: take_bit_nat_eq_self byte_bound)

lemma unat_push: "unat x * 2 ^ n < 256 \<Longrightarrow> unat (push_bit n x) = unat x * 2 ^ n" for x :: byte
  using unsigned_push_bit_eq [of n x, where ?'a = nat]
  by (simp only: push_bit_eq_mult [where ?'a = nat]) (simp add: take_bit_nat_eq_self)

lemma unat_add: "unat x + unat y < 256 \<Longrightarrow> unat (x + y) = unat x + unat y" for x y :: byte
  by (simp add: unat_word_ariths)

lemma unat_out:
  "unat (out0 a) = unat a div 4" "unat (out1 a b) = unat a mod 4 * 16 + unat b div 16"
  "unat (out2 b c) = unat b mod 16 * 4 + unat c div 64" "unat (out3 c) = unat c mod 64"
proof -
  show "unat (out0 a) = unat a div 4"  by (simp add: out0_def unat_drop)
  show "unat (out3 c) = unat c mod 64" by (simp add: out3_def unat_mask)
  have "unat a mod 4 * 2 ^ 4 < 256" "unat b mod 16 * 2 ^ 2 < 256"
    using mod_less_divisor [of 4 "unat a"] mod_less_divisor [of 16 "unat b"] by simp_all
  then have "unat (push_bit 4 (a AND 3)) = unat a mod 4 * 16" "unat (push_bit 2 (b AND 0xF)) = unat b mod 16 * 4"
    using unat_push [of "a AND 3" 4] unat_push [of "b AND 0xF" 2] unfolding unat_mask by simp_all
  moreover have "unat a mod 4 * 16 + unat b div 16 < 64" "unat b mod 16 * 4 + unat c div 64 < 64" 
    using byte_bound [of b] byte_bound [of c] by linarith+
  ultimately show "unat (out1 a b) = unat a mod 4 * 16 + unat b div 16"
     "unat (out2 b c) = unat b mod 16 * 4 + unat c div 64" 
    unfolding out1_def out2_def by (simp_all add: unat_add unat_drop del: push_bit_and)
qed
lemma out_sextets:
  "[out0 a, out1 a b, out2 b c, out3 c] = map of_nat (sextets (group24 a b c))"
  unfolding sextets_group24 list.map unat_out [symmetric] by simp

section \<open>Stores of several characters\<close>

definition overwrite :: "byte list \<Rightarrow> nat \<Rightarrow> byte list \<Rightarrow> byte list" where
  "overwrite t i bs = take i t @ bs @ drop (i + length bs) t"

lemma overwrite_Nil [simp]: "overwrite t i [] = t" by (simp add: overwrite_def)

lemma length_overwrite [simp]: "i + length bs \<le> length t \<Longrightarrow> length (overwrite t i bs) = length t"
  by (simp add: overwrite_def)

lemma overwrite_Cons:
  "i < length t \<Longrightarrow> overwrite (t[i := b]) (Suc i) bs = overwrite t i (b # bs)"
  by (simp add: overwrite_def take_Suc_conv_app_nth drop_update_cancel take_update_cancel)

lemma overwrite_overwrite:
  "i + length xs \<le> length t \<Longrightarrow> j = i + length xs \<Longrightarrow> overwrite (overwrite t i xs) j ys = overwrite t i (xs @ ys)"
  by (simp add: overwrite_def add_ac)

lemma drop_overwrite:
  assumes "i + length bs \<le> n" and "n \<le> length t"
  shows "drop n (overwrite t i bs) = drop n t"
proof -
  have "min (length t) i = i" using assms by simp
  with assms show ?thesis by (simp add: overwrite_def)
qed

lemma put_chars_overwrite:
  assumes "n + length cs \<le> length t" and "length t < 2 ^ 62"
  shows "put_chars t (of_nat n) cs = Some (overwrite t n cs)"
  using assms
proof (induction cs arbitrary: n t)
  case Nil
  then show ?case by simp
next
  case (Cons c cs)
  have "unat (of_nat n :: size_t) = n" using Cons.prems by (simp add: unat_of_nat take_bit_nat_eq_self)
  moreover have "put_chars (t[n := c]) (of_nat (Suc n)) cs = Some (overwrite (t[n := c]) (Suc n) cs)"
    using Cons.prems by (intro Cons.IH) simp_all
  ultimately show ?case using Cons.prems by (simp add: array_store_def overwrite_Cons add.commute)
qed

lemma put_digits_overwrite:
  assumes "n + length ds \<le> length t" and "length t < 2 ^ 62" and "list_all (\<lambda>d. d < 64) ds"
  shows "put_digits t (of_nat n) (map of_nat ds) = Some (overwrite t n (map digit ds))"
proof -
  have "those (map Base64_at (map of_nat ds)) = Some (map digit ds)"
    using assms(3) by (induction ds) simp_all
  then show ?thesis using put_chars_overwrite [of n "map digit ds" t] assms by (simp add: put_digits_def)
qed

lemma unat_size: "n < 2 ^ 63 \<Longrightarrow> unat (of_nat n :: size_t) = n"
  by (simp add: unat_of_nat take_bit_nat_eq_self)

lemma length_sextets [simp]: "length (sextets n) = 4"
  by (simp add: sextets_def)

lemma list_all_sextets: "list_all (\<lambda>d. d < 64) (sextets n)"
  by (simp add: sextets_def)

section \<open>The encoder\<close>

text \<open>The rest of \<open>f_b64_ntop\<close> after its loop.\<close>

definition ntop_finish :: "size_t \<Rightarrow> byte list + byte list \<times> size_t \<times> byte list \<times> size_t \<Rightarrow> (32 word \<times> byte list) option" where
  "ntop_finish targsize r =
     (case r of
       Inl target \<Rightarrow> Some (- 1, target)
     | Inr (src, srclength, target, datalength) \<Rightarrow> do {
         r \<leftarrow> ntop_padding src srclength target datalength targsize;
         case r of
           Inl target \<Rightarrow> Some (- 1, target)
         | Inr (target, datalength) \<Rightarrow>
             if datalength \<ge> targsize then Some (- 1, target)
             else do {
               target \<leftarrow> put_chars target datalength [0];
               Some (ucast datalength, target) } })"

definition ntop_result :: "nat \<Rightarrow> byte list \<Rightarrow> nat \<Rightarrow> byte list \<Rightarrow> (32 word \<times> byte list) option \<Rightarrow> bool" where
  "ntop_result T target k text r \<longleftrightarrow>
     (if k + length text < T then r = Some (of_nat (k + length text), overwrite target k (text @ [0]))
      else \<exists>t. r = Some (- 1, t) \<and> length t = length target \<and> drop T t = drop T target)"

lemma length_base64_text: "length (base64_text bs) = 4 * ((length bs + 2) div 3)"
proof (induction bs rule: base64_text.induct)
  case (1 a b c bs)
  have "(length bs + 3 + 2) div 3 = Suc ((length bs + 2) div 3)" by simp
  with 1 show ?case by (simp add: sextets_def)
qed (simp_all add: sextets_def)

lemma ntop_terminator:
  assumes "length target < 2 ^ 62" "T \<le> length target" "k + length text \<le> T"
  shows "ntop_result T target k text
    (if of_nat (k + length text) \<ge> (of_nat T :: size_t) then Some (- 1, overwrite target k text)
     else do { target \<leftarrow> put_chars (overwrite target k text) (of_nat (k + length text)) [0];
               Some (ucast (of_nat (k + length text) :: size_t), target) })"
  using assms put_chars_overwrite [of "k + length text" "[0]" "overwrite target k text"]
  by (auto simp: ntop_result_def word_le_nat_alt unat_size overwrite_overwrite drop_overwrite
      unsigned_of_nat take_bit_nat_eq_self
      simp del: of_nat_add put_chars.simps)

lemma size_room: "k < 2 ^ 62 \<Longrightarrow> T < 2 ^ 62 \<Longrightarrow> of_nat k + 4 > (of_nat T :: size_t) \<longleftrightarrow> T < k + 4"
  using unat_size [of "k + 4"] by (simp add: word_less_nat_alt unat_size)

lemma ntop_result_append:
  assumes "k + length xs \<le> T" and "T \<le> length target"
  shows "ntop_result T (overwrite target k xs) (k + length xs) ys r \<longleftrightarrow> ntop_result T target k (xs @ ys) r"
  using assms by (simp add: ntop_result_def overwrite_overwrite drop_overwrite add.assoc)

lemma ntop_result_full: "T < k + length text \<Longrightarrow> ntop_result T target k text (Some (- 1, target))"
  by (simp add: ntop_result_def)

lemma ntop_rest:
  "length src < 2 ^ 62 \<Longrightarrow> length target < 2 ^ 62 \<Longrightarrow> T \<le> length target \<Longrightarrow> k \<le> T \<Longrightarrow>
   ntop_result T target k (base64_text src)
     (ntop_loop src (of_nat (length src)) target (of_nat k) (of_nat T) \<bind> ntop_finish (of_nat T))"
proof (induction src arbitrary: target k rule: base64_text.induct)
  case (1 a b c bs)
  let ?ds = "sextets (group24 a b c)"
  have n: "(2 :: size_t) < of_nat (length (a # b # c # bs))"
    using "1.prems" by (simp add: word_less_nat_alt unat_size del: of_nat_Suc)
  have n3: "of_nat (length (a # b # c # bs)) - 3 = (of_nat (length bs) :: size_t)" by simp
  have room: "of_nat k + 4 > (of_nat T :: size_t) \<longleftrightarrow> T < k + 4"
    using "1.prems" by (intro size_room) simp_all
  show ?case
  proof (cases "k + 4 \<le> T")
    case True
    let ?t = "overwrite target k (map digit ?ds)"
    have st: "put_digits target (of_nat k) [out0 a, out1 a b, out2 b c, out3 c] = Some ?t"
      unfolding out_sextets using True "1.prems"
      by (intro put_digits_overwrite list_all_sextets) (simp_all add: sextets_def)
    have "ntop_loop (a # b # c # bs) (of_nat (length (a # b # c # bs))) target (of_nat k) (of_nat T) =
        ntop_loop bs (of_nat (length bs)) ?t (of_nat (k + 4)) (of_nat T)"
      using n room True st n3 by (subst ntop_loop.simps) (simp add: add.commute)
    moreover have "ntop_result T ?t (k + length (map digit ?ds)) (base64_text bs)
        (ntop_loop bs (of_nat (length bs)) ?t (of_nat (k + 4)) (of_nat T) \<bind> ntop_finish (of_nat T))"
      using "1.IH" [of ?t "k + 4"] "1.prems" True by simp
    ultimately show ?thesis
      using "1.prems" True ntop_result_append [of k "map digit ?ds" T target "base64_text bs"] by simp
  next
    case False
    then have "ntop_loop (a # b # c # bs) (of_nat (length (a # b # c # bs))) target (of_nat k) (of_nat T) =
        Some (Inl target)"
      using n room by (subst ntop_loop.simps) simp
    with False show ?thesis by (simp add: ntop_finish_def ntop_result_full sextets_def)
  qed
next
  case (2 a b)
  have room: "of_nat k + 4 > (of_nat T :: size_t) \<longleftrightarrow> T < k + 4"
    using "2.prems" by (intro size_room) simp_all
  let ?ds = "take 3 (sextets (group24 a b 0))"
  show ?case
  proof (cases "k + 4 \<le> T")
    case True
    have d1: "put_digits target (of_nat k) [out0 a, out1 a b] = Some (overwrite target k (map digit (take 2 ?ds)))"
      using put_digits_overwrite [of k "take 2 ?ds" target] out_sextets [of a b 0] True "2.prems" list_all_sextets [of "group24 a b 0"]
      by (simp add: sextets_def)
    have d2: "put_digits (overwrite target k (map digit (take 2 ?ds))) (of_nat (k + 2)) [out2 b 0] =
       Some (overwrite target k (map digit ?ds))"
      using put_digits_overwrite [of "k + 2" "drop 2 ?ds" "overwrite target k (map digit (take 2 ?ds))"] out_sextets [of a b 0] True "2.prems" 
      by (simp add: sextets_def overwrite_overwrite)
    have d3: "put_chars (overwrite target k (map digit ?ds)) (of_nat (k + 3)) [Pad64] =
       Some (overwrite target k (base64_text [a, b]))"
      using put_chars_overwrite [of "k + 3" "[Pad64]" "overwrite target k (map digit ?ds)"] True "2.prems" 
      by (simp add: sextets_def overwrite_overwrite del: put_chars.simps)
    show ?thesis using True "2.prems" d1 d2 d3 room ntop_terminator [of target T k "base64_text [a,b]"]
      by (subst ntop_loop.simps)
        (simp add: ntop_finish_def ntop_padding_def  sextets_def add.commute del: put_chars.simps cong: if_cong)
  next
    case False
    then show ?thesis  using room by (subst ntop_loop.simps) (simp add: ntop_finish_def ntop_padding_def ntop_result_full sextets_def)
  qed
next
  case (3 a)
  have room: "of_nat k + 4 > (of_nat T :: size_t) \<longleftrightarrow> T < k + 4"
    using "3.prems" by (intro size_room) simp_all
  let ?ds = "take 2 (sextets (group24 a 0 0))"
  show ?case
  proof (cases "k + 4 \<le> T")
    case True
    have d1: "put_digits target (of_nat k) [out0 a, out1 a 0] = Some (overwrite target k (map digit ?ds))"
      using put_digits_overwrite [of k ?ds target] out_sextets [of a 0 0] True "3.prems" list_all_sextets [of "group24 a 0 0"]
      by (simp add: sextets_def)
    have d2: "put_chars (overwrite target k (map digit ?ds)) (of_nat (k + 2)) [Pad64] =
        Some (overwrite target k (map digit ?ds @ [Pad64]))"
      using put_chars_overwrite [of "k + 2" "[Pad64]" "overwrite target k (map digit ?ds)"] True "3.prems"
      by (simp add: sextets_def overwrite_overwrite del: put_chars.simps)
    have d3: "put_chars (overwrite target k (map digit ?ds @ [Pad64])) (of_nat (k + 3)) [Pad64] =
        Some (overwrite target k (base64_text [a]))"
      using put_chars_overwrite [of "k + 3" "[Pad64]" "overwrite target k (map digit ?ds @ [Pad64])"] True "3.prems"
      by (simp add: sextets_def overwrite_overwrite del: put_chars.simps)
    show ?thesis using True "3.prems" d1 d2 d3 room ntop_terminator [of target T k "base64_text [a]"]
      by (subst ntop_loop.simps)
        (simp add: ntop_finish_def ntop_padding_def sextets_def add.commute numeral_2_eq_2 [symmetric] del: put_chars.simps cong: if_cong)
  next
    case False
    then show ?thesis
      using room by (subst ntop_loop.simps) (simp add: ntop_finish_def ntop_padding_def ntop_result_full sextets_def)
  qed
next
  case 4
  then show ?case
    using ntop_terminator [of target T k "[]"]
   by (simp add: ntop_loop.simps ntop_finish_def ntop_padding_def del: put_chars.simps cong: if_cong)
qed

lemma f_b64_ntop_result:
  assumes "length src < 2 ^ 62" and "length target < 2 ^ 62" and "T \<le> length target"
  shows "ntop_result T target 0 (base64_text src) (f_b64_ntop src (of_nat (length src)) target (of_nat T))"
  using ntop_rest [OF assms, of 0] unfolding f_b64_ntop_def ntop_finish_def by simp

text \<open>
  C29: \<open>f_b64_ntop\<close> writes the base64 text of the source and a terminator when the target has room
  for both, and returns the length of the text; otherwise it returns -1. It never writes outside
  the first \<open>targsize\<close> characters of the target.
\<close>

theorem f_b64_ntop_encodes:
  assumes "length src < 2 ^ 62" and "length target < 2 ^ 62" and "T \<le> length target"
  shows "if length (base64_text src) < T
    then f_b64_ntop src (of_nat (length src)) target (of_nat T) =
      Some (of_nat (length (base64_text src)), overwrite target 0 (base64_text src @ [0]))
    else \<exists>t. f_b64_ntop src (of_nat (length src)) target (of_nat T) = Some (- 1, t) \<and>
      length t = length target \<and> drop T t = drop T target"
  using f_b64_ntop_result [OF assms] by (simp add: ntop_result_def)

lemma f_b64_ntop_encodes_witness:
  "f_b64_ntop [0x68, 0x65, 0x6C, 0x6C] 4 ([7, 7, 7, 7, 7, 7, 7, 7, 7, 7]) 9 =
     Some (8, [0x61, 0x47, 0x56, 0x73, 0x62, 0x41, 0x3D, 0x3D, 0, 7]) \<and>
   (\<exists>t. f_b64_ntop [0x68, 0x65, 0x6C, 0x6C] 4 ([7, 7, 7, 7, 7, 7, 7, 7, 7, 7]) 8 = Some (- 1, t) \<and> drop 8 t = [7, 7])"
proof -
  have enc: "base64_text [0x68, 0x65, 0x6C, 0x6C] = [0x61, 0x47, 0x56, 0x73, 0x62, 0x41, 0x3D, 0x3D]"
    by (simp add: sextets_def group24_def digit_def Base64_def Pad64_def)
  show ?thesis
    using f_b64_ntop_encodes [of "[0x68, 0x65, 0x6C, 0x6C]" "[7, 7, 7, 7, 7, 7, 7, 7, 7, 7]" 9]
      f_b64_ntop_encodes [of "[0x68, 0x65, 0x6C, 0x6C]" "[7, 7, 7, 7, 7, 7, 7, 7, 7, 7]" 8]
    unfolding enc by (auto simp: overwrite_def)
qed

section \<open>The callers\<close>

text \<open>
  The size of the buffer that \<^verbatim>\<open>base64EncodedStringFromData\<close> and \<^verbatim>\<open>newSHA1String\<close> allocate for \<open>n\<close>
  bytes of data: \<^verbatim>\<open>((data.length * 3 + 2) / 2)\<close>.
\<close>

definition caller_buffer_size :: "nat \<Rightarrow> nat" where
  "caller_buffer_size n = (n * 3 + 2) div 2"

lemma caller_room:
  "length (base64_text src) < caller_buffer_size (length src) \<longleftrightarrow> length src \<notin> {1, 2, 4, 5, 7, 10, 13}"
proof (cases "length src < 14")
  case True
  have "list_all (\<lambda>n. 4 * ((n + 2) div 3) < (n * 3 + 2) div 2 \<longleftrightarrow> n \<notin> {1, 2, 4, 5, 7, 10, 13}) [0..<14]"
    by code_simp
  with True show ?thesis unfolding length_base64_text caller_buffer_size_def by (simp add: list_all_iff)
next
  case False
  then have "4 * ((length src + 2) div 3) < (length src * 3 + 2) div 2" by linarith
  with False show ?thesis unfolding length_base64_text caller_buffer_size_def by auto
qed

text \<open>
  C35: the buffer of the callers is too small for short data: \<open>f_b64_ntop\<close> fails, and the caller
  returns nil, exactly for data of 1, 2, 4, 5, 7, 10 or 13 bytes.
\<close>

theorem caller_buffer_too_small:
  assumes "length src < 2 ^ 60" and "length target = caller_buffer_size (length src)"
  shows "(\<exists>t. f_b64_ntop src (of_nat (length src)) target (of_nat (length target)) = Some (- 1, t)) \<longleftrightarrow>
    length src \<in> {1, 2, 4, 5, 7, 10, 13}"
proof -
  have "even (of_nat (length (base64_text src)) :: 32 word)" unfolding length_base64_text by simp
  then have "(of_nat (length (base64_text src)) :: 32 word) \<noteq> - 1" by fastforce
  moreover have "length target < 2 ^ 62" using assms by (simp add: caller_buffer_size_def)
  ultimately show ?thesis
    using f_b64_ntop_result [of src target "length target"] assms caller_room [of src]
    by (auto simp: ntop_result_def split: if_splits)
qed

lemma caller_buffer_too_small_witness:
  "(\<exists>t. f_b64_ntop [1, 2, 3, 4] 4 (replicate 7 0) 7 = Some (- 1, t)) \<and>
   \<not> (\<exists>t. f_b64_ntop [1, 2, 3] 3 (replicate 5 0) 5 = Some (- 1, t))"
  using caller_buffer_too_small [of "[1, 2, 3, 4]" "replicate 7 0"]
    caller_buffer_too_small [of "[1, 2, 3]" "replicate 5 0"]
  by (simp add: caller_buffer_size_def)

end
