(* ===== verification/F_Base64_Decode.thy ===== *)
theory F_Base64_Decode
  imports F_Base64_Encode
begin

text \<open>
  The decoder of \<^verbatim>\<open>fbase64.c\<close>: the digits of a byte string and back, the target after any number of
  digits, and the strings that \<open>f_b64_pton\<close> accepts, which are exactly the base64 texts with white
  space in any place.
\<close>

section \<open>Digits as bytes of six bits\<close>

abbreviation is_digit :: "byte \<Rightarrow> bool" where
  "is_digit d \<equiv> unat d < 64"

definition letter :: "byte \<Rightarrow> byte" where
  "letter d = digit (unat d)"

fun pack :: "byte list \<Rightarrow> byte list" where
  "pack (a # b # c # bs) = [out0 a, out1 a b, out2 b c, out3 c] @ pack bs"
| "pack [a, b] = [out0 a, out1 a b, out2 b 0]"
| "pack [a] = [out0 a, out1 a 0]"
| "pack [] = []"

definition pads :: "byte list \<Rightarrow> byte list" where
  "pads bs = replicate ((3 - length bs mod 3) mod 3) Pad64"

lemma letter_out:
  "map letter [out0 a, out1 a b, out2 b c, out3 c] = map digit (sextets (group24 a b c))"
  unfolding sextets_group24 letter_def list.map unat_out ..

lemma base64_text_pack: "base64_text bs = map letter (pack bs) @ pads bs"
proof (induction bs rule: base64_text.induct)
  case (1 a b c bs)
  then show ?case using letter_out [of a b c] by (simp add: pads_def)
next
  case (2 a b)
  then show ?case using letter_out [of a b 0] by (simp add: pads_def sextets_def)
next
  case (3 a)
  then show ?case using letter_out [of a 0 0] by (simp add: pads_def sextets_def numeral_2_eq_2)
qed (simp add: pads_def)

lemma out_digits: "is_digit (out0 a)" "is_digit (out1 a b)" "is_digit (out2 b c)" "is_digit (out3 c)"
  using byte_bound [of a] byte_bound [of b] byte_bound [of c] unfolding unat_out by linarith+

lemma pack_digits: "d \<in> set (pack bs) \<Longrightarrow> is_digit d"
  by (induction bs rule: pack.induct) (auto simp: out_digits)

lemma length_pack: "length (pack bs) mod 4 = (if length bs mod 3 = 0 then 0 else Suc (length bs mod 3))"
proof (induction bs rule: pack.induct)
  case (1 a b c bs)
  have "(length (a # b # c # bs)) mod 3 = length bs mod 3" by simp
  moreover have "length (pack (a # b # c # bs)) mod 4 = length (pack bs) mod 4" by simp
  ultimately show ?case using 1 by simp
qed simp_all

text \<open>The bytes that a sequence of digits leaves in the target.\<close>

definition join0 :: "byte \<Rightarrow> byte \<Rightarrow> byte" where
  "join0 a b = push_bit 2 a OR drop_bit 4 b"

definition join1 :: "byte \<Rightarrow> byte \<Rightarrow> byte" where
  "join1 b c = push_bit 4 (b AND 0x0F) OR drop_bit 2 c"

definition join2 :: "byte \<Rightarrow> byte \<Rightarrow> byte" where
  "join2 c d = push_bit 6 (c AND 0x03) OR d"

fun unpack :: "byte list \<Rightarrow> byte list" where
  "unpack (a # b # c # d # ds) = join0 a b # join1 b c # join2 c d # unpack ds"
| "unpack [a, b, c] = [join0 a b, join1 b c, join2 c 0]"
| "unpack [a, b] = [join0 a b, join1 b 0]"
| "unpack [a] = [join0 a 0]"
| "unpack [] = []"

lemma and_masks:
  "x AND 3 = take_bit 2 x" "x AND 0xF = take_bit 4 x" "x AND 0x3F = take_bit 6 x" for x :: byte
  by (simp_all add: take_bit_eq_mask mask_numeral)

lemma digit_bit: "is_digit d \<Longrightarrow> bit d i \<Longrightarrow> i < 6"
proof -
  assume "is_digit d" "bit d i"
  then have "take_bit 6 (unat d) = unat d" by (simp add: take_bit_nat_eq_self)
  then have "take_bit 6 d = d" by (metis take_bit_word_eq_self unsigned_take_bit_eq word_unat_eq_iff)
  with \<open>bit d i\<close> show "i < 6" by (metis bit_take_bit_iff)
qed

lemma digit_high: "is_digit d \<Longrightarrow> \<not> bit d 6 \<and> \<not> bit d 7"
  using digit_bit by fastforce

lemma out_or: "out1 a b = push_bit 4 (take_bit 2 a) OR drop_bit 4 b" "out2 b c = push_bit 2 (take_bit 4 b) OR drop_bit 6 c"
  unfolding out1_def out2_def and_masks
  by (rule disjunctive_add; auto simp: bit_simps dest: bit_imp_le_length)+

lemma byte_high: "8 \<le> i \<Longrightarrow> \<not> bit (x :: byte) i"
  by (auto dest: bit_imp_le_length)

lemma join_out:
  "join0 (out0 a) (out1 a b) = a" "join1 (out1 a b) (out2 b c) = b" "join2 (out2 b c) (out3 c) = c"
  unfolding out_or out0_def out3_def join0_def join1_def join2_def and_masks
  by (rule byte_eqI; simp add: bit_simps)+

lemma out_join:
  assumes "is_digit a" "is_digit b" "is_digit c" "is_digit d"
  shows "out0 (join0 a b) = a" "out1 (join0 a b) (join1 b c) = b" "out2 (join1 b c) (join2 c d) = c" "out3 (join2 c d) = d"
  unfolding out_or out0_def out3_def join0_def join1_def join2_def and_masks
  by (rule byte_eqI; use assms [THEN digit_high] in \<open>simp add: bit_simps byte_high\<close>)+

lemma out_zero: "out2 0 0 = 0" "out3 0 = 0" 
  by (simp_all add: out2_def out3_def)

lemma unpack_pack: "unpack (pack bs) = bs @ (if length bs mod 3 = 0 then [] else [0])"
proof (induction bs rule: pack.induct)
  case (1 a b c bs)
  have "length (a # b # c # bs) mod 3 = length bs mod 3" by simp
  with 1 show ?case by (simp add: join_out)
next
  case (2 a b)
  show ?case using join_out(3) [of b 0] by (simp add: join_out out_zero)
next
  case (3 a)
  show ?case using join_out(2) [of a 0 0] by (simp add: join_out out_zero)
qed simp

text \<open>The digits that are the digits of some byte string.\<close>

definition canonical :: "byte list \<Rightarrow> bool" where
  "canonical ds \<longleftrightarrow> length ds mod 4 = 0 \<or> (length ds mod 4 \<noteq> 1 \<and> last (unpack ds) = 0)"

lemma unpack_Nil_iff: "unpack ds = [] \<longleftrightarrow> ds = []"
  by (cases ds rule: unpack.cases) simp_all

lemma length_unpack: "length (unpack ds) = 3 * length ds div 4 + (if length ds mod 4 = 0 then 0 else 1)"
proof (induction ds rule: unpack.induct)
  case (1 a b c d ds)
  have "length (a # b # c # d # ds) mod 4 = length ds mod 4" "3 * length (a # b # c # d # ds) div 4 = 3 * length ds div 4 + 3" by simp_all
  with 1 show ?case by simp
qed simp_all

lemma pack_unpack:
  assumes "list_all is_digit ds" and "canonical ds"
  shows "pack (take (3 * length ds div 4) (unpack ds)) = ds"
  using assms
proof (induction ds rule: unpack.induct)
  case (1 a b c d ds)
  have l: "length (a # b # c # d # ds) mod 4 = length ds mod 4" "3 * length (a # b # c # d # ds) div 4 = Suc (Suc (Suc (3 * length ds div 4)))" by simp_all
  have "canonical ds" using 1(3) unfolding canonical_def l by (auto simp: unpack_Nil_iff split: if_splits)
  with 1 out_join [of a b c d] show ?case unfolding l by simp
next
  case (2 a b c)
  then show ?case using out_join [of a b c 0] by (simp add: canonical_def)
next
  case (3 a b)
  then show ?case using out_join [of a b 0 0] by (simp add: canonical_def)
qed (simp_all add: canonical_def)

lemma canonical_pack: "canonical (pack bs)"
  by (simp add: canonical_def length_pack unpack_pack)


section \<open>Texts\<close>

definition alphabetic :: "byte \<Rightarrow> bool" where
  "alphabetic c \<longleftrightarrow> Base64_index c \<noteq> None"

lemma letter_simps [simp]:
  assumes "is_digit d"
  shows "Base64_index (letter d) = Some d" "c_isspace (letter d) = Some False" "letter d \<noteq> 0" "letter d \<noteq> Pad64"
    "alphabetic (letter d)" "\<not> c_space (letter d)"
proof -
  have "\<not> c_space 0xFF" by code_simp
  then show "\<not> c_space (letter d)"
    using digit_simps(3) [OF assms] by (auto simp: letter_def c_isspace_def split: if_splits)
qed (use digit_simps [OF assms] in \<open>simp_all add: letter_def alphabetic_def\<close>)

lemma letter_inj: "is_digit d \<Longrightarrow> is_digit e \<Longrightarrow> letter d = letter e \<longleftrightarrow> d = e"
  by (metis letter_simps(1) option.inject)

lemma alphabeticD: "alphabetic c \<Longrightarrow> \<exists>d. is_digit d \<and> c = letter d"
  using Base64_indexD by (auto simp: alphabetic_def letter_def)

lemma Pad64_not_alphabetic [simp]: "\<not> alphabetic Pad64"
  by (metis alphabeticD letter_simps(4))

lemma map_letter_inj:
  "list_all is_digit ds \<Longrightarrow> list_all is_digit es \<Longrightarrow> map letter ds = map letter es \<Longrightarrow> ds = es"
  by (induction ds es rule: list_induct2') (auto simp: letter_inj)

lemma letters_prefix:
  assumes "list_all is_digit ds" "list_all is_digit es" and "map letter ds @ xs = map letter es @ ys"
    and "xs = [] \<or> \<not> alphabetic (hd xs)" and "ys = [] \<or> \<not> alphabetic (hd ys)"
  shows "ds = es \<and> xs = ys"
proof -
  have "takeWhile alphabetic (map letter ds @ xs) = map letter ds"
    if "list_all is_digit ds" "xs = [] \<or> \<not> alphabetic (hd xs)" for ds xs
    using that by (cases xs) (induction ds; simp)+
  then have "map letter ds = map letter es" using assms by metis
  then show ?thesis using map_letter_inj [OF assms(1,2)] assms(3) by auto
qed

lemma pack_digits_all: "list_all is_digit (pack bs)"
  using pack_digits by (simp add: list_all_iff)

text \<open>The texts that are the base64 text of some byte string, and of which one.\<close>

definition decoded :: "byte list \<Rightarrow> byte list" where
  "decoded ds = take (3 * length ds div 4) (unpack ds)"

lemma decoded_pack: "decoded (pack bs) = bs"
proof -
  have "3 * length (pack bs) div 4 = length bs"
    using length_unpack [of "pack bs"] by (simp add: unpack_pack length_pack split: if_splits)
  then show ?thesis by (simp add: decoded_def unpack_pack)
qed

definition padding :: "byte list \<Rightarrow> byte list" where
  "padding ds = replicate ((4 - length ds mod 4) mod 4) Pad64"

lemma padding_pack: "padding (pack bs) = pads bs"
proof -
  have "length bs mod 3 \<in> {0, 1, 2}" by auto
  then show ?thesis by (auto simp: padding_def pads_def length_pack)
qed

lemma text_iff:
  assumes "list_all is_digit ds" and "rest = [] \<or> \<not> alphabetic (hd rest)"
  shows "map letter ds @ rest = base64_text bs \<longleftrightarrow> canonical ds \<and> rest = padding ds \<and> bs = decoded ds"
proof
  assume "map letter ds @ rest = base64_text bs"
  then have "ds = pack bs \<and> rest = pads bs"
    unfolding base64_text_pack
    by (intro letters_prefix assms pack_digits_all) (auto simp: pads_def hd_replicate)
  then show "canonical ds \<and> rest = padding ds \<and> bs = decoded ds"
    by (simp add: canonical_pack padding_pack decoded_pack)
next
  assume "canonical ds \<and> rest = padding ds \<and> bs = decoded ds"
  then show "map letter ds @ rest = base64_text bs"
    using pack_unpack [OF assms(1)] padding_pack [of bs] unfolding base64_text_pack decoded_def by simp
qed

section \<open>One digit of the decoder\<close>

lemma unat_tar: "i < 2 ^ 32 \<Longrightarrow> unat (of_nat i :: uint32) = i"
  by (simp add: unat_of_nat take_bit_nat_eq_self)

lemma tar_size: "i < 2 ^ 32 \<Longrightarrow> (ucast (of_nat i :: uint32) :: size_t) = of_nat i"
  by (simp add: unsigned_of_nat take_bit_nat_eq_self)

lemma tar_full: "i < 2 ^ 32 \<Longrightarrow> T < 2 ^ 62 \<Longrightarrow> (ucast (of_nat i :: uint32) :: size_t) \<ge> of_nat T \<longleftrightarrow> T \<le> i"
  using unat_size [of i] unat_size [of T] by (simp add: tar_size word_le_nat_alt)

lemma array_or_overwrite:
  "i + length xs < length t \<Longrightarrow> array_or (overwrite t i (xs @ [x])) (i + length xs) v = Some (overwrite t i (xs @ [x OR v]))"
  by (simp add: array_or_def overwrite_def nth_append list_update_append)

lemma array_store_overwrite:
  "i + length xs < length t \<Longrightarrow> array_store (overwrite t i xs) (i + length xs) v = Some (overwrite t i (xs @ [v]))"
  by (simp add: array_store_def overwrite_def nth_append list_update_append Cons_nth_drop_Suc [symmetric])

lemma pton_digit_0:
  assumes "i < 2 ^ 32" "T \<le> length t" "length t < 2 ^ 62"
  shows "pton_digit d (of_nat T) (0, Some t, of_nat i) =
    Some (if T \<le> i then Inl (Some t) else Inr (1, Some (overwrite t i [join0 d 0]), of_nat i))"
  using assms array_store_overwrite [of i "[]" t] by (simp add: pton_digit_def tar_full unat_tar join0_def)

lemma pton_digit_1:
  assumes "i + 1 < 2 ^ 32" "T \<le> length t" "length t < 2 ^ 62"
  shows "pton_digit d (of_nat T) (1, Some (overwrite t i [join0 c 0]), of_nat i) =
    Some (if T \<le> i + 1 then Inl (Some (overwrite t i [join0 c 0]))
          else Inr (2, Some (overwrite t i [join0 c d, join1 d 0]), of_nat (i + 1)))"
  using assms array_or_overwrite [of i "[]" t "join0 c 0" "drop_bit 4 d"]
    array_store_overwrite [of i "[join0 c d]" t "join1 d 0"] tar_full [of "i + 1" T] unat_tar [of "i + 1"]
  by (simp add: pton_digit_def unat_tar add.commute join0_def join1_def)

lemma pton_digit_2:
  assumes "i + 2 < 2 ^ 32" "T \<le> length t" "length t < 2 ^ 62"
  shows "pton_digit d (of_nat T) (2, Some (overwrite t i [x, join1 c 0]), of_nat (i + 1)) =
    Some (if T \<le> i + 2 then Inl (Some (overwrite t i [x, join1 c 0]))
          else Inr (3, Some (overwrite t i [x, join1 c d, join2 d 0]), of_nat (i + 2)))"
  using assms array_or_overwrite [of i "[x]" t "join1 c 0" "drop_bit 2 d"]
    array_store_overwrite [of i "[x, join1 c d]" t "join2 d 0"] tar_full [of "i + 2" T] unat_tar [of "i + 2"] unat_tar [of "i + 1"]
  by (simp add: pton_digit_def add.commute join1_def join2_def)

lemma pton_digit_3:
  assumes "i + 2 < 2 ^ 32" "T \<le> length t" "length t < 2 ^ 62" "i + 2 < T"
  shows "pton_digit d (of_nat T) (3, Some (overwrite t i [x, y, join2 c 0]), of_nat (i + 2)) =
    Some (Inr (0, Some (overwrite t i [x, y, join2 c d]), of_nat (i + 3)))"
  using assms array_or_overwrite [of i "[x, y]" t "join2 c 0" d] tar_full [of "i + 2" T] unat_tar [of "i + 2"]
  by (simp add: pton_digit_def add.commute join2_def)

section \<open>All digits\<close>

fun pton_digits :: "byte list \<Rightarrow> size_t \<Rightarrow> pton_state \<Rightarrow> (byte list option + pton_state) option" where
  "pton_digits [] targsize s = Some (Inr s)"
| "pton_digits (d # ds) targsize s = do {
     r \<leftarrow> pton_digit d targsize s;
     case r of Inl t \<Rightarrow> Some (Inl t) | Inr s \<Rightarrow> pton_digits ds targsize s }"

definition stores :: "nat \<Rightarrow> byte list \<Rightarrow> nat \<Rightarrow> byte list \<Rightarrow> (byte list option + pton_state) option \<Rightarrow> bool" where
  "stores T t i ds r \<longleftrightarrow>
     (if i + length (unpack ds) \<le> T
      then r = Some (Inr (length ds mod 4, Some (overwrite t i (unpack ds)), of_nat (i + 3 * length ds div 4)))
      else \<exists>t'. r = Some (Inl (Some t')) \<and> length t' = length t \<and> drop T t' = drop T t)"

lemma stores_full:
  assumes "T < i + length (unpack ds)" "i + length bs \<le> T" "T \<le> length t"
  shows "stores T t i ds (Some (Inl (Some (overwrite t i bs))))"
  using assms by (simp add: stores_def drop_overwrite)

lemma stores_group:
  assumes "stores T (overwrite t i [x, y, z]) (i + 3) ds r" and "unpack ds' = [x, y, z] @ unpack ds"
    and "length ds' = length ds + 4" and "i + 3 \<le> T" "T \<le> length t"
  shows "stores T t i ds' r"
proof -
  have l: "length ds' mod 4 = length ds mod 4" "i + 3 * length ds' div 4 = i + 3 + 3 * length ds div 4"
    "length (unpack ds') = 3 + length (unpack ds)"
    using assms(2,3) by simp_all
  show ?thesis
  proof (cases "i + length (unpack ds') \<le> T")
    case True
    with assms l show ?thesis by (simp add: stores_def overwrite_overwrite)
  next
    case False
    with assms l show ?thesis by (simp add: stores_def drop_overwrite)
  qed
qed

lemma pton_digits_stores:
  "T \<le> length t \<Longrightarrow> length t < 2 ^ 62 \<Longrightarrow> i \<le> T \<Longrightarrow> i + length ds < 2 ^ 32 \<Longrightarrow>
   stores T t i ds (pton_digits ds (of_nat T) (0, Some t, of_nat i))"
proof (induction ds arbitrary: t i rule: unpack.induct)
  case (1 a b c d ds)
  note step = pton_digit_0 [of i T t] pton_digit_1 [of i T t] pton_digit_2 [of i T t] pton_digit_3 [of i T t]
  consider "T = i" | "T = i + 1" | "T = i + 2" | "i + 3 \<le> T" using 1(4) by linarith
  then show ?case
  proof cases
    case 1
    then show ?thesis using "1.prems" step stores_full [of T i "a # b # c # d # ds" "[]" t] by simp
  next
    case 2
    then show ?thesis using "1.prems" step stores_full [of T i "a # b # c # d # ds" "[join0 a 0]" t] by simp
  next
    case 3
    then show ?thesis using "1.prems" step stores_full [of T i "a # b # c # d # ds" "[join0 a b, join1 b 0]" t] by simp
  next
    case 4
    let ?t = "overwrite t i [join0 a b, join1 b c, join2 c d]"
    have "stores T ?t (i + 3) ds (pton_digits ds (of_nat T) (0, Some ?t, of_nat (i + 3)))"
      using "1.prems" 4 by (intro "1.IH") simp_all
    then have "stores T t i (a # b # c # d # ds) (pton_digits ds (of_nat T) (0, Some ?t, of_nat (i + 3)))"
      by (rule stores_group) (use "1.prems" 4 in simp_all)
    then show ?thesis using "1.prems" step 4 by simp
  qed
next
  case (2 a b c)
  note step = pton_digit_0 [of i T t] pton_digit_1 [of i T t] pton_digit_2 [of i T t]
  consider "T = i" | "T = i + 1" | "T = i + 2" | "i + 3 \<le> T" using "2.prems" by linarith
  then show ?case
  proof cases
    case 1
    then show ?thesis using "2.prems" step stores_full [of T i "[a, b, c]" "[]" t] by simp
  next
    case 2
    then show ?thesis using "2.prems" step stores_full [of T i "[a, b, c]" "[join0 a 0]" t] by simp
  next
    case 3
    then show ?thesis using "2.prems" step stores_full [of T i "[a, b, c]" "[join0 a b, join1 b 0]" t] by simp
  next
    case 4
    then show ?thesis using "2.prems" step by (simp add: stores_def)
  qed
next
  case (3 a b)
  note step = pton_digit_0 [of i T t] pton_digit_1 [of i T t]
  consider "T = i" | "T = i + 1" | "i + 2 \<le> T" using "3.prems" by linarith
  then show ?case
  proof cases
    case 1
    then show ?thesis using "3.prems" step stores_full [of T i "[a, b]" "[]" t] by simp
  next
    case 2
    then show ?thesis using "3.prems" step stores_full [of T i "[a, b]" "[join0 a 0]" t] by simp
  next
    case 3
    then show ?thesis using "3.prems" step by (simp add: stores_def)
  qed
next
  case (4 a)
  then show ?case
    using pton_digit_0 [of i T t] stores_full [of T i "[a]" "[]" t] by (simp add: stores_def)
next
  case 5
  then show ?case by (simp add: stores_def)
qed


section \<open>Texts with white space\<close>

definition plain :: "byte list \<Rightarrow> bool" where
  "plain s \<longleftrightarrow> list_all (\<lambda>c. c \<noteq> 0 \<and> c < 0x80) s"

definition dense :: "byte list \<Rightarrow> byte list" where
  "dense s = filter (\<lambda>c. \<not> c_space c) s"

lemma plain_simps [simp]:
  "plain []" "plain (c # s) \<longleftrightarrow> c \<noteq> 0 \<and> c < 0x80 \<and> plain s" "plain (r @ s) \<longleftrightarrow> plain r \<and> plain s"
  by (auto simp: plain_def)

lemma dense_simps [simp]:
  "dense [] = []" "dense (c # s) = (if c_space c then dense s else c # dense s)" "dense (r @ s) = dense r @ dense s"
  by (simp_all add: dense_def)

lemma c_isspace_plain [simp]: "c < 0x80 \<Longrightarrow> c_isspace c = Some (c_space c)"
  by (simp add: c_isspace_def)

lemma plain_split:
  assumes "plain s"
  obtains s1 ds rest where "s = s1 @ rest" "plain s1" "plain rest" "dense s1 = map letter ds" "list_all is_digit ds"
    "length ds \<le> length s" "rest = [] \<or> (\<not> c_space (hd rest) \<and> \<not> alphabetic (hd rest))"
proof -
  have "\<exists>s1 ds rest. s = s1 @ rest \<and> plain s1 \<and> plain rest \<and> dense s1 = map letter ds \<and> list_all is_digit ds \<and>
      length ds \<le> length s \<and> (rest = [] \<or> (\<not> c_space (hd rest) \<and> \<not> alphabetic (hd rest)))"
    using assms
  proof (induction s)
    case Nil
    then show ?case by (intro exI [of _ "[]"]) simp
  next
    case (Cons c s)
    from Cons.prems have "plain s" by simp
    from Cons.IH [OF this] obtain s1 ds rest where *: "s = s1 @ rest" "plain s1" "plain rest" "dense s1 = map letter ds" "list_all is_digit ds"
      "length ds \<le> length s" "rest = [] \<or> (\<not> c_space (hd rest) \<and> \<not> alphabetic (hd rest))"
      by blast
    consider "c_space c" | "\<not> c_space c" "alphabetic c" | "\<not> c_space c" "\<not> alphabetic c" by blast
    then show ?case
    proof cases
      case 1
      with * Cons.prems show ?thesis by (intro exI [of _ "c # s1"] exI [of _ ds] exI [of _ rest]) simp
    next
      case 2
      then obtain d where "is_digit d" "c = letter d" using alphabeticD by blast
      with 2 * Cons.prems show ?thesis by (intro exI [of _ "c # s1"] exI [of _ "d # ds"] exI [of _ rest]) simp
    next
      case 3
      with Cons.prems show ?thesis by (intro exI [of _ "[]"] exI [of _ "c # s"]) simp
    qed
  qed
  with that show thesis by blast
qed

lemma pton_loop_text:
  assumes "plain s" and "dense s = map letter ds" and "list_all is_digit ds"
  shows "pton_loop (s @ rest) targsize st = do {
    r \<leftarrow> pton_digits ds targsize st;
    case r of Inl t \<Rightarrow> Some (Inl t) | Inr st \<Rightarrow> pton_loop rest targsize st }"
  using assms
proof (induction s arbitrary: ds st)
  case Nil
  then show ?case by simp
next
  case (Cons c s)
  show ?case
  proof (cases "c_space c")
    case True
    with Cons show ?thesis by simp
  next
    case False
    with Cons.prems obtain d ds' where ds: "ds = d # ds'" "c = letter d" "dense s = map letter ds'"
      by (cases ds) auto
    have "pton_loop (s @ rest) targsize st = do {
        r \<leftarrow> pton_digits ds' targsize st;
        case r of Inl t \<Rightarrow> Some (Inl t) | Inr st \<Rightarrow> pton_loop rest targsize st }" for st
      using ds Cons.prems by (intro Cons.IH) simp_all
    then show ?thesis using ds Cons.prems False
      by (cases "pton_digit d targsize st") (simp_all split: sum.split)
  qed
qed

text \<open>The rest of a text behind its leading white space.\<close>

lemma after_spaces:
  assumes "plain s"
  obtains "dense s = []" "skip_spaces (s @ [0]) = Some [0]"
    | c s' where "dense s = c # dense s'" "skip_spaces (s @ [0]) = Some (c # s' @ [0])" "plain s'" "c \<noteq> 0"
proof -
  have "(dense s = [] \<and> skip_spaces (s @ [0]) = Some [0]) \<or>
    (\<exists>c s'. dense s = c # dense s' \<and> skip_spaces (s @ [0]) = Some (c # s' @ [0]) \<and> plain s' \<and> c \<noteq> 0)"
    using assms by (induction s) auto
  with that show thesis by blast
qed

lemma trailing_ok_plain:
  assumes "plain s" and "unat i < length t"
  shows "trailing_ok (s @ [0]) (Some t) i = Some (dense s = [] \<and> t ! unat i = 0)"
  using assms(1) by (rule after_spaces) (use assms(2) in \<open>simp_all add: trailing_ok_def\<close>)

lemma pton_pad_plain:
  assumes "plain s" and "unat i < length t"
  shows "pton_pad (s @ [0]) (2, Some t, i) = Some (dense s = [Pad64] \<and> t ! unat i = 0)"
    and "pton_pad (s @ [0]) (3, Some t, i) = Some (dense s = [] \<and> t ! unat i = 0)"
proof -
  show "pton_pad (s @ [0]) (3, Some t, i) = Some (dense s = [] \<and> t ! unat i = 0)"
    using trailing_ok_plain [OF assms] by (simp add: pton_pad_def)
  show "pton_pad (s @ [0]) (2, Some t, i) = Some (dense s = [Pad64] \<and> t ! unat i = 0)"
    using assms(1)
  proof (rule after_spaces)
    fix c s' assume "dense s = c # dense s'" "skip_spaces (s @ [0]) = Some (c # s' @ [0])" "plain s'"
    then show ?thesis using trailing_ok_plain [of s' i t] assms(2) by (simp add: pton_pad_def)
  qed (simp add: pton_pad_def Pad64_def)
qed


section \<open>The decoder\<close>

text \<open>A partial last group leaves one more byte in the target, which has to be zero.\<close>

definition slack :: "byte list \<Rightarrow> byte list" where
  "slack bs = (if length bs mod 3 = 0 then [] else [0])"

definition fits :: "byte list \<Rightarrow> nat \<Rightarrow> bool" where
  "fits bs T \<longleftrightarrow> length (bs @ slack bs) \<le> T"

text \<open>What follows the loop of \<open>f_b64_pton\<close> in a text that has ended or goes on with \<open>rest\<close>.\<close>

definition pton_finish :: "(byte list option + byte \<times> byte list \<times> pton_state) option \<Rightarrow> (32 word \<times> byte list option) option" where
  "pton_finish r = do {
     r \<leftarrow> r;
     case r of
       Inl t \<Rightarrow> Some (- 1, t)
     | Inr (ch, src, state, target, tarindex) \<Rightarrow> do {
         ok \<leftarrow> (if ch = Pad64 then pton_pad src (state, target, tarindex) else Some (state = 0));
         Some (if ok then tarindex else - 1, target) } }"

lemma pton_finish_pad:
  assumes "plain s" and "k < 4" and "k = 2 \<or> k = 3 \<Longrightarrow> unat i < length t"
  shows "pton_finish (Some (Inr (Pad64, s @ [0], k, Some t, i))) =
    Some (if (k = 2 \<and> dense s = [Pad64] \<or> k = 3 \<and> dense s = []) \<and> t ! unat i = 0 then i else - 1, Some t)"
proof -
  consider "k = 0 \<or> k = 1" | "k = 2" | "k = 3" using assms(2) by linarith
  then show ?thesis
  proof cases
    case 1
    then show ?thesis by (auto simp: pton_finish_def pton_pad_def)
  qed (use assms pton_pad_plain in \<open>simp_all add: pton_finish_def\<close>)
qed

lemma last_overwrite:
  "u \<noteq> [] \<Longrightarrow> i + 1 = length u \<Longrightarrow> length u \<le> length t \<Longrightarrow> overwrite t 0 u ! i = last u"
proof -
  assume "u \<noteq> []" "i + 1 = length u" "length u \<le> length t"
  then have "i = length u - 1" "i < length u" by simp_all
  with \<open>u \<noteq> []\<close> show ?thesis by (simp add: overwrite_def nth_append last_conv_nth)
qed

lemma padding_simps:
  "length ds mod 4 = 0 \<Longrightarrow> padding ds = []"
  "length ds mod 4 = 1 \<Longrightarrow> padding ds = [Pad64, Pad64, Pad64]"
  "length ds mod 4 = 2 \<Longrightarrow> padding ds = [Pad64, Pad64]"
  "length ds mod 4 = 3 \<Longrightarrow> padding ds = [Pad64]"
proof -
  have r: "replicate 3 x = [x, x, x]" "replicate 2 x = [x, x]" for x :: byte
    by (simp_all add: numeral_3_eq_3 numeral_2_eq_2)
  show "length ds mod 4 = 0 \<Longrightarrow> padding ds = []"
    "length ds mod 4 = 1 \<Longrightarrow> padding ds = [Pad64, Pad64, Pad64]"
    "length ds mod 4 = 2 \<Longrightarrow> padding ds = [Pad64, Pad64]"
    "length ds mod 4 = 3 \<Longrightarrow> padding ds = [Pad64]"
    by (simp_all add: padding_def r)
qed

lemma pton_rest:
  assumes "plain rest" and "rest = [] \<or> (\<not> c_space (hd rest) \<and> \<not> alphabetic (hd rest))"
    and len: "length (unpack ds) \<le> length t" "length ds < 2 ^ 32"
  shows "pton_finish (pton_loop (rest @ [0]) targsize
      (length ds mod 4, Some (overwrite t 0 (unpack ds)), of_nat (3 * length ds div 4))) =
    Some (if canonical ds \<and> dense rest = padding ds then of_nat (3 * length ds div 4) else - 1,
      Some (overwrite t 0 (unpack ds)))"
proof -
  let ?k = "length ds mod 4" and ?i = "3 * length ds div 4" and ?t = "overwrite t 0 (unpack ds)"
  have i: "unat (of_nat ?i :: uint32) = ?i" using len(2) by (intro unat_tar) linarith
  have u: "?k \<noteq> 0 \<Longrightarrow> ?i < length ?t \<and> ?t ! ?i = last (unpack ds)"
    using len last_overwrite [of "unpack ds" ?i t] length_unpack [of ds] by (cases "ds = []") (auto simp: unpack_Nil_iff)
  have k: "?k < 4" by simp
  show ?thesis
  proof (cases rest)
    case Nil
    then show ?thesis using k
      by (auto simp: pton_finish_def Pad64_def canonical_def padding_def)
  next
    case (Cons c s)
    with assms have c: "\<not> c_space c" "\<not> alphabetic c" "c \<noteq> 0" "c < 0x80" "plain s" by simp_all
    show ?thesis
    proof (cases "c = Pad64")
      case True
      have "(?k = 2 \<and> dense s = [Pad64] \<or> ?k = 3 \<and> dense s = []) \<and> ?t ! ?i = 0 \<longleftrightarrow>
          canonical ds \<and> dense rest = padding ds"
      proof -
        have d: "dense rest = Pad64 # dense s" using Cons c(1) True by simp
        define k i where "k = ?k" and "i = ?i"
        have cn: "canonical ds \<longleftrightarrow> k = 0 \<or> (k \<noteq> 1 \<and> last (unpack ds) = 0)" by (simp add: canonical_def k_def)
        have pd: "k = 0 \<Longrightarrow> padding ds = []" "k = 1 \<Longrightarrow> padding ds = [Pad64, Pad64, Pad64]"
          "k = 2 \<Longrightarrow> padding ds = [Pad64, Pad64]" "k = 3 \<Longrightarrow> padding ds = [Pad64]"
          unfolding k_def by (rule padding_simps; assumption)+
        have l: "k \<noteq> 0 \<Longrightarrow> ?t ! i = last (unpack ds)" using u by (simp add: k_def i_def)
        consider "k = 0" | "k = 1" | "k = 2" | "k = 3" using k unfolding k_def by linarith
        then have "(k = 2 \<and> dense s = [Pad64] \<or> k = 3 \<and> dense s = []) \<and> ?t ! i = 0 \<longleftrightarrow>
          canonical ds \<and> dense rest = padding ds"
          unfolding cn d by cases (use l in \<open>auto simp: pd\<close>)
        then show ?thesis unfolding k_def i_def .
      qed
      moreover have "pton_loop (rest @ [0]) targsize (?k, Some ?t, of_nat ?i) = Some (Inr (Pad64, s @ [0], ?k, Some ?t, of_nat ?i))"
        using Cons c True by simp
      moreover have "?k = 2 \<or> ?k = 3 \<Longrightarrow> unat (of_nat ?i :: uint32) < length ?t" using u unfolding i by fastforce
      note pton_finish_pad [OF c(5) k this]
      ultimately show ?thesis unfolding i by (simp only:)
    next
      case False
      have "set (padding ds) \<subseteq> {Pad64}" by (auto simp: padding_def)
      moreover have "c \<in> set (dense rest)" using Cons c by simp
      ultimately have "dense rest \<noteq> padding ds" using False by auto
      moreover have "pton_loop (rest @ [0]) targsize (?k, Some ?t, of_nat ?i) = Some (Inl (Some ?t))"
        using Cons c False by (simp add: alphabetic_def)
      ultimately show ?thesis by (simp add: pton_finish_def)
    qed
  qed
qed


lemma f_b64_pton_finish:
  "f_b64_pton src target targsize = pton_finish (pton_loop src targsize (0, target, 0))"
  by (simp add: f_b64_pton_def pton_finish_def)

lemma unpack_decoded:
  assumes "list_all is_digit ds" and "canonical ds"
  shows "unpack ds = decoded ds @ slack (decoded ds)" and "length (decoded ds) = 3 * length ds div 4"
proof -
  have "pack (decoded ds) = ds" using pack_unpack [OF assms] by (simp add: decoded_def)
  then show "unpack ds = decoded ds @ slack (decoded ds)" using unpack_pack [of "decoded ds"] by (simp add: slack_def)
  show "length (decoded ds) = 3 * length ds div 4" by (simp add: decoded_def length_unpack)
qed

lemma pton_result:
  assumes "plain s" and "length s < 2 ^ 32" and "T \<le> length t" and "length t < 2 ^ 62"
  shows "(\<exists>bs. dense s = base64_text bs \<and> fits bs T \<and>
      f_b64_pton (s @ [0]) (Some t) (of_nat T) = Some (of_nat (length bs), Some (overwrite t 0 (bs @ slack bs)))) \<or>
    ((\<nexists>bs. dense s = base64_text bs \<and> fits bs T) \<and>
      (\<exists>t'. f_b64_pton (s @ [0]) (Some t) (of_nat T) = Some (- 1, Some t') \<and> length t' = length t \<and> drop T t' = drop T t))"
proof -
  obtain s1 ds rest where s: "s = s1 @ rest" "plain s1" "plain rest" "dense s1 = map letter ds" "list_all is_digit ds"
    "length ds \<le> length s" "rest = [] \<or> (\<not> c_space (hd rest) \<and> \<not> alphabetic (hd rest))"
    using plain_split [OF assms(1)] .
  have short: "length ds < 2 ^ 32" using s(6) assms(2) by linarith
  have "dense rest = [] \<or> \<not> alphabetic (hd (dense rest))" using s(7) by (cases rest) auto
  then have enc: "dense s = base64_text bs \<longleftrightarrow> canonical ds \<and> dense rest = padding ds \<and> bs = decoded ds" for bs
    using text_iff [OF s(5)] s(1,4) by simp
  have run: "f_b64_pton (s @ [0]) (Some t) (of_nat T) = pton_finish (do {
      r \<leftarrow> pton_digits ds (of_nat T) (0, Some t, 0);
      case r of Inl t \<Rightarrow> Some (Inl t) | Inr st \<Rightarrow> pton_loop (rest @ [0]) (of_nat T) st })"
    unfolding f_b64_pton_finish using pton_loop_text [OF s(2,4,5), of "rest @ [0]"] s(1) by simp
  have st: "stores T t 0 ds (pton_digits ds (of_nat T) (0, Some t, 0))"
    using pton_digits_stores [of T t 0 ds] assms short by simp
  show ?thesis
  proof (cases "length (unpack ds) \<le> T")
    case True
    then have r: "f_b64_pton (s @ [0]) (Some t) (of_nat T) =
        Some (if canonical ds \<and> dense rest = padding ds then of_nat (3 * length ds div 4) else - 1, Some (overwrite t 0 (unpack ds)))"
      using st pton_rest [OF s(3,7) _ short] assms unfolding run by (simp add: stores_def)
    show ?thesis
    proof (cases "canonical ds \<and> dense rest = padding ds")
      case yes: True
      with r True unpack_decoded [OF s(5)] show ?thesis unfolding enc fits_def
        by (intro disjI1 exI [of _ "decoded ds"]) auto
    next
      case False
      with r have "f_b64_pton (s @ [0]) (Some t) (of_nat T) = Some (- 1, Some (overwrite t 0 (unpack ds)))" by auto
      with False True assms show ?thesis unfolding enc by (intro disjI2 conjI) (auto simp: drop_overwrite)
    qed
  next
    case False
    have "\<nexists>bs. dense s = base64_text bs \<and> fits bs T"
      unfolding enc fits_def using False unpack_decoded(1) [OF s(5)] by auto
    moreover have "\<exists>t'. f_b64_pton (s @ [0]) (Some t) (of_nat T) = Some (- 1, Some t') \<and> length t' = length t \<and> drop T t' = drop T t"
      using False st unfolding run by (auto simp: stores_def pton_finish_def)
    ultimately show ?thesis by blast
  qed
qed

lemma length_text_bound: "3 * length (base64_text bs) \<ge> 4 * length bs"
  unfolding length_base64_text by linarith

text \<open>
  C6: \<open>f_b64_pton\<close> on any string of ASCII characters returns (there is no access outside the target
  and the loop ends), writes only to the first \<open>targsize\<close> bytes, and accepts the string if and
  only if it is, up to white space, the base64 text of some byte string with room in the target,
  whose bytes it then stores and whose length it returns. In particular a string with nonzero
  spare bits, missing padding or trailing characters is rejected.
\<close>

theorem f_b64_pton_exact:
  assumes "plain s" and "length s < 2 ^ 32" and "T \<le> length t" and "length t < 2 ^ 62"
  shows "\<exists>r t'. f_b64_pton (s @ [0]) (Some t) (of_nat T) = Some (r, Some t') \<and>
    length t' = length t \<and> drop T t' = drop T t \<and>
    (r \<noteq> - 1 \<longleftrightarrow> (\<exists>bs. dense s = base64_text bs \<and> fits bs T)) \<and>
    (r \<noteq> - 1 \<longrightarrow> dense s = base64_text (take (unat r) t') \<and> unat r \<le> T)"
  using pton_result [OF assms]
proof (elim disjE exE conjE)
  fix bs assume bs: "dense s = base64_text bs" "fits bs T"
    and r: "f_b64_pton (s @ [0]) (Some t) (of_nat T) = Some (of_nat (length bs), Some (overwrite t 0 (bs @ slack bs)))"
  have "length (dense s) \<le> length s" by (simp add: dense_def)
  then have lt: "length bs < 2 ^ 32 - 1" using length_text_bound [of bs] bs assms(2) by simp
  then have u: "unat (of_nat (length bs) :: 32 word) = length bs" by (intro unat_tar) simp
  moreover have "unat (- 1 :: 32 word) = 2 ^ 32 - 1" by (simp add: unsigned_minus_1_eq_mask mask_eq_exp_minus_1)
  ultimately have "(of_nat (length bs) :: 32 word) \<noteq> - 1" using lt by (metis less_irrefl)
  with bs r u assms show ?thesis by (auto simp: fits_def drop_overwrite overwrite_def)
qed auto

lemma f_b64_pton_exact_witness:
  "\<exists>r t'. f_b64_pton ([0x61, 0x20, 0x47, 0x56, 0x73, 0x62, 0x41, 0x3D, 0x3D] @ [0]) (Some [7, 7, 7, 7, 7, 7]) 5 = Some (r, Some t') \<and>
    length t' = length [7, 7, 7, 7, 7, 7 :: byte] \<and> drop 5 t' = drop 5 [7, 7, 7, 7, 7, 7] \<and>
    (r \<noteq> - 1 \<longleftrightarrow> (\<exists>bs. dense [0x61, 0x20, 0x47, 0x56, 0x73, 0x62, 0x41, 0x3D, 0x3D] = base64_text bs \<and> fits bs 5)) \<and>
    (r \<noteq> - 1 \<longrightarrow> dense [0x61, 0x20, 0x47, 0x56, 0x73, 0x62, 0x41, 0x3D, 0x3D] = base64_text (take (unat r) t') \<and> unat r \<le> 5)"
  using f_b64_pton_exact [of "[0x61, 0x20, 0x47, 0x56, 0x73, 0x62, 0x41, 0x3D, 0x3D]" 5 "[7, 7, 7, 7, 7, 7]"]
  by simp

section \<open>Round trip\<close>

lemma letter_plain: "is_digit d \<Longrightarrow> letter d < 0x80"
  using digit_code [of "unat d"] by (simp add: letter_def word_less_nat_alt)

lemma base64_text_plain: "plain (base64_text bs)" and base64_text_dense: "dense (base64_text bs) = base64_text bs"
proof -
  have "plain (map letter ds)" "dense (map letter ds) = map letter ds" if "list_all is_digit ds" for ds
    using that by (induction ds) (simp_all add: letter_plain)
  moreover have "plain (replicate n Pad64)" "dense (replicate n Pad64) = replicate n Pad64" for n
  proof -
    have "Pad64 \<noteq> 0" "Pad64 < 0x80" "\<not> c_space Pad64" by code_simp+
    then show "plain (replicate n Pad64)" "dense (replicate n Pad64) = replicate n Pad64" by (induction n) simp_all
  qed
  ultimately show "plain (base64_text bs)" "dense (base64_text bs) = base64_text bs"
    using pack_digits_all [of bs] by (simp_all add: base64_text_pack pads_def)
qed

lemma pads_cases: "pads bs = [] \<or> \<not> alphabetic (hd (pads bs))"
  by (cases "(3 - length bs mod 3) mod 3") (simp_all add: pads_def)

lemma base64_text_inj: "base64_text bs = base64_text cs \<Longrightarrow> bs = cs"
  using text_iff [OF pack_digits_all pads_cases, of bs bs cs, folded base64_text_pack] by (simp add: decoded_pack)

text \<open>
  C7: what \<open>f_b64_ntop\<close> has written, \<open>f_b64_pton\<close> decodes to the source, when both targets have room;
  the decoder needs one byte more than the data when the length is not a multiple of three.
\<close>

theorem base64_roundtrip:
  assumes "length bs < 2 ^ 30" and "length (base64_text bs) < T" and "T \<le> length target" and "length target < 2 ^ 62"
    and "fits bs T'" and "T' \<le> length t" and "length t < 2 ^ 62"
  shows "\<exists>target' t'. f_b64_ntop bs (of_nat (length bs)) target (of_nat T) = Some (of_nat (length (base64_text bs)), target') \<and>
    f_b64_pton (take (Suc (length (base64_text bs))) target') (Some t) (of_nat T') = Some (of_nat (length bs), Some t') \<and>
    take (length bs) t' = bs"
proof -
  let ?x = "base64_text bs"
  let ?target = "overwrite target 0 (?x @ [0])"
  have "length ?x < 2 ^ 32" unfolding length_base64_text using assms(1) by simp
  then obtain bs' where d: "?x = base64_text bs'"
      "f_b64_pton (?x @ [0]) (Some t) (of_nat T') = Some (of_nat (length bs'), Some (overwrite t 0 (bs' @ slack bs')))"
    using pton_result [OF base64_text_plain, of bs T' t] assms unfolding base64_text_dense by blast
  have "bs' = bs" using base64_text_inj [OF d(1)] ..
  moreover have "take (Suc (length ?x)) ?target = ?x @ [0]" by (simp add: overwrite_def)
  moreover have "f_b64_ntop bs (of_nat (length bs)) target (of_nat T) = Some (of_nat (length ?x), ?target)"
    using f_b64_ntop_result [of bs target T] assms by (simp add: ntop_result_def)
  ultimately show ?thesis using d(2) by (simp add: overwrite_def)
qed

lemma base64_roundtrip_witness:
  "\<exists>target' t'. f_b64_ntop [0x68, 0x65, 0x6C, 0x6C] 4 (replicate 9 0) 9 = Some (8, target') \<and>
    f_b64_pton (take 9 target') (Some (replicate 5 0)) 5 = Some (4, Some t') \<and> take (length [0x68, 0x65, 0x6C, 0x6C :: byte]) t' = [0x68, 0x65, 0x6C, 0x6C]"
  using base64_roundtrip [of "[0x68, 0x65, 0x6C, 0x6C]" 9 "replicate 9 0" 5 "replicate 5 0"]
  by (simp add: length_base64_text fits_def slack_def del: base64_text.simps)

end
