(* ===== verification/L_Coding.thy ===== *)
theory L_Coding
  imports Pb_Prelude
begin

text \<open>
  Model of \<^verbatim>\<open>util/coding.cc\<close> and \<^verbatim>\<open>util/coding.h\<close> of leveldb: fixed-width integers, varints and
  length-prefixed slices. A \<^verbatim>\<open>Slice\<close> and the range \<^verbatim>\<open>[p, limit)\<close> of the pointer-based variants are
  byte lists; the pointer behind the parsed value is the list that remains. An encoder returns
  the bytes it stores through its \<^verbatim>\<open>dst\<close> pointer. The reference encoding \<open>leb128\<close> is the base-128
  numeral of a natural number, and both the cascade of \<^verbatim>\<open>EncodeVarint32\<close> and the loop of
  \<^verbatim>\<open>EncodeVarint64\<close> are shown to compute it.
\<close>

section \<open>Slices\<close>

type_synonym slice = "byte list"

definition remove_prefix :: "nat \<Rightarrow> slice \<Rightarrow> slice option" where
  "remove_prefix n s = (if n \<le> length s then Some (drop n s) else None)"

definition slice_nth :: "slice \<Rightarrow> nat \<Rightarrow> byte option" where
  "slice_nth s n = (if n < length s then Some (s ! n) else None)"

section \<open>Fixed-width integers\<close>

text \<open>
  The routines branch on \<^verbatim>\<open>port::kLittleEndian\<close>, here their first argument: \<^verbatim>\<open>memcpy\<close> takes the bytes
  of an integer in the order of the platform, the other branch computes each byte.
\<close>

definition int_bytes :: "bool \<Rightarrow> nat \<Rightarrow> 'a::len word \<Rightarrow> byte list" where
  "int_bytes little n value = (if little then le_bytes n value else rev (le_bytes n value))"

definition int_of_bytes :: "bool \<Rightarrow> byte list \<Rightarrow> 'a::len word" where
  "int_of_bytes little bs = le_word (if little then bs else rev bs)"

definition EncodeFixed32_on :: "bool \<Rightarrow> uint32 \<Rightarrow> byte list" where
  "EncodeFixed32_on little value = (if little then int_bytes little 4 value
     else [ucast (value AND 0xff), ucast (drop_bit 8 value AND 0xff),
           ucast (drop_bit 16 value AND 0xff), ucast (drop_bit 24 value AND 0xff)])"

definition EncodeFixed64_on :: "bool \<Rightarrow> uint64 \<Rightarrow> byte list" where
  "EncodeFixed64_on little value = (if little then int_bytes little 8 value
     else [ucast (value AND 0xff), ucast (drop_bit 8 value AND 0xff),
           ucast (drop_bit 16 value AND 0xff), ucast (drop_bit 24 value AND 0xff),
           ucast (drop_bit 32 value AND 0xff), ucast (drop_bit 40 value AND 0xff),
           ucast (drop_bit 48 value AND 0xff), ucast (drop_bit 56 value AND 0xff)])"

text \<open>The decoders read four or eight bytes without a check: a shorter range is undefined.\<close>

definition DecodeFixed32_on :: "bool \<Rightarrow> byte list \<Rightarrow> uint32 option" where
  "DecodeFixed32_on little ptr = (if length ptr < 4 then None
     else if little then Some (int_of_bytes little (take 4 ptr))
     else Some (ucast (ptr ! 0) OR push_bit 8 (ucast (ptr ! 1))
                OR push_bit 16 (ucast (ptr ! 2)) OR push_bit 24 (ucast (ptr ! 3))))"

definition DecodeFixed64_on :: "bool \<Rightarrow> byte list \<Rightarrow> uint64 option" where
  "DecodeFixed64_on little ptr = (if length ptr < 8 then None
     else if little then Some (int_of_bytes little (take 8 ptr))
     else do { lo \<leftarrow> DecodeFixed32_on little ptr;
               hi \<leftarrow> DecodeFixed32_on little (drop 4 ptr);
               Some (push_bit 32 (ucast hi) OR ucast lo) })"

text \<open>
  The platforms of the application are little-endian. Theorem \<^verbatim>\<open>integer_coding_roundtrip\<close> shows that
  every other choice gives the same routines.
\<close>

definition kLittleEndian :: bool where
  "kLittleEndian = True"

definition EncodeFixed32 :: "uint32 \<Rightarrow> byte list" where
  "EncodeFixed32 value = EncodeFixed32_on kLittleEndian value"

definition EncodeFixed64 :: "uint64 \<Rightarrow> byte list" where
  "EncodeFixed64 value = EncodeFixed64_on kLittleEndian value"

definition DecodeFixed32 :: "byte list \<Rightarrow> uint32 option" where
  "DecodeFixed32 ptr = DecodeFixed32_on kLittleEndian ptr"

definition DecodeFixed64 :: "byte list \<Rightarrow> uint64 option" where
  "DecodeFixed64 ptr = DecodeFixed64_on kLittleEndian ptr"

definition PutFixed32 :: "byte list \<Rightarrow> uint32 \<Rightarrow> byte list" where
  "PutFixed32 dst value = dst @ EncodeFixed32 value"

definition PutFixed64 :: "byte list \<Rightarrow> uint64 \<Rightarrow> byte list" where
  "PutFixed64 dst value = dst @ EncodeFixed64 value"

section \<open>Varints\<close>

definition EncodeVarint32 :: "uint32 \<Rightarrow> byte list" where
  "EncodeVarint32 v =
     (if v < push_bit 7 1 then [ucast v]
      else if v < push_bit 14 1 then [ucast (v OR 128), ucast (drop_bit 7 v)]
      else if v < push_bit 21 1 then
        [ucast (v OR 128), ucast (drop_bit 7 v OR 128), ucast (drop_bit 14 v)]
      else if v < push_bit 28 1 then
        [ucast (v OR 128), ucast (drop_bit 7 v OR 128), ucast (drop_bit 14 v OR 128),
         ucast (drop_bit 21 v)]
      else
        [ucast (v OR 128), ucast (drop_bit 7 v OR 128), ucast (drop_bit 14 v OR 128),
         ucast (drop_bit 21 v OR 128), ucast (drop_bit 28 v)])"

definition PutVarint32 :: "byte list \<Rightarrow> uint32 \<Rightarrow> byte list" where
  "PutVarint32 dst v = dst @ EncodeVarint32 v"

lemma unat_drop_bit_7: "unat (drop_bit 7 (v :: 'a::len word)) = unat v div 128"
  unfolding unat_drop_bit_eq by (simp add: drop_bit_eq_div)

lemma varint_step: "\<not> v < 128 \<Longrightarrow> unat (drop_bit 7 v) < unat (v :: uint64)"
  by (simp add: unat_drop_bit_7 word_less_nat_alt)

function EncodeVarint64 :: "uint64 \<Rightarrow> byte list" where
  "EncodeVarint64 v =
     (if v \<ge> 128 then ucast ((v AND (128 - 1)) OR 128) # EncodeVarint64 (drop_bit 7 v)
      else [ucast v])"
  by auto
termination by (relation "measure unat") (auto simp: varint_step)

declare EncodeVarint64.simps [simp del]

definition PutVarint64 :: "byte list \<Rightarrow> uint64 \<Rightarrow> byte list" where
  "PutVarint64 dst v = dst @ EncodeVarint64 v"

function varint_length_loop :: "uint64 \<Rightarrow> nat \<Rightarrow> nat" where
  "varint_length_loop v len =
     (if v \<ge> 128 then varint_length_loop (drop_bit 7 v) (len + 1) else len)"
  by auto
termination by (relation "measure (\<lambda>(v, _). unat v)") (auto simp: varint_step)

declare varint_length_loop.simps [simp del]

definition VarintLength :: "uint64 \<Rightarrow> nat" where
  "VarintLength v = varint_length_loop v 1"

text \<open>The loops of the decoders, with the variables \<^verbatim>\<open>shift\<close> and \<^verbatim>\<open>result\<close>.\<close>

fun GetVarint32Ptr_loop :: "uint32 \<Rightarrow> uint32 \<Rightarrow> byte list \<Rightarrow> (uint32 \<times> byte list) option" where
  "GetVarint32Ptr_loop shift result [] = None"
| "GetVarint32Ptr_loop shift result (b # p) =
     (if shift \<le> 28 then
        let byte = ucast b :: uint32 in
        if byte AND 128 \<noteq> 0
        then GetVarint32Ptr_loop (shift + 7) (result OR push_bit (unat shift) (byte AND 127)) p
        else Some (result OR push_bit (unat shift) byte, p)
      else None)"

definition GetVarint32PtrFallback :: "byte list \<Rightarrow> (uint32 \<times> byte list) option" where
  "GetVarint32PtrFallback p = GetVarint32Ptr_loop 0 0 p"

definition GetVarint32Ptr :: "byte list \<Rightarrow> (uint32 \<times> byte list) option" where
  "GetVarint32Ptr p = (case p of
       [] \<Rightarrow> GetVarint32PtrFallback p
     | b # q \<Rightarrow> (let result = ucast b :: uint32 in
         if result AND 128 = 0 then Some (result, q) else GetVarint32PtrFallback p))"

fun GetVarint64Ptr_loop :: "uint32 \<Rightarrow> uint64 \<Rightarrow> byte list \<Rightarrow> (uint64 \<times> byte list) option" where
  "GetVarint64Ptr_loop shift result [] = None"
| "GetVarint64Ptr_loop shift result (b # p) =
     (if shift \<le> 63 then
        let byte = ucast b :: uint64 in
        if byte AND 128 \<noteq> 0
        then GetVarint64Ptr_loop (shift + 7) (result OR push_bit (unat shift) (byte AND 127)) p
        else Some (result OR push_bit (unat shift) byte, p)
      else None)"

definition GetVarint64Ptr :: "byte list \<Rightarrow> (uint64 \<times> byte list) option" where
  "GetVarint64Ptr p = GetVarint64Ptr_loop 0 0 p"

text \<open>The slice variants return the parsed value, if any, and the advanced \<^verbatim>\<open>*input\<close>.\<close>

definition GetVarint32 :: "slice \<Rightarrow> uint32 option \<times> slice" where
  "GetVarint32 input = (case GetVarint32Ptr input of
       None \<Rightarrow> (None, input)
     | Some (value, q) \<Rightarrow> (Some value, q))"

definition GetVarint64 :: "slice \<Rightarrow> uint64 option \<times> slice" where
  "GetVarint64 input = (case GetVarint64Ptr input of
       None \<Rightarrow> (None, input)
     | Some (value, q) \<Rightarrow> (Some value, q))"

section \<open>Length-prefixed slices\<close>

text \<open>\<^verbatim>\<open>value.size()\<close> is converted to the \<^verbatim>\<open>uint32_t\<close> parameter of \<^verbatim>\<open>PutVarint32\<close>.\<close>

definition PutLengthPrefixedSlice :: "byte list \<Rightarrow> slice \<Rightarrow> byte list" where
  "PutLengthPrefixedSlice dst value = PutVarint32 dst (of_nat (length value)) @ value"

definition GetLengthPrefixedSlicePtr :: "byte list \<Rightarrow> (slice \<times> byte list) option" where
  "GetLengthPrefixedSlicePtr p = (case GetVarint32Ptr p of
       None \<Rightarrow> None
     | Some (len, p) \<Rightarrow> if unat len > length p then None
                        else Some (take (unat len) p, drop (unat len) p))"

definition GetLengthPrefixedSlice :: "slice \<Rightarrow> slice option \<times> slice" where
  "GetLengthPrefixedSlice input = (case GetVarint32 input of
       (None, input) \<Rightarrow> (None, input)
     | (Some len, input) \<Rightarrow>
         if length input \<ge> unat len
         then (Some (take (unat len) input), drop (unat len) input)
         else (None, input))"

section \<open>The reference encoding\<close>

text \<open>A base-128 digit with the continuation bit set.\<close>

definition more_digit :: "nat \<Rightarrow> byte" where
  "more_digit n = of_nat (n mod 128 + 128)"

fun leb128 :: "nat \<Rightarrow> byte list" where
  "leb128 n = (if n < 128 then [of_nat n] else more_digit n # leb128 (n div 128))"

declare leb128.simps [simp del]

primrec leb_value :: "byte list \<Rightarrow> nat" where
  "leb_value [] = 0"
| "leb_value (b # bs) = unat b mod 128 + 128 * leb_value bs"

fun leb_shape :: "byte list \<Rightarrow> bool" where
  "leb_shape [] = False"
| "leb_shape [b] = (unat b < 128)"
| "leb_shape (b # c # bs) = (128 \<le> unat b \<and> leb_shape (c # bs))"

lemma leb_shape_not_Nil: "leb_shape bs \<Longrightarrow> bs \<noteq> []"
  by auto

lemma leb_shape_length: "leb_shape bs \<Longrightarrow> 1 \<le> length bs"
  by (cases bs) auto

lemma leb128_not_Nil [simp]: "leb128 n \<noteq> []"
  by (subst leb128.simps) simp

lemma leb_shape_Cons: "leb_shape (b # bs) \<longleftrightarrow> (if unat b < 128 then bs = [] else leb_shape bs)"
  by (cases bs) auto

lemma unat_of_nat_byte: "n < 256 \<Longrightarrow> unat (of_nat n :: byte) = n"
  by (simp add: unat_of_nat)

lemma unat_more_digit [simp]: "unat (more_digit n) = n mod 128 + 128"
proof -
  have "n mod 128 < 128" by simp
  then show ?thesis unfolding more_digit_def by (intro unat_of_nat_byte) linarith
qed

lemma leb_shape_leb128: "leb_shape (leb128 n)"
proof (induction n rule: leb128.induct)
  case (1 n)
  show ?case
  proof (cases "n < 128")
    case True
    then show ?thesis by (subst leb128.simps) (simp add: unat_of_nat_byte)
  next
    case False
    then have "leb128 n = more_digit n # leb128 (n div 128)"
      by (subst leb128.simps) simp
    with 1 False show ?thesis by (simp add: leb_shape_Cons)
  qed
qed

lemma leb_value_leb128: "leb_value (leb128 n) = n"
proof (induction n rule: leb128.induct)
  case (1 n)
  show ?case
  proof (cases "n < 128")
    case True
    then show ?thesis by (subst leb128.simps) (simp add: unat_of_nat_byte)
  next
    case False
    then have "leb128 n = more_digit n # leb128 (n div 128)"
      by (subst leb128.simps) simp
    with 1 False show ?thesis by simp
  qed
qed

lemma length_leb128: "n < 128 ^ Suc k \<Longrightarrow> length (leb128 n) \<le> Suc k"
proof (induction k arbitrary: n)
  case 0
  then show ?case by (subst leb128.simps) simp
next
  case (Suc k)
  then have "n div 128 < 128 ^ Suc k" by (simp add: less_mult_imp_div_less mult.commute)
  with Suc.IH [of "n div 128"] show ?case by (subst leb128.simps) simp
qed

lemma leb_shape_unique:
  assumes "leb_shape ds" and "leb_shape es" and "ds @ p = es @ q"
  shows "ds = es \<and> p = q"
  using assms
proof (induction ds arbitrary: es)
  case Nil
  then show ?case by simp
next
  case (Cons b ds)
  then obtain es' where "es = b # es'" by (cases es) auto
  with Cons show ?case by (auto simp: leb_shape_Cons split: if_splits)
qed


section \<open>The encoders compute the reference encoding\<close>

lemma ucast_or_128:
  assumes "8 \<le> LENGTH('a)"
  shows "ucast (v OR 128 :: 'a::len word) = more_digit (unat v)"
proof (rule unsigned_word_eqI)
  have "v OR 128 = set_bit 7 v" by (simp add: set_bit_eq_or)
  moreover have "(take_bit 7 (ucast v) OR 0x80 :: byte) = set_bit 7 (take_bit 7 (ucast v))"
    by (simp add: set_bit_eq_or)
  ultimately have "(ucast (v OR 128) :: byte) = take_bit 7 (ucast v) OR 0x80"
    using assms by (intro bit_word_eqI) (auto simp: bit_simps)
  moreover have "unat (take_bit 7 (ucast v :: byte)) = unat v mod 128"
    by (simp add: unsigned_take_bit_eq unsigned_ucast_eq take_bit_take_bit) (simp add: take_bit_eq_mod)
  moreover have "unat v mod 128 < 128" by simp
  ultimately show "unat (ucast (v OR 128 :: 'a word) :: byte) = unat (more_digit (unat v))"
    using unat_or_80 [of "take_bit 7 (ucast v) :: byte"] by simp
qed

lemma unat_drop_7_7: "drop_bit (m + 7) (v :: 'a::len word) = drop_bit 7 (drop_bit m v)"
  by (simp add: drop_bit_drop_bit add.commute)

lemma leb128_last: "unat v < 128 \<Longrightarrow> leb128 (unat v) = [ucast v]"
  by (subst leb128.simps) simp

lemma leb128_more:
  fixes v :: "'a::len word"
  assumes "8 \<le> LENGTH('a)" and "128 \<le> unat v"
  shows "leb128 (unat v) = ucast (v OR 128) # leb128 (unat (drop_bit 7 v))"
  using assms by (subst leb128.simps) (simp add: ucast_or_128 unat_drop_bit_7)

lemma EncodeVarint32_leb128: "EncodeVarint32 v = leb128 (unat v)"
proof -
  have d: "drop_bit 14 v = drop_bit 7 (drop_bit 7 v)" "drop_bit 21 v = drop_bit 7 (drop_bit 14 v)"
    "drop_bit 28 v = drop_bit 7 (drop_bit 21 v)"
    by (simp_all add: drop_bit_drop_bit)
  have q: "unat (drop_bit 7 v) = unat v div 2 ^ 7" "unat (drop_bit 14 v) = unat v div 2 ^ 14"
    "unat (drop_bit 21 v) = unat v div 2 ^ 21" "unat (drop_bit 28 v) = unat v div 2 ^ 28"
    unfolding unat_drop_bit_eq by (simp_all only: drop_bit_eq_div)
  have bound: "unat v < 2 ^ 32" using unsigned_less [of v] by simp
  note more = leb128_more [of v] leb128_more [of "drop_bit 7 v", folded d]
    leb128_more [of "drop_bit 14 v", folded d] leb128_more [of "drop_bit 21 v", folded d]
  note last = leb128_last [of v] leb128_last [of "drop_bit 7 v"] leb128_last [of "drop_bit 14 v"]
    leb128_last [of "drop_bit 21 v"] leb128_last [of "drop_bit 28 v"]
  consider "unat v < 2 ^ 7" | "2 ^ 7 \<le> unat v" "unat v < 2 ^ 14" | "2 ^ 14 \<le> unat v" "unat v < 2 ^ 21"
    | "2 ^ 21 \<le> unat v" "unat v < 2 ^ 28" | "2 ^ 28 \<le> unat v" by linarith
  then show ?thesis
  proof cases
    case 1
    then show ?thesis using last(1) by (simp add: EncodeVarint32_def word_less_nat_alt)
  next
    case 2
    then have "128 \<le> unat v" "unat (drop_bit 7 v) < 128" unfolding q by (simp_all add: less_mult_imp_div_less)
    with 2 show ?thesis using more(1) last(2) by (simp add: EncodeVarint32_def word_less_nat_alt)
  next
    case 3
    then have "128 \<le> unat v" "128 \<le> unat (drop_bit 7 v)" "unat (drop_bit 14 v) < 128"
      unfolding q by (simp_all add: less_mult_imp_div_less)
    with 3 show ?thesis using more(1,2) last(3) by (simp add: EncodeVarint32_def word_less_nat_alt)
  next
    case 4
    then have "128 \<le> unat v" "128 \<le> unat (drop_bit 7 v)" "128 \<le> unat (drop_bit 14 v)"
      "unat (drop_bit 21 v) < 128"
      unfolding q by (simp_all add: less_mult_imp_div_less)
    with 4 show ?thesis using more(1,2,3) last(4) by (simp add: EncodeVarint32_def word_less_nat_alt)
  next
    case 5
    then have "128 \<le> unat v" "128 \<le> unat (drop_bit 7 v)" "128 \<le> unat (drop_bit 14 v)"
      "128 \<le> unat (drop_bit 21 v)" "unat (drop_bit 28 v) < 128"
      using bound unfolding q by (simp_all add: less_mult_imp_div_less)
    with 5 show ?thesis using more last(5) by (simp add: EncodeVarint32_def word_less_nat_alt)
  qed
qed

lemma EncodeVarint64_leb128: "EncodeVarint64 v = leb128 (unat v)"
proof (induction v rule: EncodeVarint64.induct)
  case (1 v)
  show ?case
  proof (cases "v \<ge> 128")
    case True
    have "ucast ((v AND (128 - 1)) OR 128) = (ucast (v OR 128) :: byte)"
      by (rule byte_eqI; simp add: bit_simps)
    with True 1 show ?thesis
      by (subst EncodeVarint64.simps) (simp add: leb128_more word_le_nat_alt)
  next
    case False
    then show ?thesis
      by (subst EncodeVarint64.simps) (simp add: leb128_last word_le_nat_alt)
  qed
qed

lemma varint_length_loop: "varint_length_loop v n = n + length (leb128 (unat v)) - 1"
proof (induction v n rule: varint_length_loop.induct)
  case (1 v n)
  show ?case
  proof (cases "v \<ge> 128")
    case True
    with 1 have "varint_length_loop v n = n + length (leb128 (unat (drop_bit 7 v)))"
      by (subst varint_length_loop.simps) simp
    with True show ?thesis by (simp add: leb128_more word_le_nat_alt)
  next
    case False
    then show ?thesis
      by (subst varint_length_loop.simps) (simp add: leb128_last word_le_nat_alt)
  qed
qed

section \<open>The decoders accept exactly the bounded encodings\<close>

lemma or_push_bit:
  assumes "take_bit s r = (r :: 'a::len word)"
  shows "r OR push_bit s x = r + 2 ^ s * x"
proof -
  have "\<not> bit r n \<or> \<not> bit (push_bit s x) n" for n
    using assms by (metis bit_push_bit_iff bit_take_bit_iff not_le)
  then have "r + push_bit s x = r OR push_bit s x" by (rule disjunctive_add)
  then show ?thesis by (simp add: push_bit_eq_mult mult.commute)
qed

lemma and_128:
  assumes "8 \<le> LENGTH('a)"
  shows "(ucast b :: 'a::len word) AND 128 = 0 \<longleftrightarrow> unat (b :: byte) < 128"
proof -
  have "(ucast b :: 'a word) AND 128 = 0 \<longleftrightarrow> \<not> bit b 7"
    using assms and_exp_eq_0_iff_not_bit [of "ucast b :: 'a word" 7] by (simp add: bit_ucast_iff)
  moreover have "bit b 7 \<longleftrightarrow> \<not> unat b < 128"
  proof -
    have "bit b 7 \<longleftrightarrow> odd (unat b div 128)"
    proof -
      have "bit (unat b) 7 \<longleftrightarrow> bit b 7" by (simp add: bit_unsigned_iff)
      then show ?thesis by (simp add: bit_iff_odd)
    qed
    moreover have "unat b < 2 ^ LENGTH(8)" by (rule unsigned_less)
    then have "unat b < 256" by simp
    moreover have "\<not> unat b < 128 \<Longrightarrow> unat b div 128 = 1"
      using \<open>unat b < 256\<close> by (intro div_nat_eqI) simp_all
    ultimately show ?thesis by (cases "unat b < 128") simp_all
  qed
  ultimately show ?thesis by simp
qed


lemma and_127_take_bit: "(w AND 127 :: 'a::len word) = take_bit 7 w"
  by (simp add: take_bit_eq_mask mask_eq_exp_minus_1)

lemma and_127:
  assumes "8 \<le> LENGTH('a)"
  shows "(ucast b AND 127 :: 'a::len word) = of_nat (unat (b :: byte) mod 128)"
proof -
  have "unat b mod 128 = unat (take_bit 7 b)" by (simp add: unsigned_take_bit_eq) (simp add: take_bit_eq_mod)
  then have "(of_nat (unat b mod 128) :: 'a word) = ucast (take_bit 7 b)" by (simp add: unsigned_of_nat)
  then show ?thesis using assms
    unfolding and_127_take_bit by (intro bit_word_eqI) (simp add: bit_simps)
qed

lemma take_bit_step:
  assumes "take_bit s r = (r :: 'a::len word)"
  shows "take_bit (s + 7) (r OR push_bit s (w AND 127)) = r OR push_bit s (w AND 127)"
proof (rule bit_word_eqI)
  fix n assume "n < LENGTH('a)"
  have "bit r n \<Longrightarrow> n < s" using assms by (metis bit_take_bit_iff)
  then show "bit (take_bit (s + 7) (r OR push_bit s (w AND 127))) n = bit (r OR push_bit s (w AND 127)) n"
    unfolding and_127_take_bit by (auto simp: bit_simps)
qed

text \<open>One round of either loop, on the value accumulated so far.\<close>

lemma varint_round:
  assumes "8 \<le> LENGTH('a)" and "take_bit s r = (r :: 'a::len word)"
  shows "(r OR push_bit s (ucast b AND 127)) + of_nat (2 ^ (s + 7) * n) =
    r + of_nat (2 ^ s * (unat (b :: byte) mod 128 + 128 * n))"
  using or_push_bit [OF assms(2)] by (simp add: and_127 [OF assms(1)] algebra_simps power_add)

lemma varint_last:
  assumes "take_bit s r = (r :: 'a::len word)" and "unat b < 128"
  shows "r OR push_bit s (ucast b) = r + of_nat (2 ^ s * (unat (b :: byte) mod 128))"
  using or_push_bit [OF assms(1)] assms(2) by simp

definition decodes :: "nat \<Rightarrow> byte list \<Rightarrow> 'a::len word \<Rightarrow> byte list \<Rightarrow> bool" where
  "decodes n p v q \<longleftrightarrow> (\<exists>ds. p = ds @ q \<and> leb_shape ds \<and> length ds \<le> n \<and> v = of_nat (leb_value ds))"

text \<open>Both loops at once, for a result of either width and the largest shift of the code.\<close>

fun varint_loop :: "nat \<Rightarrow> nat \<Rightarrow> 'a::len word \<Rightarrow> byte list \<Rightarrow> ('a word \<times> byte list) option" where
  "varint_loop m s r [] = None"
| "varint_loop m s r (b # p) =
     (if s \<le> m then
        if unat b < 128 then Some (r OR push_bit s (ucast b), p)
        else varint_loop m (s + 7) (r OR push_bit s (ucast b AND 127)) p
      else None)"

lemma varint_loop_iff:
  fixes r :: "'a::len word"
  assumes "8 \<le> LENGTH('a)" and "take_bit s r = r"
  shows "varint_loop m s r p = Some (v, q) \<longleftrightarrow>
    (\<exists>ds. p = ds @ q \<and> leb_shape ds \<and> s + 7 * length ds \<le> m + 7 \<and> v = r + of_nat (2 ^ s * leb_value ds))"
  using assms(2)
proof (induction p arbitrary: s r)
  case Nil
  then show ?case by simp
next
  case (Cons b p)
  let ?r = "r OR push_bit s (ucast b AND 127)"
  consider "\<not> s \<le> m" | "s \<le> m" "unat b < 128" | "s \<le> m" "\<not> unat b < 128" by blast
  then show ?case
  proof cases
    case 1
    then show ?thesis by (auto dest: leb_shape_length)
  next
    case 2
    then show ?thesis
      using varint_last [OF Cons.prems 2(2)] by (auto simp: leb_shape_Cons Cons_eq_append_conv)
  next
    case 3
    then have "varint_loop m s r (b # p) = varint_loop m (s + 7) ?r p" by simp
    also have "\<dots> = Some (v, q) \<longleftrightarrow> (\<exists>ds. p = ds @ q \<and> leb_shape ds \<and> s + 7 + 7 * length ds \<le> m + 7
        \<and> v = ?r + of_nat (2 ^ (s + 7) * leb_value ds))"
      by (rule Cons.IH [OF take_bit_step [OF Cons.prems]])
    also have "\<dots> \<longleftrightarrow> (\<exists>ds. b # p = ds @ q \<and> leb_shape ds \<and> s + 7 * length ds \<le> m + 7
        \<and> v = r + of_nat (2 ^ s * leb_value ds))"
      using 3 varint_round [OF assms(1) Cons.prems, of b]
      by (auto simp: leb_shape_Cons Cons_eq_append_conv)
    finally show ?thesis .
  qed
qed

lemma GetVarint32Ptr_loop:
  "s \<le> 35 \<Longrightarrow> GetVarint32Ptr_loop (of_nat s) r p = varint_loop 28 s r p"
proof (induction p arbitrary: s r)
  case (Cons b p)
  moreover have "unat (of_nat s :: uint32) = s" using Cons.prems by (simp add: unat_of_nat)
  moreover have "of_nat s + 7 = (of_nat (s + 7) :: uint32)" by simp
  ultimately show ?case by (simp add: Let_def word_le_nat_alt and_128 del: of_nat_add)
qed simp

lemma GetVarint64Ptr_loop:
  "s \<le> 70 \<Longrightarrow> GetVarint64Ptr_loop (of_nat s) r p = varint_loop 63 s r p"
proof (induction p arbitrary: s r)
  case (Cons b p)
  moreover have "unat (of_nat s :: uint32) = s" using Cons.prems by (simp add: unat_of_nat)
  moreover have "of_nat s + 7 = (of_nat (s + 7) :: uint32)" by simp
  ultimately show ?case by (simp add: Let_def word_le_nat_alt and_128 del: of_nat_add)
qed simp

lemma GetVarint32Ptr_fallback: "GetVarint32Ptr p = GetVarint32PtrFallback p"
proof (cases p)
  case (Cons b q)
  have "GetVarint32PtrFallback p = varint_loop 28 0 0 p"
    using GetVarint32Ptr_loop [of 0 0 p] by (simp add: GetVarint32PtrFallback_def)
  with Cons show ?thesis by (auto simp: GetVarint32Ptr_def and_128 Let_def)
qed (simp add: GetVarint32Ptr_def)

lemma GetVarint32Ptr_decodes: "GetVarint32Ptr p = Some (v, q) \<longleftrightarrow> decodes 5 p v q"
proof -
  have "GetVarint32Ptr p = varint_loop 28 0 0 p"
    using GetVarint32Ptr_loop [of 0 0 p] by (simp add: GetVarint32Ptr_fallback GetVarint32PtrFallback_def)
  then show ?thesis using varint_loop_iff [of 0 0 28 p v q] by (simp add: decodes_def)
qed

lemma GetVarint64Ptr_decodes: "GetVarint64Ptr p = Some (v, q) \<longleftrightarrow> decodes 10 p v q"
proof -
  have "GetVarint64Ptr p = varint_loop 63 0 0 p"
    using GetVarint64Ptr_loop [of 0 0 p] by (simp add: GetVarint64Ptr_def)
  then show ?thesis using varint_loop_iff [of 0 0 63 p v q] by (simp add: decodes_def)
qed

lemma decodes_leb128:
  assumes "unat v < 128 ^ Suc k"
  shows "decodes (Suc k) (leb128 (unat (v :: 'a::len word)) @ q) v q"
  unfolding decodes_def
  using length_leb128 [OF assms] leb_shape_leb128 [of "unat v"] leb_value_leb128 [of "unat v"]
  by (intro exI [of _ "leb128 (unat v)"]) simp

lemma GetVarint32Ptr_leb128: "GetVarint32Ptr (leb128 (unat v) @ q) = Some (v, q)"
proof -
  have "unat v < 2 ^ LENGTH(32)" by (rule unsigned_less)
  then show ?thesis using decodes_leb128 [of v 4] by (simp add: GetVarint32Ptr_decodes)
qed

lemma GetVarint64Ptr_leb128: "GetVarint64Ptr (leb128 (unat v) @ q) = Some (v, q)"
proof -
  have "unat v < 2 ^ LENGTH(64)" by (rule unsigned_less)
  then show ?thesis using decodes_leb128 [of v 9] by (simp add: GetVarint64Ptr_decodes)
qed

lemma decodes_unique: "decodes n p v q \<Longrightarrow> decodes n p v' q' \<Longrightarrow> v = v' \<and> q = q'"
  unfolding decodes_def by (metis leb_shape_unique)

section \<open>Fixed-width integers\<close>

text \<open>Both branches of each routine give the same, whatever the platform.\<close>

lemma ucast_low_byte:
  "ucast (v AND 0xff) = (ucast v :: byte)" "ucast (w AND 0xff) = (ucast w :: byte)" for v :: uint32 and w :: uint64
  by (rule byte_eqI; simp add: bit_simps)+

lemma le_bytes_map: "le_bytes n u = map (\<lambda>i. ucast (drop_bit (8 * i) u)) [0..<n]"
  by (rule nth_equalityI) (simp_all add: nth_le_bytes)

lemma upt_bytes: "[0..<4] = [0, 1, 2, 3 :: nat]" "[0..<8] = [0, 1, 2, 3, 4, 5, 6, 7 :: nat]"
  by code_simp+

lemma EncodeFixed32_on_le: "EncodeFixed32_on little v = le_bytes 4 v"
  by (cases little; simp add: EncodeFixed32_on_def int_bytes_def ucast_low_byte le_bytes_map upt_bytes)

lemma EncodeFixed64_on_le: "EncodeFixed64_on little v = le_bytes 8 v"
  by (cases little; simp add: EncodeFixed64_on_def int_bytes_def ucast_low_byte le_bytes_map upt_bytes)

lemma first_four:
  assumes "4 \<le> length (p :: byte list)"
  obtains a b c d q where "p = a # b # c # d # q"
  using assms by (auto simp: numeral_eq_Suc Suc_le_length_iff)

lemma DecodeFixed32_on_le: "DecodeFixed32_on little p = (if length p < 4 then None else Some (le_word (take 4 p)))"
proof (cases "length p < 4")
  case False
  then obtain a b c d q where p: "p = a # b # c # d # q" using first_four by (metis not_less)
  have "ucast a OR push_bit 8 (ucast b) OR push_bit 16 (ucast c) OR push_bit 24 (ucast d) = (le_word [a, b, c, d] :: uint32)"
    by (simp add: push_bit_or)
  then show ?thesis by (simp add: DecodeFixed32_on_def int_of_bytes_def p numeral_eq_Suc)
qed (simp add: DecodeFixed32_on_def)

lemma le_word_append: "le_word (xs @ ys) = (le_word xs OR push_bit (8 * length xs) (le_word ys) :: 'a::len word)"
  by (induction xs) (simp_all add: push_bit_or or.assoc)

lemma le_word_ucast:
  assumes "8 * length bs \<le> LENGTH('b::len)" and "LENGTH('b) \<le> LENGTH('a::len)"
  shows "(ucast (le_word bs :: 'b word) :: 'a word) = le_word bs"
  by (rule bit_word_eqI) (use assms in \<open>auto simp: bit_le_word [OF refl] bit_simps\<close>)

lemma DecodeFixed64_on_le: "DecodeFixed64_on little p = (if length p < 8 then None else Some (le_word (take 8 p)))"
proof (cases "length p < 8")
  case False
  let ?lo = "take 4 p" and ?hi = "take 4 (drop 4 p)"
  have len: "length ?lo = 4" "length ?hi = 4" using False by simp_all
  have "take 8 p = ?lo @ ?hi" using take_add [of 4 4 p] by simp
  then have "(le_word (take 8 p) :: uint64) = le_word ?lo OR push_bit 32 (le_word ?hi)"
    by (simp only: le_word_append len) simp
  moreover have "(le_word ?lo :: uint64) = ucast (le_word ?lo :: uint32)" "(le_word ?hi :: uint64) = ucast (le_word ?hi :: uint32)"
    using le_word_ucast [of ?lo, where 'b = 32 and 'a = 64] le_word_ucast [of ?hi, where 'b = 32 and 'a = 64] len by simp_all
  moreover have "\<not> length p < 4" "\<not> length p - 4 < 4" using False by simp_all
  ultimately show ?thesis using False
    by (simp add: DecodeFixed64_on_def int_of_bytes_def DecodeFixed32_on_le or.commute)
qed (simp add: DecodeFixed64_on_def)

lemma EncodeFixed32_le [simp]: "EncodeFixed32 v = le_bytes 4 v"
  by (simp add: EncodeFixed32_def EncodeFixed32_on_le)

lemma EncodeFixed64_le [simp]: "EncodeFixed64 v = le_bytes 8 v"
  by (simp add: EncodeFixed64_def EncodeFixed64_on_le)

lemma DecodeFixed32_le: "DecodeFixed32 p = (if length p < 4 then None else Some (le_word (take 4 p)))"
  by (simp add: DecodeFixed32_def DecodeFixed32_on_le)

lemma DecodeFixed64_le: "DecodeFixed64 p = (if length p < 8 then None else Some (le_word (take 8 p)))"
  by (simp add: DecodeFixed64_def DecodeFixed64_on_le)

lemma DecodeFixed32_le_bytes [simp]: "DecodeFixed32 (le_bytes 4 v @ q) = Some v"
  by (simp add: DecodeFixed32_le le_word_le_bytes)

lemma DecodeFixed64_le_bytes [simp]: "DecodeFixed64 (le_bytes 8 v @ q) = Some v"
  by (simp add: DecodeFixed64_le le_word_le_bytes)

section \<open>Length-prefixed slices\<close>

definition prefixed :: "slice \<Rightarrow> byte list" where
  "prefixed s = leb128 (length s mod 2 ^ 32) @ s"

lemma GetVarint32Ptr_nat: "n < 2 ^ 32 \<Longrightarrow> GetVarint32Ptr (leb128 n @ q) = Some (of_nat n, q)"
  using GetVarint32Ptr_leb128 [of "of_nat n"] by (simp add: unat_of_nat)

lemma GetVarint64Ptr_nat: "n < 2 ^ 64 \<Longrightarrow> GetVarint64Ptr (leb128 n @ q) = Some (of_nat n, q)"
  using GetVarint64Ptr_leb128 [of "of_nat n"] by (simp add: unat_of_nat)

lemma PutLengthPrefixedSlice_prefixed: "PutLengthPrefixedSlice dst s = dst @ prefixed s"
  by (simp add: PutLengthPrefixedSlice_def PutVarint32_def EncodeVarint32_leb128 prefixed_def unat_of_nat)

lemma GetLengthPrefixedSlice_prefixed [simp]:
  assumes "length s < 2 ^ 32"
  shows "GetLengthPrefixedSlice (prefixed s @ q) = (Some s, q)"
  using assms
  by (simp add: GetLengthPrefixedSlice_def GetVarint32_def prefixed_def GetVarint32Ptr_nat unat_of_nat)

lemma GetLengthPrefixedSlicePtr_prefixed [simp]:
  assumes "length s < 2 ^ 32"
  shows "GetLengthPrefixedSlicePtr (prefixed s @ q) = Some (s, q)"
  using assms
  by (simp add: GetLengthPrefixedSlicePtr_def prefixed_def GetVarint32Ptr_nat unat_of_nat)

lemma prefixed_not_Nil [simp]: "prefixed s \<noteq> []"
  by (simp add: prefixed_def)

text \<open>Every successful parse consumes a prefix of the input and at least one byte of it.\<close>

lemma GetLengthPrefixedSlice_suffix:
  assumes "GetLengthPrefixedSlice input = (Some s, rest)"
  shows "\<exists>ds. input = ds @ s @ rest \<and> ds \<noteq> []"
proof -
  from assms obtain len q where "GetVarint32Ptr input = Some (len, q)" and "q = s @ rest"
    by (auto simp: GetLengthPrefixedSlice_def GetVarint32_def split: option.splits prod.splits if_splits)
  then show ?thesis by (auto simp: GetVarint32Ptr_decodes decodes_def dest: leb_shape_not_Nil)
qed

section \<open>Properties\<close>

text \<open>
  C10: The two varint encoders agree: the unrolled cascade of \<^verbatim>\<open>EncodeVarint32\<close> and the loop of
  \<^verbatim>\<open>EncodeVarint64\<close> both write the base-128 numeral of the value, \<^verbatim>\<open>VarintLength\<close> is the number of
  bytes written, and the buffers of 5 and 10 bytes of \<^verbatim>\<open>PutVarint32\<close> and \<^verbatim>\<open>PutVarint64\<close> suffice.
\<close>

theorem varint_encoders_agree:
  "EncodeVarint32 v = EncodeVarint64 (ucast v) \<and> EncodeVarint64 w = leb128 (unat w) \<and>
   VarintLength w = length (EncodeVarint64 w) \<and>
   length (EncodeVarint32 v) \<le> 5 \<and> length (EncodeVarint64 w) \<le> 10"
proof -
  have "unat v < 2 ^ LENGTH(32)" "unat w < 2 ^ LENGTH(64)" by (rule unsigned_less)+
  then show ?thesis
    using length_leb128 [of "unat v" 4] length_leb128 [of "unat w" 9]
    by (simp add: EncodeVarint32_leb128 EncodeVarint64_leb128 VarintLength_def varint_length_loop
        unsigned_ucast_eq take_bit_nat_eq_self)
qed

text \<open>
  C11: The varint parsers accept exactly the terminated sequences of base-128 digits of at most 5
  (\<^verbatim>\<open>GetVarint32\<close>) or 10 bytes (\<^verbatim>\<open>GetVarint64\<close>), return their value modulo the width together with
  the bytes behind the terminator, and leave the input as it was when they fail.
\<close>

theorem varint_parsers_exact:
  "(GetVarint32 input = (Some v, rest) \<longleftrightarrow> decodes 5 input v rest) \<and>
   (GetVarint64 input = (Some w, rest) \<longleftrightarrow> decodes 10 input w rest) \<and>
   (fst (GetVarint32 input) = None \<longleftrightarrow> GetVarint32 input = (None, input)) \<and>
   (fst (GetVarint64 input) = None \<longleftrightarrow> GetVarint64 input = (None, input))"
  unfolding GetVarint32_def GetVarint64_def GetVarint32Ptr_decodes [symmetric]
    GetVarint64Ptr_decodes [symmetric]
  by (auto split: option.splits)

text \<open>
  C12: Integers written by the \<^verbatim>\<open>Put\<close> routines are read back by the decoders, whatever follows them
  in the buffer, and the byte order does not depend on the platform: the encoders of fixed width write
  the bytes of the value from the lowest one on little-endian platforms (\<^verbatim>\<open>memcpy\<close>) and on others
  (byte by byte), and what one platform has written the other reads back.
\<close>

theorem integer_coding_roundtrip:
  "GetVarint32 (PutVarint32 [] v @ rest) = (Some v, rest) \<and>
   GetVarint64 (PutVarint64 [] w @ rest) = (Some w, rest) \<and>
   DecodeFixed32 (PutFixed32 [] v @ rest) = Some v \<and>
   DecodeFixed64 (PutFixed64 [] w @ rest) = Some w \<and>
   EncodeFixed32_on little v = map (\<lambda>i. ucast (drop_bit (8 * i) v)) [0..<4] \<and>
   EncodeFixed64_on little w = map (\<lambda>i. ucast (drop_bit (8 * i) w)) [0..<8] \<and>
   DecodeFixed32_on little (EncodeFixed32_on little' v @ rest) = Some v \<and>
   DecodeFixed64_on little (EncodeFixed64_on little' w @ rest) = Some w \<and>
   DecodeFixed32_on little p = DecodeFixed32_on little' p \<and>
   DecodeFixed64_on little p = DecodeFixed64_on little' p"
  by (simp add: GetVarint32_def GetVarint64_def PutVarint32_def PutVarint64_def PutFixed32_def PutFixed64_def
      EncodeVarint32_leb128 EncodeVarint64_leb128 GetVarint32Ptr_leb128 GetVarint64Ptr_leb128
      EncodeFixed32_on_le EncodeFixed64_on_le DecodeFixed32_on_le DecodeFixed64_on_le le_word_le_bytes)
    (simp add: le_bytes_map)

end
