(* ===== verification/L_Comparator.thy ===== *)
theory L_Comparator
  imports L_Coding "HOL-Library.List_Lexorder"
begin

text \<open>
  Comparison of slices (\<^verbatim>\<open>include/leveldb/slice.h\<close>), the interface \<^verbatim>\<open>Comparator\<close>
  (\<^verbatim>\<open>include/leveldb/comparator.h\<close>) as a family of locales, and the built-in
  \<^verbatim>\<open>BytewiseComparatorImpl\<close> (\<^verbatim>\<open>util/comparator.cc\<close>), which interprets them. A failed
  \<^verbatim>\<open>assert\<close> is \<open>None\<close>, so a comparison returns an optional integer.
\<close>

section \<open>Comparison of slices\<close>

text \<open>
  Of \<^verbatim>\<open>memcmp\<close> on \<open>n\<close> bytes only the sign is specified; the difference of the first pair of
  distinct bytes, read as unsigned, has that sign.
\<close>

fun memcmp :: "byte list \<Rightarrow> byte list \<Rightarrow> nat \<Rightarrow> int" where
  "memcmp (a # as) (b # bs) (Suc n) = (if a = b then memcmp as bs n else uint a - uint b)"
| "memcmp _ _ _ = 0"

definition slice_compare :: "slice \<Rightarrow> slice \<Rightarrow> int" where
  "slice_compare a b = (let min_len = (if length a < length b then length a else length b);
       r = memcmp a b min_len in
     if r = 0 then
       if length a < length b then -1 else if length a > length b then 1 else r
     else r)"

definition starts_with :: "slice \<Rightarrow> slice \<Rightarrow> bool" where
  "starts_with s x \<longleftrightarrow> length s \<ge> length x \<and> memcmp s x (length x) = 0"

definition slice_eq :: "slice \<Rightarrow> slice \<Rightarrow> bool" where
  "slice_eq x y \<longleftrightarrow> length x = length y \<and> memcmp x y (length x) = 0"

lemma memcmp_zero: "n \<le> length a \<Longrightarrow> n \<le> length b \<Longrightarrow> memcmp a b n = 0 \<longleftrightarrow> take n a = take n b"
  by (induction a b n rule: memcmp.induct) (auto simp: word_uint_eq_iff)

lemma slice_compare_Cons:
  "slice_compare (a # as) (b # bs) = (if a = b then slice_compare as bs else uint a - uint b)"
  by (auto simp: slice_compare_def Let_def word_uint_eq_iff)

lemma slice_compare_Nil:
  "slice_compare [] [] = 0" "slice_compare [] (b # bs) = -1" "slice_compare (a # as) [] = 1"
  by (simp_all add: slice_compare_def Let_def)

lemma slice_compare_sign:
  "(slice_compare a b < 0 \<longleftrightarrow> a < b) \<and> (slice_compare a b = 0 \<longleftrightarrow> a = b) \<and> (slice_compare a b > 0 \<longleftrightarrow> b < a)"
proof (induction a arbitrary: b)
  case Nil
  show ?case by (cases b) (simp_all add: slice_compare_Nil)
next
  case (Cons x xs)
  show ?case
  proof (cases b)
    case (Cons y ys)
    have "uint x - uint y < 0 \<longleftrightarrow> x < y" "uint x - uint y = 0 \<longleftrightarrow> x = y" "uint x - uint y > 0 \<longleftrightarrow> y < x"
      by (auto simp: word_less_def word_uint_eq_iff)
    with Cons.IH [of ys] Cons show ?thesis by (auto simp: slice_compare_Cons)
  qed (simp add: slice_compare_Nil)
qed

lemmas slice_compare_less = slice_compare_sign [THEN conjunct1]
  and slice_compare_equal = slice_compare_sign [THEN conjunct2, THEN conjunct1]
  and slice_compare_greater = slice_compare_sign [THEN conjunct2, THEN conjunct2]

section \<open>The interface\<close>

text \<open>A three-way comparison read as the relations \<^verbatim>\<open>< 0\<close> and \<^verbatim>\<open><= 0\<close>.\<close>

definition cmp_less :: "('k \<Rightarrow> 'k \<Rightarrow> int option) \<Rightarrow> 'k \<Rightarrow> 'k \<Rightarrow> bool" where
  "cmp_less cmp a b \<longleftrightarrow> (case cmp a b of Some c \<Rightarrow> c < 0 | None \<Rightarrow> False)"

definition cmp_leq :: "('k \<Rightarrow> 'k \<Rightarrow> int option) \<Rightarrow> 'k \<Rightarrow> 'k \<Rightarrow> bool" where
  "cmp_leq cmp a b \<longleftrightarrow> (case cmp a b of Some c \<Rightarrow> c \<le> 0 | None \<Rightarrow> False)"

definition cmp_equal :: "('k \<Rightarrow> 'k \<Rightarrow> int option) \<Rightarrow> 'k \<Rightarrow> 'k \<Rightarrow> bool" where
  "cmp_equal cmp a b \<longleftrightarrow> cmp a b = Some 0"

lemmas cmp_defs = cmp_less_def cmp_leq_def cmp_equal_def

text \<open>
  The order every comparator provides, on the keys it is defined for: a comparison of two such
  keys returns, the order is antisymmetric up to \<^verbatim>\<open>== 0\<close> and transitive.
\<close>

locale comparator =
  fixes Compare :: "'k \<Rightarrow> 'k \<Rightarrow> int option" and valid :: "'k \<Rightarrow> bool"
  assumes Compare_returns: "valid a \<Longrightarrow> valid b \<Longrightarrow> \<exists>c. Compare a b = Some c"
    and Compare_swap: "valid a \<Longrightarrow> valid b \<Longrightarrow> Compare a b = Some r \<Longrightarrow> \<exists>s. Compare b a = Some s \<and> sgn s = - sgn r"
    and leq_trans: "valid a \<Longrightarrow> valid b \<Longrightarrow> valid c \<Longrightarrow>
      cmp_leq Compare a b \<Longrightarrow> cmp_leq Compare b c \<Longrightarrow> cmp_leq Compare a c"
begin

lemma not_less_iff: "valid a \<Longrightarrow> valid b \<Longrightarrow> \<not> cmp_less Compare a b \<longleftrightarrow> cmp_leq Compare b a"
  using Compare_returns [of a b] Compare_swap [of a b]
  by (auto simp: cmp_defs sgn_if split: if_splits)

lemma leq_refl: "valid a \<Longrightarrow> cmp_leq Compare a a"
  using Compare_returns [of a a] Compare_swap [of a a] by (auto simp: cmp_defs sgn_if split: if_splits)

lemma less_imp_leq: "cmp_less Compare a b \<Longrightarrow> cmp_leq Compare a b"
  by (auto simp: cmp_defs split: option.splits)

lemma leq_total: "valid a \<Longrightarrow> valid b \<Longrightarrow> cmp_leq Compare a b \<or> cmp_leq Compare b a"
  using not_less_iff less_imp_leq by blast

lemma less_leq_trans:
  assumes "valid a" "valid b" "valid c" and "cmp_less Compare a b" and "cmp_leq Compare b c"
  shows "cmp_less Compare a c"
proof (rule ccontr)
  assume "\<not> cmp_less Compare a c"
  then have "cmp_leq Compare c a" using assms not_less_iff by blast
  then have "cmp_leq Compare b a" using assms leq_trans by blast
  then show False using assms not_less_iff by blast
qed

lemma leq_less_trans:
  assumes "valid a" "valid b" "valid c" and "cmp_leq Compare a b" and "cmp_less Compare b c"
  shows "cmp_less Compare a c"
proof (rule ccontr)
  assume "\<not> cmp_less Compare a c"
  then have "cmp_leq Compare c a" using assms not_less_iff by blast
  then have "cmp_leq Compare c b" using assms leq_trans by blast
  then show False using assms not_less_iff by blast
qed

lemma less_trans:
  "valid a \<Longrightarrow> valid b \<Longrightarrow> valid c \<Longrightarrow> cmp_less Compare a b \<Longrightarrow> cmp_less Compare b c \<Longrightarrow> cmp_less Compare a c"
  using less_leq_trans less_imp_leq by blast

lemma less_irrefl: "valid a \<Longrightarrow> \<not> cmp_less Compare a a"
  using not_less_iff leq_refl by blast

lemma equal_iff: "valid a \<Longrightarrow> valid b \<Longrightarrow> cmp_equal Compare a b \<longleftrightarrow> cmp_leq Compare a b \<and> cmp_leq Compare b a"
  using Compare_returns [of a b] Compare_swap [of a b]
  by (auto simp: cmp_defs sgn_if split: if_splits)

lemma sorted_wrt_nth_less:
  assumes "sorted_wrt (cmp_less Compare) xs" and "\<forall>x\<in>set xs. valid x" and "i < length xs" and "j < length xs"
  shows "cmp_less Compare (xs ! i) (xs ! j) \<longleftrightarrow> i < j"
proof -
  have "valid (xs ! i)" "valid (xs ! j)" using assms by auto
  moreover have "i < j \<Longrightarrow> cmp_less Compare (xs ! i) (xs ! j)" "j < i \<Longrightarrow> cmp_less Compare (xs ! j) (xs ! i)"
    using assms by (auto simp: sorted_wrt_iff_nth_less)
  ultimately show ?thesis using less_irrefl less_trans by (metis linorder_neqE_nat)
qed

end

text \<open>A comparator that tells all keys apart.\<close>

locale exact_comparator = comparator +
  assumes equal_imp_eq: "valid a \<Longrightarrow> valid b \<Longrightarrow> cmp_equal Compare a b \<Longrightarrow> a = b"
begin

lemma antisym: "valid a \<Longrightarrow> valid b \<Longrightarrow> cmp_leq Compare a b \<Longrightarrow> cmp_leq Compare b a \<Longrightarrow> a = b"
  using equal_iff equal_imp_eq by blast

lemma less_total: "valid a \<Longrightarrow> valid b \<Longrightarrow> a \<noteq> b \<Longrightarrow> cmp_less Compare a b \<or> cmp_less Compare b a"
  using not_less_iff antisym by blast

end

text \<open>
  The advanced functions: \<^verbatim>\<open>FindShortestSeparator\<close> changes \<^verbatim>\<open>*start\<close> to a key in
  \<^verbatim>\<open>[start, limit)\<close> when \<^verbatim>\<open>*start < limit\<close>, and \<^verbatim>\<open>FindShortSuccessor\<close> changes \<^verbatim>\<open>*key\<close> to a key
  at or above it; neither makes the key longer. The header is silent on equal arguments, but
  \<^verbatim>\<open>InternalKeyComparator\<close> also calls the user's function on those; there the result may not
  be above \<^verbatim>\<open>*start\<close>.
\<close>

locale key_comparator = comparator Compare valid
  for Compare :: "slice \<Rightarrow> slice \<Rightarrow> int option" and valid :: "slice \<Rightarrow> bool" +
  fixes FindShortestSeparator :: "slice \<Rightarrow> slice \<Rightarrow> slice option"
    and FindShortSuccessor :: "slice \<Rightarrow> slice option"
  assumes separator: "valid start \<Longrightarrow> valid limit \<Longrightarrow> cmp_less Compare start limit \<Longrightarrow>
      \<exists>r. FindShortestSeparator start limit = Some r \<and> valid r \<and>
        cmp_leq Compare start r \<and> cmp_less Compare r limit \<and> length r \<le> length start"
    and separator_equal: "valid start \<Longrightarrow> valid limit \<Longrightarrow> cmp_equal Compare start limit \<Longrightarrow>
      \<exists>r. FindShortestSeparator start limit = Some r \<and> valid r \<and> cmp_leq Compare r start"
    and successor: "valid key \<Longrightarrow>
      \<exists>r. FindShortSuccessor key = Some r \<and> valid r \<and> cmp_leq Compare key r \<and> length r \<le> length key"
begin

text \<open>An index entry built with the separator routes every key of either block to its side.\<close>

lemma separator_routes:
  assumes "valid start" "valid limit" "cmp_less Compare start limit" "FindShortestSeparator start limit = Some r"
    and "valid k"
  shows "(cmp_leq Compare k start \<longrightarrow> cmp_leq Compare k r) \<and> (cmp_leq Compare limit k \<longrightarrow> cmp_less Compare r k)"
proof -
  have r: "valid r" "cmp_leq Compare start r" "cmp_less Compare r limit"
    using separator [OF assms(1-3)] assms(4) by auto
  then show ?thesis
    using leq_trans [of k start r] less_leq_trans [of r limit k] assms(1,2,5) by blast
qed

end

section \<open>The bytewise comparator\<close>

definition BytewiseComparator_Compare :: "slice \<Rightarrow> slice \<Rightarrow> int option" where
  "BytewiseComparator_Compare a b = Some (slice_compare a b)"

fun diff_index :: "slice \<Rightarrow> slice \<Rightarrow> nat \<Rightarrow> nat" where
  "diff_index (a # as) (b # bs) (Suc min_length) =
     (if a = b then Suc (diff_index as bs min_length) else 0)"
| "diff_index _ _ _ = 0"

definition BytewiseComparator_FindShortestSeparator :: "slice \<Rightarrow> slice \<Rightarrow> slice option" where
  "BytewiseComparator_FindShortestSeparator start limit =
     (let min_length = min (length start) (length limit);
          i = diff_index start limit min_length in
      if i \<ge> min_length then Some start
      else let diff_byte = start ! i in
        if diff_byte < 0xff \<and> unat diff_byte + 1 < unat (limit ! i) then
          let start = take (i + 1) (start[i := start ! i + 1]) in
          if slice_compare start limit < 0 then Some start else None
        else Some start)"

fun short_successor :: "slice \<Rightarrow> slice \<Rightarrow> slice" where
  "short_successor pre [] = pre"
| "short_successor pre (byte # key) =
     (if byte \<noteq> 0xff then pre @ [byte + 1] else short_successor (pre @ [byte]) key)"

definition BytewiseComparator_FindShortSuccessor :: "slice \<Rightarrow> slice option" where
  "BytewiseComparator_FindShortSuccessor key = Some (short_successor [] key)"

lemma bytewise_less: "cmp_less BytewiseComparator_Compare a b \<longleftrightarrow> a < b"
  by (simp add: cmp_less_def BytewiseComparator_Compare_def slice_compare_less)

lemma bytewise_leq: "cmp_leq BytewiseComparator_Compare a b \<longleftrightarrow> a \<le> b"
  using slice_compare_greater [of a b]
  by (simp add: cmp_leq_def BytewiseComparator_Compare_def) (metis not_le)

lemma bytewise_equal: "cmp_equal BytewiseComparator_Compare a b \<longleftrightarrow> a = b"
  by (simp add: cmp_equal_def BytewiseComparator_Compare_def slice_compare_equal)

lemmas bytewise_iff = bytewise_less bytewise_leq bytewise_equal

lemma diff_index_split:
  assumes "n \<le> length a" and "n \<le> length b"
  shows "diff_index a b n \<le> n \<and> take (diff_index a b n) a = take (diff_index a b n) b \<and>
    (diff_index a b n < n \<longrightarrow> a ! diff_index a b n \<noteq> b ! diff_index a b n)"
  using assms by (induction a b n rule: diff_index.induct) auto

lemma append_less_iff: "(p @ a :: byte list) < p @ b \<longleftrightarrow> a < b"
  by (induction p) auto

lemma append_leq_iff: "(p @ a :: byte list) \<le> p @ b \<longleftrightarrow> a \<le> b"
  by (induction p) auto

lemma byte_plus_one: "b \<noteq> 0xff \<Longrightarrow> unat (b + 1 :: byte) = unat b + 1"
proof -
  assume "b \<noteq> 0xff"
  then have "unat b \<noteq> 255" by (simp add: word_unat_eq_iff)
  moreover have "unat b < 2 ^ LENGTH(8)" by (rule unsigned_less)
  ultimately have "unat b + 1 < 2 ^ LENGTH(8)" by simp
  then show ?thesis by (simp add: unat_word_ariths)
qed

lemma separator_cases:
  assumes "BytewiseComparator_FindShortestSeparator start limit = r"
  obtains "r = Some start"
    | p a as b bs where "start = p @ a # as" "limit = p @ b # bs" "a \<noteq> 0xff" "unat a + 1 < unat b"
      "r = Some (p @ [a + 1])"
proof -
  define n where "n = min (length start) (length limit)"
  define i where "i = diff_index start limit n"
  have i: "i \<le> n" "take i start = take i limit" "i < n \<Longrightarrow> start ! i \<noteq> limit ! i"
    using diff_index_split [of n start limit] by (auto simp: n_def i_def)
  show ?thesis
  proof (cases "i < n \<and> start ! i < 0xff \<and> unat (start ! i) + 1 < unat (limit ! i)")
    case False
    then have "r = Some start"
      using assms by (auto simp: BytewiseComparator_FindShortestSeparator_def Let_def i_def n_def)
    then show ?thesis by (rule that)
  next
    case True
    then have lt: "i < length start" "i < length limit" by (auto simp: n_def)
    let ?p = "take i start" and ?a = "start ! i" and ?b = "limit ! i"
    have s: "start = ?p @ ?a # drop (Suc i) start" by (rule id_take_nth_drop [OF lt(1)])
    have l: "limit = ?p @ ?b # drop (Suc i) limit" using id_take_nth_drop [OF lt(2)] i(2) by simp
    have "take (i + 1) (start[i := ?a + 1]) = ?p @ [?a + 1]"
      using lt by (simp add: take_Suc_conv_app_nth)
    moreover have "?p @ [?a + 1] < limit"
    proof -
      have "?a \<noteq> 0xff" using True by auto
      with True have "?a + 1 < ?b" using byte_plus_one by (simp add: word_less_nat_alt)
      then show ?thesis by (subst l) (simp add: append_less_iff)
    qed
    ultimately have "r = Some (?p @ [?a + 1])"
      using True assms by (auto simp: BytewiseComparator_FindShortestSeparator_def Let_def slice_compare_less
          i_def [symmetric] n_def [symmetric])
    moreover have "?a \<noteq> 0xff" using True by auto
    ultimately show ?thesis using that(2) [OF s l] True by blast
  qed
qed

lemma short_successor_props:
  "pre @ key \<le> short_successor pre key \<and> length (short_successor pre key) \<le> length (pre @ key)"
proof (induction pre key rule: short_successor.induct)
  case (2 pre byte key)
  show ?case
  proof (cases "byte = 0xff")
    case True
    with 2 show ?thesis by simp
  next
    case False
    then have "byte < byte + 1" using byte_plus_one by (simp add: word_less_nat_alt)
    with False show ?thesis by (simp add: append_leq_iff)
  qed
qed simp

interpretation bytewise: exact_comparator BytewiseComparator_Compare "\<lambda>_. True"
proof unfold_locales
  fix a b c :: slice and d
  show "\<exists>c. BytewiseComparator_Compare a b = Some c" by (simp add: BytewiseComparator_Compare_def)
  show "\<exists>e. BytewiseComparator_Compare b a = Some e \<and> sgn e = - sgn d"
    if "BytewiseComparator_Compare a b = Some d"
    using that slice_compare_sign [of a b] slice_compare_sign [of b a]
    by (auto simp: BytewiseComparator_Compare_def sgn_if)
qed (auto simp: bytewise_iff)

interpretation bytewise: key_comparator BytewiseComparator_Compare "\<lambda>_. True"
  BytewiseComparator_FindShortestSeparator BytewiseComparator_FindShortSuccessor
proof unfold_locales
  fix start limit key :: slice
  show "\<exists>r. BytewiseComparator_FindShortestSeparator start limit = Some r \<and> True \<and>
      cmp_leq BytewiseComparator_Compare start r \<and> cmp_less BytewiseComparator_Compare r limit \<and>
      length r \<le> length start" if "cmp_less BytewiseComparator_Compare start limit"
    using that byte_plus_one
    by (cases rule: separator_cases [OF refl, of start limit])
       (auto simp: bytewise_iff append_less_iff append_leq_iff word_less_nat_alt)
  show "\<exists>r. BytewiseComparator_FindShortestSeparator start limit = Some r \<and> True \<and>
      cmp_leq BytewiseComparator_Compare r start" if "cmp_equal BytewiseComparator_Compare start limit"
    using that by (cases rule: separator_cases [OF refl, of start limit]) (auto simp: bytewise_iff)
  show "\<exists>r. BytewiseComparator_FindShortSuccessor key = Some r \<and> True \<and>
      cmp_leq BytewiseComparator_Compare key r \<and> length r \<le> length key"
    using short_successor_props [of "[]" key] by (simp add: BytewiseComparator_FindShortSuccessor_def bytewise_iff)
qed


section \<open>Properties\<close>

text \<open>
  \<^verbatim>\<open>Slice::compare\<close> is the three-way comparison of the lexicographic order of unsigned bytes,
  in which a proper prefix is smaller; \<^verbatim>\<open>operator==\<close> holds exactly for equal byte strings and
  \<^verbatim>\<open>starts_with\<close> exactly for prefixes.
\<close>

lemma slice_compare_lexicographic:
  "(slice_compare a b < 0 \<longleftrightarrow> a < b) \<and> (slice_compare a b = 0 \<longleftrightarrow> a = b) \<and>
   (slice_compare a b > 0 \<longleftrightarrow> b < a) \<and> (slice_eq a b \<longleftrightarrow> a = b) \<and>
   (starts_with a b \<longleftrightarrow> (\<exists>s. a = b @ s))"
proof -
  have "slice_eq a b \<longleftrightarrow> a = b" using memcmp_zero [of "length a" a b] by (auto simp: slice_eq_def)
  moreover have "starts_with a b \<longleftrightarrow> (\<exists>s. a = b @ s)"
    using memcmp_zero [of "length b" a b]
    by (auto simp: starts_with_def) (metis append_take_drop_id)
  ultimately show ?thesis using slice_compare_sign [of a b] by blast
qed

text \<open>
  The bytewise comparator keeps the contract of its shortening functions: for \<open>start < limit\<close>
  the assertion of \<^verbatim>\<open>FindShortestSeparator\<close> holds and the new start lies in \<open>[start, limit)\<close> and is
  not longer, and \<^verbatim>\<open>FindShortSuccessor\<close> returns a key at or above the given one, not longer either.
\<close>

lemma bytewise_shortening_sound:
  assumes "slice_compare start limit < 0"
  shows "(\<exists>r. BytewiseComparator_FindShortestSeparator start limit = Some r \<and>
      slice_compare start r \<le> 0 \<and> slice_compare r limit < 0 \<and> length r \<le> length start) \<and>
    (\<exists>r. BytewiseComparator_FindShortSuccessor key = Some r \<and>
      slice_compare key r \<le> 0 \<and> length r \<le> length key)"
  using bytewise.separator [of start limit] bytewise.successor [of key] assms
  by (auto simp: cmp_less_def cmp_leq_def BytewiseComparator_Compare_def)

lemma bytewise_shortening_witness:
  "slice_compare [1, 2, 3] [1, 5] < 0 \<and>
   BytewiseComparator_FindShortestSeparator [1, 2, 3] [1, 5] = Some [1, 3] \<and>
   (\<exists>r. BytewiseComparator_FindShortestSeparator [1, 2, 3] [1, 5] = Some r \<and> slice_compare r [1, 5] < 0)"
proof -
  have lt: "slice_compare [1, 2, 3] [1, 5] < 0" by code_simp
  moreover have "BytewiseComparator_FindShortestSeparator [1, 2, 3] [1, 5] = Some [1, 3]" by code_simp
  ultimately show ?thesis using bytewise_shortening_sound [OF lt, of "[]"] by blast
qed

end
