(* ===== verification/L_Random.thy ===== *)
theory L_Random
  imports Pb_Prelude
begin

text \<open>
  Model of \<^verbatim>\<open>util/random.h\<close>: the multiplicative generator of Park and Miller, with the reduction
  modulo \<open>2 ^ 31 - 1\<close> by shifts. The state is the 32-bit \<^verbatim>\<open>seed_\<close>; every operation returns its
  result and the new seed. An argument \<open>n = 0\<close> divides by zero and is \<open>None\<close>.
\<close>

definition Random :: "uint32 \<Rightarrow> uint32" where
  "Random s = (let seed = s AND 0x7fffffff in
     if seed = 0 \<or> seed = 2147483647 then 1 else seed)"

definition Next :: "uint32 \<Rightarrow> uint32 \<times> uint32" where
  "Next seed = (let M = 2147483647 :: uint32; A = 16807 :: uint64;
      product = ucast seed * A;
      seed = ucast (drop_bit 31 product + (product AND ucast M));
      seed = (if seed > M then seed - M else seed)
    in (seed, seed))"

definition Uniform :: "uint32 \<Rightarrow> uint32 \<Rightarrow> (uint32 \<times> uint32) option" where
  "Uniform n seed = (if n = 0 then None else let (r, seed) = Next seed in Some (r mod n, seed))"

definition OneIn :: "uint32 \<Rightarrow> uint32 \<Rightarrow> (bool \<times> uint32) option" where
  "OneIn n seed = (if n = 0 then None else let (r, seed) = Next seed in Some (r mod n = 0, seed))"

text \<open>\<^verbatim>\<open>1 << k\<close> of an \<^verbatim>\<open>int\<close> is defined for \<open>k < 31\<close>.\<close>

definition Skewed :: "uint32 \<Rightarrow> uint32 \<Rightarrow> (uint32 \<times> uint32) option" where
  "Skewed max_log seed = do {
     (k, seed) \<leftarrow> Uniform (max_log + 1) seed;
     if k < 31 then Uniform (push_bit (unat k) 1) seed else None
   }"

definition seed_ok :: "uint32 \<Rightarrow> bool" where
  "seed_ok seed \<longleftrightarrow> 0 < unat seed \<and> unat seed < 2147483647"

lemma seed_ok_Random: "seed_ok (Random s)"
proof -
  have "s AND 0x7fffffff = take_bit 31 s" by (simp add: take_bit_eq_mask mask_eq_exp_minus_1)
  then have "unat (s AND 0x7fffffff) < 2147483648" by (simp add: take_bit_eq_mod unat_mod_distrib)
  then show ?thesis
    by (auto simp: Random_def seed_ok_def Let_def word_unat_eq_iff)
qed

text \<open>One reduction step: the sum of the high and the low part is congruent modulo \<open>2 ^ 31 - 1\<close>.\<close>

lemma mersenne_fold: "(p div 2147483648 + p mod 2147483648) mod 2147483647 = (p :: nat) mod 2147483647"
proof -
  have "p = (p div 2147483648 + p mod 2147483648) + 2147483647 * (p div 2147483648)"
    using div_mult_mod_eq [of p 2147483648] by linarith
  then show ?thesis by (metis mod_mult_self2)
qed

lemma not_multiple:
  assumes "0 < n" and "n < 2147483647"
  shows "(n * 16807) mod 2147483647 \<noteq> (0 :: nat)"
proof
  assume "(n * 16807) mod 2147483647 = 0"
  then have "2147483647 dvd n * 16807" by (simp add: dvd_eq_mod_eq_0)
  moreover have "coprime (2147483647 :: nat) 16807"
    by (simp add: coprime_iff_gcd_eq_1 gcd_non_0_nat)
  ultimately have "2147483647 dvd n" by (simp add: coprime_dvd_mult_left_iff)
  with assms show False by (auto dest: dvd_imp_le)
qed


lemma Next_unat:
  assumes "seed_ok seed"
  shows "unat (fst (Next seed)) = (unat seed * 16807) mod 2147483647" and "snd (Next seed) = fst (Next seed)"
proof -
  define n where "n = unat seed"
  have n: "0 < n" "n < 2147483647" using assms by (simp_all add: seed_ok_def n_def)
  define p where "p = n * 16807"
  define q where "q = p div 2147483648 + p mod 2147483648"
  define product :: uint64 where "product = ucast seed * 16807"
  have p: "p < 2147483647 * 16807" using n by (simp add: p_def)
  have small: "m < 2 ^ 64 \<Longrightarrow> unat (of_nat m :: uint64) = m" for m by (simp add: unat_of_nat)
  have "product = of_nat p" by (simp add: product_def p_def n_def)
  then have product: "unat product = p" using small [of p] p by simp
  have high: "unat (drop_bit 31 product) = p div 2147483648"
    unfolding unat_drop_bit_eq product by (simp add: drop_bit_eq_div)
  have "product AND ucast (2147483647 :: uint32) = take_bit 31 product"
    by (simp add: take_bit_eq_mask mask_eq_exp_minus_1)
  then have low: "unat (product AND ucast (2147483647 :: uint32)) = p mod 2147483648"
    using product by (simp add: take_bit_eq_mod unat_mod_distrib)
  have "p div 2147483648 < 16807" using p by (simp add: less_mult_imp_div_less)
  moreover have "p mod 2147483648 < 2147483648" by simp
  ultimately have q: "q < 2 * 2147483647" unfolding q_def by linarith
  have sum: "drop_bit 31 product + (product AND ucast (2147483647 :: uint32)) = of_nat q"
    unfolding q_def of_nat_add high [symmetric] low [symmetric] by simp
  define w :: uint32 where "w = ucast (drop_bit 31 product + (product AND ucast (2147483647 :: uint32)))"
  have w: "unat w = q"
    using q unfolding w_def sum by (simp add: unsigned_ucast_eq unat_of_nat take_bit_nat_eq_self)
  have fst: "fst (Next seed) = (if w > 2147483647 then w - 2147483647 else w)"
    by (simp add: Next_def Let_def w_def product_def)
  have mod: "q mod 2147483647 = p mod 2147483647" unfolding q_def by (rule mersenne_fold)
  have "p mod 2147483647 \<noteq> 0" using not_multiple [OF n] by (simp add: p_def)
  with mod have "q \<noteq> 2147483647" "q \<noteq> 0" by auto
  have "unat (fst (Next seed)) = q mod 2147483647"
  proof (cases "q > 2147483647")
    case True
    then have "w > 2147483647" by (simp add: word_less_nat_alt w)
    then have "unat (fst (Next seed)) = q - 2147483647"
      using True by (simp add: fst unat_sub w word_le_nat_alt)
    moreover have "q mod 2147483647 = q - 2147483647" using True q by (simp add: le_mod_geq)
    ultimately show ?thesis by simp
  next
    case False
    then have "\<not> w > 2147483647" by (simp add: word_less_nat_alt w)
    with False \<open>q \<noteq> 2147483647\<close> show ?thesis by (simp add: fst w)
  qed
  then show "unat (fst (Next seed)) = (unat seed * 16807) mod 2147483647"
    by (simp add: mod p_def n_def)
  show "snd (Next seed) = fst (Next seed)" by (simp add: Next_def Let_def)
qed

lemma seed_ok_Next: "seed_ok seed \<Longrightarrow> seed_ok (snd (Next seed))"
  using not_multiple [of "unat seed"] by (simp add: seed_ok_def Next_unat)

section \<open>Properties\<close>

text \<open>
  The generator is the recurrence \<open>s \<mapsto> 16807 s mod (2 ^ 31 - 1)\<close>: the shift-and-add reduction
  with one conditional subtraction computes it exactly, every seed the constructor accepts is in
  \<open>[1, 2 ^ 31 - 2]\<close>, and no step leaves that range, where a fixed point \<open>0\<close> would be reached.
\<close>

lemma random_recurrence:
  assumes "0 < unat seed" and "unat seed < 2147483647"
  shows "unat (fst (Next seed)) = (unat seed * 16807) mod 2147483647 \<and>
    snd (Next seed) = fst (Next seed) \<and>
    0 < unat (snd (Next seed)) \<and> unat (snd (Next seed)) < 2147483647 \<and>
    0 < unat (Random s) \<and> unat (Random s) < 2147483647"
proof -
  have "seed_ok seed" using assms by (simp add: seed_ok_def)
  then show ?thesis
    using Next_unat [of seed] seed_ok_Next [of seed] seed_ok_Random [of s]
    by (simp add: seed_ok_def del: mod_greater_zero_iff_not_dvd)
qed

lemma random_recurrence_witness: "unat (fst (Next 0x5eadbeef)) = (0x5eadbeef * 16807) mod 2147483647"
proof -
  have "0 < unat (0x5eadbeef :: uint32)" "unat (0x5eadbeef :: uint32) < 2147483647" by simp_all
  from random_recurrence [OF this, of 0] show ?thesis by simp
qed

end
