(* ===== verification/L_SkipList.thy ===== *)
theory L_SkipList
  imports L_Comparator L_Random
begin

text \<open>
  Model of the skip list template of \<^verbatim>\<open>db/skiplist.h\<close>. The nodes live in a list that grows at its
  end (nodes are never freed); a node is named by its index, \<^verbatim>\<open>head_\<close> is node 0, and a link is
  \<open>None\<close> while it is not initialised, \<open>Some None\<close> for \<^verbatim>\<open>NULL\<close>. \<open>None\<close> as a result is a failed
  assertion, an access outside an array or an uninitialised read; the search loops are
  partial functions, so a theorem that they return \<open>Some\<close> includes their termination. Loads and
  stores of links are single steps; their memory ordering is taken to be sequentially consistent.
\<close>

section \<open>Nodes and links\<close>

definition kMaxHeight :: nat where
  "kMaxHeight = 12"

definition head_node :: nat where
  "head_node = 0"

record 'k node =
  node_key :: 'k
  node_next :: "nat option option list"

record 'k skiplist =
  sl_nodes :: "'k node list"
  sl_max_height :: nat
  sl_rnd :: uint32

definition node_at :: "'k skiplist \<Rightarrow> nat \<Rightarrow> 'k node option" where
  "node_at sl x = (if x < length (sl_nodes sl) then Some (sl_nodes sl ! x) else None)"

definition Node_Next :: "'k skiplist \<Rightarrow> nat \<Rightarrow> nat \<Rightarrow> nat option option" where
  "Node_Next sl x n = do {
     nd \<leftarrow> node_at sl x;
     if n < length (node_next nd) then node_next nd ! n else None
   }"

definition Node_SetNext :: "'k skiplist \<Rightarrow> nat \<Rightarrow> nat \<Rightarrow> nat option \<Rightarrow> 'k skiplist option" where
  "Node_SetNext sl x n v = do {
     nd \<leftarrow> node_at sl x;
     if n < length (node_next nd)
     then Some (sl\<lparr>sl_nodes := (sl_nodes sl)[x := nd\<lparr>node_next := (node_next nd)[n := Some v]\<rparr>]\<rparr>)
     else None
   }"

definition NewNode :: "'k skiplist \<Rightarrow> 'k \<Rightarrow> nat \<Rightarrow> nat \<times> 'k skiplist" where
  "NewNode sl key height = (length (sl_nodes sl),
     sl\<lparr>sl_nodes := sl_nodes sl @ [\<lparr>node_key = key, node_next = replicate height None\<rparr>]\<rparr>)"

text \<open>The constructor: a head of the full height whose links are all set to \<^verbatim>\<open>NULL\<close>.\<close>

definition SkipList :: "'k \<Rightarrow> 'k skiplist" where
  "SkipList any_key = \<lparr>sl_nodes = [\<lparr>node_key = any_key, node_next = replicate kMaxHeight (Some None)\<rparr>],
     sl_max_height = 1, sl_rnd = Random 0xdeadbeef\<rparr>"

function RandomHeight_loop :: "nat \<Rightarrow> uint32 \<Rightarrow> nat \<times> uint32" where
  "RandomHeight_loop height rnd =
     (if height < kMaxHeight then
        let (r, rnd) = Next rnd in
        if r mod 4 = 0 then RandomHeight_loop (height + 1) rnd else (height, rnd)
      else (height, rnd))"
  by pat_completeness auto
termination by (relation "measure (\<lambda>(height, _). kMaxHeight - height)") auto

declare RandomHeight_loop.simps [simp del]

definition RandomHeight :: "uint32 \<Rightarrow> nat \<times> uint32" where
  "RandomHeight rnd = RandomHeight_loop 1 rnd"

section \<open>Searching\<close>

definition KeyIsAfterNode :: "('k \<Rightarrow> 'k \<Rightarrow> int option) \<Rightarrow> 'k skiplist \<Rightarrow> 'k \<Rightarrow> nat option \<Rightarrow> bool option" where
  "KeyIsAfterNode compare sl key n = (case n of
       None \<Rightarrow> Some False
     | Some n \<Rightarrow> do { nd \<leftarrow> node_at sl n; c \<leftarrow> compare (node_key nd) key; Some (c < 0) })"

definition Equal :: "('k \<Rightarrow> 'k \<Rightarrow> int option) \<Rightarrow> 'k \<Rightarrow> 'k \<Rightarrow> bool option" where
  "Equal compare a b = do { c \<leftarrow> compare a b; Some (c = 0) }"

text \<open>\<^verbatim>\<open>prev\<close> is \<^verbatim>\<open>NULL\<close> or an array of \<^verbatim>\<open>kMaxHeight\<close> node pointers, uninitialised at first.\<close>

type_synonym prev_array = "nat option list"

definition store_prev :: "prev_array option \<Rightarrow> nat \<Rightarrow> nat \<Rightarrow> prev_array option option" where
  "store_prev prev level x = (case prev of
       None \<Rightarrow> Some None
     | Some p \<Rightarrow> if level < length p then Some (Some (p[level := Some x])) else None)"

partial_function (option) FindGreaterOrEqual_loop ::
    "('k \<Rightarrow> 'k \<Rightarrow> int option) \<Rightarrow> 'k skiplist \<Rightarrow> 'k \<Rightarrow> nat \<Rightarrow> nat \<Rightarrow> prev_array option \<Rightarrow>
      (nat option \<times> prev_array option) option" where
  [code]: "FindGreaterOrEqual_loop compare sl key x level prev = do {
     nxt \<leftarrow> Node_Next sl x level;
     after \<leftarrow> KeyIsAfterNode compare sl key nxt;
     if after then FindGreaterOrEqual_loop compare sl key (case nxt of None \<Rightarrow> x | Some n \<Rightarrow> n) level prev
     else do {
       prev \<leftarrow> store_prev prev level x;
       if level = 0 then Some (nxt, prev)
       else FindGreaterOrEqual_loop compare sl key x (level - 1) prev
     }
   }"

definition FindGreaterOrEqual ::
    "('k \<Rightarrow> 'k \<Rightarrow> int option) \<Rightarrow> 'k skiplist \<Rightarrow> 'k \<Rightarrow> prev_array option \<Rightarrow> (nat option \<times> prev_array option) option" where
  "FindGreaterOrEqual compare sl key prev =
     FindGreaterOrEqual_loop compare sl key head_node (sl_max_height sl - 1) prev"

partial_function (option) FindLessThan_loop ::
    "('k \<Rightarrow> 'k \<Rightarrow> int option) \<Rightarrow> 'k skiplist \<Rightarrow> 'k \<Rightarrow> nat \<Rightarrow> nat \<Rightarrow> nat option" where
  [code]: "FindLessThan_loop compare sl key x level = do {
     before \<leftarrow> (if x = head_node then Some True
       else do { nd \<leftarrow> node_at sl x; c \<leftarrow> compare (node_key nd) key; Some (c < 0) });
     if \<not> before then None else do {
       nxt \<leftarrow> Node_Next sl x level;
       stop \<leftarrow> (case nxt of None \<Rightarrow> Some True
         | Some n \<Rightarrow> do { nd \<leftarrow> node_at sl n; c \<leftarrow> compare (node_key nd) key; Some (c \<ge> 0) });
       if stop then (if level = 0 then Some x else FindLessThan_loop compare sl key x (level - 1))
       else FindLessThan_loop compare sl key (case nxt of None \<Rightarrow> x | Some n \<Rightarrow> n) level
     }
   }"

definition FindLessThan :: "('k \<Rightarrow> 'k \<Rightarrow> int option) \<Rightarrow> 'k skiplist \<Rightarrow> 'k \<Rightarrow> nat option" where
  "FindLessThan compare sl key = FindLessThan_loop compare sl key head_node (sl_max_height sl - 1)"

partial_function (option) FindLast_loop :: "'k skiplist \<Rightarrow> nat \<Rightarrow> nat \<Rightarrow> nat option" where
  [code]: "FindLast_loop sl x level = do {
     nxt \<leftarrow> Node_Next sl x level;
     case nxt of
       None \<Rightarrow> if level = 0 then Some x else FindLast_loop sl x (level - 1)
     | Some n \<Rightarrow> FindLast_loop sl n level
   }"

definition FindLast :: "'k skiplist \<Rightarrow> nat option" where
  "FindLast sl = FindLast_loop sl head_node (sl_max_height sl - 1)"

section \<open>Insertion\<close>

text \<open>One round of the linking loop: \<^verbatim>\<open>x->next[i] = prev[i]->next[i]; prev[i]->next[i] = x\<close>.\<close>

definition link_level :: "'k skiplist \<Rightarrow> nat \<Rightarrow> prev_array \<Rightarrow> nat \<Rightarrow> 'k skiplist option" where
  "link_level sl x prev i = do {
     p \<leftarrow> (if i < length prev then prev ! i else None);
     nxt \<leftarrow> Node_Next sl p i;
     sl \<leftarrow> Node_SetNext sl x i nxt;
     Node_SetNext sl p i (Some x)
   }"

fun link_levels :: "'k skiplist \<Rightarrow> nat \<Rightarrow> prev_array \<Rightarrow> nat \<Rightarrow> nat \<Rightarrow> 'k skiplist option" where
  "link_levels sl x prev i 0 = Some sl"
| "link_levels sl x prev i (Suc n) = do { sl \<leftarrow> link_level sl x prev i; link_levels sl x prev (i + 1) n }"

definition raise_height :: "'k skiplist \<Rightarrow> prev_array \<Rightarrow> nat \<Rightarrow> 'k skiplist \<times> prev_array" where
  "raise_height sl prev height =
     (if height > sl_max_height sl
      then (sl\<lparr>sl_max_height := height\<rparr>,
            map (\<lambda>i. if sl_max_height sl \<le> i \<and> i < height then Some head_node else prev ! i) [0..<length prev])
      else (sl, prev))"

text \<open>\<^verbatim>\<open>Insert\<close> up to the linking loop: the new node, its predecessors and its height.\<close>

definition Insert_prepare :: "('k \<Rightarrow> 'k \<Rightarrow> int option) \<Rightarrow> 'k skiplist \<Rightarrow> 'k \<Rightarrow>
    ('k skiplist \<times> nat \<times> prev_array \<times> nat) option" where
  "Insert_prepare compare sl key = do {
     (x, p) \<leftarrow> FindGreaterOrEqual compare sl key (Some (replicate kMaxHeight None));
     prev \<leftarrow> p;
     dup \<leftarrow> (case x of None \<Rightarrow> Some False
       | Some n \<Rightarrow> do { nd \<leftarrow> node_at sl n; Equal compare key (node_key nd) });
     if dup then None else do {
       let (height, rnd) = RandomHeight (sl_rnd sl);
       let (sl, prev) = raise_height (sl\<lparr>sl_rnd := rnd\<rparr>) prev height;
       let (x, sl) = NewNode sl key height;
       Some (sl, x, prev, height)
     }
   }"

definition Insert :: "('k \<Rightarrow> 'k \<Rightarrow> int option) \<Rightarrow> 'k skiplist \<Rightarrow> 'k \<Rightarrow> 'k skiplist option" where
  "Insert compare sl key = do {
     (sl, x, prev, height) \<leftarrow> Insert_prepare compare sl key;
     link_levels sl x prev 0 height
   }"

definition Contains :: "('k \<Rightarrow> 'k \<Rightarrow> int option) \<Rightarrow> 'k skiplist \<Rightarrow> 'k \<Rightarrow> bool option" where
  "Contains compare sl key = do {
     (x, p) \<leftarrow> FindGreaterOrEqual compare sl key None;
     case x of None \<Rightarrow> Some False
     | Some n \<Rightarrow> do { nd \<leftarrow> node_at sl n; Equal compare key (node_key nd) }
   }"

section \<open>Iterators\<close>

text \<open>An iterator is the member \<^verbatim>\<open>node_\<close>, \<open>None\<close> for \<^verbatim>\<open>NULL\<close>.\<close>

type_synonym sl_iterator = "nat option"

definition Iterator_Valid :: "sl_iterator \<Rightarrow> bool" where
  "Iterator_Valid it \<longleftrightarrow> it \<noteq> None"

definition Iterator_key :: "'k skiplist \<Rightarrow> sl_iterator \<Rightarrow> 'k option" where
  "Iterator_key sl it = do { n \<leftarrow> it; nd \<leftarrow> node_at sl n; Some (node_key nd) }"

definition Iterator_Next :: "'k skiplist \<Rightarrow> sl_iterator \<Rightarrow> sl_iterator option" where
  "Iterator_Next sl it = do { n \<leftarrow> it; Node_Next sl n 0 }"

definition Iterator_Prev :: "('k \<Rightarrow> 'k \<Rightarrow> int option) \<Rightarrow> 'k skiplist \<Rightarrow> sl_iterator \<Rightarrow> sl_iterator option" where
  "Iterator_Prev compare sl it = do {
     n \<leftarrow> it;
     nd \<leftarrow> node_at sl n;
     m \<leftarrow> FindLessThan compare sl (node_key nd);
     Some (if m = head_node then None else Some m)
   }"

definition Iterator_Seek :: "('k \<Rightarrow> 'k \<Rightarrow> int option) \<Rightarrow> 'k skiplist \<Rightarrow> 'k \<Rightarrow> sl_iterator option" where
  "Iterator_Seek compare sl target = do { (x, p) \<leftarrow> FindGreaterOrEqual compare sl target None; Some x }"

definition Iterator_SeekToFirst :: "'k skiplist \<Rightarrow> sl_iterator option" where
  "Iterator_SeekToFirst sl = Node_Next sl head_node 0"

definition Iterator_SeekToLast :: "'k skiplist \<Rightarrow> sl_iterator option" where
  "Iterator_SeekToLast sl = do { m \<leftarrow> FindLast sl; Some (if m = head_node then None else Some m) }"

end
