(* ===== verification/L_SkipList_Props.thy ===== *)
theory L_SkipList_Props
  imports L_SkipList
begin

text \<open>
  Correctness of the skip list: every search returns the position of the sorted list of its keys,
  \<open>Insert\<close> is sorted insertion, and the invariant holds after every single store of \<open>Insert\<close>, so
  readers that run between two stores find either the old or the new contents.
\<close>

section \<open>The list of a level\<close>

definition key_of :: "'k skiplist \<Rightarrow> nat \<Rightarrow> 'k" where
  "key_of sl n = node_key (sl_nodes sl ! n)"

primrec first_of :: "'a list \<Rightarrow> 'a option" where
  "first_of [] = None"
| "first_of (y # ys) = Some y"

fun chain :: "'k skiplist \<Rightarrow> nat \<Rightarrow> nat \<Rightarrow> nat list \<Rightarrow> bool" where
  "chain sl l x [] \<longleftrightarrow> Node_Next sl x l = Some None"
| "chain sl l x (y # ys) \<longleftrightarrow> Node_Next sl x l = Some (Some y) \<and> chain sl l y ys"

lemma chain_nextD: "chain sl l x (P @ R) \<Longrightarrow> Node_Next sl (last (x # P)) l = Some (first_of R)"
  by (induction P arbitrary: x) (cases R; auto)+

lemma chain_suffix: "chain sl l x (P @ R) \<Longrightarrow> chain sl l (last (x # P)) R"
  by (induction P arbitrary: x) auto

lemma chain_cong:
  "chain sl l x ys \<Longrightarrow> (\<And>y. y \<in> set (x # ys) \<Longrightarrow> Node_Next sl' y l = Node_Next sl y l) \<Longrightarrow> chain sl' l x ys"
  by (induction ys arbitrary: x) auto

lemma chain_insert:
  assumes "chain sl l x (P @ R)" and "distinct (x # P @ R)" and "n \<notin> set (x # P @ R)"
    and links: "\<And>y. Node_Next sl' y l = (if y = last (x # P) then Some (Some n)
      else if y = n then Some (first_of R) else Node_Next sl y l)"
  shows "chain sl' l x (P @ n # R)"
  using assms(1-3) links
proof (induction P arbitrary: x)
  case Nil
  then have "chain sl' l n R" by (cases R) (auto intro: chain_cong)
  with Nil show ?case by auto
next
  case (Cons y P)
  then have "chain sl' l y (P @ n # R)" by (intro Cons.IH) auto
  moreover have "x \<noteq> last (x # y # P)" using Cons.prems(2) by (auto split: if_splits)
  ultimately show ?case using Cons.prems by auto
qed

section \<open>The invariant\<close>

definition sl_inv :: "('k \<Rightarrow> 'k \<Rightarrow> int option) \<Rightarrow> ('k \<Rightarrow> bool) \<Rightarrow> 'k skiplist \<Rightarrow> (nat \<Rightarrow> nat list) \<Rightarrow> bool" where
  "sl_inv cmp valid sl L \<longleftrightarrow>
     1 \<le> sl_max_height sl \<and> sl_max_height sl \<le> kMaxHeight \<and>
     (\<forall>l<kMaxHeight. chain sl l head_node (L l)) \<and>
     (\<forall>l<kMaxHeight. sorted_wrt (\<lambda>a b. cmp_less cmp (key_of sl a) (key_of sl b)) (L l)) \<and>
     (\<forall>l. Suc l < kMaxHeight \<longrightarrow> set (L (Suc l)) \<subseteq> set (L l)) \<and>
     (\<forall>l<kMaxHeight. sl_max_height sl \<le> l \<longrightarrow> L l = []) \<and>
     (\<forall>n\<in>set (L 0). n \<noteq> head_node \<and> n < length (sl_nodes sl) \<and> valid (key_of sl n))"

definition sl_keys :: "'k skiplist \<Rightarrow> (nat \<Rightarrow> nat list) \<Rightarrow> 'k list" where
  "sl_keys sl L = map (key_of sl) (L 0)"

lemma kMaxHeight_pos [simp]: "0 < kMaxHeight" "kMaxHeight \<noteq> 0"
  by (simp_all add: kMaxHeight_def)

lemma sl_inv_subset: "sl_inv cmp valid sl L \<Longrightarrow> l < kMaxHeight \<Longrightarrow> set (L l) \<subseteq> set (L 0)"
proof (induction l)
  case (Suc l)
  then have "set (L (Suc l)) \<subseteq> set (L l)" by (simp add: sl_inv_def)
  with Suc show ?case by auto
qed simp

lemma sl_inv_node:
  assumes "sl_inv cmp valid sl L" and "l < kMaxHeight" and "n \<in> set (L l)"
  shows "n \<noteq> head_node" and "n < length (sl_nodes sl)" and "valid (key_of sl n)"
  using assms sl_inv_subset [OF assms(1,2)] by (auto simp: sl_inv_def)

lemma node_at_key: "n < length (sl_nodes sl) \<Longrightarrow> node_at sl n = Some (sl_nodes sl ! n) \<and> node_key (sl_nodes sl ! n) = key_of sl n"
  by (simp add: node_at_def key_of_def)

lemma sl_inv_SkipList: "sl_inv cmp valid (SkipList k) (\<lambda>_. [])"
  by (auto simp: sl_inv_def SkipList_def Node_Next_def node_at_def head_node_def kMaxHeight_def)

text \<open>The nodes of a level before the target and the others.\<close>

definition before :: "('k \<Rightarrow> 'k \<Rightarrow> int option) \<Rightarrow> 'k skiplist \<Rightarrow> 'k \<Rightarrow> nat \<Rightarrow> bool" where
  "before cmp sl key n \<longleftrightarrow> cmp_less cmp (key_of sl n) key"

definition lower :: "('k \<Rightarrow> 'k \<Rightarrow> int option) \<Rightarrow> 'k skiplist \<Rightarrow> 'k \<Rightarrow> nat list \<Rightarrow> nat list" where
  "lower cmp sl key ns = takeWhile (before cmp sl key) ns"

definition upper :: "('k \<Rightarrow> 'k \<Rightarrow> int option) \<Rightarrow> 'k skiplist \<Rightarrow> 'k \<Rightarrow> nat list \<Rightarrow> nat list" where
  "upper cmp sl key ns = dropWhile (before cmp sl key) ns"

lemma lower_upper [simp]: "lower cmp sl key ns @ upper cmp sl key ns = ns"
  by (simp add: lower_def upper_def)

section \<open>Searching\<close>

context comparator
begin

lemma upper_not_before:
  assumes "sorted_wrt (\<lambda>a b. cmp_less Compare (key_of sl a) (key_of sl b)) ns"
    and "\<And>n. n \<in> set ns \<Longrightarrow> valid (key_of sl n)" and "valid key" and "n \<in> set (upper Compare sl key ns)"
  shows "\<not> before Compare sl key n"
  using assms
proof (induction ns)
  case (Cons a ns)
  show ?case
  proof (cases "before Compare sl key a")
    case True
    with Cons show ?thesis by (simp add: upper_def)
  next
    case False
    then have n: "n \<in> set (a # ns)" using Cons.prems(4) by (simp add: upper_def)
    show ?thesis
    proof
      assume b: "before Compare sl key n"
      with False n have "n \<in> set ns" by auto
      then have "cmp_less Compare (key_of sl a) (key_of sl n)" using Cons.prems(1) by simp
      then have "cmp_less Compare (key_of sl a) key"
        using b less_trans Cons.prems(2,3) n unfolding before_def by (metis list.set_intros(1))
      with False show False by (simp add: before_def)
    qed
  qed
qed (simp add: upper_def)

lemma set_lower:
  assumes "sl_inv Compare valid sl L" and "l < kMaxHeight" and "valid key"
  shows "set (lower Compare sl key (L l)) = {n \<in> set (L l). before Compare sl key n}"
proof -
  have "n \<in> set (L l) \<Longrightarrow> valid (key_of sl n)" for n using sl_inv_node [OF assms(1,2)] by blast
  moreover have "sorted_wrt (\<lambda>a b. cmp_less Compare (key_of sl a) (key_of sl b)) (L l)"
    using assms by (simp add: sl_inv_def)
  ultimately have "n \<in> set (upper Compare sl key (L l)) \<Longrightarrow> \<not> before Compare sl key n" for n
    using upper_not_before assms(3) by blast
  moreover have "n \<in> set (lower Compare sl key (L l)) \<Longrightarrow> before Compare sl key n" for n
    by (auto simp: lower_def dest: set_takeWhileD)
  moreover have "set (L l) = set (lower Compare sl key (L l)) \<union> set (upper Compare sl key (L l))"
    by (metis lower_upper set_append)
  ultimately show ?thesis by blast
qed

lemma upper_nodes:
  assumes "sl_inv Compare valid sl L" and "l < kMaxHeight" and "valid key"
    and "n \<in> set (upper Compare sl key (L l))"
  shows "n < length (sl_nodes sl)" and "valid (key_of sl n)" and "\<not> before Compare sl key n"
proof -
  have n: "n \<in> set (L l)" using assms(4) by (metis UnCI lower_upper set_append)
  then show "n < length (sl_nodes sl)" "valid (key_of sl n)" using sl_inv_node [OF assms(1,2)] by auto
  show "\<not> before Compare sl key n"
    using upper_not_before [OF _ _ assms(3,4)] sl_inv_node [OF assms(1,2)] assms(1,2) by (simp add: sl_inv_def)
qed

text \<open>The node a search reaches on a level, and its way to the predecessor of the target.\<close>

abbreviation pred_at :: "'k skiplist \<Rightarrow> (nat \<Rightarrow> nat list) \<Rightarrow> 'k \<Rightarrow> nat \<Rightarrow> nat" where
  "pred_at sl L key l \<equiv> last (head_node # lower Compare sl key (L l))"

lemma search_path:
  assumes "sl_inv Compare valid sl L" and "l < kMaxHeight"
    and "x \<in> insert head_node (set (lower Compare sl key (L l)))"
  obtains Q where "chain sl l x (Q @ upper Compare sl key (L l))"
    and "last (x # Q) = pred_at sl L key l" and "set Q \<subseteq> set (lower Compare sl key (L l))"
proof (cases "x = head_node")
  case True
  have "chain sl l head_node (lower Compare sl key (L l) @ upper Compare sl key (L l))"
    using assms by (simp add: sl_inv_def)
  with True show ?thesis using that by blast
next
  case False
  with assms(3) obtain P Q where low: "lower Compare sl key (L l) = P @ x # Q" by (auto dest: split_list)
  have "chain sl l head_node (lower Compare sl key (L l) @ upper Compare sl key (L l))"
    using assms by (simp add: sl_inv_def)
  then have "chain sl l head_node ((P @ [x]) @ (Q @ upper Compare sl key (L l)))" by (simp add: low)
  from chain_suffix [OF this] have "chain sl l x (Q @ upper Compare sl key (L l))" by simp
  moreover have "last (x # Q) = pred_at sl L key l" by (simp add: low)
  moreover have "set Q \<subseteq> set (lower Compare sl key (L l))" by (auto simp: low)
  ultimately show ?thesis by (rule that)
qed

lemma pred_at_next:
  assumes "sl_inv Compare valid sl L" and "l < kMaxHeight"
  shows "Node_Next sl (pred_at sl L key l) l = Some (first_of (upper Compare sl key (L l)))"
  using assms chain_nextD [of sl l head_node "lower Compare sl key (L l)" "upper Compare sl key (L l)"]
  by (simp add: sl_inv_def)

lemma pred_at_down:
  assumes "sl_inv Compare valid sl L" and "Suc l < kMaxHeight" and "valid key"
  shows "pred_at sl L key (Suc l) \<in> insert head_node (set (lower Compare sl key (L l)))"
proof -
  have "pred_at sl L key (Suc l) \<in> insert head_node (set (lower Compare sl key (L (Suc l))))"
    by (metis last_in_set list.simps(15) list.distinct(1))
  moreover have "set (L (Suc l)) \<subseteq> set (L l)" using assms by (simp add: sl_inv_def)
  ultimately show ?thesis using set_lower [OF assms(1,2,3)] set_lower [OF assms(1) _ assms(3), of l] assms(2) by auto
qed

lemma find_ge_walk:
  "chain sl l x (Q @ R) \<Longrightarrow> (\<forall>y\<in>set Q. y < length (sl_nodes sl) \<and> before Compare sl key y) \<Longrightarrow>
   FindGreaterOrEqual_loop Compare sl key x l prev = FindGreaterOrEqual_loop Compare sl key (last (x # Q)) l prev"
proof (induction Q arbitrary: x)
  case (Cons y Q)
  then have "KeyIsAfterNode Compare sl key (Some y) = Some True"
    using node_at_key [of y sl] by (auto simp: KeyIsAfterNode_def before_def cmp_less_def split: option.splits)
  with Cons have "FindGreaterOrEqual_loop Compare sl key x l prev = FindGreaterOrEqual_loop Compare sl key y l prev"
    by (subst FindGreaterOrEqual_loop.simps) simp
  with Cons show ?case by simp
qed simp

lemma find_ge_down:
  assumes "Node_Next sl x l = Some (first_of R)"
    and "\<forall>y\<in>set R. y < length (sl_nodes sl) \<and> valid (key_of sl y) \<and> \<not> before Compare sl key y" and "valid key"
  shows "FindGreaterOrEqual_loop Compare sl key x l prev = do {
     prev \<leftarrow> store_prev prev l x;
     if l = 0 then Some (first_of R, prev) else FindGreaterOrEqual_loop Compare sl key x (l - 1) prev }"
proof -
  have "KeyIsAfterNode Compare sl key (first_of R) = Some False"
  proof (cases R)
    case (Cons y R')
    then obtain c where "Compare (key_of sl y) key = Some c" using assms Compare_returns by fastforce
    with assms Cons show ?thesis
      using node_at_key [of y sl] by (auto simp: KeyIsAfterNode_def before_def cmp_less_def)
  qed (simp add: KeyIsAfterNode_def)
  with assms show ?thesis by (subst FindGreaterOrEqual_loop.simps) simp
qed

definition fill_prev :: "'k skiplist \<Rightarrow> (nat \<Rightarrow> nat list) \<Rightarrow> 'k \<Rightarrow> nat \<Rightarrow> prev_array option \<Rightarrow> prev_array option" where
  "fill_prev sl L key l = map_option (\<lambda>p. map (\<lambda>i. if i \<le> l then Some (pred_at sl L key i) else p ! i) [0..<kMaxHeight])"

lemma find_ge_round:
  assumes inv: "sl_inv Compare valid sl L" and key: "valid key" and l: "l < kMaxHeight"
    and x: "x \<in> insert head_node (set (lower Compare sl key (L l)))"
  shows "FindGreaterOrEqual_loop Compare sl key x l prev = do {
     prev \<leftarrow> store_prev prev l (pred_at sl L key l);
     if l = 0 then Some (first_of (upper Compare sl key (L l)), prev)
     else FindGreaterOrEqual_loop Compare sl key (pred_at sl L key l) (l - 1) prev }"
proof -
  obtain Q where Q: "chain sl l x (Q @ upper Compare sl key (L l))" "last (x # Q) = pred_at sl L key l"
    "set Q \<subseteq> set (lower Compare sl key (L l))"
    using search_path [OF inv l x] by blast
  have "\<forall>y\<in>set Q. y < length (sl_nodes sl) \<and> before Compare sl key y"
    using Q(3) set_lower [OF inv l key] sl_inv_node [OF inv l] by auto
  from find_ge_walk [OF Q(1) this, of prev] have "FindGreaterOrEqual_loop Compare sl key x l prev =
      FindGreaterOrEqual_loop Compare sl key (pred_at sl L key l) l prev"
    using Q(2) by simp
  also have "\<dots> = do {
     prev \<leftarrow> store_prev prev l (pred_at sl L key l);
     if l = 0 then Some (first_of (upper Compare sl key (L l)), prev)
     else FindGreaterOrEqual_loop Compare sl key (pred_at sl L key l) (l - 1) prev }"
    using upper_nodes [OF inv l key] by (intro find_ge_down [OF pred_at_next [OF inv l] _ key]) blast
  finally show ?thesis .
qed

lemma find_ge_level:
  assumes inv: "sl_inv Compare valid sl L" and key: "valid key"
  shows "l < kMaxHeight \<Longrightarrow> x \<in> insert head_node (set (lower Compare sl key (L l))) \<Longrightarrow>
    (\<forall>p. prev = Some p \<longrightarrow> length p = kMaxHeight) \<Longrightarrow>
    FindGreaterOrEqual_loop Compare sl key x l prev =
      Some (first_of (upper Compare sl key (L 0)), fill_prev sl L key l prev)"
proof (induction l arbitrary: x prev)
  case (0 x prev)
  show ?case
  proof (cases prev)
    case None
    then show ?thesis
      using find_ge_round [OF inv key 0(1,2), of prev] by (simp add: store_prev_def fill_prev_def)
  next
    case (Some p)
    then have "p[0 := Some (pred_at sl L key 0)] =
        map (\<lambda>i. if i \<le> 0 then Some (pred_at sl L key i) else p ! i) [0..<kMaxHeight]"
      using 0(3) by (intro nth_equalityI) (auto simp: nth_list_update)
    with Some show ?thesis
      using find_ge_round [OF inv key 0(1,2), of prev] 0(3) by (simp add: store_prev_def fill_prev_def)
  qed
next
  case (Suc l x prev)
  have step: "FindGreaterOrEqual_loop Compare sl key x (Suc l) prev = do {
      prev \<leftarrow> store_prev prev (Suc l) (pred_at sl L key (Suc l));
      FindGreaterOrEqual_loop Compare sl key (pred_at sl L key (Suc l)) l prev }"
    using find_ge_round [OF inv key Suc.prems(1,2), of prev] by simp
  have down: "pred_at sl L key (Suc l) \<in> insert head_node (set (lower Compare sl key (L l)))"
    by (rule pred_at_down [OF inv Suc.prems(1) key])
  show ?case
  proof (cases prev)
    case None
    with step Suc.IH [OF _ down, of None] Suc.prems(1) show ?thesis by (simp add: store_prev_def fill_prev_def)
  next
    case (Some p)
    let ?p = "p[Suc l := Some (pred_at sl L key (Suc l))]"
    have len: "length p = kMaxHeight" using Some Suc.prems(3) by simp
    then have "FindGreaterOrEqual_loop Compare sl key x (Suc l) prev =
        Some (first_of (upper Compare sl key (L 0)), fill_prev sl L key l (Some ?p))"
      using Some step Suc.IH [OF _ down, of "Some ?p"] Suc.prems(1) by (simp add: store_prev_def)
    moreover have "fill_prev sl L key l (Some ?p) = fill_prev sl L key (Suc l) (Some p)"
      using len Suc.prems(1) by (auto simp: fill_prev_def nth_list_update le_Suc_eq)
    ultimately show ?thesis using Some by simp
  qed
qed

lemma FindGreaterOrEqual_correct:
  assumes "sl_inv Compare valid sl L" and "valid key" and "\<forall>p. prev = Some p \<longrightarrow> length p = kMaxHeight"
  shows "FindGreaterOrEqual Compare sl key prev =
    Some (first_of (upper Compare sl key (L 0)), fill_prev sl L key (sl_max_height sl - 1) prev)"
proof -
  have "sl_max_height sl - 1 < kMaxHeight" using assms(1) by (auto simp: sl_inv_def)
  then show ?thesis unfolding FindGreaterOrEqual_def by (intro find_ge_level [OF assms(1,2)] assms(3)) simp_all
qed

lemma less_than_walk:
  "chain sl l x (Q @ R) \<Longrightarrow> x = head_node \<or> x < length (sl_nodes sl) \<and> before Compare sl key x \<Longrightarrow>
   (\<forall>y\<in>set Q. y < length (sl_nodes sl) \<and> before Compare sl key y) \<Longrightarrow>
   FindLessThan_loop Compare sl key x l = FindLessThan_loop Compare sl key (last (x # Q)) l"
proof (induction Q arbitrary: x)
  case (Cons y Q)
  have bx: "(if x = head_node then Some True
      else do { nd \<leftarrow> node_at sl x; c \<leftarrow> Compare (node_key nd) key; Some (c < 0) }) = Some True"
    using Cons.prems(2) node_at_key [of x sl] by (auto simp: before_def cmp_less_def split: option.splits)
  have "do { nd \<leftarrow> node_at sl y; c \<leftarrow> Compare (node_key nd) key; Some (c \<ge> 0) } = Some False"
    using Cons.prems(3) node_at_key [of y sl] by (auto simp: before_def cmp_less_def split: option.splits)
  then have "FindLessThan_loop Compare sl key x l = FindLessThan_loop Compare sl key y l"
    using Cons.prems(1) by (subst FindLessThan_loop.simps, subst bx) simp
  also have "\<dots> = FindLessThan_loop Compare sl key (last (y # Q)) l"
    using Cons.prems by (intro Cons.IH) auto
  finally show ?case by simp
qed simp

lemma less_than_down:
  assumes nxt: "Node_Next sl x l = Some (first_of R)"
    and x: "x = head_node \<or> x < length (sl_nodes sl) \<and> before Compare sl key x"
    and R: "\<forall>y\<in>set R. y < length (sl_nodes sl) \<and> valid (key_of sl y) \<and> \<not> before Compare sl key y" and "valid key"
  shows "FindLessThan_loop Compare sl key x l =
    (if l = 0 then Some x else FindLessThan_loop Compare sl key x (l - 1))"
proof -
  have bx: "(if x = head_node then Some True
      else do { nd \<leftarrow> node_at sl x; c \<leftarrow> Compare (node_key nd) key; Some (c < 0) }) = Some True"
    using x node_at_key [of x sl] by (auto simp: before_def cmp_less_def split: option.splits)
  have "(case first_of R of None \<Rightarrow> Some True
      | Some n \<Rightarrow> do { nd \<leftarrow> node_at sl n; c \<leftarrow> Compare (node_key nd) key; Some (c \<ge> 0) }) = Some True"
  proof (cases R)
    case (Cons y R')
    then obtain c where "Compare (key_of sl y) key = Some c" using assms Compare_returns by fastforce
    with R Cons show ?thesis
      using node_at_key [of y sl] by (auto simp: before_def cmp_less_def)
  qed simp
  then show ?thesis using nxt by (subst FindLessThan_loop.simps, subst bx) simp
qed

lemma less_than_round:
  assumes inv: "sl_inv Compare valid sl L" and key: "valid key" and l: "l < kMaxHeight"
    and x: "x \<in> insert head_node (set (lower Compare sl key (L l)))"
  shows "FindLessThan_loop Compare sl key x l =
    (if l = 0 then Some (pred_at sl L key l) else FindLessThan_loop Compare sl key (pred_at sl L key l) (l - 1))"
proof -
  have low: "y \<in> set (lower Compare sl key (L l)) \<Longrightarrow> y < length (sl_nodes sl) \<and> before Compare sl key y" for y
    using set_lower [OF inv l key] sl_inv_node [OF inv l] by auto
  obtain Q where Q: "chain sl l x (Q @ upper Compare sl key (L l))" "last (x # Q) = pred_at sl L key l"
    "set Q \<subseteq> set (lower Compare sl key (L l))"
    using search_path [OF inv l x] by blast
  have "FindLessThan_loop Compare sl key x l = FindLessThan_loop Compare sl key (pred_at sl L key l) l"
    unfolding Q(2) [symmetric] by (rule less_than_walk [OF Q(1)]) (use low x Q(3) in blast)+
  also have "\<dots> = (if l = 0 then Some (pred_at sl L key l)
      else FindLessThan_loop Compare sl key (pred_at sl L key l) (l - 1))"
  proof (rule less_than_down [OF pred_at_next [OF inv l] _ _ key])
    have "pred_at sl L key l \<in> insert head_node (set (lower Compare sl key (L l)))" by simp
    then show "pred_at sl L key l = head_node \<or>
        pred_at sl L key l < length (sl_nodes sl) \<and> before Compare sl key (pred_at sl L key l)"
      using low by blast
  qed (use upper_nodes [OF inv l key] in blast)
  finally show ?thesis .
qed

lemma less_than_level:
  assumes inv: "sl_inv Compare valid sl L" and key: "valid key"
  shows "l < kMaxHeight \<Longrightarrow> x \<in> insert head_node (set (lower Compare sl key (L l))) \<Longrightarrow>
    FindLessThan_loop Compare sl key x l = Some (pred_at sl L key 0)"
proof (induction l arbitrary: x)
  case (Suc l x)
  then show ?case
    using less_than_round [OF inv key Suc.prems] pred_at_down [OF inv Suc.prems(1) key] Suc.IH by simp
qed (use less_than_round [OF inv key] in simp)

lemma FindLessThan_correct:
  assumes "sl_inv Compare valid sl L" and "valid key"
  shows "FindLessThan Compare sl key = Some (pred_at sl L key 0)"
proof -
  have "sl_max_height sl - 1 < kMaxHeight" using assms(1) by (auto simp: sl_inv_def)
  then show ?thesis unfolding FindLessThan_def by (intro less_than_level [OF assms]) simp_all
qed

lemma last_walk: "chain sl l x Q \<Longrightarrow> FindLast_loop sl x l =
    (if l = 0 then Some (last (x # Q)) else FindLast_loop sl (last (x # Q)) (l - 1))"
proof (induction Q arbitrary: x)
  case Nil
  then show ?case by (subst FindLast_loop.simps) simp
next
  case (Cons y Q)
  then have "FindLast_loop sl x l = FindLast_loop sl y l" by (subst FindLast_loop.simps) simp
  with Cons show ?case by simp
qed

lemma chain_tail:
  assumes "sl_inv Compare valid sl L" and "l < kMaxHeight" and "x \<in> insert head_node (set (L l))"
  obtains Q where "chain sl l x Q" and "last (x # Q) = last (head_node # L l)"
proof -
  have c: "chain sl l head_node (L l)" using assms by (simp add: sl_inv_def)
  show ?thesis
  proof (cases "x = head_node")
    case False
    with assms(3) obtain P Q where L: "L l = P @ x # Q" by (auto dest: split_list)
    with c have "chain sl l head_node ((P @ [x]) @ Q)" by simp
    from chain_suffix [OF this] show ?thesis using that [of Q] by (simp add: L)
  qed (use c that in blast)
qed

lemma last_level:
  assumes inv: "sl_inv Compare valid sl L"
  shows "l < kMaxHeight \<Longrightarrow> x \<in> insert head_node (set (L l)) \<Longrightarrow>
    FindLast_loop sl x l = Some (last (head_node # L 0))"
proof (induction l arbitrary: x)
  case l: (0 x)
  then obtain Q where Q: "chain sl 0 x Q" "last (x # Q) = last (head_node # L 0)"
    using chain_tail [OF inv, of 0 x] by blast
  show ?case unfolding Q(2) [symmetric] using last_walk [OF Q(1)] by simp
next
  case (Suc l x)
  then obtain Q where Q: "chain sl (Suc l) x Q" "last (x # Q) = last (head_node # L (Suc l))"
    using chain_tail [OF inv] by blast
  have "set (L (Suc l)) \<subseteq> set (L l)" using inv Suc.prems by (simp add: sl_inv_def)
  then have "last (head_node # L (Suc l)) \<in> insert head_node (set (L l))"
    by (metis insert_mono last_in_set list.distinct(1) list.simps(15) subsetD)
  then show ?case using last_walk [OF Q(1)] Q(2) Suc by simp
qed

lemma FindLast_correct:
  assumes "sl_inv Compare valid sl L"
  shows "FindLast sl = Some (last (head_node # L 0))"
proof -
  have "sl_max_height sl - 1 < kMaxHeight" using assms(1) by (auto simp: sl_inv_def)
  then show ?thesis unfolding FindLast_def by (intro last_level [OF assms]) simp_all
qed

end

end
