(* ===== verification/L_SkipList_Insert.thy ===== *)
theory L_SkipList_Insert
  imports L_SkipList_Props
begin

text \<open>
  \<open>Insert\<close> of the skip list: the effect of each store on the lists of the levels, sorted insertion
  as its functional behaviour, and the step relation of one writer and one reader whose stores and
  loads interleave.
\<close>

section \<open>The effect of a store\<close>

definition levels :: "'k skiplist \<Rightarrow> nat \<Rightarrow> nat" where
  "levels sl x = length (node_next (sl_nodes sl ! x))"

text \<open>Two states that differ in links only.\<close>

definition same_nodes :: "'k skiplist \<Rightarrow> 'k skiplist \<Rightarrow> bool" where
  "same_nodes sl sl' \<longleftrightarrow> length (sl_nodes sl') = length (sl_nodes sl) \<and> key_of sl' = key_of sl \<and>
     levels sl' = levels sl \<and> sl_max_height sl' = sl_max_height sl \<and> sl_rnd sl' = sl_rnd sl"

lemma same_nodes_trans: "same_nodes a b \<Longrightarrow> same_nodes b c \<Longrightarrow> same_nodes a c"
  by (simp add: same_nodes_def)

lemma Node_SetNext_effect:
  assumes "x < length (sl_nodes sl)" and "n < levels sl x"
  obtains sl' where "Node_SetNext sl x n v = Some sl'" and "same_nodes sl sl'"
    and "\<And>y m. Node_Next sl' y m = (if y = x \<and> m = n then Some v else Node_Next sl y m)"
proof -
  let ?nd = "sl_nodes sl ! x"
  let ?sl = "sl\<lparr>sl_nodes := (sl_nodes sl)[x := ?nd\<lparr>node_next := (node_next ?nd)[n := Some v]\<rparr>]\<rparr>"
  have "Node_SetNext sl x n v = Some ?sl"
    using assms by (simp add: Node_SetNext_def node_at_def levels_def)
  moreover have "same_nodes sl ?sl"
    using assms by (auto simp: same_nodes_def key_of_def levels_def nth_list_update fun_eq_iff)
  moreover have "Node_Next ?sl y m = (if y = x \<and> m = n then Some v else Node_Next sl y m)" for y m
    using assms by (auto simp: Node_Next_def node_at_def levels_def nth_list_update)
  ultimately show ?thesis by (rule that)
qed

lemma Node_Next_bound: "Node_Next sl x n = Some v \<Longrightarrow> x < length (sl_nodes sl) \<and> n < levels sl x"
  by (auto simp: Node_Next_def node_at_def levels_def split: if_splits)

lemma before_same: "same_nodes sl sl' \<Longrightarrow> before cmp sl' key n = before cmp sl key n"
  by (simp add: before_def same_nodes_def)

lemma lower_same: "same_nodes sl sl' \<Longrightarrow> lower cmp sl' key ns = lower cmp sl key ns"
  and upper_same: "same_nodes sl sl' \<Longrightarrow> upper cmp sl' key ns = upper cmp sl key ns"
  by (simp_all add: lower_def upper_def before_def same_nodes_def cong: takeWhile_cong dropWhile_cong)

lemma sl_inv_parts:
  assumes "sl_inv cmp valid sl L"
  shows "1 \<le> sl_max_height sl" and "sl_max_height sl \<le> kMaxHeight"
    and "l < kMaxHeight \<Longrightarrow> chain sl l head_node (L l)"
    and "l < kMaxHeight \<Longrightarrow> sorted_wrt (\<lambda>a b. cmp_less cmp (key_of sl a) (key_of sl b)) (L l)"
    and "Suc l < kMaxHeight \<Longrightarrow> set (L (Suc l)) \<subseteq> set (L l)"
    and "l < kMaxHeight \<Longrightarrow> sl_max_height sl \<le> l \<Longrightarrow> L l = []"
  using assms unfolding sl_inv_def by blast+

lemma sl_inv_head: "sl_inv cmp valid sl L \<Longrightarrow> head_node < length (sl_nodes sl)"
proof -
  assume "sl_inv cmp valid sl L"
  then have "chain sl 0 head_node (L 0)" by (simp add: sl_inv_def)
  then show ?thesis by (cases "L 0") (auto dest: Node_Next_bound)
qed

text \<open>A new node, a new height and a store into a node that is not linked on that level keep the invariant.\<close>

lemma sl_inv_transfer:
  assumes inv: "sl_inv cmp valid sl L" and "sl_max_height sl \<le> sl_max_height sl'" "sl_max_height sl' \<le> kMaxHeight"
    and "length (sl_nodes sl) \<le> length (sl_nodes sl')"
    and "\<And>n. n < length (sl_nodes sl) \<Longrightarrow> key_of sl' n = key_of sl n"
    and links: "\<And>n l. l < kMaxHeight \<Longrightarrow> n \<in> insert head_node (set (L l)) \<Longrightarrow> Node_Next sl' n l = Node_Next sl n l"
  shows "sl_inv cmp valid sl' L"
proof -
  have "chain sl' l head_node (L l)" if "l < kMaxHeight" for l
  proof (rule chain_cong)
    show "chain sl l head_node (L l)" by (rule sl_inv_parts(3) [OF inv that])
    show "Node_Next sl' y l = Node_Next sl y l" if "y \<in> set (head_node # L l)" for y
      using links [OF \<open>l < kMaxHeight\<close>] that by simp
  qed
  moreover have "sorted_wrt (\<lambda>a b. cmp_less cmp (key_of sl' a) (key_of sl' b)) (L l)" if "l < kMaxHeight" for l
  proof -
    have "sorted_wrt (\<lambda>a b. cmp_less cmp (key_of sl a) (key_of sl b)) (L l)" by (rule sl_inv_parts(4) [OF inv that])
    moreover have "key_of sl' n = key_of sl n" if "n \<in> set (L l)" for n
      using sl_inv_node(2) [OF inv \<open>l < kMaxHeight\<close> that] assms(5) by simp
    ultimately show ?thesis by (elim sorted_wrt_mono_rel [rotated]) metis
  qed
  moreover have "n < length (sl_nodes sl')" "valid (key_of sl' n)" "n \<noteq> head_node" if "n \<in> set (L 0)" for n
    using sl_inv_node [OF inv, of 0 n] that assms(4,5) by auto
  moreover have "1 \<le> sl_max_height sl'" "sl_max_height sl' \<le> l \<Longrightarrow> sl_max_height sl \<le> l" for l
    using sl_inv_parts(1) [OF inv] assms(2) by linarith+
  ultimately show ?thesis using sl_inv_parts(5,6) [OF inv] assms(3) unfolding sl_inv_def by blast
qed

lemma sl_inv_same:
  assumes "sl_inv cmp valid sl L" and "same_nodes sl sl'"
    and "\<And>n l. l < kMaxHeight \<Longrightarrow> n \<in> insert head_node (set (L l)) \<Longrightarrow> Node_Next sl' n l = Node_Next sl n l"
  shows "sl_inv cmp valid sl' L"
  using assms by (intro sl_inv_transfer [OF assms(1)]) (auto simp: same_nodes_def sl_inv_def)

lemma RandomHeight_loop_bounds:
  "h \<le> kMaxHeight \<Longrightarrow> h \<le> fst (RandomHeight_loop h r) \<and> fst (RandomHeight_loop h r) \<le> kMaxHeight"
proof (induction h r rule: RandomHeight_loop.induct)
  case (1 h r)
  obtain q r' where q: "Next r = (q, r')" by fastforce
  show ?case
  proof (cases "h < kMaxHeight \<and> q mod 4 = 0")
    case True
    then have "RandomHeight_loop h r = RandomHeight_loop (h + 1) r'"
      using q by (subst RandomHeight_loop.simps) simp
    moreover have "h + 1 \<le> fst (RandomHeight_loop (h + 1) r') \<and> fst (RandomHeight_loop (h + 1) r') \<le> kMaxHeight"
      using True q "1.IH" [of "(q, r')" q r'] by simp
    ultimately show ?thesis by simp
  next
    case False
    then have "fst (RandomHeight_loop h r) = h"
      using q by (subst RandomHeight_loop.simps) auto
    with 1 show ?thesis by simp
  qed
qed

lemma RandomHeight_bounds: "1 \<le> fst (RandomHeight r) \<and> fst (RandomHeight r) \<le> kMaxHeight"
  using RandomHeight_loop_bounds [of 1 r] by (simp add: RandomHeight_def kMaxHeight_def)

context comparator
begin

definition fresh_key :: "'k skiplist \<Rightarrow> nat \<Rightarrow> 'k \<Rightarrow> nat list \<Rightarrow> bool" where
  "fresh_key sl x key ns \<longleftrightarrow> (\<forall>n\<in>set ns. n = x \<or> \<not> cmp_equal Compare key (key_of sl n))"

text \<open>The list of a level with the new node.\<close>

definition linked :: "'k skiplist \<Rightarrow> nat \<Rightarrow> 'k \<Rightarrow> nat list \<Rightarrow> nat list" where
  "linked sl x key ns = lower Compare sl key ns @ x # upper Compare sl key ns"

lemma linked_same: "same_nodes sl sl' \<Longrightarrow> linked sl' x key ns = linked sl x key ns"
  by (simp add: linked_def lower_same [of sl] upper_same [of sl])

lemma set_linked [simp]: "set (linked sl x key ns) = insert x (set ns)"
proof -
  have "set ns = set (lower Compare sl key ns) \<union> set (upper Compare sl key ns)"
    by (metis lower_upper set_append)
  then show ?thesis by (auto simp: linked_def)
qed

lemma sorted_linked:
  assumes inv: "sl_inv Compare valid sl L" and l: "l < kMaxHeight" and key: "valid key"
    and "key_of sl x = key" and "x \<notin> set (L l)" and "fresh_key sl x key (L l)"
  shows "sorted_wrt (\<lambda>a b. cmp_less Compare (key_of sl a) (key_of sl b)) (linked sl x key (L l))"
proof -
  have sorted: "sorted_wrt (\<lambda>a b. cmp_less Compare (key_of sl a) (key_of sl b))
      (lower Compare sl key (L l) @ upper Compare sl key (L l))"
    using inv l by (simp add: sl_inv_def)
  have low: "cmp_less Compare (key_of sl n) key" if "n \<in> set (lower Compare sl key (L l))" for n
    using that set_lower [OF inv l key] by (simp add: before_def)
  have up: "cmp_less Compare key (key_of sl n)" if n: "n \<in> set (upper Compare sl key (L l))" for n
  proof -
    have "n \<in> set (L l)" using n by (metis UnCI lower_upper set_append)
    then have "\<not> cmp_equal Compare key (key_of sl n)" using assms(5,6) by (auto simp: fresh_key_def)
    moreover have "valid (key_of sl n)" "\<not> cmp_less Compare (key_of sl n) key"
      using upper_nodes [OF inv l key n] by (simp_all add: before_def)
    ultimately show ?thesis using not_less_iff equal_iff key by blast
  qed
  have "cmp_less Compare (key_of sl a) (key_of sl b)"
    if "a \<in> set (lower Compare sl key (L l))" "b \<in> set (upper Compare sl key (L l))" for a b
    using sorted that unfolding sorted_wrt_append by blast
  with sorted low up show ?thesis
    unfolding sorted_wrt_append linked_def by (auto simp: sorted_wrt_append assms(4))
qed

lemma level_distinct:
  assumes inv: "sl_inv Compare valid sl L" and l: "l < kMaxHeight"
  shows "distinct (head_node # L l)"
proof -
  have "sorted_wrt (\<lambda>a b. cmp_less Compare (key_of sl a) (key_of sl b)) (L l)" using inv l by (simp add: sl_inv_def)
  moreover have "\<forall>n\<in>set (L l). valid (key_of sl n)" using sl_inv_node [OF inv l] by blast
  ultimately have "distinct (L l)"
  proof (induction "L l" arbitrary: L)
    case (Cons a ns)
    then have "a \<notin> set ns" using less_irrefl by (metis list.set_intros(1) sorted_wrt.simps(2))
    moreover have "distinct ns" using Cons.hyps(1) [of "\<lambda>_. ns"] Cons.hyps(2) Cons.prems by (metis list.set_intros(2) sorted_wrt.simps(2))
    ultimately show ?case using Cons.hyps(2) by (metis distinct.simps(2))
  qed simp
  then show ?thesis using sl_inv_node [OF inv l] by auto
qed

text \<open>The two stores of one round of the linking loop.\<close>

lemma store_own_link:
  assumes inv: "sl_inv Compare valid sl L" and "x < length (sl_nodes sl)" "l < levels sl x"
    and "x \<notin> insert head_node (set (L l))"
  obtains sl' where "Node_SetNext sl x l v = Some sl'" and "same_nodes sl sl'"
    and "sl_inv Compare valid sl' L" and "Node_Next sl' x l = Some v"
proof -
  obtain sl' where sl': "Node_SetNext sl x l v = Some sl'" "same_nodes sl sl'"
    "\<And>y m. Node_Next sl' y m = (if y = x \<and> m = l then Some v else Node_Next sl y m)"
    using Node_SetNext_effect [OF assms(2,3)] by blast
  moreover have "sl_inv Compare valid sl' L"
    using assms(4) sl'(3) by (intro sl_inv_same [OF inv sl'(2)]) auto
  ultimately show ?thesis using that by simp
qed

lemma store_publish:
  assumes inv: "sl_inv Compare valid sl L" and key: "valid key" and l: "l < kMaxHeight" "l < sl_max_height sl"
    and x: "x < length (sl_nodes sl)" "key_of sl x = key" "x \<notin> insert head_node (set (L l))"
    and fresh: "fresh_key sl x key (L l)" and below: "l = 0 \<or> x \<in> set (L (l - 1))"
    and own: "Node_Next sl x l = Some (first_of (upper Compare sl key (L l)))"
  obtains sl' where "Node_SetNext sl (pred_at sl L key l) l (Some x) = Some sl'" and "same_nodes sl sl'"
    and "sl_inv Compare valid sl' (L(l := linked sl x key (L l)))"
proof -
  let ?p = "pred_at sl L key l" and ?L = "L(l := linked sl x key (L l))"
  have bound: "?p < length (sl_nodes sl) \<and> l < levels sl ?p"
    by (rule Node_Next_bound [OF pred_at_next [OF inv l(1)]])
  then obtain sl' where sl': "Node_SetNext sl ?p l (Some x) = Some sl'" "same_nodes sl sl'"
    "\<And>y m. Node_Next sl' y m = (if y = ?p \<and> m = l then Some (Some x) else Node_Next sl y m)"
    using Node_SetNext_effect [of ?p sl l] by blast
  have same: "key_of sl' = key_of sl" "sl_max_height sl' = sl_max_height sl"
    "length (sl_nodes sl') = length (sl_nodes sl)"
    using sl'(2) by (simp_all add: same_nodes_def)
  have "chain sl' l head_node (linked sl x key (L l))"
    unfolding linked_def
  proof (rule chain_insert [of sl])
    show "chain sl l head_node (lower Compare sl key (L l) @ upper Compare sl key (L l))"
      using sl_inv_parts(3) [OF inv l(1)] by simp
    show "distinct (head_node # lower Compare sl key (L l) @ upper Compare sl key (L l))"
      using level_distinct [OF inv l(1)] by simp
    show "x \<notin> set (head_node # lower Compare sl key (L l) @ upper Compare sl key (L l))"
      using x(3) by simp
    have "last (head_node # lower Compare sl key (L l)) \<in> set (head_node # lower Compare sl key (L l))"
      by (rule last_in_set) simp
    then have "?p \<noteq> x" using x(3) set_lower [OF inv l(1) key] by auto
    then show "Node_Next sl' y l = (if y = ?p then Some (Some x)
        else if y = x then Some (first_of (upper Compare sl key (L l))) else Node_Next sl y l)" for y
      using sl'(3) own by simp
  qed
  moreover have "chain sl' m head_node (L m)" if "m < kMaxHeight" "m \<noteq> l" for m
    using sl_inv_parts(3) [OF inv that(1)] that(2) sl'(3) by (auto intro: chain_cong)
  ultimately have "\<forall>m<kMaxHeight. chain sl' m head_node (?L m)" by simp
  moreover have "\<forall>m<kMaxHeight. sorted_wrt (\<lambda>a b. cmp_less Compare (key_of sl' a) (key_of sl' b)) (?L m)"
    using sl_inv_parts(4) [OF inv] sorted_linked [OF inv l(1) key x(2) _ fresh] x(3) by (simp add: same)
  moreover have "\<forall>m. Suc m < kMaxHeight \<longrightarrow> set (?L (Suc m)) \<subseteq> set (?L m)"
    using sl_inv_parts(5) [OF inv] below by (auto simp: subset_iff)
  moreover have "\<forall>n\<in>set (?L 0). n \<noteq> head_node \<and> n < length (sl_nodes sl') \<and> valid (key_of sl' n)"
    using sl_inv_node [OF inv, of 0] x key by (auto simp: same)
  moreover have "\<forall>m<kMaxHeight. sl_max_height sl' \<le> m \<longrightarrow> ?L m = []"
    using sl_inv_parts(6) [OF inv] l(2) by (simp add: same)
  ultimately have "sl_inv Compare valid sl' ?L"
    using sl_inv_parts(1,2) [OF inv] unfolding sl_inv_def same by blast
  with sl' that show ?thesis by blast
qed

text \<open>What the linking loop needs before round \<open>i\<close>, of the new node and of the array of predecessors.\<close>

definition can_link :: "'k skiplist \<Rightarrow> (nat \<Rightarrow> nat list) \<Rightarrow> 'k \<Rightarrow> nat \<Rightarrow> prev_array \<Rightarrow> nat \<Rightarrow> nat \<Rightarrow> bool" where
  "can_link sl L key x prev i height \<longleftrightarrow>
     x < length (sl_nodes sl) \<and> x \<noteq> head_node \<and> key_of sl x = key \<and> levels sl x = height \<and>
     height \<le> sl_max_height sl \<and> length prev = kMaxHeight \<and> (0 < i \<longrightarrow> x \<in> set (L (i - 1))) \<and>
     (\<forall>l. i \<le> l \<longrightarrow> l < height \<longrightarrow> x \<notin> set (L l) \<and> prev ! l = Some (pred_at sl L key l)) \<and>
     fresh_key sl x key (L 0)"

lemma fresh_key_level:
  "sl_inv Compare valid sl L \<Longrightarrow> fresh_key sl x key (L 0) \<Longrightarrow> l < kMaxHeight \<Longrightarrow> fresh_key sl x key (L l)"
  using sl_inv_subset by (fastforce simp: fresh_key_def)

lemma can_link_next:
  assumes "can_link sl L key x prev i height" and "same_nodes sl sl'" and "i < height"
  shows "can_link sl' (L(i := linked sl x key (L i))) key x prev (Suc i) height"
proof -
  have same: "length (sl_nodes sl') = length (sl_nodes sl)" "key_of sl' = key_of sl" "levels sl' = levels sl"
    "sl_max_height sl' = sl_max_height sl"
    using assms(2) by (simp_all add: same_nodes_def)
  have "x < length (sl_nodes sl) \<and> x \<noteq> head_node \<and> key_of sl x = key \<and> levels sl x = height \<and>
     height \<le> sl_max_height sl \<and> length prev = kMaxHeight"
    and later: "\<forall>l. i \<le> l \<longrightarrow> l < height \<longrightarrow> x \<notin> set (L l) \<and> prev ! l = Some (pred_at sl L key l)"
    and fresh: "fresh_key sl x key (L 0)"
    using assms(1) unfolding can_link_def by blast+
  moreover have "x \<in> set ((L(i := linked sl x key (L i))) (Suc i - 1))" by simp
  moreover have "\<forall>l. Suc i \<le> l \<longrightarrow> l < height \<longrightarrow> x \<notin> set ((L(i := linked sl x key (L i))) l) \<and>
      prev ! l = Some (pred_at sl' (L(i := linked sl x key (L i))) key l)"
    using later by (auto simp: Suc_le_eq lower_same [OF assms(2)])
  moreover have "fresh_key sl' x key ((L(i := linked sl x key (L i))) 0)"
    using fresh by (cases "i = 0") (simp_all add: fresh_key_def same)
  ultimately show ?thesis unfolding can_link_def same by blast
qed

lemma link_level_correct:
  assumes inv: "sl_inv Compare valid sl L" and key: "valid key" and can: "can_link sl L key x prev i height"
    and i: "i < height"
  obtains sl' where "link_level sl x prev i = Some sl'" and "same_nodes sl sl'"
    and "sl_inv Compare valid sl' (L(i := linked sl x key (L i)))"
proof -
  have "height \<le> sl_max_height sl" using can unfolding can_link_def by blast
  then have l: "i < kMaxHeight" "i < sl_max_height sl" using i sl_inv_parts(2) [OF inv] by linarith+
  have "x < length (sl_nodes sl) \<and> x \<noteq> head_node \<and> key_of sl x = key \<and> levels sl x = height \<and>
      length prev = kMaxHeight \<and> x \<notin> set (L i) \<and> prev ! i = Some (pred_at sl L key i) \<and> fresh_key sl x key (L 0)"
    using can i unfolding can_link_def by blast
  then have x: "x < length (sl_nodes sl)" "i < levels sl x" "x \<notin> insert head_node (set (L i))" "key_of sl x = key"
    and prev: "i < length prev" "prev ! i = Some (pred_at sl L key i)" and fresh0: "fresh_key sl x key (L 0)"
    using i l by simp_all
  obtain sl1 where sl1: "Node_SetNext sl x i (first_of (upper Compare sl key (L i))) = Some sl1" "same_nodes sl sl1"
    "sl_inv Compare valid sl1 L" "Node_Next sl1 x i = Some (first_of (upper Compare sl key (L i)))"
    using store_own_link [OF inv x(1,2,3)] by blast
  have fresh: "fresh_key sl1 x key (L i)"
    using fresh_key_level [OF inv fresh0 l(1)] sl1(2) by (simp add: fresh_key_def same_nodes_def)
  have same: "x < length (sl_nodes sl1)" "i < sl_max_height sl1" "key_of sl1 x = key"
    using sl1(2) x l by (simp_all add: same_nodes_def)
  have below: "i = 0 \<or> x \<in> set (L (i - 1))" using can unfolding can_link_def by blast
  obtain sl' where sl': "Node_SetNext sl1 (pred_at sl1 L key i) i (Some x) = Some sl'" "same_nodes sl1 sl'"
    "sl_inv Compare valid sl' (L(i := linked sl1 x key (L i)))"
    using store_publish [OF sl1(3) key l(1) same(2) same(1) same(3) x(3) fresh below] sl1(4)
    by (auto simp: upper_same [OF sl1(2)])
  have "link_level sl x prev i = Some sl'"
    using prev pred_at_next [OF inv l(1), of key] sl1(1) sl'(1) by (simp add: link_level_def lower_same [OF sl1(2)])
  moreover have "sl_inv Compare valid sl' (L(i := linked sl x key (L i)))"
    using sl'(3) by (simp add: linked_same [OF sl1(2)])
  ultimately show ?thesis using that same_nodes_trans [OF sl1(2) sl'(2)] by blast
qed

lemma link_levels_correct:
  assumes "sl_inv Compare valid sl L" and "valid key" and "can_link sl L key x prev i height" and "i + n = height"
  shows "\<exists>sl'. link_levels sl x prev i n = Some sl' \<and> same_nodes sl sl' \<and>
    sl_inv Compare valid sl' (\<lambda>l. if i \<le> l \<and> l < height then linked sl x key (L l) else L l)"
  using assms
proof (induction n arbitrary: sl L i)
  case 0
  then have "\<not> (i \<le> l \<and> l < height)" for l by linarith
  then have "(\<lambda>l. if i \<le> l \<and> l < height then linked sl x key (L l) else L l) = L"
    by (intro ext if_not_P)
  with 0 show ?case by (simp add: same_nodes_def)
next
  case (Suc n)
  then have i: "i < height" by simp
  obtain sl1 where sl1: "link_level sl x prev i = Some sl1" "same_nodes sl sl1"
    "sl_inv Compare valid sl1 (L(i := linked sl x key (L i)))"
    using link_level_correct [OF Suc.prems(1-3) i] by blast
  let ?L = "L(i := linked sl x key (L i))"
  obtain sl' where sl': "link_levels sl1 x prev (Suc i) n = Some sl'" "same_nodes sl1 sl'"
    "sl_inv Compare valid sl' (\<lambda>l. if Suc i \<le> l \<and> l < height then linked sl1 x key (?L l) else ?L l)"
    using Suc.IH [OF sl1(3) Suc.prems(2) can_link_next [OF Suc.prems(3) sl1(2) i]] Suc.prems(4) by auto
  moreover have "(\<lambda>l. if Suc i \<le> l \<and> l < height then linked sl1 x key (?L l) else ?L l) =
      (\<lambda>l. if i \<le> l \<and> l < height then linked sl x key (L l) else L l)"
    using i by (auto simp: fun_eq_iff linked_same [OF sl1(2)])
  ultimately show ?case using sl1 by (auto intro: same_nodes_trans)
qed

lemma Insert_prepare_correct:
  assumes inv: "sl_inv Compare valid sl L" and key: "valid key"
    and fresh: "\<And>n. n \<in> set (L 0) \<Longrightarrow> \<not> cmp_equal Compare key (key_of sl n)"
  obtains sl1 prev height where "Insert_prepare Compare sl key = Some (sl1, length (sl_nodes sl), prev, height)"
    and "1 \<le> height" and "sl_inv Compare valid sl1 L" and "can_link sl1 L key (length (sl_nodes sl)) prev 0 height"
    and "\<And>n. n < length (sl_nodes sl) \<Longrightarrow> key_of sl1 n = key_of sl n"
proof -
  obtain height rnd where h: "RandomHeight (sl_rnd sl) = (height, rnd)" by fastforce
  then have bounds: "1 \<le> height" "height \<le> kMaxHeight" using RandomHeight_bounds [of "sl_rnd sl"] by simp_all
  define x where "x = length (sl_nodes sl)"
  define p where "p = map (\<lambda>i. if i \<le> sl_max_height sl - 1 then Some (pred_at sl L key i) else replicate kMaxHeight None ! i) [0..<kMaxHeight]"
  obtain sl0 prev where raise: "raise_height (sl\<lparr>sl_rnd := rnd\<rparr>) p height = (sl0, prev)" by fastforce
  define sl1 where "sl1 = snd (NewNode sl0 key height)"
  have nodes0: "sl_nodes sl0 = sl_nodes sl" and max0: "sl_max_height sl0 = max (sl_max_height sl) height"
    using raise by (auto simp: raise_height_def split: if_splits)
  then have sl1: "sl_nodes sl1 = sl_nodes sl @ [\<lparr>node_key = key, node_next = replicate height None\<rparr>]"
    "sl_max_height sl1 = max (sl_max_height sl) height"
    by (simp_all add: sl1_def NewNode_def)
  have find: "FindGreaterOrEqual Compare sl key (Some (replicate kMaxHeight None)) =
      Some (first_of (upper Compare sl key (L 0)), Some p)"
    using FindGreaterOrEqual_correct [OF inv key, of "Some (replicate kMaxHeight None)"]
    by (simp add: p_def fill_prev_def)
  have dup: "(case first_of (upper Compare sl key (L 0)) of None \<Rightarrow> Some False
      | Some n \<Rightarrow> do { nd \<leftarrow> node_at sl n; Equal Compare key (node_key nd) }) = Some False"
  proof (cases "upper Compare sl key (L 0)")
    case (Cons n ns)
    then have up: "n \<in> set (upper Compare sl key (L 0))" by simp
    then have n: "n \<in> set (L 0)" "n < length (sl_nodes sl)" "valid (key_of sl n)"
      using upper_nodes [OF inv kMaxHeight_pos(1) key up] by (metis UnCI lower_upper set_append)+
    obtain c where c: "Compare key (key_of sl n) = Some c" using Compare_returns key n(3) by blast
    with fresh [OF n(1)] have "c \<noteq> 0" by (simp add: cmp_equal_def)
    with c Cons show ?thesis using node_at_key [OF n(2)] by (simp add: Equal_def)
  qed simp
  have prepare: "Insert_prepare Compare sl key = Some (sl1, x, prev, height)"
    using find dup h raise nodes0 by (simp add: Insert_prepare_def NewNode_def sl1_def x_def)
  have keys: "key_of sl1 n = key_of sl n" if "n < length (sl_nodes sl)" for n
    using that by (simp add: key_of_def sl1 nth_append)
  have links: "Node_Next sl1 n l = Node_Next sl n l" if "n < length (sl_nodes sl)" for n l
    using that by (simp add: Node_Next_def node_at_def sl1 nth_append)
  have inv1: "sl_inv Compare valid sl1 L"
  proof (rule sl_inv_transfer [OF inv])
    show "sl_max_height sl1 \<le> kMaxHeight" using bounds sl_inv_parts(2) [OF inv] by (simp add: sl1)
    show "Node_Next sl1 n l = Node_Next sl n l" if "l < kMaxHeight" "n \<in> insert head_node (set (L l))" for n l
      using that sl_inv_node(2) [OF inv that(1)] sl_inv_head [OF inv] by (intro links) blast
  qed (simp_all add: sl1 keys)
  have pred: "pred_at sl1 L key l = pred_at sl L key l" if "l < kMaxHeight" for l
  proof -
    have "before Compare sl1 key n = before Compare sl key n" if "n \<in> set (L l)" for n
      using keys sl_inv_node(2) [OF inv \<open>l < kMaxHeight\<close> that] by (simp add: before_def)
    then show ?thesis unfolding lower_def by (metis (no_types, lifting) takeWhile_cong)
  qed
  have len: "length p = kMaxHeight" by (simp add: p_def)
  have "prev ! l = Some (pred_at sl1 L key l)" if "l < height" for l
  proof (cases "l < sl_max_height sl")
    case True
    then have "prev ! l = p ! l" using raise len that bounds by (auto simp: raise_height_def split: if_splits)
    then show ?thesis using True that bounds pred by (simp add: p_def)
  next
    case False
    then have "prev ! l = Some head_node"
      using raise len that bounds by (auto simp: raise_height_def split: if_splits)
    moreover have "L l = []" using False that bounds sl_inv_parts(6) [OF inv] by simp
    ultimately show ?thesis by (simp add: lower_def)
  qed
  moreover have "length prev = kMaxHeight"
    using raise len by (auto simp: raise_height_def split: if_splits)
  moreover have "x \<notin> set (L l)" if "l < height" for l
  proof
    assume "x \<in> set (L l)"
    then have "x < length (sl_nodes sl)" using sl_inv_node(2) [OF inv, of l x] that bounds by simp
    then show False by (simp add: x_def)
  qed
  moreover have "fresh_key sl1 x key (L 0)"
    using fresh keys sl_inv_node(2) [OF inv kMaxHeight_pos(1)] by (simp add: fresh_key_def)
  ultimately have "can_link sl1 L key x prev 0 height"
    using sl_inv_head [OF inv] unfolding can_link_def by (simp add: sl1 x_def key_of_def levels_def)
  then show ?thesis using that prepare bounds(1) inv1 keys unfolding x_def by blast
qed

text \<open>Sorted insertion of a key, the reference for \<open>Insert\<close>.\<close>

definition insort_by :: "'k \<Rightarrow> 'k list \<Rightarrow> 'k list" where
  "insort_by key ks = takeWhile (\<lambda>k. cmp_less Compare k key) ks @ key # dropWhile (\<lambda>k. cmp_less Compare k key) ks"

lemma Insert_correct:
  assumes inv: "sl_inv Compare valid sl L" and key: "valid key"
    and fresh: "\<And>k. k \<in> set (sl_keys sl L) \<Longrightarrow> \<not> cmp_equal Compare key k"
  shows "\<exists>sl' L'. Insert Compare sl key = Some sl' \<and> sl_inv Compare valid sl' L' \<and>
    sl_keys sl' L' = insort_by key (sl_keys sl L)"
proof -
  let ?x = "length (sl_nodes sl)"
  have fresh': "n \<in> set (L 0) \<Longrightarrow> \<not> cmp_equal Compare key (key_of sl n)" for n
    using fresh by (simp add: sl_keys_def)
  obtain sl1 prev height where prepare: "Insert_prepare Compare sl key = Some (sl1, ?x, prev, height)"
    and "1 \<le> height" and inv1: "sl_inv Compare valid sl1 L" and can: "can_link sl1 L key ?x prev 0 height"
    and keys: "\<And>n. n < length (sl_nodes sl) \<Longrightarrow> key_of sl1 n = key_of sl n"
    using Insert_prepare_correct [OF inv key fresh'] by blast
  let ?L = "\<lambda>l. if 0 \<le> l \<and> l < height then linked sl1 ?x key (L l) else L l"
  obtain sl' where sl': "link_levels sl1 ?x prev 0 height = Some sl'" "same_nodes sl1 sl'"
    "sl_inv Compare valid sl' ?L"
    using link_levels_correct [OF inv1 key can add_0] by blast
  have x: "key_of sl1 ?x = key" using can unfolding can_link_def by blast
  have "sl_keys sl' ?L = map (key_of sl1) (linked sl1 ?x key (L 0))"
    using \<open>1 \<le> height\<close> sl'(2) by (simp add: sl_keys_def same_nodes_def)
  also have "\<dots> = insort_by key (map (key_of sl1) (L 0))"
    by (simp add: linked_def insort_by_def lower_def upper_def x takeWhile_map dropWhile_map before_def [abs_def] comp_def)
  also have "map (key_of sl1) (L 0) = sl_keys sl L"
    using keys sl_inv_node(2) [OF inv kMaxHeight_pos(1)] by (simp add: sl_keys_def)
  finally have "sl_keys sl' ?L = insort_by key (sl_keys sl L)" .
  moreover have "Insert Compare sl key = Some sl'" using prepare sl'(1) by (simp add: Insert_def)
  ultimately show ?thesis using sl'(3) by blast
qed

end

end
