(* ===== verification/L_SkipList_Theorems.thy ===== *)
theory L_SkipList_Theorems
  imports L_SkipList_Insert
begin

text \<open>
  The skip list as a sorted list: \<open>represents\<close> relates a state to the nodes of its lowest level, and
  the theorems state every operation over it, for any comparator that keeps the contract.
\<close>

definition represents :: "('k \<Rightarrow> 'k \<Rightarrow> int option) \<Rightarrow> ('k \<Rightarrow> bool) \<Rightarrow> 'k skiplist \<Rightarrow> nat list \<Rightarrow> bool" where
  "represents cmp valid sl ns \<longleftrightarrow> (\<exists>L. sl_inv cmp valid sl L \<and> L 0 = ns)"

abbreviation node_keys :: "'k skiplist \<Rightarrow> nat list \<Rightarrow> 'k list" where
  "node_keys sl ns \<equiv> map (key_of sl) ns"

lemma first_of_upper: "first_of (upper cmp sl key ns) = Some n \<Longrightarrow> n \<in> set ns"
proof -
  assume "first_of (upper cmp sl key ns) = Some n"
  then have "n \<in> set (upper cmp sl key ns)" by (cases "upper cmp sl key ns") auto
  then show "n \<in> set ns" unfolding upper_def by (rule set_dropWhileD)
qed

lemma representsE:
  assumes "represents cmp valid sl ns"
  obtains L where "sl_inv cmp valid sl L" and "L 0 = ns"
  using assms by (auto simp: represents_def)

context comparator
begin

lemma represents_sorted:
  assumes "represents Compare valid sl ns"
  shows "sorted_wrt (cmp_less Compare) (node_keys sl ns)" and "\<forall>k\<in>set (node_keys sl ns). valid k"
proof -
  obtain L where L: "sl_inv Compare valid sl L" "L 0 = ns" using assms by (rule representsE)
  show "sorted_wrt (cmp_less Compare) (node_keys sl ns)"
    using sl_inv_parts(4) [OF L(1) kMaxHeight_pos(1)] L(2) by (simp add: sorted_wrt_map)
  show "\<forall>k\<in>set (node_keys sl ns). valid k"
    using sl_inv_node(3) [OF L(1) kMaxHeight_pos(1)] L(2) by simp
qed

lemma represents_node:
  assumes "represents Compare valid sl ns" and "n \<in> set ns"
  shows "n < length (sl_nodes sl)" and "n \<noteq> head_node" and "valid (key_of sl n)"
  using assms(1) by (rule representsE, use sl_inv_node [OF _ kMaxHeight_pos(1)] assms(2) in blast)+

lemma FindGreaterOrEqual_represents:
  assumes "represents Compare valid sl ns" and "valid key"
  shows "\<exists>p. FindGreaterOrEqual Compare sl key None = Some (first_of (upper Compare sl key ns), p)"
  using assms(1) by (rule representsE) (auto dest!: FindGreaterOrEqual_correct [OF _ assms(2), of _ _ None])

lemma first_upper_equal:
  assumes rep: "represents Compare valid sl ns" and key: "valid key"
  shows "(\<exists>k\<in>set (node_keys sl ns). cmp_equal Compare key k) \<longleftrightarrow>
    (\<exists>n. first_of (upper Compare sl key ns) = Some n \<and> cmp_equal Compare key (key_of sl n))"
proof
  assume "\<exists>k\<in>set (node_keys sl ns). cmp_equal Compare key k"
  then obtain m where m: "m \<in> set ns" "cmp_equal Compare key (key_of sl m)" by auto
  have valid: "valid (key_of sl m)" using represents_node [OF rep m(1)] by simp
  then have "\<not> before Compare sl key m"
    using m(2) equal_iff [OF key valid] not_less_iff [OF valid key] by (simp add: before_def)
  then have "m \<in> set (upper Compare sl key ns)"
    using m(1) set_takeWhileD [of m "before Compare sl key" ns] lower_upper [of Compare sl key ns]
    unfolding lower_def [symmetric] by (metis Un_iff set_append)
  then obtain n ns' where up: "upper Compare sl key ns = n # ns'" by (cases "upper Compare sl key ns") auto
  obtain L where L: "sl_inv Compare valid sl L" "L 0 = ns" using rep by (rule representsE)
  have n: "valid (key_of sl n)" "\<not> before Compare sl key n"
    using upper_nodes [OF L(1) kMaxHeight_pos(1) key, of n] up L(2) by simp_all
  then have kn: "cmp_leq Compare key (key_of sl n)" using not_less_iff key by (simp add: before_def)
  have "sorted_wrt (\<lambda>a b. cmp_less Compare (key_of sl a) (key_of sl b)) (lower Compare sl key ns @ n # ns')"
    using represents_sorted(1) [OF rep] lower_upper [of Compare sl key ns] up by (simp add: sorted_wrt_map)
  then have "cmp_leq Compare (key_of sl n) (key_of sl m)"
    using \<open>m \<in> set (upper Compare sl key ns)\<close> up n(1) leq_refl less_imp_leq by (auto simp: sorted_wrt_append)
  moreover have "cmp_leq Compare (key_of sl m) key" using m(2) equal_iff [OF key valid] by simp
  ultimately have "cmp_equal Compare key (key_of sl n)"
    using kn equal_iff [OF key n(1)] leq_trans n(1) valid key by blast
  with up show "\<exists>n. first_of (upper Compare sl key ns) = Some n \<and> cmp_equal Compare key (key_of sl n)" by auto
next
  assume "\<exists>n. first_of (upper Compare sl key ns) = Some n \<and> cmp_equal Compare key (key_of sl n)"
  then obtain n where n: "first_of (upper Compare sl key ns) = Some n" "cmp_equal Compare key (key_of sl n)" by blast
  from first_of_upper [OF n(1)] n(2) show "\<exists>k\<in>set (node_keys sl ns). cmp_equal Compare key k" by auto
qed

lemma Equal_node:
  assumes "represents Compare valid sl ns" and "valid key" and "n \<in> set ns"
  shows "do { nd \<leftarrow> node_at sl n; Equal Compare key (node_key nd) } = Some (cmp_equal Compare key (key_of sl n))"
proof -
  have "n < length (sl_nodes sl)" "valid (key_of sl n)" using represents_node [OF assms(1,3)] by simp_all
  moreover then obtain c where "Compare key (key_of sl n) = Some c" using Compare_returns assms(2) by blast
  ultimately show ?thesis using node_at_key [of n sl] by (simp add: Equal_def cmp_equal_def)
qed

lemma Contains_correct:
  assumes rep: "represents Compare valid sl ns" and key: "valid key"
  shows "Contains Compare sl key = Some (\<exists>k\<in>set (node_keys sl ns). cmp_equal Compare key k)"
proof -
  obtain p where p: "FindGreaterOrEqual Compare sl key None = Some (first_of (upper Compare sl key ns), p)"
    using FindGreaterOrEqual_represents [OF assms] by blast
  show ?thesis
  proof (cases "upper Compare sl key ns")
    case Nil
    then show ?thesis using p first_upper_equal [OF assms] by (simp add: Contains_def)
  next
    case (Cons n ns')
    then have "n \<in> set ns" using first_of_upper [of Compare sl key ns] by simp
    with Cons show ?thesis
      using p first_upper_equal [OF assms] Equal_node [OF assms, of n] by (simp add: Contains_def)
  qed
qed

lemma lower_take:
  assumes rep: "represents Compare valid sl ns" and i: "i < length ns"
  shows "lower Compare sl (key_of sl (ns ! i)) ns = take i ns"
  unfolding lower_def
proof (rule takeWhile_eq_take_P_nth)
  have nth: "cmp_less Compare (node_keys sl ns ! j) (node_keys sl ns ! i) \<longleftrightarrow> j < i" if "j < length ns" for j
    using sorted_wrt_nth_less [OF represents_sorted [OF rep]] i that by simp
  show "before Compare sl (key_of sl (ns ! i)) (ns ! j)" if "j < i" "j < length ns" for j
    using nth that i by (simp add: before_def)
  show "\<not> before Compare sl (key_of sl (ns ! i)) (ns ! i)" if "i < length ns"
    using nth that by (simp add: before_def)
qed

lemma iterator_moves:
  assumes rep: "represents Compare valid sl ns" and i: "i < length ns"
  shows "Iterator_key sl (Some (ns ! i)) = Some (key_of sl (ns ! i))"
    and "Iterator_Next sl (Some (ns ! i)) = Some (if i + 1 < length ns then Some (ns ! (i + 1)) else None)"
    and "Iterator_Prev Compare sl (Some (ns ! i)) = Some (if i = 0 then None else Some (ns ! (i - 1)))"
proof -
  obtain L where L: "sl_inv Compare valid sl L" "L 0 = ns" using rep by (rule representsE)
  have n: "ns ! i < length (sl_nodes sl)" "valid (key_of sl (ns ! i))"
    using represents_node [OF rep nth_mem [OF i]] by simp_all
  then show "Iterator_key sl (Some (ns ! i)) = Some (key_of sl (ns ! i))"
    using node_at_key [OF n(1)] by (simp add: Iterator_key_def)
  have "chain sl 0 head_node (take (i + 1) ns @ drop (i + 1) ns)"
    using sl_inv_parts(3) [OF L(1) kMaxHeight_pos(1)] L(2) by simp
  from chain_nextD [OF this] i have "Node_Next sl (ns ! i) 0 = Some (first_of (drop (i + 1) ns))"
    by (simp add: take_Suc_conv_app_nth)
  moreover have "first_of (drop (i + 1) ns) = (if i + 1 < length ns then Some (ns ! (i + 1)) else None)"
    by (cases "i + 1 < length ns") (simp_all add: Cons_nth_drop_Suc [symmetric])
  ultimately show "Iterator_Next sl (Some (ns ! i)) = Some (if i + 1 < length ns then Some (ns ! (i + 1)) else None)"
    by (simp add: Iterator_Next_def)
  have "FindLessThan Compare sl (key_of sl (ns ! i)) = Some (last (head_node # take i ns))"
    using FindLessThan_correct [OF L(1) n(2)] lower_take [OF rep i] L(2) by simp
  moreover have "last (head_node # take i ns) = (if i = 0 then head_node else ns ! (i - 1))"
    using i by (cases i) (simp_all add: take_Suc_conv_app_nth)
  moreover have "0 < i \<Longrightarrow> ns ! (i - 1) \<noteq> head_node"
    using represents_node(2) [OF rep nth_mem [of "i - 1"]] i by simp
  ultimately show "Iterator_Prev Compare sl (Some (ns ! i)) = Some (if i = 0 then None else Some (ns ! (i - 1)))"
    using node_at_key [OF n(1)] by (simp add: Iterator_Prev_def)
qed

lemma iterator_seeks:
  assumes rep: "represents Compare valid sl ns"
  shows "Iterator_SeekToFirst sl = Some (first_of ns)"
    and "Iterator_SeekToLast sl = Some (if ns = [] then None else Some (last ns))"
    and "valid target \<Longrightarrow> Iterator_Seek Compare sl target = Some (first_of (upper Compare sl target ns))"
proof -
  obtain L where L: "sl_inv Compare valid sl L" "L 0 = ns" using rep by (rule representsE)
  have "chain sl 0 head_node ([] @ ns)" using sl_inv_parts(3) [OF L(1) kMaxHeight_pos(1)] L(2) by simp
  from chain_nextD [OF this] show "Iterator_SeekToFirst sl = Some (first_of ns)" by (simp add: Iterator_SeekToFirst_def)
  have "last ns \<noteq> head_node" if "ns \<noteq> []" using represents_node(2) [OF rep] that by simp
  then show "Iterator_SeekToLast sl = Some (if ns = [] then None else Some (last ns))"
    using FindLast_correct [OF L(1)] L(2) by (auto simp: Iterator_SeekToLast_def)
  show "Iterator_Seek Compare sl target = Some (first_of (upper Compare sl target ns))" if "valid target"
    using FindGreaterOrEqual_represents [OF rep that] by (auto simp: Iterator_Seek_def)
qed

lemma Insert_represents:
  assumes rep: "represents Compare valid sl ns" and key: "valid key"
  shows "Insert Compare sl key = None \<longleftrightarrow> (\<exists>k\<in>set (node_keys sl ns). cmp_equal Compare key k)"
    and "\<forall>k\<in>set (node_keys sl ns). \<not> cmp_equal Compare key k \<Longrightarrow>
      \<exists>sl' ns'. Insert Compare sl key = Some sl' \<and> represents Compare valid sl' ns' \<and>
        node_keys sl' ns' = insort_by key (node_keys sl ns)"
proof -
  obtain L where L: "sl_inv Compare valid sl L" "L 0 = ns" using rep by (rule representsE)
  have keys: "sl_keys sl L = node_keys sl ns" using L(2) by (simp add: sl_keys_def)
  show ok: "\<exists>sl' ns'. Insert Compare sl key = Some sl' \<and> represents Compare valid sl' ns' \<and>
      node_keys sl' ns' = insort_by key (node_keys sl ns)"
    if "\<forall>k\<in>set (node_keys sl ns). \<not> cmp_equal Compare key k"
    using Insert_correct [OF L(1) key] that unfolding keys represents_def by (auto simp: sl_keys_def)
  show "Insert Compare sl key = None \<longleftrightarrow> (\<exists>k\<in>set (node_keys sl ns). cmp_equal Compare key k)"
  proof
    assume "Insert Compare sl key = None"
    with ok show "\<exists>k\<in>set (node_keys sl ns). cmp_equal Compare key k" by auto
  next
    assume "\<exists>k\<in>set (node_keys sl ns). cmp_equal Compare key k"
    then obtain n where n: "first_of (upper Compare sl key ns) = Some n" "cmp_equal Compare key (key_of sl n)"
      using first_upper_equal [OF rep key] by blast
    have dup: "do { nd \<leftarrow> node_at sl n; Equal Compare key (node_key nd) } = Some True"
      using Equal_node [OF rep key first_of_upper [OF n(1)]] n(2) by simp
    obtain p where "FindGreaterOrEqual Compare sl key (Some (replicate kMaxHeight None)) = Some (Some n, Some p)"
      using FindGreaterOrEqual_correct [OF L(1) key, of "Some (replicate kMaxHeight None)"] L(2) n(1)
      by (simp add: fill_prev_def)
    then show "Insert Compare sl key = None" using dup by (simp add: Insert_def Insert_prepare_def)
  qed
qed

text \<open>The answer of a search for a key in a set of keys.\<close>

definition answers :: "'k skiplist \<Rightarrow> 'k set \<Rightarrow> 'k \<Rightarrow> nat option \<Rightarrow> bool" where
  "answers sl ks key r \<longleftrightarrow> (case r of
       None \<Rightarrow> \<forall>k\<in>ks. cmp_less Compare k key
     | Some n \<Rightarrow> key_of sl n \<in> ks \<and> cmp_leq Compare key (key_of sl n) \<and>
         (\<forall>k\<in>ks. cmp_leq Compare key k \<longrightarrow> cmp_leq Compare (key_of sl n) k))"

lemma first_upper_answers:
  assumes inv: "sl_inv Compare valid sl L" and key: "valid key"
  shows "answers sl (key_of sl ` set (L 0)) key (first_of (upper Compare sl key (L 0)))"
proof (cases "upper Compare sl key (L 0)")
  case Nil
  then have "L 0 = lower Compare sl key (L 0)" by (metis append_Nil2 lower_upper)
  then have "\<forall>n\<in>set (L 0). before Compare sl key n" using set_lower [OF inv kMaxHeight_pos(1) key] by auto
  with Nil show ?thesis by (simp add: answers_def before_def)
next
  case (Cons n ns)
  then have n: "n \<in> set (L 0)" "valid (key_of sl n)" "cmp_leq Compare key (key_of sl n)"
    using first_of_upper [of Compare sl key "L 0" n] upper_nodes [OF inv kMaxHeight_pos(1) key, of n] key not_less_iff
    by (simp_all add: before_def)
  have "cmp_leq Compare (key_of sl n) (key_of sl m)" if m: "m \<in> set (L 0)" "cmp_leq Compare key (key_of sl m)" for m
  proof -
    have "valid (key_of sl m)" using sl_inv_node(3) [OF inv kMaxHeight_pos(1) m(1)] .
    then have "\<not> before Compare sl key m" using m(2) not_less_iff key by (simp add: before_def)
    then have "m \<notin> set (lower Compare sl key (L 0))" using set_lower [OF inv kMaxHeight_pos(1) key] by auto
    then have "m \<in> set (n # ns)" using m(1) Cons by (metis Un_iff lower_upper set_append)
    moreover have "sorted_wrt (\<lambda>a b. cmp_less Compare (key_of sl a) (key_of sl b)) (lower Compare sl key (L 0) @ n # ns)"
      using sl_inv_parts(4) [OF inv kMaxHeight_pos(1)] Cons by (metis lower_upper)
    ultimately show ?thesis using leq_refl n(2) less_imp_leq by (auto simp: sorted_wrt_append)
  qed
  with Cons n show ?thesis by (simp add: answers_def)
qed

lemma Seek_answers:
  assumes rep: "represents Compare valid sl ns" and key: "valid key"
  shows "\<exists>r. Iterator_Seek Compare sl key = Some r \<and> answers sl (set (node_keys sl ns)) key r \<and>
    (\<forall>n. r = Some n \<longrightarrow> n \<in> set ns)"
proof -
  obtain L where L: "sl_inv Compare valid sl L" "L 0 = ns" using rep by (rule representsE)
  show ?thesis
    using iterator_seeks(3) [OF rep key] first_upper_answers [OF L(1) key] L(2) first_of_upper [of Compare sl key ns]
    by auto
qed

end

section \<open>Properties\<close>

text \<open>
  C8: \<^verbatim>\<open>Insert\<close> refines sorted insertion into a list of keys: the constructor represents the empty
  list, and inserting a key into a skip list that represents a list of keys either fails the
  assertion, exactly when an equal key is present, or returns, for every outcome of the random
  height, a skip list that represents the list with the key at its place.
\<close>

theorem skiplist_insert_refines:
  assumes "comparator cmp valid"
  shows "represents cmp valid (SkipList k0) [] \<and>
    (represents cmp valid sl ns \<longrightarrow> valid key \<longrightarrow>
      (Insert cmp sl key = None \<longleftrightarrow> (\<exists>k\<in>set (node_keys sl ns). cmp_equal cmp key k)) \<and>
      (\<forall>sl'. Insert cmp sl key = Some sl' \<longrightarrow> (\<exists>ns'. represents cmp valid sl' ns' \<and>
        node_keys sl' ns' = takeWhile (\<lambda>k. cmp_less cmp k key) (node_keys sl ns) @
          key # dropWhile (\<lambda>k. cmp_less cmp k key) (node_keys sl ns))))"
proof -
  have "represents cmp valid (SkipList k0) []"
    using sl_inv_SkipList [of cmp valid k0] unfolding represents_def by auto
  then show ?thesis
    using comparator.Insert_represents [OF assms, of sl ns key] unfolding comparator.insort_by_def [OF assms]
    by fastforce
qed

text \<open>The comparison of numbers, for the witnesses.\<close>

definition compare_nat :: "nat \<Rightarrow> nat \<Rightarrow> int option" where
  "compare_nat a b = Some (int a - int b)"

interpretation compare_nat: exact_comparator compare_nat "\<lambda>_. True"
  by unfold_locales (auto simp: compare_nat_def cmp_defs sgn_if)

lemma skiplist_insert_witness:
  "\<exists>sl ns. Insert compare_nat (SkipList 0) 7 = Some sl \<and>
     represents compare_nat (\<lambda>_. True) sl ns \<and> node_keys sl ns = [7]"
proof -
  have rep: "represents compare_nat (\<lambda>_. True) (SkipList 0) []"
    using skiplist_insert_refines [OF compare_nat.comparator_axioms, of 0] by blast
  show ?thesis
    using skiplist_insert_refines [OF compare_nat.comparator_axioms, of 0 "SkipList 0" "[]" 7] rep
    by (cases "Insert compare_nat (SkipList 0) 7") auto
qed

text \<open>
  C9: On a skip list that represents a list of keys, searches and iterators are those of the list:
  \<^verbatim>\<open>Contains\<close> holds when an equal key is present, \<^verbatim>\<open>Seek\<close> stops at the first key at or behind the
  target, \<^verbatim>\<open>SeekToFirst\<close> and \<^verbatim>\<open>SeekToLast\<close> at the ends, \<^verbatim>\<open>Next\<close> and \<^verbatim>\<open>Prev\<close> move by one position and
  become invalid at the ends; every one of them returns (the loops end and no assertion fails).
\<close>

theorem skiplist_iterators:
  assumes "comparator cmp valid" and "represents cmp valid sl ns" and "valid target"
  shows "Contains cmp sl target = Some (\<exists>k\<in>set (node_keys sl ns). cmp_equal cmp target k) \<and>
    Iterator_Seek cmp sl target = Some (first_of (dropWhile (\<lambda>n. cmp_less cmp (key_of sl n) target) ns)) \<and>
    Iterator_SeekToFirst sl = Some (first_of ns) \<and>
    Iterator_SeekToLast sl = Some (if ns = [] then None else Some (last ns)) \<and>
    (\<forall>i<length ns. Iterator_key sl (Some (ns ! i)) = Some (node_keys sl ns ! i) \<and>
      Iterator_Next sl (Some (ns ! i)) = Some (if i + 1 < length ns then Some (ns ! (i + 1)) else None) \<and>
      Iterator_Prev cmp sl (Some (ns ! i)) = Some (if i = 0 then None else Some (ns ! (i - 1))))"
  using comparator.Contains_correct [OF assms] comparator.iterator_seeks [OF assms(1,2)] assms(3)
    comparator.iterator_moves [OF assms(1,2)]
  by (simp add: upper_def before_def [abs_def])

lemma skiplist_iterators_witness:
  "\<exists>sl. Insert compare_nat (SkipList 0) 7 = Some sl \<and>
     Contains compare_nat sl 7 = Some True \<and> Contains compare_nat sl 8 = Some False"
proof -
  have rep: "represents compare_nat (\<lambda>_. True) (SkipList 0) []"
    using sl_inv_SkipList [of compare_nat "\<lambda>_. True" 0] unfolding represents_def by auto
  obtain sl ns where sl: "Insert compare_nat (SkipList 0) 7 = Some sl" "represents compare_nat (\<lambda>_. True) sl ns"
    "node_keys sl ns = [7]"
    using compare_nat.Insert_represents(2) [OF rep, of 7] by (auto simp: compare_nat.insort_by_def)
  show ?thesis
    using skiplist_iterators [OF compare_nat.comparator_axioms sl(2), of 7]
      skiplist_iterators [OF compare_nat.comparator_axioms sl(2), of 8] sl
    by (auto simp: cmp_equal_def compare_nat_def)
qed

end
