(* ===== verification/L_SkipList_Concurrent.thy ===== *)
theory L_SkipList_Concurrent
  imports L_SkipList_Theorems
begin

text \<open>
  One writer and one reader of a skip list without a lock between them, the use \<^verbatim>\<open>db/skiplist.h\<close>
  documents: writes need external synchronization, reads none. Every store and every load of a
  link is a step of its own, in any interleaving; the search and the allocation of \<^verbatim>\<open>Insert\<close>, which
  touch no shared link but \<^verbatim>\<open>max_height_\<close>, are one step. The set of published keys is a ghost
  component: the keys whose node is linked on the lowest level.
\<close>

section \<open>Steps\<close>

text \<open>Where the writer is in the linking loop: before the store to \<^verbatim>\<open>x->next[i]\<close> or to \<^verbatim>\<open>prev[i]->next[i]\<close>.\<close>

datatype writer = W_idle | W_link nat prev_array nat nat | W_publish nat prev_array nat nat

text \<open>Where the reader is in \<^verbatim>\<open>FindGreaterOrEqual\<close>: its key, node and level, or its result.\<close>

datatype 'k reader = R_idle | R_search 'k nat nat | R_found 'k "nat option"

record 'k conc =
  c_list :: "'k skiplist"
  c_writer :: writer
  c_reader :: "'k reader"
  c_published :: "'k set"

inductive step :: "('k \<Rightarrow> 'k \<Rightarrow> int option) \<Rightarrow> ('k \<Rightarrow> bool) \<Rightarrow> 'k conc \<Rightarrow> 'k conc \<Rightarrow> bool"
  for cmp :: "'k \<Rightarrow> 'k \<Rightarrow> int option" and valid :: "'k \<Rightarrow> bool" where
  w_start: "step cmp valid s (s\<lparr>c_list := sl, c_writer := W_link x prev 0 height\<rparr>)"
    if "c_writer s = W_idle" and "valid key" and "Insert_prepare cmp (c_list s) key = Some (sl, x, prev, height)"
| w_own: "step cmp valid s (s\<lparr>c_list := sl, c_writer := W_publish x prev i height\<rparr>)"
    if "c_writer s = W_link x prev i height" and "prev ! i = Some p"
      and "Node_Next (c_list s) p i = Some nxt" and "Node_SetNext (c_list s) x i nxt = Some sl"
| w_publish: "step cmp valid s (s\<lparr>c_list := sl,
      c_writer := (if i + 1 < height then W_link x prev (i + 1) height else W_idle),
      c_published := (if i = 0 then insert (key_of sl x) (c_published s) else c_published s)\<rparr>)"
    if "c_writer s = W_publish x prev i height" and "prev ! i = Some p"
      and "Node_SetNext (c_list s) p i (Some x) = Some sl"
| r_start: "step cmp valid s (s\<lparr>c_reader := R_search key head_node (sl_max_height (c_list s) - 1)\<rparr>)"
    if "\<And>key x level. c_reader s \<noteq> R_search key x level" and "valid key"
| r_next: "step cmp valid s (s\<lparr>c_reader := R_search key n level\<rparr>)"
    if "c_reader s = R_search key x level" and "Node_Next (c_list s) x level = Some (Some n)"
      and "KeyIsAfterNode cmp (c_list s) key (Some n) = Some True"
| r_down: "step cmp valid s (s\<lparr>c_reader := R_search key x level\<rparr>)"
    if "c_reader s = R_search key x (Suc level)" and "Node_Next (c_list s) x (Suc level) = Some nxt"
      and "KeyIsAfterNode cmp (c_list s) key nxt = Some False"
| r_done: "step cmp valid s (s\<lparr>c_reader := R_found key nxt\<rparr>)"
    if "c_reader s = R_search key x 0" and "Node_Next (c_list s) x 0 = Some nxt"
      and "KeyIsAfterNode cmp (c_list s) key nxt = Some False"

definition initial :: "'k \<Rightarrow> 'k conc" where
  "initial any_key = \<lparr>c_list = SkipList any_key, c_writer = W_idle, c_reader = R_idle, c_published = {}\<rparr>"

inductive reachable :: "('k \<Rightarrow> 'k \<Rightarrow> int option) \<Rightarrow> ('k \<Rightarrow> bool) \<Rightarrow> 'k conc \<Rightarrow> bool"
  for cmp :: "'k \<Rightarrow> 'k \<Rightarrow> int option" and valid :: "'k \<Rightarrow> bool" where
  start: "reachable cmp valid (initial any_key)"
| more: "reachable cmp valid s \<Longrightarrow> step cmp valid s s' \<Longrightarrow> reachable cmp valid s'"

section \<open>The invariant\<close>

context comparator
begin

lemma Insert_prepare_fresh:
  assumes inv: "sl_inv Compare valid sl L" and key: "valid key" and "Insert_prepare Compare sl key = Some r"
    and n: "n \<in> set (L 0)"
  shows "\<not> cmp_equal Compare key (key_of sl n)"
proof
  assume "cmp_equal Compare key (key_of sl n)"
  moreover have rep: "represents Compare valid sl (L 0)" using inv by (auto simp: represents_def)
  ultimately obtain m where m: "first_of (upper Compare sl key (L 0)) = Some m" "cmp_equal Compare key (key_of sl m)"
    using first_upper_equal [OF rep key] n by auto
  have "do { nd \<leftarrow> node_at sl m; Equal Compare key (node_key nd) } = Some True"
    using Equal_node [OF rep key first_of_upper [OF m(1)]] m(2) by simp
  moreover obtain p where "FindGreaterOrEqual Compare sl key (Some (replicate kMaxHeight None)) = Some (Some m, Some p)"
    using FindGreaterOrEqual_correct [OF inv key, of "Some (replicate kMaxHeight None)"] m(1)
    by (simp add: fill_prev_def)
  ultimately have "Insert_prepare Compare sl key = None" by (simp add: Insert_prepare_def)
  with assms(3) show False by simp
qed

definition writer_inv :: "'k skiplist \<Rightarrow> (nat \<Rightarrow> nat list) \<Rightarrow> writer \<Rightarrow> bool" where
  "writer_inv sl L w = (case w of W_idle \<Rightarrow> True
     | W_link x prev i height \<Rightarrow> (\<exists>key. valid key \<and> can_link sl L key x prev i height \<and> i < height)
     | W_publish x prev i height \<Rightarrow> (\<exists>key. valid key \<and> can_link sl L key x prev i height \<and> i < height \<and>
         Node_Next sl x i = Some (first_of (upper Compare sl key (L i)))))"

definition reader_inv :: "'k skiplist \<Rightarrow> (nat \<Rightarrow> nat list) \<Rightarrow> 'k reader \<Rightarrow> bool" where
  "reader_inv sl L r = (case r of
       R_search key x level \<Rightarrow> valid key \<and> level < kMaxHeight \<and>
         x \<in> insert head_node {n \<in> set (L level). before Compare sl key n}
     | _ \<Rightarrow> True)"

definition conc_inv :: "'k conc \<Rightarrow> (nat \<Rightarrow> nat list) \<Rightarrow> bool" where
  "conc_inv s L \<longleftrightarrow> sl_inv Compare valid (c_list s) L \<and> writer_inv (c_list s) L (c_writer s) \<and>
     reader_inv (c_list s) L (c_reader s) \<and> c_published s = key_of (c_list s) ` set (L 0)"

text \<open>The reader is not disturbed by a change that keeps the keys and drops no node from a level.\<close>

lemma reader_inv_mono:
  assumes "reader_inv sl L r" and "\<And>l. l < kMaxHeight \<Longrightarrow> set (L l) \<subseteq> set (L' l)"
    and "\<And>n l. l < kMaxHeight \<Longrightarrow> n \<in> set (L l) \<Longrightarrow> key_of sl' n = key_of sl n"
  shows "reader_inv sl' L' r"
  using assms by (cases r) (auto simp: reader_inv_def before_def)

lemma can_link_same:
  assumes "can_link sl L key x prev i height" and "same_nodes sl sl'"
  shows "can_link sl' L key x prev i height"
proof -
  have same: "length (sl_nodes sl') = length (sl_nodes sl)" "key_of sl' = key_of sl" "levels sl' = levels sl"
    "sl_max_height sl' = sl_max_height sl"
    using assms(2) by (simp_all add: same_nodes_def)
  moreover have "fresh_key sl' x key ns = fresh_key sl x key ns" for ns by (simp add: fresh_key_def same)
  ultimately show ?thesis
    using assms(1) unfolding can_link_def lower_same [OF assms(2)] by simp
qed

lemma w_start_inv:
  assumes inv: "conc_inv s L" and "valid key"
    and prepare: "Insert_prepare Compare (c_list s) key = Some (sl, x, prev, height)"
  shows "conc_inv (s\<lparr>c_list := sl, c_writer := W_link x prev 0 height\<rparr>) L"
proof -
  have L: "sl_inv Compare valid (c_list s) L" and r: "reader_inv (c_list s) L (c_reader s)"
    and p: "c_published s = key_of (c_list s) ` set (L 0)" using inv by (simp_all add: conc_inv_def)
  obtain sl1 prev' height' where "Insert_prepare Compare (c_list s) key =
      Some (sl1, length (sl_nodes (c_list s)), prev', height')"
    and h: "1 \<le> height'" and inv1: "sl_inv Compare valid sl1 L"
    and can: "can_link sl1 L key (length (sl_nodes (c_list s))) prev' 0 height'"
    and keys: "\<And>n. n < length (sl_nodes (c_list s)) \<Longrightarrow> key_of sl1 n = key_of (c_list s) n"
    using Insert_prepare_correct [OF L \<open>valid key\<close> Insert_prepare_fresh [OF L \<open>valid key\<close> prepare]] by blast
  then have eq: "sl1 = sl" "length (sl_nodes (c_list s)) = x" "prev' = prev" "height' = height"
    using prepare by simp_all
  have keys': "key_of sl n = key_of (c_list s) n" if "l < kMaxHeight" "n \<in> set (L l)" for n l
    using keys sl_inv_node(2) [OF L that] unfolding eq by simp
  have "writer_inv sl L (W_link x prev 0 height)"
    using can h \<open>valid key\<close> unfolding eq writer_inv_def by auto
  moreover have "reader_inv sl L (c_reader s)" by (rule reader_inv_mono [OF r]) (simp_all add: keys')
  moreover have "c_published s = key_of sl ` set (L 0)" using keys' [of 0] by (simp add: p)
  ultimately show ?thesis using inv1 unfolding eq by (simp add: conc_inv_def)
qed

lemma w_own_inv:
  assumes inv: "conc_inv s L" and w: "c_writer s = W_link x prev i height" and p: "prev ! i = Some p"
    and nxt: "Node_Next (c_list s) p i = Some nxt" and set: "Node_SetNext (c_list s) x i nxt = Some sl"
  shows "conc_inv (s\<lparr>c_list := sl, c_writer := W_publish x prev i height\<rparr>) L"
proof -
  let ?sl = "c_list s"
  have L: "sl_inv Compare valid ?sl L" and r: "reader_inv ?sl L (c_reader s)"
    and pub: "c_published s = key_of ?sl ` set (L 0)" using inv by (simp_all add: conc_inv_def)
  obtain key where key: "valid key" and can: "can_link ?sl L key x prev i height" and i: "i < height"
    using inv w by (auto simp: conc_inv_def writer_inv_def)
  have x: "x < length (sl_nodes ?sl)" "i < levels ?sl x" "x \<notin> insert head_node (set (L i))"
    and pi: "prev ! i = Some (pred_at ?sl L key i)" and "height \<le> sl_max_height ?sl"
    using can i unfolding can_link_def by simp_all
  then have l: "i < kMaxHeight" using i sl_inv_parts(2) [OF L] by linarith
  have nxt': "nxt = first_of (upper Compare ?sl key (L i))"
    using nxt p pi pred_at_next [OF L l, of key] by simp
  obtain sl' where "Node_SetNext ?sl x i nxt = Some sl'" "same_nodes ?sl sl'" "sl_inv Compare valid sl' L"
    "Node_Next sl' x i = Some nxt"
    using store_own_link [OF L x] by blast
  then have sl: "same_nodes ?sl sl" "sl_inv Compare valid sl L" "Node_Next sl x i = Some nxt" using set by simp_all
  have same: "key_of sl = key_of ?sl" using sl(1) by (simp add: same_nodes_def)
  have "writer_inv sl L (W_publish x prev i height)"
    using can_link_same [OF can sl(1)] key i sl(3) unfolding writer_inv_def nxt'
    by (auto simp: upper_same [OF sl(1)])
  moreover have "reader_inv sl L (c_reader s)" by (rule reader_inv_mono [OF r]) (simp_all add: same)
  ultimately show ?thesis using sl(2) pub by (simp add: conc_inv_def same)
qed

lemma w_publish_inv:
  assumes inv: "conc_inv s L" and w: "c_writer s = W_publish x prev i height" and p: "prev ! i = Some p"
    and set: "Node_SetNext (c_list s) p i (Some x) = Some sl"
  shows "\<exists>L'. conc_inv (s\<lparr>c_list := sl,
      c_writer := (if i + 1 < height then W_link x prev (i + 1) height else W_idle),
      c_published := (if i = 0 then insert (key_of sl x) (c_published s) else c_published s)\<rparr>) L'"
proof -
  let ?sl = "c_list s"
  have L: "sl_inv Compare valid ?sl L" and r: "reader_inv ?sl L (c_reader s)"
    and pub: "c_published s = key_of ?sl ` set (L 0)" using inv by (simp_all add: conc_inv_def)
  obtain key where key: "valid key" and can: "can_link ?sl L key x prev i height" and i: "i < height"
    and own: "Node_Next ?sl x i = Some (first_of (upper Compare ?sl key (L i)))"
    using inv w by (auto simp: conc_inv_def writer_inv_def)
  have x: "x < length (sl_nodes ?sl)" "key_of ?sl x = key" "x \<notin> insert head_node (set (L i))"
    and pi: "prev ! i = Some (pred_at ?sl L key i)" and h: "height \<le> sl_max_height ?sl"
    and fresh: "fresh_key ?sl x key (L 0)" and below: "i = 0 \<or> x \<in> set (L (i - 1))"
    using can i unfolding can_link_def by auto
  have l: "i < kMaxHeight" "i < sl_max_height ?sl" using i h sl_inv_parts(2) [OF L] by linarith+
  let ?L = "L(i := linked ?sl x key (L i))"
  obtain sl' where "Node_SetNext ?sl (pred_at ?sl L key i) i (Some x) = Some sl'" "same_nodes ?sl sl'"
    "sl_inv Compare valid sl' ?L"
    using store_publish [OF L key l x fresh_key_level [OF L fresh l(1)] below own] by blast
  then have sl: "same_nodes ?sl sl" "sl_inv Compare valid sl ?L" using set p pi by simp_all
  have same: "key_of sl = key_of ?sl" using sl(1) by (simp add: same_nodes_def)
  have "writer_inv sl ?L (if i + 1 < height then W_link x prev (i + 1) height else W_idle)"
    using can_link_next [OF can sl(1) i] key by (auto simp: writer_inv_def)
  moreover have "reader_inv sl ?L (c_reader s)" by (rule reader_inv_mono [OF r]) (auto simp: same)
  moreover have "(if i = 0 then insert (key_of sl x) (c_published s) else c_published s) = key_of sl ` set (?L 0)"
    by (auto simp: pub same)
  ultimately have "conc_inv (s\<lparr>c_list := sl,
      c_writer := (if i + 1 < height then W_link x prev (i + 1) height else W_idle),
      c_published := (if i = 0 then insert (key_of sl x) (c_published s) else c_published s)\<rparr>) ?L"
    unfolding conc_inv_def using sl(2) by simp
  then show ?thesis by blast
qed

text \<open>The node behind the reader's position: on the way to the target, or the first one not before it.\<close>

lemma reader_next:
  assumes inv: "sl_inv Compare valid sl L" and r: "reader_inv sl L (R_search key x level)"
  obtains n where "Node_Next sl x level = Some (Some n)" and "n \<in> set (L level)" and "before Compare sl key n"
      and "KeyIsAfterNode Compare sl key (Some n) = Some True"
    | "Node_Next sl x level = Some (first_of (upper Compare sl key (L level)))"
      and "KeyIsAfterNode Compare sl key (first_of (upper Compare sl key (L level))) = Some False"
proof -
  have key: "valid key" and level: "level < kMaxHeight"
    and x: "x \<in> insert head_node (set (lower Compare sl key (L level)))"
    using r set_lower [OF inv, of level key] by (auto simp: reader_inv_def)
  obtain Q where Q: "chain sl level x (Q @ upper Compare sl key (L level))"
    "set Q \<subseteq> set (lower Compare sl key (L level))"
    using search_path [OF inv level x] by blast
  show ?thesis
  proof (cases Q)
    case Nil
    then have nxt: "Node_Next sl x level = Some (first_of (upper Compare sl key (L level)))"
      using chain_nextD [of sl level x "[]"] Q(1) by simp
    moreover have "KeyIsAfterNode Compare sl key (first_of (upper Compare sl key (L level))) = Some False"
    proof (cases "upper Compare sl key (L level)")
      case (Cons n ns)
      then have n: "n < length (sl_nodes sl)" "valid (key_of sl n)" "\<not> before Compare sl key n"
        using upper_nodes [OF inv level key, of n] by simp_all
      obtain c where "Compare (key_of sl n) key = Some c" using Compare_returns n(2) key by blast
      with n Cons show ?thesis
        using node_at_key [OF n(1)] by (simp add: KeyIsAfterNode_def before_def cmp_less_def)
    qed (simp add: KeyIsAfterNode_def)
    ultimately show ?thesis by (rule that(2))
  next
    case (Cons n Q')
    then have n: "n \<in> set (L level)" "before Compare sl key n" using Q(2) set_lower [OF inv level key] by auto
    have "n < length (sl_nodes sl)" using sl_inv_node(2) [OF inv level n(1)] .
    then have "KeyIsAfterNode Compare sl key (Some n) = Some True"
      using n(2) node_at_key [of n sl] by (auto simp: KeyIsAfterNode_def before_def cmp_less_def split: option.splits)
    moreover have "Node_Next sl x level = Some (Some n)" using Q(1) Cons by simp
    ultimately show ?thesis using that(1) n by blast
  qed
qed

lemma step_inv:
  assumes "step Compare valid s s'" and "conc_inv s L"
  shows "\<exists>L'. conc_inv s' L'"
  using assms
proof cases
  case (w_start key sl x prev height)
  then show ?thesis using w_start_inv [OF assms(2)] by blast
next
  case (w_own x prev i height p nxt sl)
  then show ?thesis using w_own_inv [OF assms(2)] by blast
next
  case (w_publish x prev i height p sl)
  then show ?thesis using w_publish_inv [OF assms(2)] by blast
next
  case (r_start key)
  have inv: "sl_inv Compare valid (c_list s) L" using assms(2) by (simp add: conc_inv_def)
  have "sl_max_height (c_list s) - 1 < kMaxHeight"
    using sl_inv_parts(1,2) [OF inv] by linarith
  then have "conc_inv s' L" using assms(2) r_start by (simp add: conc_inv_def reader_inv_def)
  then show ?thesis by blast
next
  case (r_next key x level n)
  have inv: "sl_inv Compare valid (c_list s) L" and r: "reader_inv (c_list s) L (R_search key x level)"
    using assms(2) r_next(2) by (simp_all add: conc_inv_def)
  have "n \<in> set (L level) \<and> before Compare (c_list s) key n"
    using r_next(3,4) by (cases rule: reader_next [OF inv r]) auto
  then have "conc_inv s' L" using assms(2) r_next(1,2) r by (simp add: conc_inv_def reader_inv_def)
  then show ?thesis by blast
next
  case (r_down key x level nxt)
  have inv: "sl_inv Compare valid (c_list s) L" and r: "reader_inv (c_list s) L (R_search key x (Suc level))"
    using assms(2) r_down(2) by (simp_all add: conc_inv_def)
  have "set (L (Suc level)) \<subseteq> set (L level)" using sl_inv_parts(5) [OF inv, of level] r by (simp add: reader_inv_def)
  then have "conc_inv s' L" using assms(2) r_down(1) r by (auto simp: conc_inv_def reader_inv_def)
  then show ?thesis by blast
next
  case (r_done key x nxt)
  then have "conc_inv s' L" using assms(2) by (simp add: conc_inv_def reader_inv_def)
  then show ?thesis by blast
qed

lemma reachable_inv: "reachable Compare valid s \<Longrightarrow> \<exists>L. conc_inv s L"
proof (induction rule: reachable.induct)
  case (start any_key)
  have "conc_inv (initial any_key) (\<lambda>_. [])"
    using sl_inv_SkipList by (simp add: conc_inv_def initial_def writer_inv_def reader_inv_def)
  then show ?case by blast
next
  case (more s s')
  then show ?case using step_inv by blast
qed

lemma reader_answers:
  assumes "reachable Compare valid s" and "step Compare valid s s'"
    and "c_reader s = R_search key x level" and "c_reader s' = R_found key r"
  shows "answers (c_list s') (c_published s') key r"
proof -
  obtain L where L: "conc_inv s L" using reachable_inv [OF assms(1)] by blast
  then have inv: "sl_inv Compare valid (c_list s) L" and rd: "reader_inv (c_list s) L (R_search key x level)"
    and pub: "c_published s = key_of (c_list s) ` set (L 0)"
    using assms(3) by (simp_all add: conc_inv_def)
  from assms(2) show ?thesis
  proof cases
    case (r_done key' x' nxt)
    then have eq: "key' = key" "x' = x" "level = 0" "nxt = r" "c_list s' = c_list s" "c_published s' = c_published s"
      using assms(3,4) by simp_all
    have "r = first_of (upper Compare (c_list s) key (L 0))"
      using r_done(3,4) unfolding eq by (cases rule: reader_next [OF inv rd [unfolded eq]]) auto
    moreover have "valid key" using rd by (simp add: reader_inv_def)
    ultimately show ?thesis using first_upper_answers [OF inv] by (simp add: eq pub)
  qed (use assms(3,4) in auto)
qed

lemma reader_progress:
  assumes "reachable Compare valid s" and rd: "c_reader s = R_search key x level"
  shows "\<exists>r. step Compare valid s (s\<lparr>c_reader := r\<rparr>)"
proof -
  obtain L where L: "conc_inv s L" using reachable_inv [OF assms(1)] by blast
  then have inv: "sl_inv Compare valid (c_list s) L" and r: "reader_inv (c_list s) L (R_search key x level)"
    using rd by (simp_all add: conc_inv_def)
  show ?thesis
  proof (cases rule: reader_next [OF inv r])
    case (1 n)
    then show ?thesis using step.r_next [OF rd] by blast
  next
    case 2
    show ?thesis
    proof (cases level)
      case 0
      show ?thesis by (rule exI, rule step.r_done) (use 2 rd 0 in simp_all)
    next
      case (Suc l)
      show ?thesis by (rule exI, rule step.r_down) (use 2 rd Suc in simp_all)
    qed
  qed
qed

lemma writer_progress:
  assumes "reachable Compare valid s" and w: "c_writer s \<noteq> W_idle"
  shows "\<exists>sl w ks. step Compare valid s (s\<lparr>c_list := sl, c_writer := w, c_published := ks\<rparr>)"
proof -
  obtain L where "conc_inv s L" using reachable_inv [OF assms(1)] by blast
  then have inv: "sl_inv Compare valid (c_list s) L" and wi: "writer_inv (c_list s) L (c_writer s)"
    by (simp_all add: conc_inv_def)
  show ?thesis
  proof (cases "c_writer s")
    case (W_link x prev i height)
    then obtain key where key: "valid key" and can: "can_link (c_list s) L key x prev i height" and i: "i < height"
      using wi by (auto simp: writer_inv_def)
    have x: "x < length (sl_nodes (c_list s))" "i < levels (c_list s) x"
      and p: "prev ! i = Some (pred_at (c_list s) L key i)" and "height \<le> sl_max_height (c_list s)"
      using can i unfolding can_link_def by simp_all
    then have l: "i < kMaxHeight" using i sl_inv_parts(2) [OF inv] by linarith
    obtain sl where "Node_SetNext (c_list s) x i (first_of (upper Compare (c_list s) key (L i))) = Some sl"
      using Node_SetNext_effect [OF x] by blast
    from step.w_own [OF W_link p pred_at_next [OF inv l] this] show ?thesis by (metis (full_types) conc.surjective conc.update_convs)
  next
    case (W_publish x prev i height)
    then obtain key where key: "valid key" and can: "can_link (c_list s) L key x prev i height" and i: "i < height"
      using wi by (auto simp: writer_inv_def)
    have p: "prev ! i = Some (pred_at (c_list s) L key i)" and "height \<le> sl_max_height (c_list s)"
      using can i unfolding can_link_def by simp_all
    then have l: "i < kMaxHeight" using i sl_inv_parts(2) [OF inv] by linarith
    obtain sl where "Node_SetNext (c_list s) (pred_at (c_list s) L key i) i (Some x) = Some sl"
      using Node_SetNext_effect Node_Next_bound [OF pred_at_next [OF inv l, of key]] by blast
    from step.w_publish [OF W_publish p this] show ?thesis by blast
  qed (use w in simp)
qed

end


section \<open>Properties\<close>

text \<open>
  C14: A search that runs without a lock beside an insertion is linearizable: in every interleaving
  of their loads and stores, the node a reader returns is, at the moment of its last load, the
  least published key at or above the target, and it returns \<^verbatim>\<open>NULL\<close> only if all published keys are
  below it. Half-inserted nodes are never seen on the lowest level.
\<close>

theorem concurrent_search_linearizable:
  assumes "comparator cmp valid" and "reachable cmp valid s" and "step cmp valid s s'"
    and "c_reader s = R_search key x level" and "c_reader s' = R_found key r"
  shows "case r of
      None \<Rightarrow> \<forall>k\<in>c_published s'. cmp_less cmp k key
    | Some n \<Rightarrow> key_of (c_list s') n \<in> c_published s' \<and> cmp_leq cmp key (key_of (c_list s') n) \<and>
        (\<forall>k\<in>c_published s'. cmp_leq cmp key k \<longrightarrow> cmp_leq cmp (key_of (c_list s') n) k)"
  using comparator.reader_answers [OF assms] unfolding comparator.answers_def [OF assms(1)] .

text \<open>
  C15: Neither thread is ever stuck: in every reachable state a search can make its next load, from
  an initialised link and without a failed access, and an insertion its next store.
\<close>

theorem concurrent_progress:
  assumes "comparator cmp valid" and "reachable cmp valid s"
  shows "(c_reader s = R_search key x level \<longrightarrow> (\<exists>r. step cmp valid s (s\<lparr>c_reader := r\<rparr>))) \<and>
    (c_writer s \<noteq> W_idle \<longrightarrow> (\<exists>sl w ks. step cmp valid s (s\<lparr>c_list := sl, c_writer := w, c_published := ks\<rparr>)))"
  using comparator.reader_progress [OF assms] comparator.writer_progress [OF assms] by blast

text \<open>
  A run for the witnesses: a reader starts its search for 5, then the node of key 7 gets height 2
  and is linked on the lowest level only.
\<close>

definition half_list :: "nat option option \<Rightarrow> nat option option list \<Rightarrow> nat skiplist" where
  "half_list first own = \<lparr>sl_nodes = [\<lparr>node_key = 0, node_next = first # replicate 11 (Some None)\<rparr>,
     \<lparr>node_key = 7, node_next = own\<rparr>], sl_max_height = 2, sl_rnd = 386994929\<rparr>"

definition half_prev :: prev_array where
  "half_prev = [Some 0, Some 0] @ replicate 10 None"

lemma half_list_steps:
  "Insert_prepare compare_nat (SkipList 0) 7 = Some (half_list (Some None) [None, None], 1, half_prev, 2)"
  "Node_Next (half_list (Some None) [None, None]) 0 0 = Some None"
  "Node_SetNext (half_list (Some None) [None, None]) 1 0 None = Some (half_list (Some None) [Some None, None])"
  "Node_SetNext (half_list (Some None) [Some None, None]) 0 0 (Some 1) = Some (half_list (Some (Some 1)) [Some None, None])"
  "half_prev ! 0 = Some 0"
  by code_simp+

definition half_linked :: "nat conc" where
  "half_linked = \<lparr>c_list = half_list (Some (Some 1)) [Some None, None], c_writer = W_link 1 half_prev 1 2,
     c_reader = R_search 5 head_node 0, c_published = {7}\<rparr>"

lemma half_linked_reachable: "reachable compare_nat (\<lambda>_. True) half_linked"
proof -
  let ?R = "reachable compare_nat (\<lambda>_. True)"
  let ?s = "\<lambda>sl w ks. \<lparr>c_list = sl, c_writer = w, c_reader = R_search 5 head_node 0, c_published = ks\<rparr>"
  have "step compare_nat (\<lambda>_. True) (initial 0) ((initial 0)\<lparr>c_reader := R_search 5 head_node
      (sl_max_height (c_list (initial (0 :: nat))) - 1)\<rparr>)"
    by (rule step.r_start) (simp_all add: initial_def)
  from reachable.more [OF reachable.start this] have 1: "?R (?s (SkipList 0) W_idle {})"
    by (simp add: initial_def SkipList_def)
  let ?l0 = "half_list (Some None) [None, None]" and ?l1 = "half_list (Some None) [Some None, None]"
    and ?l2 = "half_list (Some (Some 1)) [Some None, None]"
  have 2: "?R (?s ?l0 (W_link 1 half_prev 0 2) {})"
    using reachable.more [OF 1 step.w_start [where s = "?s (SkipList 0) W_idle {}" and key = 7 and sl = ?l0
        and x = 1 and prev = half_prev and height = 2]] half_list_steps(1) by simp
  have 3: "?R (?s ?l1 (W_publish 1 half_prev 0 2) {})"
    using reachable.more [OF 2 step.w_own [where s = "?s ?l0 (W_link 1 half_prev 0 2) {}" and sl = ?l1
        and x = 1 and prev = half_prev and height = 2 and i = 0 and p = 0 and nxt = None]]
      half_list_steps(2,3,5) by simp
  have "key_of ?l2 1 = 7" by (simp add: key_of_def half_list_def)
  then show ?thesis
    using reachable.more [OF 3 step.w_publish [where s = "?s ?l1 (W_publish 1 half_prev 0 2) {}" and sl = ?l2
        and x = 1 and prev = half_prev and height = 2 and i = 0 and p = 0]] half_list_steps(4,5)
    by (simp add: half_linked_def)
qed

lemma half_linked_done: "step compare_nat (\<lambda>_. True) half_linked (half_linked\<lparr>c_reader := R_found 5 (Some 1)\<rparr>)"
  by (rule step.r_done) (simp add: half_linked_def, (simp add: half_linked_def, code_simp)+)

lemma concurrent_search_witness: "key_of (c_list half_linked) 1 \<in> c_published half_linked"
  using concurrent_search_linearizable [OF compare_nat.comparator_axioms half_linked_reachable half_linked_done,
      of 5 head_node 0 "Some 1"]
  by (simp add: half_linked_def)

lemma concurrent_progress_witness:
  "(\<exists>r. step compare_nat (\<lambda>_. True) half_linked (half_linked\<lparr>c_reader := r\<rparr>)) \<and> c_writer half_linked \<noteq> W_idle"
  using concurrent_progress [OF compare_nat.comparator_axioms half_linked_reachable, of 5 head_node 0]
  by (simp add: half_linked_def)

end
