(* ===== verification/L_Dbformat.thy ===== *)
theory L_Dbformat
  imports L_Comparator
begin

text \<open>
  Model of \<^verbatim>\<open>db/dbformat.h\<close> and \<^verbatim>\<open>db/dbformat.cc\<close>: internal keys (user key, sequence number and
  value type in one byte string), their comparator over a user-supplied one, and lookup keys.
  \<open>None\<close> is a failed \<^verbatim>\<open>assert\<close>, except for \<open>ParseInternalKey\<close>, where it is the result
  \<^verbatim>\<open>false\<close>. The theory interprets the comparator interface for internal keys: any user
  comparator that keeps the contract gives an internal comparator that keeps it too.
\<close>

section \<open>Internal keys\<close>

datatype ValueType = kTypeDeletion | kTypeValue

instantiation ValueType :: linorder
begin

definition less_eq_ValueType :: "ValueType \<Rightarrow> ValueType \<Rightarrow> bool" where
  "less_eq_ValueType a b \<longleftrightarrow> a = kTypeDeletion \<or> b = kTypeValue"

definition less_ValueType :: "ValueType \<Rightarrow> ValueType \<Rightarrow> bool" where
  "less_ValueType a b \<longleftrightarrow> a = kTypeDeletion \<and> b = kTypeValue"

instance
  by intro_classes (auto simp: less_eq_ValueType_def less_ValueType_def intro: ValueType.exhaust)

end

primrec value_type_code :: "ValueType \<Rightarrow> byte" where
  "value_type_code kTypeDeletion = 0x0"
| "value_type_code kTypeValue = 0x1"

definition value_type_of :: "byte \<Rightarrow> ValueType option" where
  "value_type_of c = (if c = 0x0 then Some kTypeDeletion else if c = 0x1 then Some kTypeValue else None)"

definition kValueTypeForSeek :: ValueType where
  "kValueTypeForSeek = kTypeValue"

type_synonym SequenceNumber = uint64

definition kMaxSequenceNumber :: SequenceNumber where
  "kMaxSequenceNumber = push_bit 56 1 - 1"

record ParsedInternalKey =
  pik_user_key :: slice
  pik_sequence :: SequenceNumber
  pik_type :: ValueType

definition InternalKeyEncodingLength :: "ParsedInternalKey \<Rightarrow> nat" where
  "InternalKeyEncodingLength key = length (pik_user_key key) + 8"

definition PackSequenceAndType :: "uint64 \<Rightarrow> ValueType \<Rightarrow> uint64 option" where
  "PackSequenceAndType seq t =
     (if seq \<le> kMaxSequenceNumber \<and> t \<le> kValueTypeForSeek
      then Some (push_bit 8 seq OR ucast (value_type_code t)) else None)"

definition AppendInternalKey :: "byte list \<Rightarrow> ParsedInternalKey \<Rightarrow> byte list option" where
  "AppendInternalKey result key = do {
     let result = result @ pik_user_key key;
     tag \<leftarrow> PackSequenceAndType (pik_sequence key) (pik_type key);
     Some (PutFixed64 result tag)
   }"

text \<open>\<^verbatim>\<open>internal_key.data() + n - 8\<close>, for \<open>n \<ge> 8\<close>.\<close>

definition tag_bytes :: "slice \<Rightarrow> byte list" where
  "tag_bytes k = drop (length k - 8) k"

definition ExtractUserKey :: "slice \<Rightarrow> slice option" where
  "ExtractUserKey k = (if length k \<ge> 8 then Some (take (length k - 8) k) else None)"

definition ExtractValueType :: "slice \<Rightarrow> byte option" where
  "ExtractValueType k = (if length k \<ge> 8 then do {
       num \<leftarrow> DecodeFixed64 (tag_bytes k);
       Some (ucast (num AND 0xff))
     } else None)"

definition ParseInternalKey :: "slice \<Rightarrow> ParsedInternalKey option" where
  "ParseInternalKey k = (let n = length k in
     if n < 8 then None
     else do {
       num \<leftarrow> DecodeFixed64 (tag_bytes k);
       let c = (ucast (num AND 0xff) :: byte);
       if c \<le> value_type_code kTypeValue then do {
         t \<leftarrow> value_type_of c;
         Some \<lparr>pik_user_key = take (n - 8) k, pik_sequence = drop_bit 8 num, pik_type = t\<rparr>
       } else None
     })"

definition InternalKey :: "slice \<Rightarrow> SequenceNumber \<Rightarrow> ValueType \<Rightarrow> slice option" where
  "InternalKey user_key s t =
     AppendInternalKey [] \<lparr>pik_user_key = user_key, pik_sequence = s, pik_type = t\<rparr>"

definition InternalKey_Encode :: "slice \<Rightarrow> slice option" where
  "InternalKey_Encode rep = (if rep \<noteq> [] then Some rep else None)"

section \<open>The comparator of internal keys\<close>

definition InternalKeyComparator_Compare ::
    "(slice \<Rightarrow> slice \<Rightarrow> int option) \<Rightarrow> slice \<Rightarrow> slice \<Rightarrow> int option" where
  "InternalKeyComparator_Compare user_compare akey bkey = do {
     ua \<leftarrow> ExtractUserKey akey;
     ub \<leftarrow> ExtractUserKey bkey;
     r \<leftarrow> user_compare ua ub;
     if r = 0 then do {
       anum \<leftarrow> DecodeFixed64 (tag_bytes akey);
       bnum \<leftarrow> DecodeFixed64 (tag_bytes bkey);
       Some (if anum > bnum then -1 else if anum < bnum then 1 else r)
     } else Some r
   }"

definition InternalKeyComparator_FindShortestSeparator ::
    "(slice \<Rightarrow> slice \<Rightarrow> int option) \<Rightarrow> (slice \<Rightarrow> slice \<Rightarrow> slice option) \<Rightarrow> slice \<Rightarrow> slice \<Rightarrow> slice option" where
  "InternalKeyComparator_FindShortestSeparator user_compare user_separator start limit = do {
     user_start \<leftarrow> ExtractUserKey start;
     user_limit \<leftarrow> ExtractUserKey limit;
     tmp \<leftarrow> user_separator user_start user_limit;
     if length tmp < length user_start then do {
       c \<leftarrow> user_compare user_start tmp;
       if c < 0 then do {
         tag \<leftarrow> PackSequenceAndType kMaxSequenceNumber kValueTypeForSeek;
         let tmp = PutFixed64 tmp tag;
         c1 \<leftarrow> InternalKeyComparator_Compare user_compare start tmp;
         c2 \<leftarrow> InternalKeyComparator_Compare user_compare tmp limit;
         if c1 < 0 \<and> c2 < 0 then Some tmp else None
       } else Some start
     } else Some start
   }"

definition InternalKeyComparator_FindShortSuccessor ::
    "(slice \<Rightarrow> slice \<Rightarrow> int option) \<Rightarrow> (slice \<Rightarrow> slice option) \<Rightarrow> slice \<Rightarrow> slice option" where
  "InternalKeyComparator_FindShortSuccessor user_compare user_successor key = do {
     user_key \<leftarrow> ExtractUserKey key;
     tmp \<leftarrow> user_successor user_key;
     if length tmp < length user_key then do {
       c \<leftarrow> user_compare user_key tmp;
       if c < 0 then do {
         tag \<leftarrow> PackSequenceAndType kMaxSequenceNumber kValueTypeForSeek;
         let tmp = PutFixed64 tmp tag;
         c1 \<leftarrow> InternalKeyComparator_Compare user_compare key tmp;
         if c1 < 0 then Some tmp else None
       } else Some key
     } else Some key
   }"

section \<open>Lookup keys\<close>

text \<open>The buffer from \<^verbatim>\<open>start_\<close> to \<^verbatim>\<open>end_\<close>, and the offset of \<^verbatim>\<open>kstart_\<close> in it.\<close>

record LookupKey =
  lk_buffer :: "byte list"
  lk_kstart :: nat

definition mk_LookupKey :: "slice \<Rightarrow> SequenceNumber \<Rightarrow> LookupKey option" where
  "mk_LookupKey user_key s = do {
     let usize = length user_key;
     let needed = usize + 13;
     let capacity = (if needed \<le> 200 then 200 else needed);
     let dst = EncodeVarint32 (of_nat (usize + 8));
     let kstart = length dst;
     tag \<leftarrow> PackSequenceAndType s kValueTypeForSeek;
     let buf = dst @ user_key @ EncodeFixed64 tag;
     if length buf \<le> capacity then Some \<lparr>lk_buffer = buf, lk_kstart = kstart\<rparr> else None
   }"

definition memtable_key :: "LookupKey \<Rightarrow> slice" where
  "memtable_key k = lk_buffer k"

definition internal_key :: "LookupKey \<Rightarrow> slice" where
  "internal_key k = drop (lk_kstart k) (lk_buffer k)"

definition lookup_user_key :: "LookupKey \<Rightarrow> slice" where
  "lookup_user_key k = take (length (lk_buffer k) - lk_kstart k - 8) (drop (lk_kstart k) (lk_buffer k))"


section \<open>The shape of internal keys\<close>

text \<open>Every key of at least eight bytes is a user key followed by a packed number.\<close>

definition ikey :: "slice \<Rightarrow> uint64 \<Rightarrow> slice" where
  "ikey u n = u @ le_bytes 8 n"

lemma ikey_cases:
  assumes "8 \<le> length k"
  obtains u n where "k = ikey u n"
proof -
  let ?t = "drop (length k - 8) k"
  have "le_bytes 8 (le_word ?t :: uint64) = ?t" using assms by (intro le_bytes_le_word) simp_all
  then have "k = ikey (take (length k - 8) k) (le_word ?t)" by (simp add: ikey_def)
  then show ?thesis by (rule that)
qed

lemma ikey_simps [simp]:
  "length (ikey u n) = length u + 8"
  "ExtractUserKey (ikey u n) = Some u"
  "tag_bytes (ikey u n) = le_bytes 8 n"
  by (simp_all add: ikey_def ExtractUserKey_def tag_bytes_def)

lemma DecodeFixed64_tag [simp]: "DecodeFixed64 (le_bytes 8 n) = Some n"
  using DecodeFixed64_le_bytes [of n "[]"] by simp

lemma le_bytes_inj: "le_bytes 8 (m :: uint64) = le_bytes 8 n \<longleftrightarrow> m = n"
  by (metis DecodeFixed64_tag option.inject)

lemma ikey_inject [simp]: "ikey u m = ikey v n \<longleftrightarrow> u = v \<and> m = n"
  by (auto simp: ikey_def le_bytes_inj)

definition pack :: "SequenceNumber \<Rightarrow> ValueType \<Rightarrow> uint64" where
  "pack seq t = push_bit 8 seq OR ucast (value_type_code t)"

lemma type_le_seek [simp]: "t \<le> kValueTypeForSeek"
  by (simp add: kValueTypeForSeek_def less_eq_ValueType_def)

lemma PackSequenceAndType_pack: "seq \<le> kMaxSequenceNumber \<Longrightarrow> PackSequenceAndType seq t = Some (pack seq t)"
  by (simp add: PackSequenceAndType_def pack_def)

lemma PackSequenceAndType_max: "PackSequenceAndType kMaxSequenceNumber kValueTypeForSeek = Some 0xFFFFFFFFFFFFFF01"
  by code_simp

lemma seq_bound: "seq \<le> kMaxSequenceNumber \<longleftrightarrow> unat seq < 2 ^ 56"
proof -
  have "unat kMaxSequenceNumber = 2 ^ 56 - 1" by (simp add: kMaxSequenceNumber_def)
  then show ?thesis by (simp add: word_le_nat_alt) linarith
qed

lemma unat_pack:
  assumes "seq \<le> kMaxSequenceNumber"
  shows "unat (pack seq t) = 256 * unat seq + unat (value_type_code t)"
proof -
  have t: "unat (value_type_code t) < 2" by (cases t) simp_all
  have "pack seq t = push_bit 8 seq + ucast (value_type_code t)"
    unfolding pack_def
  proof (rule disjunctive_add [symmetric])
    fix n show "\<not> bit (push_bit 8 seq) n \<or> \<not> bit (ucast (value_type_code t) :: uint64) n"
      by (auto simp: bit_push_bit_iff bit_ucast_iff dest: bit_imp_le_length)
  qed
  also have "\<dots> = of_nat (256 * unat seq + unat (value_type_code t))"
    by (simp add: push_bit_eq_mult mult.commute)
  finally have pack: "pack seq t = of_nat (256 * unat seq + unat (value_type_code t))" .
  have "n < 2 ^ 64 \<Longrightarrow> unat (of_nat n :: uint64) = n" for n by (simp add: unat_of_nat)
  moreover have "256 * unat seq + unat (value_type_code t) < 2 ^ 64"
    using assms t unfolding seq_bound by simp
  ultimately show ?thesis unfolding pack by blast
qed

lemma pack_less_iff:
  assumes "s \<le> kMaxSequenceNumber" and "s' \<le> kMaxSequenceNumber"
  shows "pack s t < pack s' t' \<longleftrightarrow> s < s' \<or> s = s' \<and> t < t'"
proof -
  have "unat (value_type_code t) < 2" "unat (value_type_code t') < 2" by (cases t; cases t'; simp)+
  moreover have "unat (value_type_code t) < unat (value_type_code t') \<longleftrightarrow> t < t'"
    by (cases t; cases t') (simp_all add: less_ValueType_def)
  ultimately show ?thesis
    unfolding word_less_nat_alt unat_pack [OF assms(1)] unat_pack [OF assms(2)] word_unat_eq_iff
    by auto
qed

lemma pack_fields:
  assumes "seq \<le> kMaxSequenceNumber"
  shows "drop_bit 8 (pack seq t) = seq" and "ucast (pack seq t AND 0xff) = value_type_code t"
proof -
  have t: "unat (value_type_code t) < 2" by (cases t) simp_all
  show "drop_bit 8 (pack seq t) = seq"
  proof (rule unsigned_word_eqI)
    have "unat (drop_bit 8 (pack seq t)) = unat (pack seq t) div 256"
      unfolding unat_drop_bit_eq by (simp add: drop_bit_eq_div)
    then show "unat (drop_bit 8 (pack seq t)) = unat seq"
      using t by (simp add: unat_pack [OF assms])
  qed
  show "ucast (pack seq t AND 0xff) = value_type_code t"
    by (rule byte_eqI; simp add: pack_def bit_simps)
qed

lemma value_type_code_inverse [simp]: "value_type_of (value_type_code t) = Some t"
  by (cases t) (simp_all add: value_type_of_def)

lemma InternalKey_ikey: "s \<le> kMaxSequenceNumber \<Longrightarrow> InternalKey u s t = Some (ikey u (pack s t))"
  by (simp add: InternalKey_def AppendInternalKey_def PackSequenceAndType_pack PutFixed64_def ikey_def)

lemma ParseInternalKey_ikey:
  "ParseInternalKey (ikey u n) = map_option
     (\<lambda>t. \<lparr>pik_user_key = u, pik_sequence = drop_bit 8 n, pik_type = t\<rparr>) (value_type_of (ucast (n AND 0xff)))"
  by (auto simp: ParseInternalKey_def Let_def value_type_of_def ikey_def tag_bytes_def
      word_le_nat_alt word_unat_eq_iff split: option.splits)

section \<open>The order of internal keys\<close>

lemma internal_compare_ikey:
  "InternalKeyComparator_Compare cmp (ikey u m) (ikey v n) =
     do { r \<leftarrow> cmp u v; Some (if r = 0 then (if m > n then -1 else if m < n then 1 else 0) else r) }"
  by (cases "cmp u v") (auto simp: InternalKeyComparator_Compare_def)

lemma internal_less_ikey:
  "cmp_less (InternalKeyComparator_Compare cmp) (ikey u m) (ikey v n) \<longleftrightarrow>
     cmp_less cmp u v \<or> cmp_equal cmp u v \<and> n < m"
  by (cases "cmp u v") (auto simp: internal_compare_ikey cmp_defs)

lemma internal_leq_ikey:
  "cmp_leq (InternalKeyComparator_Compare cmp) (ikey u m) (ikey v n) \<longleftrightarrow>
     cmp_less cmp u v \<or> cmp_equal cmp u v \<and> n \<le> m"
  by (cases "cmp u v") (auto simp: internal_compare_ikey cmp_defs)

lemma internal_equal_ikey:
  "cmp_equal (InternalKeyComparator_Compare cmp) (ikey u m) (ikey v n) \<longleftrightarrow> cmp_equal cmp u v \<and> m = n"
  by (cases "cmp u v") (auto simp: internal_compare_ikey cmp_defs)

lemmas internal_iff = internal_less_ikey internal_leq_ikey internal_equal_ikey

text \<open>An internal key is valid when its user part is.\<close>

definition valid_internal :: "(slice \<Rightarrow> bool) \<Rightarrow> slice \<Rightarrow> bool" where
  "valid_internal valid k \<longleftrightarrow> (case ExtractUserKey k of None \<Rightarrow> False | Some u \<Rightarrow> valid u)"

lemma valid_internal_ikey [simp]: "valid_internal valid (ikey u n) = valid u"
  by (simp add: valid_internal_def)

lemma valid_internalE:
  assumes "valid_internal valid k"
  obtains u n where "k = ikey u n" "valid u"
proof -
  have "8 \<le> length k" using assms by (auto simp: valid_internal_def ExtractUserKey_def split: if_splits)
  then obtain u n where "k = ikey u n" by (rule ikey_cases)
  with assms show ?thesis using that by auto
qed


section \<open>The comparator interface for internal keys\<close>

lemma internal_separator_cases:
  assumes "usep u v = Some r"
  shows "InternalKeyComparator_FindShortestSeparator cmp usep (ikey u m) (ikey v n) =
    (if length r < length u then do {
       c \<leftarrow> cmp u r;
       if c < 0 then
         (if cmp_less (InternalKeyComparator_Compare cmp) (ikey u m) (ikey r 0xFFFFFFFFFFFFFF01) \<and>
             cmp_less (InternalKeyComparator_Compare cmp) (ikey r 0xFFFFFFFFFFFFFF01) (ikey v n)
          then Some (ikey r 0xFFFFFFFFFFFFFF01) else None)
       else Some (ikey u m)
     } else Some (ikey u m))"
proof -
  have "PutFixed64 r 0xFFFFFFFFFFFFFF01 = ikey r 0xFFFFFFFFFFFFFF01" by (simp add: PutFixed64_def ikey_def)
  with assms show ?thesis
    by (cases "cmp u r"; cases "cmp r v")
       (auto simp: InternalKeyComparator_FindShortestSeparator_def PackSequenceAndType_max
         internal_compare_ikey cmp_less_def)
qed

lemma internal_successor_cases:
  assumes "usuc u = Some r"
  shows "InternalKeyComparator_FindShortSuccessor cmp usuc (ikey u m) =
    (if length r < length u then do {
       c \<leftarrow> cmp u r;
       if c < 0 then Some (ikey r 0xFFFFFFFFFFFFFF01) else Some (ikey u m)
     } else Some (ikey u m))"
proof -
  have "PutFixed64 r 0xFFFFFFFFFFFFFF01 = ikey r 0xFFFFFFFFFFFFFF01" by (simp add: PutFixed64_def ikey_def)
  with assms show ?thesis
    by (cases "cmp u r")
       (auto simp: InternalKeyComparator_FindShortSuccessor_def PackSequenceAndType_max internal_compare_ikey)
qed

locale user_comparator = user: key_comparator Compare valid FindShortestSeparator FindShortSuccessor
  for Compare :: "slice \<Rightarrow> slice \<Rightarrow> int option" and valid :: "slice \<Rightarrow> bool"
    and FindShortestSeparator :: "slice \<Rightarrow> slice \<Rightarrow> slice option"
    and FindShortSuccessor :: "slice \<Rightarrow> slice option"
begin

lemma internal_leq_iff:
  assumes "valid u" and "valid v"
  shows "cmp_leq (InternalKeyComparator_Compare Compare) (ikey u m) (ikey v n) \<longleftrightarrow>
    cmp_leq Compare u v \<and> (cmp_leq Compare v u \<longrightarrow> n \<le> m)"
  using user.not_less_iff [OF assms] user.not_less_iff [OF assms(2,1)] user.equal_iff [OF assms]
    user.less_imp_leq
  by (auto simp: internal_iff)

sublocale internal: comparator "InternalKeyComparator_Compare Compare" "valid_internal valid"
proof unfold_locales
  fix a b
  assume a: "valid_internal valid a" and b: "valid_internal valid b"
  obtain u m where u: "a = ikey u m" "valid u" using a by (rule valid_internalE)
  obtain v n where v: "b = ikey v n" "valid v" using b by (rule valid_internalE)
  obtain c where c: "Compare u v = Some c" using user.Compare_returns u v by blast
  show "\<exists>c. InternalKeyComparator_Compare Compare a b = Some c"
    using c u v by (simp add: internal_compare_ikey)
  show "\<exists>s. InternalKeyComparator_Compare Compare b a = Some s \<and> sgn s = - sgn r"
    if "InternalKeyComparator_Compare Compare a b = Some r" for r
  proof -
    obtain d where d: "Compare v u = Some d" "sgn d = - sgn c"
      using user.Compare_swap [OF u(2) v(2) c] by blast
    show ?thesis
    proof (cases "c = 0")
      case True
      with d have "d = 0" by (simp add: sgn_0_0)
      with True that c d u v show ?thesis by (auto simp: internal_compare_ikey)
    next
      case False
      with d have "d \<noteq> 0" by (auto simp: sgn_0_0)
      with False that c d u v show ?thesis by (simp add: internal_compare_ikey)
    qed
  qed
next
  fix a b c
  assume a: "valid_internal valid a" and b: "valid_internal valid b" and c: "valid_internal valid c"
    and ab: "cmp_leq (InternalKeyComparator_Compare Compare) a b"
    and bc: "cmp_leq (InternalKeyComparator_Compare Compare) b c"
  obtain u k where u: "a = ikey u k" "valid u" using a by (rule valid_internalE)
  obtain v m where v: "b = ikey v m" "valid v" using b by (rule valid_internalE)
  obtain w n where w: "c = ikey w n" "valid w" using c by (rule valid_internalE)
  have "cmp_leq Compare u v" "cmp_leq Compare v w" "cmp_leq Compare v u \<Longrightarrow> m \<le> k" "cmp_leq Compare w v \<Longrightarrow> n \<le> m"
    using ab bc u v w by (simp_all add: internal_leq_iff)
  moreover from this have "cmp_leq Compare u w" using user.leq_trans u v w by blast
  moreover have "cmp_leq Compare w u \<Longrightarrow> cmp_leq Compare w v \<and> cmp_leq Compare v u"
    using calculation user.leq_trans u(2) v(2) w(2) by blast
  ultimately show "cmp_leq (InternalKeyComparator_Compare Compare) a c"
    using u v w by (auto simp: internal_leq_iff)
qed

sublocale internal: key_comparator "InternalKeyComparator_Compare Compare" "valid_internal valid"
  "InternalKeyComparator_FindShortestSeparator Compare FindShortestSeparator"
  "InternalKeyComparator_FindShortSuccessor Compare FindShortSuccessor"
proof unfold_locales
  fix start limit
  assume start: "valid_internal valid start" and limit: "valid_internal valid limit"
  obtain u m where u: "start = ikey u m" "valid u" using start by (rule valid_internalE)
  obtain v n where v: "limit = ikey v n" "valid v" using limit by (rule valid_internalE)
  note k = u(1) v(1) and valid = u(2) v(2)
  have refl: "cmp_leq (InternalKeyComparator_Compare Compare) (ikey u m) (ikey u m)"
    using user.leq_refl [OF valid(1)] user.equal_iff [OF valid(1) valid(1)] by (simp add: internal_iff)
  have equal: "InternalKeyComparator_FindShortestSeparator Compare FindShortestSeparator start limit = Some start"
    if eq: "cmp_equal Compare u v"
  proof -
    obtain r where r: "FindShortestSeparator u v = Some r" "valid r" "cmp_leq Compare r u"
      using user.separator_equal [OF valid eq] by blast
    then have "\<not> cmp_less Compare u r" using user.not_less_iff valid by blast
    moreover obtain c where "Compare u r = Some c" using user.Compare_returns valid r by blast
    ultimately show ?thesis using k internal_separator_cases [where usep = FindShortestSeparator and u = u and v = v, OF r(1)] by (simp add: cmp_less_def)
  qed
  show "\<exists>r. InternalKeyComparator_FindShortestSeparator Compare FindShortestSeparator start limit = Some r \<and>
      valid_internal valid r \<and> cmp_leq (InternalKeyComparator_Compare Compare) start r \<and>
      cmp_less (InternalKeyComparator_Compare Compare) r limit \<and> length r \<le> length start"
    if less: "cmp_less (InternalKeyComparator_Compare Compare) start limit"
  proof (cases "cmp_equal Compare u v")
    case True
    with equal refl less k valid show ?thesis by auto
  next
    case False
    then have uv: "cmp_less Compare u v" using less k by (simp add: internal_iff)
    then obtain r where r: "FindShortestSeparator u v = Some r" "valid r" "cmp_leq Compare u r"
      "cmp_less Compare r v" "length r \<le> length u"
      using user.separator [OF valid] by blast
    obtain c where c: "Compare u r = Some c" using user.Compare_returns valid r by blast
    show ?thesis
    proof (cases "length r < length u \<and> c < 0")
      case True
      then have ur: "cmp_less Compare u r" using c by (simp add: cmp_less_def)
      then have "InternalKeyComparator_FindShortestSeparator Compare FindShortestSeparator start limit =
          Some (ikey r 0xFFFFFFFFFFFFFF01)"
        using True k c r(4) ur internal_separator_cases [where usep = FindShortestSeparator and u = u and v = v, OF r(1)]
        by (simp add: internal_iff)
      with True ur k r show ?thesis by (simp add: internal_iff)
    next
      case False
      then have "InternalKeyComparator_FindShortestSeparator Compare FindShortestSeparator start limit = Some start"
        using k c internal_separator_cases [where usep = FindShortestSeparator and u = u and v = v, OF r(1)] by auto
      with refl less k valid show ?thesis by simp
    qed
  qed
  show "\<exists>r. InternalKeyComparator_FindShortestSeparator Compare FindShortestSeparator start limit = Some r \<and>
      valid_internal valid r \<and> cmp_leq (InternalKeyComparator_Compare Compare) r start"
    if "cmp_equal (InternalKeyComparator_Compare Compare) start limit"
    using that k equal refl valid by (auto simp: internal_iff)
next
  fix key
  assume "valid_internal valid key"
  then obtain u m where k: "key = ikey u m" and valid: "valid u" by (rule valid_internalE)
  obtain r where r: "FindShortSuccessor u = Some r" "valid r" "cmp_leq Compare u r" "length r \<le> length u"
    using user.successor [OF valid] by blast
  obtain c where c: "Compare u r = Some c" using user.Compare_returns valid r by blast
  have refl: "cmp_leq (InternalKeyComparator_Compare Compare) (ikey u m) (ikey u m)"
    using user.leq_refl [OF valid] user.equal_iff [OF valid valid] by (simp add: internal_iff)
  show "\<exists>r. InternalKeyComparator_FindShortSuccessor Compare FindShortSuccessor key = Some r \<and>
      valid_internal valid r \<and> cmp_leq (InternalKeyComparator_Compare Compare) key r \<and> length r \<le> length key"
    using internal_successor_cases [where usuc = FindShortSuccessor and u = u and cmp = Compare and m = m, OF r(1)] k c r valid refl
    by (auto simp: internal_iff cmp_less_def)
qed

end

interpretation bytewise: user_comparator BytewiseComparator_Compare "\<lambda>_. True"
  BytewiseComparator_FindShortestSeparator BytewiseComparator_FindShortSuccessor
  by unfold_locales


section \<open>The views of a lookup key\<close>

lemma mk_LookupKey_views:
  assumes "s \<le> kMaxSequenceNumber" and "length u + 8 < 2 ^ 32"
  shows "\<exists>lk. mk_LookupKey u s = Some lk \<and> internal_key lk = ikey u (pack s kTypeValue) \<and>
    lookup_user_key lk = u \<and> memtable_key lk = prefixed (ikey u (pack s kTypeValue))"
proof -
  let ?len = "leb128 (length u + 8)" and ?k = "ikey u (pack s kTypeValue)"
  have len: "length ?len \<le> 5" using assms(2) length_leb128 [of "length u + 8" 4] by simp
  define lk where "lk = \<lparr>lk_buffer = ?len @ ?k, lk_kstart = length ?len\<rparr>"
  have "EncodeVarint32 (of_nat (length u + 8)) = ?len"
    using assms(2) by (simp add: EncodeVarint32_leb128 unat_of_nat del: of_nat_add)
  then have "mk_LookupKey u s = Some lk"
    using len assms(1) PackSequenceAndType_pack [of s kTypeValue]
    by (auto simp: mk_LookupKey_def kValueTypeForSeek_def lk_def ikey_def Let_def)
  moreover have "internal_key lk = ?k" by (simp add: lk_def internal_key_def)
  moreover have "lookup_user_key lk = u" by (simp add: lk_def lookup_user_key_def ikey_def)
  moreover have "memtable_key lk = prefixed ?k"
    using assms(2) by (simp add: lk_def memtable_key_def prefixed_def)
  ultimately show ?thesis by blast
qed

section \<open>Properties\<close>

text \<open>
  C13: Internal keys round trip: a user key, a sequence number of at most 56 bits and a value type
  are appended without a failed assertion, in \<^verbatim>\<open>InternalKeyEncodingLength\<close> bytes, and parsed back;
  and every string that parses is the serialization of what it parses to.
\<close>

theorem internal_key_roundtrip:
  "(pik_sequence pk \<le> kMaxSequenceNumber \<longrightarrow>
      (\<exists>k. AppendInternalKey r pk = Some (r @ k) \<and> length k = InternalKeyEncodingLength pk \<and>
        ParseInternalKey k = Some pk \<and> ExtractUserKey k = Some (pik_user_key pk))) \<and>
   (ParseInternalKey k = Some pk \<longrightarrow> AppendInternalKey [] pk = Some k)"
proof (intro conjI impI)
  assume seq: "pik_sequence pk \<le> kMaxSequenceNumber"
  let ?k = "ikey (pik_user_key pk) (pack (pik_sequence pk) (pik_type pk))"
  have "AppendInternalKey r pk = Some (r @ ?k)"
    using seq by (simp add: AppendInternalKey_def PackSequenceAndType_pack PutFixed64_def ikey_def)
  moreover have "ParseInternalKey ?k = Some pk"
    using seq by (simp add: ParseInternalKey_ikey pack_fields)
  ultimately show "\<exists>k. AppendInternalKey r pk = Some (r @ k) \<and> length k = InternalKeyEncodingLength pk \<and>
      ParseInternalKey k = Some pk \<and> ExtractUserKey k = Some (pik_user_key pk)"
    by (intro exI [of _ ?k]) (simp add: InternalKeyEncodingLength_def)
next
  assume parse: "ParseInternalKey k = Some pk"
  then have "8 \<le> length k" by (auto simp: ParseInternalKey_def Let_def split: if_splits)
  then obtain u n where k: "k = ikey u n" by (rule ikey_cases)
  with parse obtain t where t: "value_type_of (ucast (n AND 0xff)) = Some t"
    and pk: "pk = \<lparr>pik_user_key = u, pik_sequence = drop_bit 8 n, pik_type = t\<rparr>"
    by (auto simp: ParseInternalKey_ikey)
  have "unat (drop_bit 8 n) = unat n div 256" unfolding unat_drop_bit_eq by (simp add: drop_bit_eq_div)
  moreover have "unat n < 2 ^ LENGTH(64)" by (rule unsigned_less)
  ultimately have seq: "drop_bit 8 n \<le> kMaxSequenceNumber" by (simp add: seq_bound)
  have code: "value_type_code t = ucast (n AND 0xff)" using t by (auto simp: value_type_of_def split: if_splits)
  have "pack (drop_bit 8 n) t = n"
  proof (rule bit_word_eqI)
    have ff: "n AND 0xff = take_bit 8 n" by (simp add: take_bit_eq_mask mask_eq_exp_minus_1)
    fix i assume "i < LENGTH(64)"
    then show "bit (pack (drop_bit 8 n) t) i = bit n i"
      unfolding pack_def code ff by (cases "i < 8") (auto simp: bit_simps)
  qed
  with seq k pk show "AppendInternalKey [] pk = Some k"
    by (simp add: AppendInternalKey_def PackSequenceAndType_pack PutFixed64_def ikey_def)
qed

lemma internal_key_roundtrip_witness:
  "\<exists>k. AppendInternalKey [7] \<lparr>pik_user_key = [1, 2], pik_sequence = 5, pik_type = kTypeValue\<rparr> = Some ([7] @ k) \<and>
     ParseInternalKey k = Some \<lparr>pik_user_key = [1, 2], pik_sequence = 5, pik_type = kTypeValue\<rparr>"
proof -
  have "(5 :: uint64) \<le> kMaxSequenceNumber" by code_simp
  then show ?thesis
    using internal_key_roundtrip [of "\<lparr>pik_user_key = [1, 2], pik_sequence = 5, pik_type = kTypeValue\<rparr>" "[7]"]
    by auto
qed

text \<open>
  C27: The internal comparator over the bytewise one orders two internal keys by user key, entries
  of one user key from the newest to the oldest sequence number, and a value before a deletion of
  the same number; it returns \<^verbatim>\<open>0\<close> only for equal keys.
\<close>

theorem internal_key_order:
  assumes "InternalKey u s t = Some a" and "InternalKey v s' t' = Some b"
  shows "\<exists>c. InternalKeyComparator_Compare BytewiseComparator_Compare a b = Some c \<and>
    (c < 0 \<longleftrightarrow> u < v \<or> u = v \<and> (s > s' \<or> s = s' \<and> t > t')) \<and> (c = 0 \<longleftrightarrow> a = b)"
proof -
  have pack_seq: "InternalKey w q y = Some k \<Longrightarrow> q \<le> kMaxSequenceNumber \<and> k = ikey w (pack q y)" for w q y k
    using InternalKey_ikey [of q w y] by (auto simp: InternalKey_def AppendInternalKey_def PackSequenceAndType_def
        split: if_splits Option.bind_splits)
  note a = pack_seq [OF assms(1)] and b = pack_seq [OF assms(2)]
  obtain c where c: "InternalKeyComparator_Compare BytewiseComparator_Compare a b = Some c"
    using bytewise.internal.Compare_returns [of a b] a b by auto
  have "c < 0 \<longleftrightarrow> u < v \<or> u = v \<and> pack s' t' < pack s t"
    using internal_less_ikey [of BytewiseComparator_Compare u "pack s t" v "pack s' t'"] a b c
    by (simp add: cmp_less_def [of "InternalKeyComparator_Compare _"] bytewise_iff)
  moreover have "c = 0 \<longleftrightarrow> a = b"
    using internal_equal_ikey [of BytewiseComparator_Compare u "pack s t" v "pack s' t'"] a b c
    by (simp add: cmp_equal_def [of "InternalKeyComparator_Compare _"] bytewise_iff)
  ultimately show ?thesis using c a b pack_less_iff by blast
qed

lemma internal_key_order_witness:
  "\<exists>a b c. InternalKey [1] 7 kTypeDeletion = Some a \<and> InternalKey [1] 3 kTypeValue = Some b \<and>
     InternalKeyComparator_Compare BytewiseComparator_Compare a b = Some c \<and> c < 0"
proof -
  have "InternalKey [1] 7 kTypeDeletion = Some [1, 0, 7, 0, 0, 0, 0, 0, 0]" by code_simp
  moreover have "InternalKey [1] 3 kTypeValue = Some [1, 1, 3, 0, 0, 0, 0, 0, 0]" by code_simp
  ultimately show ?thesis
    using internal_key_order [of "[1]" 7 kTypeDeletion _ "[1]" 3 kTypeValue] by fastforce
qed

text \<open>
  Over the bytewise comparator the assertions of
  \<^verbatim>\<open>InternalKeyComparator::FindShortestSeparator\<close> and \<^verbatim>\<open>FindShortSuccessor\<close> hold on internal keys,
  also when both have the same user key, and the shortened keys stay on the right side of their
  neighbours. (The locale above shows it for every user comparator that keeps the contract.)
\<close>

lemma internal_shortening_sound:
  assumes "InternalKeyComparator_Compare BytewiseComparator_Compare start limit = Some c" and "c < 0"
  shows "(\<exists>r c1 c2. InternalKeyComparator_FindShortestSeparator BytewiseComparator_Compare
        BytewiseComparator_FindShortestSeparator start limit = Some r \<and> length r \<le> length start \<and>
      InternalKeyComparator_Compare BytewiseComparator_Compare start r = Some c1 \<and> c1 \<le> 0 \<and>
      InternalKeyComparator_Compare BytewiseComparator_Compare r limit = Some c2 \<and> c2 < 0) \<and>
    (\<exists>r c1. InternalKeyComparator_FindShortSuccessor BytewiseComparator_Compare
        BytewiseComparator_FindShortSuccessor start = Some r \<and> length r \<le> length start \<and>
      InternalKeyComparator_Compare BytewiseComparator_Compare start r = Some c1 \<and> c1 \<le> 0)"
proof -
  have long: "8 \<le> length start" "8 \<le> length limit"
    using assms(1) by (auto simp: InternalKeyComparator_Compare_def ExtractUserKey_def split: if_splits)
  have valid: "valid_internal (\<lambda>_. True) start" "valid_internal (\<lambda>_. True) limit"
    using long by (simp_all add: valid_internal_def ExtractUserKey_def)
  have less: "cmp_less (InternalKeyComparator_Compare BytewiseComparator_Compare) start limit"
    using assms by (simp add: cmp_less_def)
  show ?thesis
    using bytewise.internal.separator [OF valid less] bytewise.internal.successor [OF valid(1)]
    unfolding cmp_less_def cmp_leq_def by (fastforce split: option.splits)
qed

lemma internal_shortening_witness:
  "\<exists>r. InternalKeyComparator_FindShortestSeparator BytewiseComparator_Compare
     BytewiseComparator_FindShortestSeparator [1, 2, 3, 1, 0, 0, 0, 0, 0, 0, 0] [1, 5, 1, 0, 0, 0, 0, 0, 0, 0] = Some r"
proof -
  have "InternalKeyComparator_Compare BytewiseComparator_Compare
      [1, 2, 3, 1, 0, 0, 0, 0, 0, 0, 0] [1, 5, 1, 0, 0, 0, 0, 0, 0, 0] = Some (- 3)" by code_simp
  from internal_shortening_sound [OF this] show ?thesis by auto
qed

text \<open>
  C28: A lookup key fits its buffer (the 200 bytes inside the object or the estimate that is
  allocated), its three views are the length-prefixed entry key, the internal key and the user key,
  and the internal key is at or before exactly those entries of the user key that are visible at
  the sequence number.
\<close>

theorem lookup_key_correct:
  assumes "s \<le> kMaxSequenceNumber" and "length u + 8 < 2 ^ 32"
  shows "\<exists>lk. mk_LookupKey u s = Some lk \<and> memtable_key lk = prefixed (internal_key lk) \<and>
    lookup_user_key lk = u \<and> InternalKey u s kTypeValue = Some (internal_key lk) \<and>
    (\<forall>s' t' k. InternalKey u s' t' = Some k \<longrightarrow>
      (cmp_leq (InternalKeyComparator_Compare BytewiseComparator_Compare) (internal_key lk) k \<longleftrightarrow> s' \<le> s))"
proof -
  let ?k = "ikey u (pack s kTypeValue)"
  obtain lk where "mk_LookupKey u s = Some lk" "internal_key lk = ?k" "lookup_user_key lk = u" "memtable_key lk = prefixed ?k"
    using mk_LookupKey_views [OF assms] by blast
  moreover have "cmp_leq (InternalKeyComparator_Compare BytewiseComparator_Compare) ?k k \<longleftrightarrow> s' \<le> s"
    if "InternalKey u s' t' = Some k" for s' t' k
  proof -
    have s': "s' \<le> kMaxSequenceNumber"
      using that by (auto simp: InternalKey_def AppendInternalKey_def PackSequenceAndType_def split: if_splits)
    then have "k = ikey u (pack s' t')" using that InternalKey_ikey by auto
    moreover have "pack s' t' \<le> pack s kTypeValue \<longleftrightarrow> s' \<le> s"
      using pack_less_iff [OF assms(1) s', of kTypeValue t'] type_le_seek [of t']
      by (auto simp: kValueTypeForSeek_def not_less [symmetric])
    ultimately show ?thesis by (simp add: internal_iff bytewise_iff)
  qed
  ultimately show ?thesis using assms(1) by (auto simp: InternalKey_ikey)
qed

lemma lookup_key_correct_witness:
  "\<exists>lk. mk_LookupKey [1, 2] 9 = Some lk \<and> lookup_user_key lk = [1, 2]"
proof -
  have "(9 :: uint64) \<le> kMaxSequenceNumber" "length [1, 2 :: byte] + 8 < 2 ^ 32" by (code_simp, simp)
  from lookup_key_correct [OF this] show ?thesis by auto
qed

end
