(* ===== verification/L_Status.thy ===== *)
theory L_Status
  imports L_Coding "HOL-Library.Char_ord"
begin

text \<open>
  Model of \<^verbatim>\<open>include/leveldb/status.h\<close>, \<^verbatim>\<open>util/status.cc\<close> and of the decimal and escaping routines of
  \<^verbatim>\<open>util/logging.cc\<close>. A status is the member \<^verbatim>\<open>state_\<close>: \<open>None\<close> for \<^verbatim>\<open>NULL\<close>, otherwise the bytes of
  the array with the length of the message, the code and the message.
\<close>

section \<open>Strings and decimal numbers\<close>

text \<open>The bytes of a literal of the code.\<close>

definition str :: "string \<Rightarrow> byte list" where
  "str s = map (\<lambda>c. of_nat (of_char c)) s"

text \<open>\<^verbatim>\<open>%llu\<close> prints the decimal digits of the number.\<close>

fun decimal :: "nat \<Rightarrow> byte list" where
  "decimal n = (if n < 10 then [of_nat (48 + n)] else decimal (n div 10) @ [of_nat (48 + n mod 10)])"

declare decimal.simps [simp del]

definition AppendNumberTo :: "byte list \<Rightarrow> uint64 \<Rightarrow> byte list" where
  "AppendNumberTo s num = s @ decimal (unat num)"

definition NumberToString :: "uint64 \<Rightarrow> byte list" where
  "NumberToString num = AppendNumberTo [] num"

definition hex_digit :: "byte \<Rightarrow> byte" where
  "hex_digit d = (if d < 10 then 48 + d else 87 + d)"

text \<open>\<^verbatim>\<open>char\<close> is signed on the platform, so bytes from 128 are below the space and escaped.\<close>

definition escaped :: "byte \<Rightarrow> byte list" where
  "escaped c = (if 0x20 \<le>s c \<and> c \<le>s 0x7e then [c]
     else [0x5c, 0x78, hex_digit (drop_bit 4 c), hex_digit (c AND 0xf)])"

primrec AppendEscapedStringTo :: "byte list \<Rightarrow> slice \<Rightarrow> byte list" where
  "AppendEscapedStringTo s [] = s"
| "AppendEscapedStringTo s (c # value) = AppendEscapedStringTo (s @ escaped c) value"

definition EscapeString :: "slice \<Rightarrow> byte list" where
  "EscapeString value = AppendEscapedStringTo [] value"

text \<open>The loop with \<^verbatim>\<open>v\<close> and \<^verbatim>\<open>digits\<close>; \<open>None\<close> is the overflow, and the slice stays where it stopped.\<close>

fun ConsumeDecimalNumber_loop :: "uint64 \<Rightarrow> nat \<Rightarrow> slice \<Rightarrow> (uint64 \<times> nat) option \<times> slice" where
  "ConsumeDecimalNumber_loop v digits [] = (Some (v, digits), [])"
| "ConsumeDecimalNumber_loop v digits (c # rest) =
     (if 0x30 \<le>s c \<and> c \<le>s 0x39 then
        let delta = ucast (c - 0x30) :: uint64; kMaxUint64 = - 1 :: uint64 in
        if v > kMaxUint64 div 10 \<or> v = kMaxUint64 div 10 \<and> delta > kMaxUint64 mod 10
        then (None, c # rest)
        else ConsumeDecimalNumber_loop (v * 10 + delta) (digits + 1) rest
      else (Some (v, digits), c # rest))"

definition ConsumeDecimalNumber :: "slice \<Rightarrow> uint64 option \<times> slice" where
  "ConsumeDecimalNumber input = (case ConsumeDecimalNumber_loop 0 0 input of
       (None, rest) \<Rightarrow> (None, rest)
     | (Some (v, digits), rest) \<Rightarrow> (if digits > 0 then Some v else None, rest))"

section \<open>Status\<close>

type_synonym Status = "byte list option"

definition kOk :: byte where "kOk = 0"
definition kNotFound :: byte where "kNotFound = 1"
definition kCorruption :: byte where "kCorruption = 2"
definition kNotSupported :: byte where "kNotSupported = 3"
definition kInvalidArgument :: byte where "kInvalidArgument = 4"
definition kIOError :: byte where "kIOError = 5"

lemmas status_codes = kOk_def kNotFound_def kCorruption_def kNotSupported_def kInvalidArgument_def kIOError_def

definition Status_OK :: Status where
  "Status_OK = None"

text \<open>The private constructor; the sizes are converted to \<^verbatim>\<open>uint32_t\<close>.\<close>

definition mk_Status :: "byte \<Rightarrow> slice \<Rightarrow> slice \<Rightarrow> Status option" where
  "mk_Status code msg msg2 = (if code = kOk then None else
     let len1 = of_nat (length msg) :: uint32; len2 = of_nat (length msg2) :: uint32;
         size = len1 + (if len2 \<noteq> 0 then 2 + len2 else 0)
     in Some (Some (le_bytes 4 size @ [code] @ take (unat len1) msg @
          (if len2 \<noteq> 0 then [0x3a, 0x20] @ take (unat len2) msg2 else []))))"

definition NotFound :: "slice \<Rightarrow> slice \<Rightarrow> Status option" where
  "NotFound msg msg2 = mk_Status kNotFound msg msg2"

definition Corruption :: "slice \<Rightarrow> slice \<Rightarrow> Status option" where
  "Corruption msg msg2 = mk_Status kCorruption msg msg2"

definition NotSupported :: "slice \<Rightarrow> slice \<Rightarrow> Status option" where
  "NotSupported msg msg2 = mk_Status kNotSupported msg msg2"

definition InvalidArgument :: "slice \<Rightarrow> slice \<Rightarrow> Status option" where
  "InvalidArgument msg msg2 = mk_Status kInvalidArgument msg msg2"

definition IOError :: "slice \<Rightarrow> slice \<Rightarrow> Status option" where
  "IOError msg msg2 = mk_Status kIOError msg msg2"

definition Status_ok :: "Status \<Rightarrow> bool" where
  "Status_ok s \<longleftrightarrow> s = None"

definition Status_code :: "Status \<Rightarrow> byte option" where
  "Status_code s = (case s of None \<Rightarrow> Some kOk
     | Some state \<Rightarrow> if 4 < length state then Some (state ! 4) else None)"

definition IsNotFound :: "Status \<Rightarrow> bool option" where
  "IsNotFound s = map_option (\<lambda>c. c = kNotFound) (Status_code s)"

definition IsCorruption :: "Status \<Rightarrow> bool option" where
  "IsCorruption s = map_option (\<lambda>c. c = kCorruption) (Status_code s)"

definition IsIOError :: "Status \<Rightarrow> bool option" where
  "IsIOError s = map_option (\<lambda>c. c = kIOError) (Status_code s)"

definition IsNotSupportedError :: "Status \<Rightarrow> bool option" where
  "IsNotSupportedError s = map_option (\<lambda>c. c = kNotSupported) (Status_code s)"

definition IsInvalidArgument :: "Status \<Rightarrow> bool option" where
  "IsInvalidArgument s = map_option (\<lambda>c. c = kInvalidArgument) (Status_code s)"

text \<open>\<^verbatim>\<open>memcpy(result, state, size + 5)\<close>, and the copies made with it.\<close>

definition CopyState :: "byte list \<Rightarrow> byte list option" where
  "CopyState state = do {
     size \<leftarrow> DecodeFixed32 state;
     let n = unat (size + 5);
     if n \<le> length state then Some (take n state) else None
   }"

definition Status_copy :: "Status \<Rightarrow> Status option" where
  "Status_copy s = (case s of None \<Rightarrow> Some None | Some state \<Rightarrow> map_option Some (CopyState state))"

definition code_text :: "byte \<Rightarrow> byte list" where
  "code_text code =
     (if code = kOk then str ''OK''
      else if code = kNotFound then str ''NotFound: ''
      else if code = kCorruption then str ''Corruption: ''
      else if code = kNotSupported then str ''Not implemented: ''
      else if code = kInvalidArgument then str ''Invalid argument: ''
      else if code = kIOError then str ''IO error: ''
      else str ''Unknown code('' @ (if sint code < 0 then [0x2d] else []) @ decimal (nat \<bar>sint code\<bar>) @ str ''): '')"

definition Status_ToString :: "Status \<Rightarrow> byte list option" where
  "Status_ToString s = (case s of None \<Rightarrow> Some (str ''OK'')
     | Some state \<Rightarrow> do {
         code \<leftarrow> Status_code s;
         len \<leftarrow> DecodeFixed32 state;
         if 5 + unat len \<le> length state then Some (code_text code @ take (unat len) (drop 5 state)) else None
       })"

text \<open>The message a status is made with.\<close>

definition joined :: "slice \<Rightarrow> slice \<Rightarrow> slice" where
  "joined msg msg2 = msg @ (if msg2 = [] then [] else [0x3a, 0x20] @ msg2)"

lemma mk_Status_state:
  assumes "code \<noteq> kOk" and "length msg + length msg2 + 2 < 2 ^ 32"
  shows "mk_Status code msg msg2 =
    Some (Some (le_bytes 4 (of_nat (length (joined msg msg2)) :: uint32) @ [code] @ joined msg msg2))"
proof -
  have "unat (of_nat (length msg) :: uint32) = length msg" "unat (of_nat (length msg2) :: uint32) = length msg2"
    using assms(2) by (simp_all add: unat_of_nat)
  moreover have "(of_nat (length msg2) :: uint32) = 0 \<longleftrightarrow> msg2 = []"
    using calculation(2) by (auto simp: unat_eq_zero)
  ultimately show ?thesis
    using assms(1) by (auto simp: mk_Status_def joined_def Let_def)
qed

lemma DecodeFixed32_state: "DecodeFixed32 (le_bytes 4 (n :: uint32) @ s) = Some n"
  by simp

text \<open>
  A status keeps its code and message: \<^verbatim>\<open>code()\<close> returns the code, \<^verbatim>\<open>ToString\<close> the name of the code
  and the two messages, and a copy is the same array.
\<close>

lemma status_reads_back:
  assumes "code \<noteq> kOk" and "length msg + length msg2 + 7 < 2 ^ 32"
  shows "\<exists>s. mk_Status code msg msg2 = Some s \<and> \<not> Status_ok s \<and> Status_code s = Some code \<and>
    Status_ToString s = Some (code_text code @ joined msg msg2) \<and> Status_copy s = Some s"
proof -
  define n where "n = length (joined msg msg2)"
  define state where "state = le_bytes 4 (of_nat n :: uint32) @ [code] @ joined msg msg2"
  have n: "n + 5 < 2 ^ 32" using assms(2) by (simp add: n_def joined_def)
  then have un: "unat (of_nat n :: uint32) = n" "unat (of_nat n + 5 :: uint32) = n + 5"
    using unat_of_nat [of "n + 5", where 'a = 32] by (simp_all add: unat_of_nat)
  have dec: "DecodeFixed32 state = Some (of_nat n)" by (simp add: state_def)
  have len: "length state = n + 5" by (simp add: state_def n_def)
  have nth: "state ! 4 = code" by (simp add: state_def nth_append)
  have "drop 5 state = joined msg msg2" by (simp add: state_def)
  then have "Status_ToString (Some state) = Some (code_text code @ joined msg msg2)"
    using dec len nth un by (simp add: Status_ToString_def Status_code_def n_def)
  moreover have "Status_copy (Some state) = Some (Some state)"
    using dec len un by (simp add: Status_copy_def CopyState_def)
  moreover have "mk_Status code msg msg2 = Some (Some state)"
    using mk_Status_state [OF assms(1)] assms(2) by (simp add: state_def n_def)
  ultimately show ?thesis using len nth by (auto simp: Status_ok_def Status_code_def)
qed

end
