(* ===== verification/L_MemTable.thy ===== *)
theory L_MemTable
  imports L_Dbformat L_SkipList_Theorems L_Status
begin

text \<open>
  Model of \<^verbatim>\<open>db/memtable.h\<close> and \<^verbatim>\<open>db/memtable.cc\<close>: entries of a key, a tag and a value in one byte
  string, kept in the skip list under the comparator of their internal keys. A pointer into the
  arena is the bytes it points to (entries are never changed). \<open>None\<close> is a failed assertion or a
  read outside the entry.
\<close>

section \<open>Entries\<close>

text \<open>
  The file's own \<^verbatim>\<open>GetLengthPrefixedSlice(const char*)\<close> lets the varint parser look at five bytes;
  the bytes behind the slice are returned too, since \<^verbatim>\<open>value()\<close> goes on there.
\<close>

definition entry_slice :: "byte list \<Rightarrow> (slice \<times> byte list) option" where
  "entry_slice data = (case GetVarint32Ptr (take 5 data) of
       None \<Rightarrow> None
     | Some (len, q) \<Rightarrow> (let p = drop (length (take 5 data) - length q) data in
         if unat len \<le> length p then Some (take (unat len) p, drop (unat len) p) else None))"

definition entry_key :: "byte list \<Rightarrow> slice option" where
  "entry_key data = map_option fst (entry_slice data)"

definition MemTable_Compare :: "(slice \<Rightarrow> slice \<Rightarrow> int option) \<Rightarrow> byte list \<Rightarrow> byte list \<Rightarrow> int option" where
  "MemTable_Compare user_compare aptr bptr = do {
     a \<leftarrow> entry_key aptr;
     b \<leftarrow> entry_key bptr;
     InternalKeyComparator_Compare user_compare a b
   }"

definition EncodeKey :: "slice \<Rightarrow> byte list" where
  "EncodeKey target = PutVarint32 [] (of_nat (length target)) @ target"

section \<open>The table\<close>

record MemTable =
  mem_refs :: int
  mem_table :: "byte list skiplist"

definition mk_MemTable :: MemTable where
  "mk_MemTable = \<lparr>mem_refs = 0, mem_table = SkipList []\<rparr>"

definition MemTable_Ref :: "MemTable \<Rightarrow> MemTable" where
  "MemTable_Ref mem = mem\<lparr>mem_refs := mem_refs mem + 1\<rparr>"

text \<open>The table and whether it has been deleted.\<close>

definition MemTable_Unref :: "MemTable \<Rightarrow> (MemTable \<times> bool) option" where
  "MemTable_Unref mem = (let mem = mem\<lparr>mem_refs := mem_refs mem - 1\<rparr> in
     if mem_refs mem \<ge> 0 then Some (mem, mem_refs mem \<le> 0) else None)"

definition MemTable_Add :: "(slice \<Rightarrow> slice \<Rightarrow> int option) \<Rightarrow> MemTable \<Rightarrow> SequenceNumber \<Rightarrow> ValueType \<Rightarrow>
    slice \<Rightarrow> slice \<Rightarrow> MemTable option" where
  "MemTable_Add user_compare mem s type key value = do {
     let key_size = length key;
     let val_size = length value;
     let internal_key_size = key_size + 8;
     let encoded_len = VarintLength (of_nat internal_key_size) + internal_key_size +
       VarintLength (of_nat val_size) + val_size;
     let buf = EncodeVarint32 (of_nat internal_key_size) @ key @
       EncodeFixed64 (push_bit 8 s OR ucast (value_type_code type)) @
       EncodeVarint32 (of_nat val_size) @ value;
     if length buf = encoded_len then do {
       table \<leftarrow> Insert (MemTable_Compare user_compare) (mem_table mem) buf;
       Some (mem\<lparr>mem_table := table\<rparr>)
     } else None
   }"

text \<open>The answers of \<^verbatim>\<open>Get\<close>: a value, the status \<^verbatim>\<open>NotFound\<close> (both with \<^verbatim>\<open>true\<close>), or \<^verbatim>\<open>false\<close>.\<close>

datatype get_result = Found slice | Deleted Status | Missing

definition MemTable_Get :: "(slice \<Rightarrow> slice \<Rightarrow> int option) \<Rightarrow> MemTable \<Rightarrow> LookupKey \<Rightarrow> get_result option" where
  "MemTable_Get user_compare mem key = do {
     it \<leftarrow> Iterator_Seek (MemTable_Compare user_compare) (mem_table mem) (memtable_key key);
     if Iterator_Valid it then do {
       entry \<leftarrow> Iterator_key (mem_table mem) it;
       (ik, rest) \<leftarrow> entry_slice entry;
       uk \<leftarrow> ExtractUserKey ik;
       c \<leftarrow> user_compare uk (lookup_user_key key);
       if c = 0 then do {
         tag \<leftarrow> DecodeFixed64 (tag_bytes ik);
         (case value_type_of (ucast (tag AND 0xff)) of
            Some kTypeValue \<Rightarrow> do { v \<leftarrow> entry_key rest; Some (Found v) }
          | Some kTypeDeletion \<Rightarrow> do { s \<leftarrow> NotFound [] []; Some (Deleted s) }
          | None \<Rightarrow> Some Missing)
       } else Some Missing
     } else Some Missing
   }"

text \<open>The iterator over the memtable.\<close>

definition MemTableIterator_Seek ::
    "(slice \<Rightarrow> slice \<Rightarrow> int option) \<Rightarrow> MemTable \<Rightarrow> slice \<Rightarrow> sl_iterator option" where
  "MemTableIterator_Seek user_compare mem k =
     Iterator_Seek (MemTable_Compare user_compare) (mem_table mem) (EncodeKey k)"

definition MemTableIterator_SeekToFirst :: "MemTable \<Rightarrow> sl_iterator option" where
  "MemTableIterator_SeekToFirst mem = Iterator_SeekToFirst (mem_table mem)"

definition MemTableIterator_SeekToLast :: "MemTable \<Rightarrow> sl_iterator option" where
  "MemTableIterator_SeekToLast mem = Iterator_SeekToLast (mem_table mem)"

definition MemTableIterator_Next :: "MemTable \<Rightarrow> sl_iterator \<Rightarrow> sl_iterator option" where
  "MemTableIterator_Next mem it = Iterator_Next (mem_table mem) it"

definition MemTableIterator_Prev ::
    "(slice \<Rightarrow> slice \<Rightarrow> int option) \<Rightarrow> MemTable \<Rightarrow> sl_iterator \<Rightarrow> sl_iterator option" where
  "MemTableIterator_Prev user_compare mem it = Iterator_Prev (MemTable_Compare user_compare) (mem_table mem) it"

definition MemTableIterator_key :: "MemTable \<Rightarrow> sl_iterator \<Rightarrow> slice option" where
  "MemTableIterator_key mem it = do { e \<leftarrow> Iterator_key (mem_table mem) it; entry_key e }"

definition MemTableIterator_value :: "MemTable \<Rightarrow> sl_iterator \<Rightarrow> slice option" where
  "MemTableIterator_value mem it = do {
     e \<leftarrow> Iterator_key (mem_table mem) it;
     (k, rest) \<leftarrow> entry_slice e;
     entry_key rest
   }"

section \<open>The comparator of entries\<close>

lemma entry_slice_prefixed [simp]:
  assumes "length s < 2 ^ 32"
  shows "entry_slice (prefixed s @ r) = Some (s, r)"
proof -
  let ?l = "leb128 (length s)"
  have len: "length ?l \<le> 5" using assms length_leb128 [of "length s" 4] by simp
  then have "take 5 (prefixed s @ r) = ?l @ take (5 - length ?l) (s @ r)"
    using assms by (simp add: prefixed_def)
  moreover have "length (take 5 (prefixed s @ r)) - length (take (5 - length ?l) (s @ r)) = length ?l"
    using calculation by simp
  moreover have "unat (of_nat (length s) :: uint32) = length s" using assms by (simp add: unat_of_nat)
  ultimately show ?thesis
    using assms by (simp add: entry_slice_def GetVarint32Ptr_nat) (simp add: prefixed_def)
qed

lemma entry_key_prefixed [simp]: "length s < 2 ^ 32 \<Longrightarrow> entry_key (prefixed s @ r) = Some s"
  by (simp add: entry_key_def)

definition valid_entry :: "(slice \<Rightarrow> bool) \<Rightarrow> byte list \<Rightarrow> bool" where
  "valid_entry valid e \<longleftrightarrow> (case entry_key e of None \<Rightarrow> False | Some k \<Rightarrow> valid_internal valid k)"

lemma valid_entryE:
  assumes "valid_entry valid e"
  obtains k where "entry_key e = Some k" and "valid_internal valid k"
  using assms by (auto simp: valid_entry_def split: option.splits)

lemma mem_compare_keys:
  "entry_key a = Some ka \<Longrightarrow> entry_key b = Some kb \<Longrightarrow>
   MemTable_Compare cmp a b = InternalKeyComparator_Compare cmp ka kb"
  by (simp add: MemTable_Compare_def)

lemma mem_cmp_keys:
  assumes "entry_key a = Some ka" and "entry_key b = Some kb"
  shows "cmp_less (MemTable_Compare cmp) a b = cmp_less (InternalKeyComparator_Compare cmp) ka kb"
    and "cmp_leq (MemTable_Compare cmp) a b = cmp_leq (InternalKeyComparator_Compare cmp) ka kb"
    and "cmp_equal (MemTable_Compare cmp) a b = cmp_equal (InternalKeyComparator_Compare cmp) ka kb"
  using mem_compare_keys [OF assms, of cmp] by (simp_all add: cmp_defs)

context user_comparator
begin

sublocale mem: comparator "MemTable_Compare Compare" "valid_entry valid"
proof unfold_locales
  fix a b
  assume a: "valid_entry valid a" and b: "valid_entry valid b"
  obtain ka where ka: "entry_key a = Some ka" "valid_internal valid ka" using a by (rule valid_entryE)
  obtain kb where kb: "entry_key b = Some kb" "valid_internal valid kb" using b by (rule valid_entryE)
  show "\<exists>c. MemTable_Compare Compare a b = Some c"
    using internal.Compare_returns [OF ka(2) kb(2)] by (simp add: mem_compare_keys [OF ka(1) kb(1)])
  show "\<exists>s. MemTable_Compare Compare b a = Some s \<and> sgn s = - sgn r"
    if "MemTable_Compare Compare a b = Some r" for r
    using internal.Compare_swap [OF ka(2) kb(2)] that
    by (simp add: mem_compare_keys [OF ka(1) kb(1)] mem_compare_keys [OF kb(1) ka(1)])
next
  fix a b c
  assume a: "valid_entry valid a" and b: "valid_entry valid b" and c: "valid_entry valid c"
    and ab: "cmp_leq (MemTable_Compare Compare) a b" and bc: "cmp_leq (MemTable_Compare Compare) b c"
  obtain ka where ka: "entry_key a = Some ka" "valid_internal valid ka" using a by (rule valid_entryE)
  obtain kb where kb: "entry_key b = Some kb" "valid_internal valid kb" using b by (rule valid_entryE)
  obtain kc where kc: "entry_key c = Some kc" "valid_internal valid kc" using c by (rule valid_entryE)
  show "cmp_leq (MemTable_Compare Compare) a c"
    using ab bc internal.leq_trans [OF ka(2) kb(2) kc(2)]
    by (simp add: mem_cmp_keys [OF ka(1) kb(1)] mem_cmp_keys [OF kb(1) kc(1)] mem_cmp_keys [OF ka(1) kc(1)])
qed

end

section \<open>What a memtable contains\<close>

text \<open>One addition: sequence number, type, key and value.\<close>

record addition =
  add_seq :: SequenceNumber
  add_type :: ValueType
  add_key :: slice
  add_value :: slice

definition add_entry :: "addition \<Rightarrow> byte list" where
  "add_entry a = prefixed (ikey (add_key a) (pack (add_seq a) (add_type a))) @ prefixed (add_value a)"

text \<open>The sizes for which the conversions to \<^verbatim>\<open>uint32_t\<close> lose nothing, and the 56-bit sequence numbers.\<close>

definition add_ok :: "(slice \<Rightarrow> bool) \<Rightarrow> addition \<Rightarrow> bool" where
  "add_ok valid a \<longleftrightarrow> add_seq a \<le> kMaxSequenceNumber \<and> length (add_key a) + 8 < 2 ^ 32 \<and>
     length (add_value a) < 2 ^ 32 \<and> valid (add_key a)"

lemma VarintLength_nat: "n < 2 ^ 64 \<Longrightarrow> VarintLength (of_nat n) = length (leb128 n)"
  by (simp add: VarintLength_def varint_length_loop unat_of_nat)

lemma EncodeVarint32_nat: "n < 2 ^ 32 \<Longrightarrow> EncodeVarint32 (of_nat n) = leb128 n"
  by (simp add: EncodeVarint32_leb128 unat_of_nat)

lemma add_entry_key: "add_ok valid a \<Longrightarrow> entry_key (add_entry a) = Some (ikey (add_key a) (pack (add_seq a) (add_type a)))"
  by (simp add: add_ok_def add_entry_def)

lemma valid_add_entry: "add_ok valid a \<Longrightarrow> valid_entry valid (add_entry a)"
  using add_entry_key [of valid a] by (simp add: valid_entry_def add_ok_def)

lemma MemTable_Add_insert:
  assumes "add_ok valid a"
  shows "MemTable_Add cmp mem (add_seq a) (add_type a) (add_key a) (add_value a) =
    do { table \<leftarrow> Insert (MemTable_Compare cmp) (mem_table mem) (add_entry a); Some (mem\<lparr>mem_table := table\<rparr>) }"
proof -
  have k: "length (add_key a) + 8 < 2 ^ 32" and v: "length (add_value a) < 2 ^ 32"
    using assms by (simp_all add: add_ok_def)
  then have buf: "EncodeVarint32 (of_nat (length (add_key a) + 8)) @ add_key a @
      EncodeFixed64 (push_bit 8 (add_seq a) OR ucast (value_type_code (add_type a))) @
      EncodeVarint32 (of_nat (length (add_value a))) @ add_value a = add_entry a"
    by (simp add: EncodeVarint32_nat add_entry_def prefixed_def ikey_def pack_def del: of_nat_add)
  have len: "length (add_entry a) = VarintLength (of_nat (length (add_key a) + 8)) + (length (add_key a) + 8) +
      VarintLength (of_nat (length (add_value a))) + length (add_value a)"
    using k v by (simp add: VarintLength_nat add_entry_def prefixed_def del: of_nat_add)
  show ?thesis unfolding MemTable_Add_def Let_def buf len by (rule if_P [OF refl])
qed

primrec add_all :: "(slice \<Rightarrow> slice \<Rightarrow> int option) \<Rightarrow> MemTable \<Rightarrow> addition list \<Rightarrow> MemTable option" where
  "add_all cmp mem [] = Some mem"
| "add_all cmp mem (a # as) = do {
     mem \<leftarrow> MemTable_Add cmp mem (add_seq a) (add_type a) (add_key a) (add_value a);
     add_all cmp mem as
   }"


text \<open>The specification: the newest addition of a user key that is visible at a sequence number.\<close>

definition visible :: "(slice \<Rightarrow> slice \<Rightarrow> int option) \<Rightarrow> addition list \<Rightarrow> slice \<Rightarrow> SequenceNumber \<Rightarrow> addition list" where
  "visible cmp as u s = filter (\<lambda>a. cmp_equal cmp (add_key a) u \<and> add_seq a \<le> s) as"

definition lookup :: "(slice \<Rightarrow> slice \<Rightarrow> int option) \<Rightarrow> addition list \<Rightarrow> slice \<Rightarrow> SequenceNumber \<Rightarrow> get_result" where
  "lookup cmp as u s = (if visible cmp as u s = [] then Missing
     else let a = last (visible cmp as u s) in
       case add_type a of kTypeValue \<Rightarrow> Found (add_value a) | kTypeDeletion \<Rightarrow> Deleted (Some [0, 0, 0, 0, 1]))"

lemma NotFound_empty: "NotFound [] [] = Some (Some [0, 0, 0, 0, 1])"
  by code_simp

lemma pack_seq_le:
  assumes "s \<le> kMaxSequenceNumber" and "s' \<le> kMaxSequenceNumber"
  shows "pack s t \<le> pack s' t' \<Longrightarrow> s \<le> s'" and "pack s t \<le> pack s' kTypeValue \<longleftrightarrow> s \<le> s'"
proof -
  show "pack s t \<le> pack s' t' \<Longrightarrow> s \<le> s'"
    using pack_less_iff [OF assms(2,1), of t' t] by (auto simp: not_less [symmetric])
  show "pack s t \<le> pack s' kTypeValue \<longleftrightarrow> s \<le> s'"
    using pack_less_iff [OF assms(2,1), of kTypeValue t] type_le_seek [of t]
    by (auto simp: kValueTypeForSeek_def not_less [symmetric])
qed

context user_comparator
begin

definition holds :: "MemTable \<Rightarrow> addition list \<Rightarrow> bool" where
  "holds mem as \<longleftrightarrow> (\<forall>a\<in>set as. add_ok valid a) \<and> distinct (map add_seq as) \<and>
     (\<exists>ns. represents (MemTable_Compare Compare) (valid_entry valid) (mem_table mem) ns \<and>
       set (node_keys (mem_table mem) ns) = add_entry ` set as)"

lemma holds_empty: "holds mk_MemTable []"
  using sl_inv_SkipList unfolding holds_def mk_MemTable_def represents_def by fastforce

lemma entries_differ:
  assumes "add_ok valid a" and "add_ok valid b" and "add_seq a \<noteq> add_seq b"
  shows "\<not> cmp_equal (MemTable_Compare Compare) (add_entry a) (add_entry b)"
proof
  assume "cmp_equal (MemTable_Compare Compare) (add_entry a) (add_entry b)"
  then have "pack (add_seq a) (add_type a) = pack (add_seq b) (add_type b)"
    unfolding mem_cmp_keys [OF add_entry_key [OF assms(1)] add_entry_key [OF assms(2)]] by (simp add: internal_iff)
  then show False using assms by (metis add_ok_def pack_fields(1))
qed

lemma holds_add:
  assumes h: "holds mem as" and ok: "add_ok valid a" and new: "add_seq a \<notin> add_seq ` set as"
  obtains mem' where "MemTable_Add Compare mem (add_seq a) (add_type a) (add_key a) (add_value a) = Some mem'"
    and "holds mem' (as @ [a])"
proof -
  obtain ns where ns: "represents (MemTable_Compare Compare) (valid_entry valid) (mem_table mem) ns"
    and keys: "set (node_keys (mem_table mem) ns) = add_entry ` set as"
    using h by (auto simp: holds_def)
  have "\<forall>k\<in>set (node_keys (mem_table mem) ns). \<not> cmp_equal (MemTable_Compare Compare) (add_entry a) k"
    unfolding keys using entries_differ [OF ok] h new by (auto simp: holds_def)
  then obtain table ns' where table: "Insert (MemTable_Compare Compare) (mem_table mem) (add_entry a) = Some table"
    "represents (MemTable_Compare Compare) (valid_entry valid) table ns'"
    and keys': "node_keys table ns' = mem.insort_by (add_entry a) (node_keys (mem_table mem) ns)"
    using mem.Insert_represents(2) [OF ns valid_add_entry [OF ok]] by blast
  have "set (node_keys table ns') = insert (add_entry a) (set (node_keys (mem_table mem) ns))"
    unfolding keys' mem.insort_by_def by (metis Un_insert_right list.simps(15) set_append takeWhile_dropWhile_id)
  then have "holds (mem\<lparr>mem_table := table\<rparr>) (as @ [a])"
    using h ok new table(2) keys by (auto simp: holds_def)
  then show ?thesis using that table(1) MemTable_Add_insert [OF ok, of Compare mem] by simp
qed

lemma holds_add_all:
  assumes "holds mem as" and "\<forall>a\<in>set bs. add_ok valid a" and "distinct (map add_seq (as @ bs))"
  shows "\<exists>mem'. add_all Compare mem bs = Some mem' \<and> holds mem' (as @ bs)"
  using assms
proof (induction bs arbitrary: mem as)
  case (Cons b bs)
  then obtain mem1 where mem1: "MemTable_Add Compare mem (add_seq b) (add_type b) (add_key b) (add_value b) = Some mem1"
    "holds mem1 (as @ [b])"
    using holds_add [OF Cons.prems(1), of b] by auto
  with Cons.IH [OF mem1(2)] Cons.prems show ?case by simp
qed simp

text \<open>The least visible entry is the newest one, since tags grow with the sequence number.\<close>

lemma lookup_newest:
  assumes ok: "\<And>a. a \<in> set as \<Longrightarrow> add_ok valid a" and sorted: "sorted_wrt (\<lambda>a b. add_seq a < add_seq b) as"
    and u: "valid u" and b: "b \<in> set (visible Compare as u s)"
    and least: "\<And>a. a \<in> set (visible Compare as u s) \<Longrightarrow> cmp_leq (MemTable_Compare Compare) (add_entry b) (add_entry a)"
  shows "lookup Compare as u s =
    (case add_type b of kTypeValue \<Rightarrow> Found (add_value b) | kTypeDeletion \<Rightarrow> Deleted (Some [0, 0, 0, 0, 1]))"
proof -
  let ?v = "visible Compare as u s"
  have last: "last ?v \<in> set ?v" using b by (auto intro: last_in_set)
  then have ab: "last ?v \<in> set as" "b \<in> set as" and eq: "cmp_equal Compare (add_key b) u" "cmp_equal Compare (add_key (last ?v)) u"
    using b by (auto simp: visible_def)
  have "sorted_wrt (\<lambda>a b. add_seq a < add_seq b) ?v" unfolding visible_def by (intro sorted_wrt_filter sorted)
  then have "b = last ?v \<or> add_seq b < add_seq (last ?v)"
    using b by (cases ?v rule: rev_cases) (auto simp: sorted_wrt_append)
  moreover have "add_seq (last ?v) \<le> add_seq b"
  proof -
    have valid: "valid (add_key b)" "valid (add_key (last ?v))" using ok ab by (simp_all add: add_ok_def)
    have "\<not> cmp_less Compare (add_key b) (add_key (last ?v))"
      using user.not_less_iff [OF valid] user.equal_iff valid u eq user.leq_trans [OF valid(2) u valid(1)] by blast
    then have "pack (add_seq (last ?v)) (add_type (last ?v)) \<le> pack (add_seq b) (add_type b)"
      using least [OF last] unfolding mem_cmp_keys [OF add_entry_key [OF ok [OF ab(2)]] add_entry_key [OF ok [OF ab(1)]]] internal_iff
      by blast
    then show ?thesis using pack_seq_le(1) ok ab by (auto simp: add_ok_def)
  qed
  ultimately have "b = last ?v" by auto
  with b show ?thesis by (auto simp: lookup_def Let_def)
qed

lemma Get_lookup:
  assumes h: "holds mem as" and sorted: "sorted_wrt (\<lambda>a b. add_seq a < add_seq b) as"
    and u: "valid u" and s: "s \<le> kMaxSequenceNumber" and len: "length u + 8 < 2 ^ 32"
    and lk: "lookup_user_key lk = u" "memtable_key lk = prefixed (ikey u (pack s kTypeValue))"
  shows "MemTable_Get Compare mem lk = Some (lookup Compare as u s)"
proof -
  let ?cmp = "MemTable_Compare Compare" and ?T = "prefixed (ikey u (pack s kTypeValue))"
  have T: "entry_key ?T = Some (ikey u (pack s kTypeValue))"
    using entry_key_prefixed [of "ikey u (pack s kTypeValue)" "[]"] len by simp
  then have "valid_entry valid ?T" using u by (simp add: valid_entry_def)
  obtain ns where ns: "represents ?cmp (valid_entry valid) (mem_table mem) ns"
    and keys: "set (node_keys (mem_table mem) ns) = add_entry ` set as"
    using h by (auto simp: holds_def)
  obtain r where seek: "Iterator_Seek ?cmp (mem_table mem) ?T = Some r"
    and ans: "mem.answers (mem_table mem) (add_entry ` set as) ?T r" and in_ns: "\<forall>n. r = Some n \<longrightarrow> n \<in> set ns"
    using mem.Seek_answers [OF ns \<open>valid_entry valid ?T\<close>] unfolding keys by blast
  have ok: "a \<in> set as \<Longrightarrow> add_ok valid a" for a using h by (simp add: holds_def)
  have above: "cmp_leq ?cmp ?T (add_entry a) \<longleftrightarrow>
      cmp_less Compare u (add_key a) \<or> cmp_equal Compare (add_key a) u \<and> add_seq a \<le> s" if a: "a \<in> set as" for a
  proof -
    have "cmp_equal Compare u (add_key a) \<longleftrightarrow> cmp_equal Compare (add_key a) u"
      using user.equal_iff u ok [OF a] by (auto simp: add_ok_def)
    then show ?thesis
      unfolding mem_cmp_keys [OF T add_entry_key [OF ok [OF a]]] internal_iff
      using pack_seq_le(2) [of "add_seq a" s "add_type a"] s ok [OF a] by (auto simp: add_ok_def)
  qed
  note newest = lookup_newest [OF ok sorted u]
  show ?thesis
  proof (cases r)
    case None
    then have "\<forall>a\<in>set as. cmp_less ?cmp (add_entry a) ?T" using ans by (simp add: mem.answers_def)
    then have "\<forall>a\<in>set as. \<not> cmp_leq ?cmp ?T (add_entry a)"
      using mem.not_less_iff [OF \<open>valid_entry valid ?T\<close>] mem.less_imp_leq valid_add_entry ok
        mem.not_less_iff [OF _ \<open>valid_entry valid ?T\<close>] by blast
    then have "visible Compare as u s = []" using above by (auto simp: visible_def filter_empty_conv)
    then show ?thesis using seek lk None by (simp add: MemTable_Get_def Iterator_Valid_def lookup_def)
  next
    case (Some n)
    then obtain b where b: "b \<in> set as" "key_of (mem_table mem) n = add_entry b" "cmp_leq ?cmp ?T (add_entry b)"
      and least: "\<And>a. a \<in> set as \<Longrightarrow> cmp_leq ?cmp ?T (add_entry a) \<Longrightarrow> cmp_leq ?cmp (add_entry b) (add_entry a)"
      using ans by (auto simp: mem.answers_def)
    have key: "Iterator_key (mem_table mem) (Some n) = Some (add_entry b)"
      using mem.represents_node(1) [OF ns] in_ns Some node_at_key [of n "mem_table mem"] b(2) by (simp add: Iterator_key_def)
    have slice: "entry_slice (add_entry b) = Some (ikey (add_key b) (pack (add_seq b) (add_type b)), prefixed (add_value b))"
      using ok [OF b(1)] by (simp add: add_entry_def add_ok_def)
    obtain c where c: "Compare (add_key b) u = Some c" using user.Compare_returns u ok [OF b(1)] by (auto simp: add_ok_def)
    have get: "MemTable_Get Compare mem lk = (if c = 0
        then Some (case add_type b of kTypeValue \<Rightarrow> Found (add_value b) | kTypeDeletion \<Rightarrow> Deleted (Some [0, 0, 0, 0, 1]))
        else Some Missing)"
      using ok [OF b(1)] seek key slice c lk Some entry_key_prefixed [of "add_value b" "[]"]
      by (cases "add_type b") (simp_all add: MemTable_Get_def Iterator_Valid_def pack_fields add_ok_def NotFound_empty value_type_of_def)
    show ?thesis
    proof (cases "c = 0")
      case True
      then have eq: "cmp_equal Compare (add_key b) u" using c by (simp add: cmp_equal_def)
      then have "\<not> cmp_less Compare u (add_key b)"
        using user.equal_iff user.not_less_iff u ok [OF b(1)] by (auto simp: add_ok_def)
      then have "b \<in> set (visible Compare as u s)" using b above [OF b(1)] by (auto simp: visible_def)
      moreover have "a \<in> set (visible Compare as u s) \<Longrightarrow> cmp_leq ?cmp (add_entry b) (add_entry a)" for a
        using least [of a] above [of a] by (auto simp: visible_def)
      ultimately show ?thesis using newest get True by simp
    next
      case False
      then have neq: "\<not> cmp_equal Compare (add_key b) u" using c by (simp add: cmp_equal_def)
      then have ub: "cmp_less Compare u (add_key b)" using b above [OF b(1)] by auto
      have "a \<notin> set (visible Compare as u s)" for a
      proof
        assume a: "a \<in> set (visible Compare as u s)"
        then have "a \<in> set as" and eq: "cmp_equal Compare (add_key a) u" by (simp_all add: visible_def)
        have valid: "valid (add_key a)" "valid (add_key b)" using ok b(1) \<open>a \<in> set as\<close> by (simp_all add: add_ok_def)
        have "cmp_leq ?cmp (add_entry b) (add_entry a)" using least [of a] above [of a] a by (auto simp: visible_def)
        then have "cmp_leq Compare (add_key b) (add_key a)"
          unfolding mem_cmp_keys [OF add_entry_key [OF ok [OF b(1)]] add_entry_key [OF ok [OF \<open>a \<in> set as\<close>]]] internal_iff
          using user.less_imp_leq user.equal_iff valid by blast
        then have "cmp_leq Compare (add_key b) u"
          using eq user.equal_iff [OF valid(1) u] user.leq_trans [OF valid(2,1) u] by blast
        with ub show False using user.not_less_iff [OF u valid(2)] by blast
      qed
      then have "visible Compare as u s = []" by (metis last_in_set)
      then show ?thesis using get False by (simp add: lookup_def)
    qed
  qed
qed

end


section \<open>Properties\<close>

text \<open>
  C16: A memtable refines the log of the additions made to it: after any list of additions with
  increasing sequence numbers, each of which returns without a failed assertion, \<^verbatim>\<open>Get\<close> with a
  lookup key for a user key and a sequence number returns the value of the newest addition of that
  key that is visible at the number, \<^verbatim>\<open>NotFound\<close> when that is a deletion, and \<^verbatim>\<open>false\<close> when there
  is none.
\<close>

theorem memtable_get_newest:
  assumes "\<forall>a\<in>set as. add_ok (\<lambda>_. True) a" and "sorted_wrt (\<lambda>a b. add_seq a < add_seq b) as"
    and "s \<le> kMaxSequenceNumber" and "length u + 8 < 2 ^ 32" and "mk_LookupKey u s = Some lk"
  shows "\<exists>mem. add_all BytewiseComparator_Compare mk_MemTable as = Some mem \<and>
    MemTable_Get BytewiseComparator_Compare mem lk = Some (lookup BytewiseComparator_Compare as u s)"
proof -
  have "distinct (map add_seq as)" using assms(2) by (induction as) auto
  then obtain mem where mem: "add_all BytewiseComparator_Compare mk_MemTable as = Some mem" "bytewise.holds mem as"
    using bytewise.holds_add_all [OF bytewise.holds_empty, of as] assms(1) by auto
  have "lookup_user_key lk = u" "memtable_key lk = prefixed (ikey u (pack s kTypeValue))"
    using mk_LookupKey_views [OF assms(3,4)] assms(5) by auto
  with mem show ?thesis using bytewise.Get_lookup [OF mem(2) assms(2) TrueI assms(3,4)] by blast
qed

definition example_additions :: "addition list" where
  "example_additions =
     [\<lparr>add_seq = 1, add_type = kTypeValue, add_key = [65], add_value = [10]\<rparr>,
      \<lparr>add_seq = 2, add_type = kTypeValue, add_key = [66], add_value = [20]\<rparr>,
      \<lparr>add_seq = 3, add_type = kTypeDeletion, add_key = [65], add_value = []\<rparr>]"

lemma memtable_get_witness:
  "\<exists>mem lk. add_all BytewiseComparator_Compare mk_MemTable example_additions = Some mem \<and>
     mk_LookupKey [65] 2 = Some lk \<and> MemTable_Get BytewiseComparator_Compare mem lk = Some (Found [10])"
proof -
  have ok: "\<forall>a\<in>set example_additions. add_ok (\<lambda>_. True) a" "sorted_wrt (\<lambda>a b. add_seq a < add_seq b) example_additions"
    "(2 :: uint64) \<le> kMaxSequenceNumber"
    by (simp_all add: example_additions_def add_ok_def kMaxSequenceNumber_def word_le_nat_alt)
  obtain lk where lk: "mk_LookupKey [65] 2 = Some lk"
    using mk_LookupKey_views [OF ok(3), of "[65]"] by auto
  have "lookup BytewiseComparator_Compare example_additions [65] 2 = Found [10]" by code_simp
  with memtable_get_newest [OF ok _ lk] lk show ?thesis by fastforce
qed

end
