(* ===== verification/L_WriteBatch.thy ===== *)
theory L_WriteBatch
  imports L_MemTable
begin

text \<open>
  Model of \<^verbatim>\<open>db/write_batch.cc\<close>: a batch is its representation \<^verbatim>\<open>rep_\<close>, a sequence number and a
  count followed by the records. The handler of \<open>Iterate\<close> is a pair of functions on a state of its
  own; \<open>None\<close> is a failed assertion, a read outside \<^verbatim>\<open>rep_\<close>, the overflow of the \<^verbatim>\<open>int\<close> count or
  an undefined result of the handler.
\<close>

section \<open>The representation\<close>

definition kHeader :: nat where
  "kHeader = 12"

definition WriteBatch_Clear :: "byte list" where
  "WriteBatch_Clear = replicate kHeader 0"

text \<open>Storing bytes into the string at an offset.\<close>

definition store_at :: "byte list \<Rightarrow> nat \<Rightarrow> byte list \<Rightarrow> byte list option" where
  "store_at rep i bs = (if i + length bs \<le> length rep
     then Some (take i rep @ bs @ drop (i + length bs) rep) else None)"

text \<open>\<^verbatim>\<open>Count\<close> returns the stored \<^verbatim>\<open>uint32_t\<close> as an \<^verbatim>\<open>int\<close>.\<close>

definition WriteBatch_Count :: "byte list \<Rightarrow> int option" where
  "WriteBatch_Count rep = map_option sint (DecodeFixed32 (drop 8 rep))"

definition SetCount :: "byte list \<Rightarrow> int \<Rightarrow> byte list option" where
  "SetCount rep n = store_at rep 8 (EncodeFixed32 (of_int n))"

definition WriteBatch_Sequence :: "byte list \<Rightarrow> SequenceNumber option" where
  "WriteBatch_Sequence rep = DecodeFixed64 rep"

definition SetSequence :: "byte list \<Rightarrow> SequenceNumber \<Rightarrow> byte list option" where
  "SetSequence rep seq = store_at rep 0 (EncodeFixed64 seq)"

text \<open>Addition of \<^verbatim>\<open>int\<close> values, undefined on overflow.\<close>

definition int_add :: "int \<Rightarrow> int \<Rightarrow> int option" where
  "int_add a b = (if -2147483648 \<le> a + b \<and> a + b \<le> 2147483647 then Some (a + b) else None)"

definition WriteBatch_Put :: "byte list \<Rightarrow> slice \<Rightarrow> slice \<Rightarrow> byte list option" where
  "WriteBatch_Put rep key value = do {
     c \<leftarrow> WriteBatch_Count rep;
     n \<leftarrow> int_add c 1;
     rep \<leftarrow> SetCount rep n;
     let rep = rep @ [value_type_code kTypeValue];
     let rep = PutLengthPrefixedSlice rep key;
     Some (PutLengthPrefixedSlice rep value)
   }"

definition WriteBatch_Delete :: "byte list \<Rightarrow> slice \<Rightarrow> byte list option" where
  "WriteBatch_Delete rep key = do {
     c \<leftarrow> WriteBatch_Count rep;
     n \<leftarrow> int_add c 1;
     rep \<leftarrow> SetCount rep n;
     let rep = rep @ [value_type_code kTypeDeletion];
     Some (PutLengthPrefixedSlice rep key)
   }"

definition WriteBatch_SetContents :: "slice \<Rightarrow> byte list option" where
  "WriteBatch_SetContents contents = (if length contents \<ge> kHeader then Some contents else None)"

definition WriteBatch_Append :: "byte list \<Rightarrow> byte list \<Rightarrow> byte list option" where
  "WriteBatch_Append dst src = do {
     a \<leftarrow> WriteBatch_Count dst;
     b \<leftarrow> WriteBatch_Count src;
     n \<leftarrow> int_add a b;
     dst \<leftarrow> SetCount dst n;
     if length src \<ge> kHeader then Some (dst @ drop kHeader src) else None
   }"

section \<open>Iteration\<close>

record 's handler =
  h_Put :: "slice \<Rightarrow> slice \<Rightarrow> 's \<Rightarrow> 's option"
  h_Delete :: "slice \<Rightarrow> 's \<Rightarrow> 's option"

text \<open>The loop returns the status of an early return, or \<open>Inr\<close> the number of records found.\<close>

lemma GetLengthPrefixedSlice_length: "length (snd (GetLengthPrefixedSlice input)) \<le> length input"
proof -
  have "GetVarint32Ptr input = Some (len, q) \<Longrightarrow> length q \<le> length input" for len q
    by (auto simp: GetVarint32Ptr_decodes decodes_def)
  then show ?thesis
    by (auto simp: GetLengthPrefixedSlice_def GetVarint32_def split: option.splits prod.splits)
qed

lemma get_slice_less:
  "(r, input') = GetLengthPrefixedSlice input \<Longrightarrow> length input' < Suc (length input)"
  using GetLengthPrefixedSlice_length [of input] by (cases "GetLengthPrefixedSlice input") simp

lemma get_slices_less:
  "(r, input') = GetLengthPrefixedSlice input \<Longrightarrow> (r', input'') = GetLengthPrefixedSlice input' \<Longrightarrow>
   length input'' < Suc (length input)"
  by (meson get_slice_less less_Suc_eq_le order_le_less_trans less_imp_le)

function iterate_loop :: "'s handler \<Rightarrow> slice \<Rightarrow> int \<Rightarrow> 's \<Rightarrow> ((Status + int) \<times> 's) option" where
  "iterate_loop h [] found st = Some (Inr found, st)"
| "iterate_loop h (tag # input) found st = do {
     found \<leftarrow> int_add found 1;
     if tag = value_type_code kTypeValue then
        (case GetLengthPrefixedSlice input of
           (Some key, input1) \<Rightarrow>
             (case GetLengthPrefixedSlice input1 of
                (Some value, input2) \<Rightarrow> do { st \<leftarrow> h_Put h key value st; iterate_loop h input2 found st }
              | (None, _) \<Rightarrow> do { s \<leftarrow> Corruption (str ''bad WriteBatch Put'') []; Some (Inl s, st) })
         | (None, _) \<Rightarrow> do { s \<leftarrow> Corruption (str ''bad WriteBatch Put'') []; Some (Inl s, st) })
     else if tag = value_type_code kTypeDeletion then
        (case GetLengthPrefixedSlice input of
           (Some key, input1) \<Rightarrow> do { st \<leftarrow> h_Delete h key st; iterate_loop h input1 found st }
         | (None, _) \<Rightarrow> do { s \<leftarrow> Corruption (str ''bad WriteBatch Delete'') []; Some (Inl s, st) })
     else do { s \<leftarrow> Corruption (str ''unknown WriteBatch tag'') []; Some (Inl s, st) }
   }"
  by pat_completeness auto
termination
  by (relation "measure (\<lambda>(_, input, _, _). length input)")
     (auto dest: get_slice_less get_slices_less)

declare iterate_loop.simps [simp del]

definition Iterate :: "byte list \<Rightarrow> 's handler \<Rightarrow> 's \<Rightarrow> (Status \<times> 's) option" where
  "Iterate rep h st =
     (if length rep < kHeader then do {
        s \<leftarrow> Corruption (str ''malformed WriteBatch (too small)'') []; Some (s, st) }
      else do {
        (r, st) \<leftarrow> iterate_loop h (drop kHeader rep) 0 st;
        case r of Inl s \<Rightarrow> Some (s, st)
        | Inr found \<Rightarrow> do {
            count \<leftarrow> WriteBatch_Count rep;
            if found \<noteq> count then do {
              s \<leftarrow> Corruption (str ''WriteBatch has wrong count'') []; Some (s, st) }
            else Some (Status_OK, st)
          }
      })"

section \<open>Insertion into a memtable\<close>

definition inserter :: "(slice \<Rightarrow> slice \<Rightarrow> int option) \<Rightarrow> (SequenceNumber \<times> MemTable) handler" where
  "inserter user_compare = \<lparr>
     h_Put = (\<lambda>key value (sequence, mem). do {
       mem \<leftarrow> MemTable_Add user_compare mem sequence kTypeValue key value; Some (sequence + 1, mem) }),
     h_Delete = (\<lambda>key (sequence, mem). do {
       mem \<leftarrow> MemTable_Add user_compare mem sequence kTypeDeletion key []; Some (sequence + 1, mem) })\<rparr>"

definition InsertInto :: "(slice \<Rightarrow> slice \<Rightarrow> int option) \<Rightarrow> byte list \<Rightarrow> MemTable \<Rightarrow> (Status \<times> MemTable) option" where
  "InsertInto user_compare rep mem = do {
     seq \<leftarrow> WriteBatch_Sequence rep;
     (s, st) \<leftarrow> Iterate rep (inserter user_compare) (seq, mem);
     Some (s, snd st)
   }"

section \<open>Batches as lists of operations\<close>

datatype batch_op = BPut slice slice | BDelete slice

primrec op_bytes :: "batch_op \<Rightarrow> byte list" where
  "op_bytes (BPut k v) = 1 # prefixed k @ prefixed v"
| "op_bytes (BDelete k) = 0 # prefixed k"

primrec op_ok :: "batch_op \<Rightarrow> bool" where
  "op_ok (BPut k v) \<longleftrightarrow> length k < 2 ^ 32 \<and> length v < 2 ^ 32"
| "op_ok (BDelete k) \<longleftrightarrow> length k < 2 ^ 32"

text \<open>The operations whose entries fit a memtable: the sizes of the code are 32-bit.\<close>

primrec op_fits :: "batch_op \<Rightarrow> bool" where
  "op_fits (BPut k v) \<longleftrightarrow> length k + 8 < 2 ^ 32 \<and> length v < 2 ^ 32"
| "op_fits (BDelete k) \<longleftrightarrow> length k + 8 < 2 ^ 32"

lemma op_fits_ok: "op_fits op \<Longrightarrow> op_ok op"
  by (cases op) simp_all

definition batch_rep :: "SequenceNumber \<Rightarrow> batch_op list \<Rightarrow> byte list" where
  "batch_rep seq ops = le_bytes 8 seq @ le_bytes 4 (of_nat (length ops) :: uint32) @ concat (map op_bytes ops)"

primrec apply_op :: "byte list \<Rightarrow> batch_op \<Rightarrow> byte list option" where
  "apply_op rep (BPut k v) = WriteBatch_Put rep k v"
| "apply_op rep (BDelete k) = WriteBatch_Delete rep k"

primrec build :: "byte list \<Rightarrow> batch_op list \<Rightarrow> byte list option" where
  "build rep [] = Some rep"
| "build rep (op # ops) = do { rep \<leftarrow> apply_op rep op; build rep ops }"

lemma length_batch_rep [simp]: "12 \<le> length (batch_rep seq ops)"
  by (simp add: batch_rep_def)

lemma batch_rep_empty: "WriteBatch_Clear = batch_rep 0 []"
  by code_simp

lemma drop_batch_rep: "drop kHeader (batch_rep seq ops) = concat (map op_bytes ops)"
  by (simp add: batch_rep_def kHeader_def)

lemma Count_batch_rep: "length ops < 2 ^ 31 \<Longrightarrow> WriteBatch_Count (batch_rep seq ops) = Some (int (length ops))"
  by (simp add: WriteBatch_Count_def batch_rep_def) (simp add: signed_of_nat signed_take_bit_int_eq_self)

lemma Sequence_batch_rep: "WriteBatch_Sequence (batch_rep seq ops) = Some seq"
  by (simp add: WriteBatch_Sequence_def batch_rep_def)

lemma SetSequence_batch_rep: "SetSequence (batch_rep seq ops) seq' = Some (batch_rep seq' ops)"
  by (simp add: SetSequence_def store_at_def batch_rep_def)

lemma SetCount_batch_rep:
  "SetCount (batch_rep seq ops) n = Some (le_bytes 8 seq @ le_bytes 4 (of_int n :: uint32) @ concat (map op_bytes ops))"
  by (simp add: SetCount_def store_at_def batch_rep_def)

lemma apply_op_batch_rep:
  "length ops + 1 < 2 ^ 31 \<Longrightarrow> apply_op (batch_rep seq ops) op = Some (batch_rep seq (ops @ [op]))"
proof -
  assume len: "length ops + 1 < 2 ^ 31"
  have count: "WriteBatch_Count (batch_rep seq ops) = Some (int (length ops))"
    using len by (intro Count_batch_rep) simp
  have add: "int_add (int (length ops)) 1 = Some (int (length ops) + 1)"
    using len by (simp add: int_add_def)
  show ?thesis
    by (cases op) (simp_all add: WriteBatch_Put_def WriteBatch_Delete_def count add SetCount_batch_rep
      PutLengthPrefixedSlice_prefixed, simp_all add: batch_rep_def add.commute)
qed

lemma build_batch_rep:
  "length ops + length ops' < 2 ^ 31 \<Longrightarrow> build (batch_rep seq ops) ops' = Some (batch_rep seq (ops @ ops'))"
  by (induction ops' arbitrary: ops) (simp_all add: apply_op_batch_rep)

lemma Append_batch_rep:
  assumes "length ops + length ops' < 2 ^ 31"
  shows "WriteBatch_Append (batch_rep seq ops) (batch_rep seq' ops') = Some (batch_rep seq (ops @ ops'))"
  using assms drop_batch_rep [of seq' ops']
  by (simp add: WriteBatch_Append_def Count_batch_rep int_add_def SetCount_batch_rep kHeader_def) 
     (simp add: batch_rep_def)

primrec handle :: "'s handler \<Rightarrow> batch_op \<Rightarrow> 's \<Rightarrow> 's option" where
  "handle h (BPut k v) st = h_Put h k v st"
| "handle h (BDelete k) st = h_Delete h k st"

primrec handle_all :: "'s handler \<Rightarrow> batch_op list \<Rightarrow> 's \<Rightarrow> 's option" where
  "handle_all h [] st = Some st"
| "handle_all h (op # ops) st = do { st \<leftarrow> handle h op st; handle_all h ops st }"

lemma iterate_loop_ops:
  "\<forall>op\<in>set ops. op_ok op \<Longrightarrow> found + length ops < 2 ^ 31 \<Longrightarrow>
   iterate_loop h (concat (map op_bytes ops)) (int found) st =
     map_option (\<lambda>st. (Inr (int (found + length ops)), st)) (handle_all h ops st)"
proof (induction ops arbitrary: found st)
  case (Cons op ops)
  have add: "int_add (int found) 1 = Some (int (Suc found))"
    using Cons.prems(2) by (simp add: int_add_def)
  have "iterate_loop h (concat (map op_bytes ops)) (int (Suc found)) st' =
      map_option (\<lambda>st. (Inr (int (found + length (op # ops))), st)) (handle_all h ops st')" for st'
    using Cons.IH [of "Suc found" st'] Cons.prems by simp
  then show ?case
    using Cons.prems(1) add
    by (cases op) (auto simp: iterate_loop.simps map_option_case simp del: of_nat_Suc split: option.splits bind_splits)
qed (simp add: iterate_loop.simps)

lemma Iterate_batch_rep:
  assumes "length ops < 2 ^ 31" and "\<forall>op\<in>set ops. op_ok op"
  shows "Iterate (batch_rep seq ops) h st = map_option (\<lambda>st. (Status_OK, st)) (handle_all h ops st)"
proof -
  have "\<not> length (batch_rep seq ops) < kHeader" using length_batch_rep [of seq ops] by (simp only: kHeader_def not_less)
  then show ?thesis
    using iterate_loop_ops [OF assms(2), of 0 h st] assms(1) Count_batch_rep [OF assms(1)]
    by (cases "handle_all h ops st") (simp_all add: Iterate_def drop_batch_rep)
qed


section \<open>A batch in a memtable\<close>

text \<open>The additions a batch stands for: its operations under consecutive sequence numbers.\<close>

primrec op_addition :: "SequenceNumber \<Rightarrow> batch_op \<Rightarrow> addition" where
  "op_addition seq (BPut k v) = \<lparr>add_seq = seq, add_type = kTypeValue, add_key = k, add_value = v\<rparr>"
| "op_addition seq (BDelete k) = \<lparr>add_seq = seq, add_type = kTypeDeletion, add_key = k, add_value = []\<rparr>"

primrec additions :: "SequenceNumber \<Rightarrow> batch_op list \<Rightarrow> addition list" where
  "additions seq [] = []"
| "additions seq (op # ops) = op_addition seq op # additions (seq + 1) ops"

lemma handle_inserter:
  "map_option snd (handle_all (inserter cmp) ops (seq, mem)) = add_all cmp mem (additions seq ops)"
proof (induction ops arbitrary: seq mem)
  case (Cons op ops)
  show ?case
  proof (cases "MemTable_Add cmp mem (add_seq (op_addition seq op)) (add_type (op_addition seq op))
      (add_key (op_addition seq op)) (add_value (op_addition seq op))")
    case None
    then show ?thesis by (cases op) (simp_all add: inserter_def)
  next
    case (Some mem')
    with Cons.IH [of "seq + 1" mem'] show ?thesis by (cases op) (simp_all add: inserter_def)
  qed
qed simp

lemma seq_step: "unat (seq :: uint64) + Suc n < 2 ^ 56 \<Longrightarrow> unat (seq + 1) = unat seq + 1"
  by (simp add: unat_word_ariths)

lemma op_addition_seq [simp]: "add_seq (op_addition seq op) = seq"
  by (cases op) simp_all

lemma additions_seq:
  assumes "unat seq + length ops < 2 ^ 56"
  shows "map (\<lambda>a. unat (add_seq a)) (additions seq ops) = [unat seq..<unat seq + length ops]"
  using assms
proof (induction ops arbitrary: seq)
  case (Cons op ops)
  have step: "unat (seq + 1) = unat seq + 1"
    by (rule seq_step [of _ "length ops"]) (use Cons.prems in simp)
  have "map (\<lambda>a. unat (add_seq a)) (additions (seq + 1) ops) = [unat (seq + 1)..<unat (seq + 1) + length ops]"
    by (rule Cons.IH) (use Cons.prems step in simp)
  moreover have "[unat seq..<unat seq + length (op # ops)] = unat seq # [unat seq + 1..<unat seq + 1 + length ops]"
    by (subst upt_rec) simp
  ultimately show ?case using step by (simp only: additions.simps list.map op_addition_seq)
qed simp

lemma additions_ok:
  assumes "unat seq + length ops < 2 ^ 56" and "\<forall>op\<in>set ops. op_fits op"
  shows "\<forall>a\<in>set (additions seq ops). add_ok (\<lambda>_. True) a"
  using assms
proof (induction ops arbitrary: seq)
  case (Cons op ops)
  have step: "unat (seq + 1) = unat seq + 1"
    by (rule seq_step [of _ "length ops"]) (use Cons.prems in simp)
  have "\<forall>a\<in>set (additions (seq + 1) ops). add_ok (\<lambda>_. True) a"
    by (rule Cons.IH) (use Cons.prems step in simp_all)
  moreover have "seq \<le> kMaxSequenceNumber" using Cons.prems(1) by (simp add: seq_bound)
  then have "add_ok (\<lambda>_. True) (op_addition seq op)"
    using Cons.prems(2) by (cases op) (simp_all add: add_ok_def)
  ultimately show ?case by simp
qed simp

lemma additions_increasing:
  assumes "unat seq + length ops < 2 ^ 56"
  shows "sorted_wrt (\<lambda>a b. add_seq a < add_seq b) (additions seq ops)"
proof -
  have "sorted_wrt (<) (map (\<lambda>a. unat (add_seq a)) (additions seq ops))"
    unfolding additions_seq [OF assms] by simp
  then show ?thesis by (simp add: sorted_wrt_map word_less_nat_alt)
qed

lemma increasing_distinct:
  "sorted_wrt (\<lambda>a b. (add_seq a :: uint64) < add_seq b) as \<Longrightarrow> distinct (map add_seq as)"
  by (induction as) auto

section \<open>Properties\<close>

text \<open>
  C25: A batch replays what was recorded: a batch built from \<^verbatim>\<open>Clear\<close> by any sequence of puts and
  deletes and given a sequence number has these operations as its contents, \<^verbatim>\<open>Iterate\<close> hands them
  to the handler in order and returns \<^verbatim>\<open>OK\<close>, and \<^verbatim>\<open>Append\<close> concatenates the operations of two
  batches and keeps the number of the first.
\<close>

theorem write_batch_replays:
  assumes "length ops + length ops' < 2 ^ 31" and "\<forall>op\<in>set (ops @ ops'). op_ok op"
  shows "\<exists>rep rep' both. build WriteBatch_Clear ops = Some rep \<and> build WriteBatch_Clear ops' = Some rep' \<and>
    Iterate rep h st = map_option (\<lambda>st. (Status_OK, st)) (handle_all h ops st) \<and>
    WriteBatch_Count rep = Some (int (length ops)) \<and>
    WriteBatch_Append rep rep' = Some both \<and>
    Iterate both h st = map_option (\<lambda>st. (Status_OK, st)) (handle_all h (ops @ ops') st) \<and>
    (\<exists>numbered. SetSequence rep seq = Some numbered \<and> WriteBatch_Sequence numbered = Some seq \<and>
      Iterate numbered h st = Iterate rep h st)"
proof -
  have "build WriteBatch_Clear ops = Some (batch_rep 0 ops)" "build WriteBatch_Clear ops' = Some (batch_rep 0 ops')"
    using assms(1) build_batch_rep [of "[]" ops 0] build_batch_rep [of "[]" ops' 0] by (simp_all add: batch_rep_empty)
  moreover have ops: "length ops < 2 ^ 31" "length (ops @ ops') < 2 ^ 31" "\<forall>op\<in>set ops. op_ok op"
    using assms by simp_all
  moreover note Append_batch_rep [OF assms(1), of 0 0] Iterate_batch_rep [OF ops(1,3), of 0 h st]
    Iterate_batch_rep [OF ops(1,3), of seq h st] Iterate_batch_rep [OF ops(2) assms(2), of 0 h st]
    Count_batch_rep [OF ops(1), of 0] SetSequence_batch_rep [of 0 ops seq] Sequence_batch_rep [of seq ops]
  ultimately show ?thesis by metis
qed

definition recorder :: "batch_op list handler" where
  "recorder = \<lparr>h_Put = (\<lambda>k v st. Some (st @ [BPut k v])), h_Delete = (\<lambda>k st. Some (st @ [BDelete k]))\<rparr>"

lemma write_batch_replays_witness:
  "\<exists>rep. build WriteBatch_Clear [BPut [1] [2], BDelete [3]] = Some rep \<and>
     Iterate rep recorder [] = Some (Status_OK, [BPut [1] [2], BDelete [3]])"
  using write_batch_replays [of "[BPut [1] [2], BDelete [3]]" "[]" recorder "[]" 0]
  by (auto simp: recorder_def)

text \<open>
  C26: From a batch to a read: a batch built by puts and deletes and inserted into an empty memtable
  at a sequence number returns \<^verbatim>\<open>OK\<close>, and a \<^verbatim>\<open>Get\<close> at any later number returns what the last put or
  delete of the key in the batch says, so later operations of a batch overwrite earlier ones.
\<close>

theorem batch_then_get:
  assumes "length ops < 2 ^ 31" and "unat seq + length ops < 2 ^ 56" and "\<forall>op\<in>set ops. op_fits op"
    and "s \<le> kMaxSequenceNumber" and "length u + 8 < 2 ^ 32" and "mk_LookupKey u s = Some lk"
  shows "\<exists>rep numbered mem. build WriteBatch_Clear ops = Some rep \<and> SetSequence rep seq = Some numbered \<and>
    InsertInto BytewiseComparator_Compare numbered mk_MemTable = Some (Status_OK, mem) \<and>
    MemTable_Get BytewiseComparator_Compare mem lk =
      Some (lookup BytewiseComparator_Compare (additions seq ops) u s)"
proof -
  let ?cmp = BytewiseComparator_Compare and ?as = "additions seq ops"
  note incr = additions_increasing [OF assms(2)]
  from incr have "distinct (map add_seq ?as)" by (rule increasing_distinct)
  then obtain mem where mem: "add_all ?cmp mk_MemTable ?as = Some mem" "bytewise.holds mem ?as"
    using bytewise.holds_add_all [OF bytewise.holds_empty, of ?as] additions_ok [OF assms(2,3)] by auto
  have op_ok: "\<forall>op\<in>set ops. op_ok op" using assms(3) op_fits_ok by blast
  have "map_option snd (handle_all (inserter ?cmp) ops (seq, mk_MemTable)) = Some mem"
    unfolding handle_inserter by (rule mem(1))
  then obtain st where st: "handle_all (inserter ?cmp) ops (seq, mk_MemTable) = Some st" "snd st = mem" by auto
  have "Iterate (batch_rep seq ops) (inserter ?cmp) (seq, mk_MemTable) = Some (Status_OK, st)"
    using Iterate_batch_rep [OF assms(1) op_ok, of seq "inserter ?cmp" "(seq, mk_MemTable)"] st(1) by simp
  then have insert: "InsertInto ?cmp (batch_rep seq ops) mk_MemTable = Some (Status_OK, mem)"
    using st(2) by (simp add: InsertInto_def Sequence_batch_rep)
  have built: "build WriteBatch_Clear ops = Some (batch_rep 0 ops)"
    using build_batch_rep [of "[]" ops 0] assms(1) by (simp add: batch_rep_empty)
  have "lookup_user_key lk = u" "memtable_key lk = prefixed (ikey u (pack s kTypeValue))"
    using mk_LookupKey_views [OF assms(4,5)] assms(6) by auto
  then have "MemTable_Get ?cmp mem lk = Some (lookup ?cmp ?as u s)"
    by (rule bytewise.Get_lookup [OF mem(2) incr TrueI assms(4,5)])
  with built insert show ?thesis using SetSequence_batch_rep by blast
qed

lemma batch_then_get_witness:
  "\<exists>numbered mem lk. SetSequence (batch_rep 0 [BPut [65] [1], BPut [65] [2]]) 7 = Some numbered \<and>
     InsertInto BytewiseComparator_Compare numbered mk_MemTable = Some (Status_OK, mem) \<and>
     mk_LookupKey [65] 9 = Some lk \<and> MemTable_Get BytewiseComparator_Compare mem lk = Some (Found [2])"
proof -
  let ?ops = "[BPut [65] [1], BPut [65] [2]]"
  have le: "(9 :: uint64) \<le> kMaxSequenceNumber" by (simp add: kMaxSequenceNumber_def word_le_nat_alt)
  obtain lk where lk: "mk_LookupKey [65] 9 = Some lk"
    using mk_LookupKey_views [OF le, of "[65]"] by auto
  have built: "build WriteBatch_Clear ?ops = Some (batch_rep 0 ?ops)"
    using build_batch_rep [of "[]" ?ops 0] by (simp add: batch_rep_empty)
  have found: "lookup BytewiseComparator_Compare (additions 7 ?ops) [65] 9 = Found [2]"
    by (simp add: lookup_def visible_def bytewise_iff word_le_nat_alt)
  have "length ?ops < 2 ^ 31" "unat (7 :: uint64) + length ?ops < 2 ^ 56" "\<forall>op\<in>set ?ops. op_fits op"
    "length [65 :: byte] + 8 < 2 ^ 32"
    by simp_all
  from batch_then_get [OF this(1-3) le this(4) lk] built found lk show ?thesis by auto
qed

end
