(* ===== verification/L_Log.thy ===== *)
theory L_Log
  imports L_Crc32c L_Status
begin

text \<open>
  Model of the log of leveldb: \<^verbatim>\<open>db/log_format.h\<close>, \<^verbatim>\<open>db/log_writer.cc\<close> and \<^verbatim>\<open>db/log_reader.cc\<close>. The files
  are the interfaces \<^verbatim>\<open>WritableFile\<close> and \<^verbatim>\<open>SequentialFile\<close>: records of operations on a state of their
  own, so that every call may fail; \<open>None\<close> is a failed assertion. The reader collects what it
  reports to its \<^verbatim>\<open>Reporter\<close>.
\<close>

section \<open>Format\<close>

definition kZeroType :: uint32 where "kZeroType = 0"
definition kFullType :: uint32 where "kFullType = 1"
definition kFirstType :: uint32 where "kFirstType = 2"
definition kMiddleType :: uint32 where "kMiddleType = 3"
definition kLastType :: uint32 where "kLastType = 4"

definition kMaxRecordType :: uint32 where
  "kMaxRecordType = kLastType"

definition kEof :: uint32 where "kEof = kMaxRecordType + 1"
definition kBadRecord :: uint32 where "kBadRecord = kMaxRecordType + 2"

lemmas record_types = kZeroType_def kFullType_def kFirstType_def kMiddleType_def kLastType_def kEof_def
  kBadRecord_def kMaxRecordType_def

definition kBlockSize :: nat where
  "kBlockSize = 32768"

definition kHeaderSize :: nat where
  "kHeaderSize = 4 + 2 + 1"

section \<open>The writer\<close>

record 'f writable_file =
  wf_Append :: "'f \<Rightarrow> slice \<Rightarrow> Status \<times> 'f"
  wf_Flush :: "'f \<Rightarrow> Status \<times> 'f"

record 'f log_writer =
  lw_dest :: 'f
  lw_block_offset :: nat
  lw_type_crc :: "uint32 list"

definition InitTypeCrc :: "uint32 list option" where
  "InitTypeCrc = those (map (\<lambda>i. Value [of_nat i]) [0..<Suc (unat kMaxRecordType)])"

definition Writer :: "'f \<Rightarrow> 'f log_writer option" where
  "Writer dest = do {
     crcs \<leftarrow> InitTypeCrc;
     Some \<lparr>lw_dest = dest, lw_block_offset = 0, lw_type_crc = crcs\<rparr>
   }"

definition Writer_at :: "'f \<Rightarrow> uint64 \<Rightarrow> 'f log_writer option" where
  "Writer_at dest dest_length = do {
     crcs \<leftarrow> InitTypeCrc;
     Some \<lparr>lw_dest = dest, lw_block_offset = unat dest_length mod kBlockSize, lw_type_crc = crcs\<rparr>
   }"

definition EmitPhysicalRecord ::
    "'f writable_file \<Rightarrow> 'f log_writer \<Rightarrow> uint32 \<Rightarrow> slice \<Rightarrow> (Status \<times> 'f log_writer) option" where
  "EmitPhysicalRecord F w t ptr =
     (let n = length ptr in
      if n > 0xffff \<or> lw_block_offset w + kHeaderSize + n > kBlockSize then None
      else do {
        crc \<leftarrow> Extend (lw_type_crc w ! unat t) ptr;
        let buf = EncodeFixed32 (Mask crc) @ [of_nat (n mod 256), of_nat (n div 256), ucast t];
        let (s, dest) = wf_Append F (lw_dest w) buf;
        let (s, dest) = (if Status_ok s then
            let (s, dest) = wf_Append F dest ptr in
            if Status_ok s then wf_Flush F dest else (s, dest)
          else (s, dest));
        Some (s, w\<lparr>lw_dest := dest, lw_block_offset := lw_block_offset w + (kHeaderSize + n)\<rparr>)
      })"

text \<open>The start of a round: the switch to a new block when no header fits into the present one.\<close>

definition switch_block :: "'f writable_file \<Rightarrow> 'f log_writer \<Rightarrow> 'f log_writer" where
  "switch_block F w =
     (let leftover = kBlockSize - lw_block_offset w in
      if leftover < kHeaderSize then
        (let w = (if leftover > 0 then w\<lparr>lw_dest := snd (wf_Append F (lw_dest w) (replicate leftover 0))\<rparr> else w)
         in w\<lparr>lw_block_offset := 0\<rparr>)
      else w)"

definition fragment_type :: "bool \<Rightarrow> bool \<Rightarrow> uint32" where
  "fragment_type begins ends =
     (if begins \<and> ends then kFullType
      else if begins then kFirstType
      else if ends then kLastType
      else kMiddleType)"

text \<open>One round of the \<^verbatim>\<open>do\<close> loop, and the loop.\<close>

definition add_fragment ::
    "'f writable_file \<Rightarrow> 'f log_writer \<Rightarrow> slice \<Rightarrow> bool \<Rightarrow> (Status \<times> 'f log_writer \<times> slice) option" where
  "add_fragment F w ptr begins =
     (if lw_block_offset w > kBlockSize then None
      else
        let w = switch_block F w in
        if lw_block_offset w + kHeaderSize > kBlockSize then None
        else do {
          let avail = kBlockSize - lw_block_offset w - kHeaderSize;
          let fragment_length = (if length ptr < avail then length ptr else avail);
          let t = fragment_type begins (length ptr = fragment_length);
          (s, w) \<leftarrow> EmitPhysicalRecord F w t (take fragment_length ptr);
          Some (s, w, drop fragment_length ptr)
        })"

lemma add_fragment_less:
  assumes "add_fragment F w ptr begins = Some (s, w', ptr')" and "ptr' \<noteq> []"
  shows "length ptr' < length ptr \<or> length ptr' = length ptr \<and>
    lw_block_offset w + kHeaderSize = kBlockSize \<and> lw_block_offset w' = kBlockSize"
proof -
  have emit: "lw_block_offset w2 = lw_block_offset w1 + (kHeaderSize + length p)"
    if "EmitPhysicalRecord F w1 t p = Some (s, w2)" for w1 t p w2
    using that by (auto simp: EmitPhysicalRecord_def Let_def split: if_splits prod.splits)
  have "switch_block F w = w \<or> lw_block_offset (switch_block F w) = 0" by (auto simp: switch_block_def Let_def)
  then show ?thesis
    using assms by (auto simp: add_fragment_def Let_def kHeaderSize_def kBlockSize_def Option.bind_eq_Some_conv
      split: if_splits dest!: emit)
qed

function AddRecord_loop ::
    "'f writable_file \<Rightarrow> 'f log_writer \<Rightarrow> slice \<Rightarrow> bool \<Rightarrow> (Status \<times> 'f log_writer) option" where
  "AddRecord_loop F w ptr begins = do {
     (s, w', ptr') \<leftarrow> add_fragment F w ptr begins;
     if Status_ok s \<and> ptr' \<noteq> [] then AddRecord_loop F w' ptr' False else Some (s, w')
   }"
  by pat_completeness auto
termination
  by (relation "measure (\<lambda>(_, w, ptr, _). 2 * length ptr + (if lw_block_offset w + kHeaderSize = kBlockSize then 1 else 0))")
     (auto dest!: add_fragment_less simp: kHeaderSize_def kBlockSize_def)

declare AddRecord_loop.simps [simp del]

definition AddRecord :: "'f writable_file \<Rightarrow> 'f log_writer \<Rightarrow> slice \<Rightarrow> (Status \<times> 'f log_writer) option" where
  "AddRecord F w s = AddRecord_loop F w s True"

section \<open>The reader\<close>

record 'f sequential_file =
  sf_Read :: "'f \<Rightarrow> nat \<Rightarrow> Status \<times> slice \<times> 'f"
  sf_Skip :: "'f \<Rightarrow> uint64 \<Rightarrow> Status \<times> 'f"

record 'f log_reader =
  lr_file :: 'f
  lr_reporter :: bool
  lr_reports :: "(uint64 \<times> Status) list"
  lr_checksum :: bool
  lr_buffer :: slice
  lr_eof :: bool
  lr_last_record_offset :: uint64
  lr_end_of_buffer_offset :: uint64
  lr_initial_offset :: uint64
  lr_resyncing :: bool

definition Reader :: "'f \<Rightarrow> bool \<Rightarrow> bool \<Rightarrow> uint64 \<Rightarrow> 'f log_reader" where
  "Reader file reporter checksum initial_offset =
     \<lparr>lr_file = file, lr_reporter = reporter, lr_reports = [], lr_checksum = checksum, lr_buffer = [],
      lr_eof = False, lr_last_record_offset = 0, lr_end_of_buffer_offset = 0,
      lr_initial_offset = initial_offset, lr_resyncing = (initial_offset > 0)\<rparr>"

definition ReportDrop :: "'f log_reader \<Rightarrow> uint64 \<Rightarrow> Status \<Rightarrow> 'f log_reader" where
  "ReportDrop r bytes reason =
     (if lr_reporter r \<and>
         lr_end_of_buffer_offset r - of_nat (length (lr_buffer r)) - bytes \<ge> lr_initial_offset r
      then r\<lparr>lr_reports := lr_reports r @ [(bytes, reason)]\<rparr> else r)"

definition ReportCorruption :: "'f log_reader \<Rightarrow> uint64 \<Rightarrow> byte list \<Rightarrow> 'f log_reader option" where
  "ReportCorruption r bytes reason = do {
     s \<leftarrow> Corruption reason [];
     Some (ReportDrop r bytes s)
   }"

definition SkipToInitialBlock :: "'f sequential_file \<Rightarrow> 'f log_reader \<Rightarrow> bool \<times> 'f log_reader" where
  "SkipToInitialBlock S r =
     (let offset_in_block = lr_initial_offset r mod of_nat kBlockSize;
          block_start_location = lr_initial_offset r - offset_in_block;
          block_start_location = (if offset_in_block > of_nat (kBlockSize - 6)
            then block_start_location + of_nat kBlockSize else block_start_location);
          r = r\<lparr>lr_end_of_buffer_offset := block_start_location\<rparr> in
      if block_start_location > 0 then
        (let (skip_status, file) = sf_Skip S (lr_file r) block_start_location;
             r = r\<lparr>lr_file := file\<rparr> in
         if \<not> Status_ok skip_status then (False, ReportDrop r block_start_location skip_status)
         else (True, r))
      else (True, r))"

text \<open>The part of \<^verbatim>\<open>ReadPhysicalRecord\<close> behind the header check; \<open>result\<close> is the slice it may assign.\<close>

definition parse_physical :: "'f log_reader \<Rightarrow> slice \<Rightarrow> (uint32 \<times> slice \<times> 'f log_reader) option" where
  "parse_physical r result =
     (let header = lr_buffer r;
          a = (ucast (header ! 4) AND 0xff :: uint32);
          b = (ucast (header ! 5) AND 0xff :: uint32);
          t = (scast (header ! 6) :: uint32);
          len = unat (a OR push_bit 8 b) in
      if kHeaderSize + len > length header then
        (let r = r\<lparr>lr_buffer := []\<rparr> in
         if \<not> lr_eof r then do {
           r \<leftarrow> ReportCorruption r (of_nat (length header)) (str ''bad record length'');
           Some (kBadRecord, result, r) }
         else Some (kEof, result, r))
      else if t = kZeroType \<and> len = 0 then Some (kBadRecord, result, r\<lparr>lr_buffer := []\<rparr>)
      else do {
        ok \<leftarrow> (if lr_checksum r then do {
            c \<leftarrow> DecodeFixed32 header;
            actual_crc \<leftarrow> Value (take (1 + len) (drop 6 header));
            Some (actual_crc = Unmask c) }
          else Some True);
        if \<not> ok then do {
          r \<leftarrow> ReportCorruption (r\<lparr>lr_buffer := []\<rparr>) (of_nat (length header)) (str ''checksum mismatch'');
          Some (kBadRecord, result, r) }
        else
          (let r = r\<lparr>lr_buffer := drop (kHeaderSize + len) header\<rparr> in
           if lr_end_of_buffer_offset r - of_nat (length (lr_buffer r)) - of_nat kHeaderSize - of_nat len
                < lr_initial_offset r
           then Some (kBadRecord, [], r)
           else Some (t, take len (drop kHeaderSize header), r))
      })"

function ReadPhysicalRecord ::
    "'f sequential_file \<Rightarrow> 'f log_reader \<Rightarrow> slice \<Rightarrow> (uint32 \<times> slice \<times> 'f log_reader) option" where
  "ReadPhysicalRecord S r result =
     (if length (lr_buffer r) < kHeaderSize then
        if \<not> lr_eof r then
          (let (status, buffer, file) = sf_Read S (lr_file r) kBlockSize;
               r = r\<lparr>lr_buffer := buffer, lr_file := file,
                 lr_end_of_buffer_offset := lr_end_of_buffer_offset r + of_nat (length buffer)\<rparr> in
           if \<not> Status_ok status then
             (let r = ReportDrop (r\<lparr>lr_buffer := []\<rparr>) (of_nat kBlockSize) status in
              Some (kEof, result, r\<lparr>lr_eof := True\<rparr>))
           else ReadPhysicalRecord S (if length buffer < kBlockSize then r\<lparr>lr_eof := True\<rparr> else r) result)
        else Some (kEof, result, r\<lparr>lr_buffer := []\<rparr>)
      else parse_physical r result)"
  by pat_completeness auto
termination
  by (relation "measure (\<lambda>(_, r, _). if lr_eof r \<or> kHeaderSize \<le> length (lr_buffer r) then 0 else 1)")
     (auto simp: kHeaderSize_def kBlockSize_def)

declare ReadPhysicalRecord.simps [simp del]

text \<open>
  The \<^verbatim>\<open>switch\<close> of \<^verbatim>\<open>ReadRecord\<close>: a result, or the locals \<^verbatim>\<open>in_fragmented_record\<close>,
  \<^verbatim>\<open>prospective_record_offset\<close> and \<^verbatim>\<open>scratch\<close> for the next round.
\<close>

type_synonym 'f read_round = "(bool \<times> slice \<times> 'f log_reader) + (bool \<times> uint64 \<times> slice \<times> 'f log_reader)"

definition partial_record :: "bool \<Rightarrow> slice \<Rightarrow> byte list \<Rightarrow> 'f log_reader \<Rightarrow> 'f log_reader option" where
  "partial_record in_fragmented scratch reason r =
     (if in_fragmented \<and> scratch \<noteq> [] then ReportCorruption r (of_nat (length scratch)) reason else Some r)"

definition record_switch ::
    "uint32 \<Rightarrow> slice \<Rightarrow> uint64 \<Rightarrow> bool \<Rightarrow> uint64 \<Rightarrow> slice \<Rightarrow> 'f log_reader \<Rightarrow> 'f read_round option" where
  "record_switch record_type fragment physical_offset in_fragmented prospective scratch r =
     (if record_type = kFullType then do {
        r \<leftarrow> partial_record in_fragmented scratch (str ''partial record without end(1)'') r;
        Some (Inl (True, fragment, r\<lparr>lr_last_record_offset := physical_offset\<rparr>)) }
      else if record_type = kFirstType then do {
        r \<leftarrow> partial_record in_fragmented scratch (str ''partial record without end(2)'') r;
        Some (Inr (True, physical_offset, fragment, r)) }
      else if record_type = kMiddleType then
        (if \<not> in_fragmented then do {
           r \<leftarrow> ReportCorruption r (of_nat (length fragment)) (str ''missing start of fragmented record(1)'');
           Some (Inr (in_fragmented, prospective, scratch, r)) }
         else Some (Inr (in_fragmented, prospective, scratch @ fragment, r)))
      else if record_type = kLastType then
        (if \<not> in_fragmented then do {
           r \<leftarrow> ReportCorruption r (of_nat (length fragment)) (str ''missing start of fragmented record(2)'');
           Some (Inr (in_fragmented, prospective, scratch, r)) }
         else Some (Inl (True, scratch @ fragment, r\<lparr>lr_last_record_offset := prospective\<rparr>)))
      else if record_type = kEof then Some (Inl (False, [], r))
      else if record_type = kBadRecord then
        (if in_fragmented then do {
           r \<leftarrow> ReportCorruption r (of_nat (length scratch)) (str ''error in middle of record'');
           Some (Inr (False, prospective, [], r)) }
         else Some (Inr (in_fragmented, prospective, scratch, r)))
      else do {
        r \<leftarrow> ReportCorruption r (of_nat (length fragment + (if in_fragmented then length scratch else 0)))
               (str ''unknown record type '' @ decimal (unat record_type));
        Some (Inr (False, prospective, [], r)) })"

partial_function (option) ReadRecord_loop ::
    "'f sequential_file \<Rightarrow> 'f log_reader \<Rightarrow> bool \<Rightarrow> uint64 \<Rightarrow> slice \<Rightarrow> slice \<Rightarrow>
     (bool \<times> slice \<times> 'f log_reader) option" where
  "ReadRecord_loop S r in_fragmented prospective fragment scratch = do {
     (record_type, fragment, r) \<leftarrow> ReadPhysicalRecord S r fragment;
     let physical_offset = lr_end_of_buffer_offset r - of_nat (length (lr_buffer r)) -
           of_nat kHeaderSize - of_nat (length fragment);
     if lr_resyncing r \<and> record_type = kMiddleType
     then ReadRecord_loop S r in_fragmented prospective fragment scratch
     else if lr_resyncing r \<and> record_type = kLastType
     then ReadRecord_loop S (r\<lparr>lr_resyncing := False\<rparr>) in_fragmented prospective fragment scratch
     else do {
       x \<leftarrow> record_switch record_type fragment physical_offset in_fragmented prospective scratch
              (r\<lparr>lr_resyncing := False\<rparr>);
       case x of
         Inl result \<Rightarrow> Some result
       | Inr (in_fragmented, prospective, scratch, r) \<Rightarrow>
           ReadRecord_loop S r in_fragmented prospective fragment scratch
     }
   }"

definition ReadRecord :: "'f sequential_file \<Rightarrow> 'f log_reader \<Rightarrow> (bool \<times> slice \<times> 'f log_reader) option" where
  "ReadRecord S r =
     (let (ok, r) = (if lr_last_record_offset r < lr_initial_offset r then SkipToInitialBlock S r else (True, r)) in
      if \<not> ok then Some (False, [], r) else ReadRecord_loop S r False 0 [] [])"

definition LastRecordOffset :: "'f log_reader \<Rightarrow> uint64" where
  "LastRecordOffset r = lr_last_record_offset r"

section \<open>Files in memory\<close>

definition mem_writable :: "byte list writable_file" where
  "mem_writable = \<lparr>wf_Append = (\<lambda>f s. (Status_OK, f @ s)), wf_Flush = (\<lambda>f. (Status_OK, f))\<rparr>"

definition mem_sequential :: "byte list sequential_file" where
  "mem_sequential = \<lparr>sf_Read = (\<lambda>f n. (Status_OK, take n f, drop n f)),
     sf_Skip = (\<lambda>f n. (Status_OK, drop (unat n) f))\<rparr>"

section \<open>What the writer appends\<close>

definition phys :: "uint32 \<Rightarrow> slice \<Rightarrow> byte list" where
  "phys t pl = le_bytes 4 (Mask (crc32c 0 (ucast t # pl))) @
     [of_nat (length pl mod 256), of_nat (length pl div 256), ucast t] @ pl"

definition start_offset :: "nat \<Rightarrow> nat" where
  "start_offset off = (if kBlockSize - off < kHeaderSize then 0 else off)"

definition pad :: "nat \<Rightarrow> byte list" where
  "pad off = (if kBlockSize - off < kHeaderSize then replicate (kBlockSize - off) 0 else [])"

definition avail :: "nat \<Rightarrow> nat" where
  "avail off = kBlockSize - start_offset off - kHeaderSize"

lemma avail_0: "avail (start_offset off + kHeaderSize) = 0 \<Longrightarrow> 0 < avail off"
  by (auto simp: avail_def start_offset_def kHeaderSize_def kBlockSize_def split: if_splits)

text \<open>The bytes and the new block offset of a record written at a block offset.\<close>

function record_bytes :: "nat \<Rightarrow> slice \<Rightarrow> bool \<Rightarrow> byte list \<times> nat" where
  "record_bytes off ptr begins =
     (let pl = take (avail off) ptr;
          bs = pad off @ phys (fragment_type begins (length ptr \<le> avail off)) pl;
          off' = start_offset off + (kHeaderSize + length pl) in
      if length ptr \<le> avail off then (bs, off')
      else let (bs', off'') = record_bytes off' (drop (avail off) ptr) False in (bs @ bs', off''))"
  by pat_completeness auto

termination
  by (relation "measure (\<lambda>(off, ptr, _). 2 * length ptr + (if avail off = 0 then 1 else 0))")
     (auto dest: avail_0)

declare record_bytes.simps [simp del]

lemma start_offset_le: "start_offset off + kHeaderSize \<le> kBlockSize"
  by (auto simp: start_offset_def kHeaderSize_def kBlockSize_def)

lemma start_offset_avail: "start_offset off + (kHeaderSize + avail off) = kBlockSize"
  using start_offset_le [of off] by (simp add: avail_def)

text \<open>A writer at a block offset, and what it appends to a file in memory.\<close>

definition type_crcs :: "uint32 list" where
  "type_crcs = map (\<lambda>i. crc32c 0 [of_nat i]) [0..<5]"

definition writer_at :: "byte list \<Rightarrow> nat \<Rightarrow> byte list log_writer" where
  "writer_at dest off = \<lparr>lw_dest = dest, lw_block_offset = off, lw_type_crc = type_crcs\<rparr>"

lemma lw_dest_writer_at [simp]: "lw_dest (writer_at dest off) = dest"
  by (simp add: writer_at_def)

lemma InitTypeCrc_type_crcs: "InitTypeCrc = Some type_crcs"
  by (simp add: InitTypeCrc_def type_crcs_def record_types upt_rec)

lemma type_crcs_nth: "t \<in> {0, 1, 2, 3, 4} \<Longrightarrow> type_crcs ! unat t = crc32c 0 [ucast t]" for t :: uint32
  by (auto simp: type_crcs_def upt_rec)

lemma fragment_type_range: "fragment_type b e \<in> {1, 2, 3, 4}"
  by (simp add: fragment_type_def record_types)

lemma EmitPhysicalRecord_mem:
  assumes "t \<in> {0, 1, 2, 3, 4}" and "off + kHeaderSize + length pl \<le> kBlockSize"
  shows "EmitPhysicalRecord mem_writable (writer_at dest off) t pl =
    Some (Status_OK, writer_at (dest @ phys t pl) (off + (kHeaderSize + length pl)))"
  using assms
  by (simp add: EmitPhysicalRecord_def Let_def writer_at_def mem_writable_def type_crcs_nth Status_ok_def Status_OK_def
      phys_def crc32c_append kBlockSize_def kHeaderSize_def)

lemma switch_block_mem:
  "off \<le> kBlockSize \<Longrightarrow> switch_block mem_writable (writer_at dest off) = writer_at (dest @ pad off) (start_offset off)"
  by (auto simp: switch_block_def Let_def writer_at_def mem_writable_def pad_def start_offset_def)

lemma add_fragment_mem:
  assumes "off \<le> kBlockSize"
  shows "add_fragment mem_writable (writer_at dest off) ptr begins =
    (let pl = take (avail off) ptr in
     Some (Status_OK, writer_at (dest @ pad off @ phys (fragment_type begins (length ptr \<le> avail off)) pl)
       (start_offset off + (kHeaderSize + length pl)), drop (avail off) ptr))"
proof -
  let ?w = "writer_at (dest @ pad off) (start_offset off)"
  let ?n = "if length ptr < avail off then length ptr else avail off"
  have n: "take ?n ptr = take (avail off) ptr" "drop ?n ptr = drop (avail off) ptr" "(length ptr = ?n) = (length ptr \<le> avail off)"
    by auto
  let ?t = "fragment_type begins (length ptr \<le> avail off)"
  have emit: "EmitPhysicalRecord mem_writable ?w ?t (take (avail off) ptr) =
      Some (Status_OK, writer_at ((dest @ pad off) @ phys ?t (take (avail off) ptr))
        (start_offset off + (kHeaderSize + length (take (avail off) ptr))))"
    using fragment_type_range [of begins "length ptr \<le> avail off"] start_offset_le [of off]
    by (intro EmitPhysicalRecord_mem) (auto simp: avail_def)
  have offs: "(lw_block_offset (writer_at dest off) > kBlockSize) = False"
    "(lw_block_offset ?w + kHeaderSize > kBlockSize) = False" "kBlockSize - lw_block_offset ?w - kHeaderSize = avail off"
    using assms start_offset_le [of off] by (simp_all add: writer_at_def avail_def)
  show ?thesis
    unfolding add_fragment_def Let_def switch_block_mem [OF assms] offs n emit by simp
qed

lemma AddRecord_loop_mem:
  "off \<le> kBlockSize \<Longrightarrow> record_bytes off ptr begins = (bs, off') \<Longrightarrow>
   AddRecord_loop mem_writable (writer_at dest off) ptr begins = Some (Status_OK, writer_at (dest @ bs) off')"
proof (induction off ptr begins arbitrary: dest bs off' rule: record_bytes.induct)
  case (1 off ptr begins)
  show ?case
  proof (cases "length ptr \<le> avail off")
    case True
    with 1(2,3) show ?thesis
      by (subst AddRecord_loop.simps) (auto simp: record_bytes.simps [of off] add_fragment_mem Let_def)
  next
    case False
    then have drop: "drop (avail off) ptr \<noteq> []" and len: "length (take (avail off) ptr) = avail off" by simp_all
    obtain bs2 off2 where rest: "record_bytes kBlockSize (drop (avail off) ptr) False = (bs2, off2)" by fastforce
    have "AddRecord_loop mem_writable (writer_at dest2 kBlockSize) (drop (avail off) ptr) False =
        Some (Status_OK, writer_at (dest2 @ bs2) off2)" for dest2
      by (rule 1(1) [OF refl refl refl False, simplified len start_offset_avail]) (simp_all add: rest)
    with False 1(2,3) rest drop len show ?thesis
      by (subst AddRecord_loop.simps)
         (auto simp: record_bytes.simps [of off] add_fragment_mem Let_def start_offset_avail Status_ok_def Status_OK_def)
  qed
qed

lemma record_bytes_offset: "off \<le> kBlockSize \<Longrightarrow> record_bytes off ptr begins = (bs, off') \<Longrightarrow> off' \<le> kBlockSize"
proof (induction off ptr begins arbitrary: bs off' rule: record_bytes.induct)
  case (1 off ptr begins)
  then show ?case
    using start_offset_avail [of off]
    by (cases "length ptr \<le> avail off") (auto simp: record_bytes.simps [of off] Let_def split: prod.splits)
qed

section \<open>What the reader finds\<close>

text \<open>A reader that has \<open>rest\<close> left to read, at the offset \<open>off\<close> of a block.\<close>

definition reads :: "byte list log_reader \<Rightarrow> nat \<Rightarrow> byte list \<Rightarrow> bool" where
  "reads r off rest \<longleftrightarrow> off \<le> kBlockSize \<and> lr_buffer r = take (kBlockSize - off) rest \<and>
     lr_file r = drop (kBlockSize - off) rest \<and> (lr_eof r \<longrightarrow> lr_file r = []) \<and>
     (\<not> lr_eof r \<longrightarrow> kBlockSize - off \<le> length rest) \<and> lr_initial_offset r = 0 \<and> \<not> lr_resyncing r"

lemma reads_Reader: "reads (Reader f reporter checksum 0) kBlockSize f"
  by (simp add: reads_def Reader_def)

lemma refill:
  assumes "reads r off rest" and "kBlockSize - off < kHeaderSize" and "\<not> lr_eof r"
  obtains r' where "ReadPhysicalRecord mem_sequential r frag = ReadPhysicalRecord mem_sequential r' frag"
    and "reads r' 0 (drop (kBlockSize - off) rest)" and "lr_reports r' = lr_reports r"
proof -
  let ?f = "lr_file r"
  let ?r = "r\<lparr>lr_buffer := take kBlockSize ?f, lr_file := drop kBlockSize ?f,
    lr_end_of_buffer_offset := lr_end_of_buffer_offset r + of_nat (length (take kBlockSize ?f))\<rparr>"
  let ?r' = "if length (take kBlockSize ?f) < kBlockSize then ?r\<lparr>lr_eof := True\<rparr> else ?r"
  have "length (lr_buffer r) < kHeaderSize" using assms by (simp add: reads_def)
  then have "ReadPhysicalRecord mem_sequential r frag = ReadPhysicalRecord mem_sequential ?r' frag"
    using assms(3) by (subst ReadPhysicalRecord.simps) (simp add: mem_sequential_def Let_def Status_ok_def Status_OK_def)
  moreover have "reads ?r' 0 (drop (kBlockSize - off) rest)" using assms by (auto simp: reads_def)
  ultimately show ?thesis using that by (cases "length (take kBlockSize ?f) < kBlockSize") auto
qed

lemma length_bytes:
  assumes "n < 65536"
  shows "unat ((ucast (of_nat (n mod 256) :: byte) AND 0xff :: uint32) OR
    push_bit 8 (ucast (of_nat (n div 256) :: byte) AND 0xff)) = n"
proof -
  let ?a = "of_nat (n mod 256) :: uint32" and ?b = "of_nat (n div 256) :: uint32"
  have byte: "(ucast (of_nat k :: byte) AND 0xff :: uint32) = of_nat k" if "k < 256" for k
  proof (rule unsigned_word_eqI)
    have "unat (ucast (of_nat k :: byte) :: uint32) = k" using that by (simp add: unsigned_ucast_eq unat_of_nat take_bit_eq_mod)
    then show "unat (ucast (of_nat k :: byte) AND 0xff :: uint32) = unat (of_nat k :: uint32)"
      unfolding and_255 unsigned_take_bit_eq using that by (simp add: unat_of_nat take_bit_eq_mod)
  qed
  have "take_bit 8 ?a = ?a" by (simp only: take_bit_of_nat) (simp add: take_bit_nat_eq_self)
  then have "?a OR push_bit 8 ?b = ?a + 2 ^ 8 * ?b" by (rule or_push_bit)
  also have "\<dots> = of_nat (n mod 256 + 256 * (n div 256))" by (simp only: of_nat_add of_nat_mult) simp
  also have "\<dots> = of_nat n" by (simp only: mod_mult_div_eq)
  finally have "?a OR push_bit 8 ?b = of_nat n" .
  moreover have "n mod 256 < 256" "n div 256 < 256" using assms by simp_all
  note this [THEN byte]
  ultimately show ?thesis using assms by (simp only: unat_of_nat) (simp add: take_bit_eq_mod)
qed

lemma phys_header:
  assumes "length pl < 65536"
  shows "phys t pl = le_bytes 4 (Mask (crc32c 0 (ucast t # pl))) @
    [of_nat (length pl mod 256), of_nat (length pl div 256), ucast t] @ pl" "length (phys t pl) = kHeaderSize + length pl"
  by (simp_all add: phys_def kHeaderSize_def)

lemma parse_phys:
  assumes r: "reads r off (phys t pl @ rest)" and fits: "off + kHeaderSize + length pl \<le> kBlockSize" and t: "t \<in> {1, 2, 3, 4}"
  obtains r' where "ReadPhysicalRecord mem_sequential r frag = Some (t, pl, r')"
    and "reads r' (off + (kHeaderSize + length pl)) rest" and "lr_reports r' = lr_reports r"
proof -
  let ?b = "lr_buffer r" and ?n = "kHeaderSize + length pl"
  have pl: "length pl < 65536" using fits by (simp add: kBlockSize_def)
  have len: "length (phys t pl) = ?n" by (simp add: phys_def kHeaderSize_def)
  have buf: "?b = phys t pl @ take (kBlockSize - off - ?n) rest"
    using r fits len by (simp add: reads_def)
  have nths: "?b ! 4 = of_nat (length pl mod 256)" "?b ! 5 = of_nat (length pl div 256)" "?b ! 6 = ucast t"
    unfolding buf by (simp_all add: phys_def nth_append)
  have parts: "take (1 + length pl) (drop 6 ?b) = ucast t # pl" "take (length pl) (drop kHeaderSize ?b) = pl"
    "DecodeFixed32 ?b = Some (Mask (crc32c 0 (ucast t # pl)))"
    unfolding buf by (simp_all add: phys_def kHeaderSize_def)
  have tail: "drop ?n ?b = take (kBlockSize - off - ?n) rest" unfolding buf by (simp add: len)
  have size: "length ?b \<ge> ?n" unfolding buf by (simp add: len)
  have code: "(scast (ucast t :: byte) :: uint32) = t" "t \<noteq> kZeroType" using t by (auto simp: record_types)
  let ?r' = "r\<lparr>lr_buffer := drop ?n ?b\<rparr>"
  have "parse_physical r frag = Some (t, pl, ?r')"
    unfolding parse_physical_def Let_def nths length_bytes [OF pl] parts code
    using size r code(2) by (simp add: reads_def)
  then have "ReadPhysicalRecord mem_sequential r frag = Some (t, pl, ?r')"
    using size by (subst ReadPhysicalRecord.simps) simp
  moreover have "reads ?r' (off + ?n) rest"
    using r fits len unfolding reads_def tail by auto
  ultimately show ?thesis using that by simp
qed

text \<open>A record that is cut short reads as the end of the file, without a report.\<close>

lemma take_phys_header:
  assumes "n \<ge> kHeaderSize"
  shows "\<exists>c. length c = 4 \<and> take n (phys t pl) =
    c @ [of_nat (length pl mod 256), of_nat (length pl div 256), ucast t] @ take (n - kHeaderSize) pl"
  using assms by (intro exI [of _ "le_bytes 4 (Mask (crc32c 0 (ucast t # pl)))"])
    (simp add: phys_def kHeaderSize_def take_Cons')

lemma parse_cut:
  assumes r: "reads r off (take n (phys t pl))" and fits: "off + kHeaderSize + length pl \<le> kBlockSize"
    and n: "n < kHeaderSize + length pl"
  obtains r' where "ReadPhysicalRecord mem_sequential r frag = Some (kEof, frag, r')" and "lr_reports r' = lr_reports r"
proof -
  let ?b = "lr_buffer r"
  have pl: "length pl < 65536" using fits by (simp add: kBlockSize_def)
  have len: "length (take n (phys t pl)) = n" using n by (simp add: phys_def kHeaderSize_def)
  have buf: "?b = take n (phys t pl)" and eof: "lr_eof r"
    using r fits n len by (auto simp: reads_def)
  show ?thesis
  proof (cases "n < kHeaderSize")
    case True
    then show ?thesis using that eof len buf by (subst (asm) ReadPhysicalRecord.simps) simp
  next
    case False
    then obtain c where c: "length c = 4" "?b = c @ [of_nat (length pl mod 256), of_nat (length pl div 256), ucast t] @ take (n - kHeaderSize) pl"
      using take_phys_header [of n t pl] buf by auto
    have nths: "?b ! 4 = of_nat (length pl mod 256)" "?b ! 5 = of_nat (length pl div 256)"
      unfolding c(2) using c(1) by (simp_all add: nth_append)
    have "parse_physical r frag = Some (kEof, frag, r\<lparr>lr_buffer := []\<rparr>)"
      unfolding parse_physical_def Let_def nths length_bytes [OF pl] using eof buf len n by simp
    then have "ReadPhysicalRecord mem_sequential r frag = Some (kEof, frag, r\<lparr>lr_buffer := []\<rparr>)"
      using False buf len by (subst ReadPhysicalRecord.simps) simp
    then show ?thesis using that by simp
  qed
qed

lemma read_fragment:
  assumes r: "reads r off (pad off @ phys t pl @ rest)" and fits: "length pl \<le> avail off" and t: "t \<in> {1, 2, 3, 4}"
  obtains r' where "ReadPhysicalRecord mem_sequential r frag = Some (t, pl, r')"
    and "reads r' (start_offset off + (kHeaderSize + length pl)) rest" and "lr_reports r' = lr_reports r"
proof (cases "kBlockSize - off < kHeaderSize")
  case True
  have "\<not> lr_eof r" using r True by (auto simp: reads_def pad_def phys_def)
  then obtain r1 where r1: "ReadPhysicalRecord mem_sequential r frag = ReadPhysicalRecord mem_sequential r1 frag"
    "reads r1 0 (drop (kBlockSize - off) (pad off @ phys t pl @ rest))" "lr_reports r1 = lr_reports r"
    using refill [OF r True] by blast
  have "reads r1 0 (phys t pl @ rest)" using r1(2) True by (simp add: pad_def)
  moreover have "0 + kHeaderSize + length pl \<le> kBlockSize"
    using fits True start_offset_avail [of off] by (simp add: start_offset_def)
  ultimately show ?thesis
    using parse_phys [OF _ _ t, of r1 0 pl rest frag] that r1(1,3) True by (metis add_0 start_offset_def)
next
  case False
  have "off + kHeaderSize + length pl \<le> kBlockSize"
    using fits False start_offset_avail [of off] by (simp add: start_offset_def)
  moreover have "reads r off (phys t pl @ rest)" using r False by (simp add: pad_def)
  ultimately show ?thesis using parse_phys [OF _ _ t, of r off pl rest frag] that False by (metis start_offset_def)
qed

lemma read_fragment_cut:
  assumes r: "reads r off (take n (pad off @ phys t pl))" and fits: "length pl \<le> avail off"
    and n: "n < length (pad off @ phys t pl)"
  obtains r' where "ReadPhysicalRecord mem_sequential r frag = Some (kEof, frag, r')" and "lr_reports r' = lr_reports r"
proof (cases "kBlockSize - off < kHeaderSize")
  case True
  have len: "length (phys t pl) = kHeaderSize + length pl" by (simp add: phys_def kHeaderSize_def)
  show ?thesis
  proof (cases "lr_eof r")
    case eof: True
    have "length (lr_buffer r) \<le> kBlockSize - off" using r unfolding reads_def by (metis length_take min.cobounded2)
    then have "length (lr_buffer r) < kHeaderSize" using True by simp
    with eof that show ?thesis by (subst (asm) ReadPhysicalRecord.simps) simp
  next
    case False
    obtain r1 where r1: "ReadPhysicalRecord mem_sequential r frag = ReadPhysicalRecord mem_sequential r1 frag"
      "reads r1 0 (drop (kBlockSize - off) (take n (pad off @ phys t pl)))" "lr_reports r1 = lr_reports r"
      using refill [OF r True False] by blast
    let ?k = "n - (kBlockSize - off)"
    have "reads r1 0 (take ?k (phys t pl))" using r1(2) True unfolding drop_take by (simp add: pad_def)
    moreover have "0 + kHeaderSize + length pl \<le> kBlockSize"
      using fits True start_offset_avail [of off] by (simp add: start_offset_def)
    moreover have "?k < kHeaderSize + length pl" using n True len by (simp add: pad_def kHeaderSize_def)
    ultimately show ?thesis using parse_cut [of r1 0 ?k t pl frag] that r1(1,3) by metis
  qed
next
  case False
  have "off + kHeaderSize + length pl \<le> kBlockSize"
    using fits False start_offset_avail [of off] by (simp add: start_offset_def)
  moreover have "reads r off (take n (phys t pl))" using r False by (simp add: pad_def)
  moreover have "n < kHeaderSize + length pl" using n False by (simp add: pad_def phys_def kHeaderSize_def)
  ultimately show ?thesis using parse_cut [of r off n t pl frag] that by blast
qed

lemma record_switch_fragment:
  assumes "begins \<Longrightarrow> \<not> in_frag \<and> scratch = []" and "\<not> begins \<Longrightarrow> in_frag"
  shows "record_switch (fragment_type begins ends) pl po in_frag prosp scratch r =
    (if ends then Some (Inl (True, scratch @ pl, r\<lparr>lr_last_record_offset := (if begins then po else prosp)\<rparr>))
     else Some (Inr (True, if begins then po else prosp, scratch @ pl, r)))"
  using assms by (cases begins; cases ends)
    (auto simp: record_switch_def fragment_type_def record_types partial_record_def)

lemma read_record_bytes:
  assumes "reads r off (fst (record_bytes off ptr begins) @ rest)" and "off \<le> kBlockSize"
    and "begins \<Longrightarrow> \<not> in_frag \<and> scratch = []" and "\<not> begins \<Longrightarrow> in_frag"
  shows "\<exists>r'. ReadRecord_loop mem_sequential r in_frag prosp frag scratch = Some (True, scratch @ ptr, r') \<and>
    reads r' (snd (record_bytes off ptr begins)) rest \<and> lr_reports r' = lr_reports r"
  using assms
proof (induction off ptr begins arbitrary: r in_frag prosp frag scratch rule: record_bytes.induct)
  case (1 off ptr begins)
  let ?pl = "take (avail off) ptr" and ?ends = "length ptr \<le> avail off"
  let ?t = "fragment_type begins ?ends" and ?off = "start_offset off + (kHeaderSize + length ?pl)"
  let ?rest = "if ?ends then rest else fst (record_bytes ?off (drop (avail off) ptr) False) @ rest"
  have "reads r off (pad off @ phys ?t ?pl @ ?rest)"
    using 1(2) by (auto simp: record_bytes.simps [of off] Let_def split: prod.splits)
  then obtain r1 where r1: "ReadPhysicalRecord mem_sequential r frag = Some (?t, ?pl, r1)"
    "reads r1 ?off ?rest" "lr_reports r1 = lr_reports r"
    using read_fragment [OF _ _ fragment_type_range] by (metis length_take min.cobounded2)
  have "\<not> lr_resyncing r1" using r1(2) by (simp add: reads_def)
  then have same: "r1\<lparr>lr_resyncing := False\<rparr> = r1" by simp
  note sw = record_switch_fragment [of begins in_frag scratch, OF 1(4,5)]
  show ?case
  proof (cases ?ends)
    case True
    then show ?thesis
      apply (subst ReadRecord_loop.simps)
      using r1 same by (auto simp: sw reads_def record_bytes.simps [of off] Let_def)
  next
    case False
    let ?r1 = "r1\<lparr>lr_resyncing := False\<rparr>"
    have off: "?off \<le> kBlockSize" using start_offset_avail [of off] by simp
    have "reads ?r1 ?off (fst (record_bytes ?off (drop (avail off) ptr) False) @ rest)" using r1(2) False same by simp
    then have "\<exists>r'. ReadRecord_loop mem_sequential ?r1 True prosp' frag' scratch' = Some (True, scratch' @ drop (avail off) ptr, r') \<and>
        reads r' (snd (record_bytes ?off (drop (avail off) ptr) False)) rest \<and> lr_reports r' = lr_reports ?r1" for prosp' frag' scratch'
      by (intro 1(1) [OF refl refl refl False]) (use off in simp_all)
    from this [of _ ?pl "scratch @ ?pl"] show ?thesis
      apply (subst ReadRecord_loop.simps)
      using r1 False \<open>\<not> lr_resyncing r1\<close> by (auto simp: sw same record_bytes.simps [of off] Let_def split: prod.splits)
  qed
qed

text \<open>A record of which only a part is there is not returned, and not reported.\<close>

lemma read_record_cut:
  assumes "reads r off (take n (fst (record_bytes off ptr begins)))" and "off \<le> kBlockSize"
    and "n < length (fst (record_bytes off ptr begins))"
    and "begins \<Longrightarrow> \<not> in_frag \<and> scratch = []" and "\<not> begins \<Longrightarrow> in_frag"
  shows "\<exists>r'. ReadRecord_loop mem_sequential r in_frag prosp frag scratch = Some (False, [], r') \<and> lr_reports r' = lr_reports r"
  using assms
proof (induction off ptr begins arbitrary: r n in_frag prosp frag scratch rule: record_bytes.induct)
  case (1 off ptr begins)
  let ?pl = "take (avail off) ptr" and ?ends = "length ptr \<le> avail off"
  let ?t = "fragment_type begins ?ends" and ?off = "start_offset off + (kHeaderSize + length ?pl)"
  let ?first = "pad off @ phys ?t ?pl"
  show ?case
  proof (cases "n < length ?first")
    case True
    have "fst (record_bytes off ptr begins) =
        ?first @ (if ?ends then [] else fst (record_bytes ?off (drop (avail off) ptr) False))"
      by (simp add: record_bytes.simps [of off] Let_def split: prod.splits)
    with True have "take n (fst (record_bytes off ptr begins)) = take n ?first" by (simp del: append_assoc)
    then have "reads r off (take n ?first)" using 1(2) by simp
    then obtain r1 where r1: "ReadPhysicalRecord mem_sequential r frag = Some (kEof, frag, r1)" "lr_reports r1 = lr_reports r"
      using read_fragment_cut [OF _ _ True] by (metis length_take min.cobounded2)
    then show ?thesis by (subst ReadRecord_loop.simps) (simp add: record_switch_def record_types)
  next
    case False
    then have more: "\<not> ?ends" using 1(4) by (auto simp: record_bytes.simps [of off] Let_def split: prod.splits)
    let ?tail = "fst (record_bytes ?off (drop (avail off) ptr) False)" and ?n = "n - length ?first"
    have "fst (record_bytes off ptr begins) = ?first @ ?tail"
      using more by (simp add: record_bytes.simps [of off] Let_def split: prod.splits)
    then have "take n (fst (record_bytes off ptr begins)) = pad off @ phys ?t ?pl @ take ?n ?tail" and n: "?n < length ?tail"
      using False 1(4) by simp_all
    then obtain r1 where r1: "ReadPhysicalRecord mem_sequential r frag = Some (?t, ?pl, r1)"
      "reads r1 ?off (take ?n ?tail)" "lr_reports r1 = lr_reports r"
      using read_fragment [OF _ _ fragment_type_range] 1(2) by (metis length_take min.cobounded2)
    have "\<not> lr_resyncing r1" using r1(2) by (simp add: reads_def)
    then have same: "r1\<lparr>lr_resyncing := False\<rparr> = r1" by simp
    note sw = record_switch_fragment [of begins in_frag scratch, OF 1(5,6)]
    have off: "?off \<le> kBlockSize" using start_offset_avail [of off] by simp
    have "\<exists>r'. ReadRecord_loop mem_sequential (r1\<lparr>lr_resyncing := False\<rparr>) True prosp' frag' scratch' = Some (False, [], r') \<and>
        lr_reports r' = lr_reports (r1\<lparr>lr_resyncing := False\<rparr>)" for prosp' frag' scratch'
      by (intro 1(1) [OF refl refl refl more, of _ ?n]) (use off n r1(2) same in simp_all)
    from this [of _ ?pl "scratch @ ?pl"] show ?thesis
      apply (subst ReadRecord_loop.simps)
      using r1 more \<open>\<not> lr_resyncing r1\<close> by (auto simp: sw same Let_def)
  qed
qed

section \<open>Logs\<close>

text \<open>Writing a list of records, in one session or in several that reopen the file, and reading all.\<close>

primrec write_all :: "'f writable_file \<Rightarrow> 'f log_writer \<Rightarrow> slice list \<Rightarrow> (Status \<times> 'f log_writer) option" where
  "write_all F w [] = Some (Status_OK, w)"
| "write_all F w (x # xs) = do {
     (s, w) \<leftarrow> AddRecord F w x;
     if Status_ok s then write_all F w xs else Some (s, w)
   }"

primrec write_sessions :: "byte list \<Rightarrow> slice list list \<Rightarrow> byte list option" where
  "write_sessions f [] = Some f"
| "write_sessions f (xs # xss) = do {
     w \<leftarrow> Writer_at f (of_nat (length f));
     (s, w) \<leftarrow> write_all mem_writable w xs;
     if Status_ok s then write_sessions (lw_dest w) xss else None
   }"

partial_function (option) read_all :: "'f sequential_file \<Rightarrow> 'f log_reader \<Rightarrow> (slice list \<times> 'f log_reader) option" where
  "read_all S r = do {
     (ok, x, r) \<leftarrow> ReadRecord S r;
     if \<not> ok then Some ([], r)
     else do { (xs, r) \<leftarrow> read_all S r; Some (x # xs, r) }
   }"

primrec log_bytes :: "nat \<Rightarrow> slice list \<Rightarrow> byte list" where
  "log_bytes off [] = []"
| "log_bytes off (x # xs) = fst (record_bytes off x True) @ log_bytes (snd (record_bytes off x True)) xs"

primrec log_end :: "nat \<Rightarrow> slice list \<Rightarrow> nat" where
  "log_end off [] = off"
| "log_end off (x # xs) = log_end (snd (record_bytes off x True)) xs"

lemma AddRecord_mem:
  "off \<le> kBlockSize \<Longrightarrow> AddRecord mem_writable (writer_at dest off) x =
     Some (Status_OK, writer_at (dest @ fst (record_bytes off x True)) (snd (record_bytes off x True)))"
  unfolding AddRecord_def by (rule AddRecord_loop_mem) simp_all

lemma record_bytes_end: "off \<le> kBlockSize \<Longrightarrow> snd (record_bytes off x b) \<le> kBlockSize"
  using record_bytes_offset [of off x b] by (metis prod.collapse)

lemma write_all_mem:
  "off \<le> kBlockSize \<Longrightarrow> write_all mem_writable (writer_at dest off) xs =
     Some (Status_OK, writer_at (dest @ log_bytes off xs) (log_end off xs))"
  by (induction xs arbitrary: dest off) (simp_all add: AddRecord_mem record_bytes_end Status_ok_def Status_OK_def)

lemma log_bytes_append: "log_bytes off (xs @ ys) = log_bytes off xs @ log_bytes (log_end off xs) ys"
  by (induction xs arbitrary: off) simp_all

lemma start_offset_mod:
  "off \<le> kBlockSize \<Longrightarrow> (off + length (pad off)) mod kBlockSize = start_offset off mod kBlockSize"
  by (simp add: pad_def start_offset_def)

lemma record_bytes_mod:
  "off \<le> kBlockSize \<Longrightarrow> record_bytes off ptr begins = (bs, off') \<Longrightarrow>
     (off + length bs) mod kBlockSize = off' mod kBlockSize"
proof (induction off ptr begins arbitrary: bs off' rule: record_bytes.induct)
  case (1 off ptr begins)
  let ?pl = "take (avail off) ptr"
  have len: "length (phys t ?pl) = kHeaderSize + length ?pl" for t by (simp add: phys_def kHeaderSize_def)
  have mod: "(off + length (pad off) + k) mod kBlockSize = (start_offset off + k) mod kBlockSize" for k
    using start_offset_mod [OF 1(2)] by (metis mod_add_left_eq)
  show ?case
  proof (cases "length ptr \<le> avail off")
    case True
    then show ?thesis using 1(3) mod [of "kHeaderSize + length ?pl"] len
      by (auto simp: record_bytes.simps [of off] Let_def add.assoc)
  next
    case False
    let ?off = "start_offset off + (kHeaderSize + length ?pl)"
    obtain bs2 where bs2: "record_bytes ?off (drop (avail off) ptr) False = (bs2, off')"
      "bs = pad off @ phys (fragment_type begins (length ptr \<le> avail off)) ?pl @ bs2"
      using 1(3) False by (auto simp: record_bytes.simps [of off] Let_def split: prod.splits)
    have "?off \<le> kBlockSize" using start_offset_avail [of off] by simp
    then have "(?off + length bs2) mod kBlockSize = off' mod kBlockSize"
      by (intro 1(1) [OF refl refl refl False]) (use bs2 in simp_all)
    then show ?thesis using mod [of "kHeaderSize + length ?pl + length bs2"] bs2(2) len by (simp add: add.assoc)
  qed
qed

lemma log_end_mod:
  "off \<le> kBlockSize \<Longrightarrow> log_end off xs \<le> kBlockSize \<and>
     (off + length (log_bytes off xs)) mod kBlockSize = log_end off xs mod kBlockSize"
proof (induction xs arbitrary: off)
  case (Cons x xs)
  let ?off = "snd (record_bytes off x True)" and ?bs = "fst (record_bytes off x True)"
  have "(off + length ?bs) mod kBlockSize = ?off mod kBlockSize"
    using record_bytes_mod [OF Cons.prems, of x True] by simp
  then have "(off + length ?bs + length (log_bytes ?off xs)) mod kBlockSize = (?off + length (log_bytes ?off xs)) mod kBlockSize"
    by (metis mod_add_left_eq)
  then show ?case using Cons.IH [OF record_bytes_end [OF Cons.prems, of x True]] by (simp add: add.assoc)
qed simp

lemma log_bytes_mod:
  assumes "off \<le> kBlockSize"
  shows "log_bytes (off mod kBlockSize) xs = log_bytes off xs"
proof (cases "off = kBlockSize")
  case True
  have same: "avail 0 = avail kBlockSize" "start_offset 0 = start_offset kBlockSize" "pad 0 = pad kBlockSize"
    by (simp_all add: avail_def start_offset_def pad_def kHeaderSize_def kBlockSize_def)
  have "record_bytes 0 x b = record_bytes kBlockSize x b" for x b
    unfolding record_bytes.simps [of 0] record_bytes.simps [of kBlockSize] same ..
  then show ?thesis using True by (cases xs) simp_all
qed (use assms in simp)

lemma write_sessions_mem:
  assumes "f = log_bytes 0 xs"
  shows "write_sessions f xss = Some (log_bytes 0 (xs @ concat xss))"
  using assms
proof (induction xss arbitrary: f xs)
  case (Cons ys xss)
  have e: "log_end 0 xs \<le> kBlockSize" "length f mod kBlockSize = log_end 0 xs mod kBlockSize"
    using log_end_mod [of 0 xs] Cons.prems by simp_all
  have "unat (of_nat (length f) :: uint64) mod kBlockSize = length f mod kBlockSize"
    by (simp add: unat_of_nat kBlockSize_def mod_mod_cancel)
  then have w: "Writer_at f (of_nat (length f)) = Some (writer_at f (log_end 0 xs mod kBlockSize))"
    using e(2) by (simp add: Writer_at_def InitTypeCrc_type_crcs) (simp add: writer_at_def)
  have "log_end 0 xs mod kBlockSize \<le> kBlockSize" by (simp add: kBlockSize_def)
  then have "write_sessions f (ys # xss) = write_sessions (f @ log_bytes (log_end 0 xs) ys) xss"
    using w by (simp add: write_all_mem log_bytes_mod [OF e(1)] Status_ok_def Status_OK_def)
  then show ?case using Cons.IH [of "f @ log_bytes (log_end 0 xs) ys" "xs @ ys"] Cons.prems by (simp add: log_bytes_append)
qed simp

lemma reads_nothing:
  assumes "reads r off []"
  shows "\<exists>r'. ReadRecord_loop mem_sequential r False 0 [] [] = Some (False, [], r') \<and> lr_reports r' = lr_reports r"
proof -
  obtain r' where "ReadPhysicalRecord mem_sequential r [] = Some (kEof, [], r')" "lr_reports r' = lr_reports r"
    using read_fragment_cut [of r off 0 1 "[]" "[]"] assms by (auto simp: phys_def)
  then show ?thesis by (subst ReadRecord_loop.simps) (simp add: record_switch_def record_types)
qed

lemma ReadRecord_reads: "reads r off rest \<Longrightarrow> ReadRecord S r = ReadRecord_loop S r False 0 [] []"
  by (simp add: ReadRecord_def reads_def)

lemma read_all_log:
  assumes "reads r off (take n (log_bytes off xs))" and "off \<le> kBlockSize"
  shows "\<exists>k r'. read_all mem_sequential r = Some (take k xs, r') \<and> lr_reports r' = lr_reports r \<and> k \<le> length xs \<and>
    (\<forall>j\<le>length xs. length (log_bytes off (take j xs)) \<le> n \<longrightarrow> j \<le> k)"
  using assms
proof (induction xs arbitrary: r off n)
  case Nil
  then show ?case
    using reads_nothing [of r off] ReadRecord_reads [of r off] by (subst read_all.simps) auto
next
  case (Cons x xs)
  let ?bs = "fst (record_bytes off x True)" and ?off = "snd (record_bytes off x True)"
  note ReadRecord = ReadRecord_reads [OF Cons.prems(1)]
  show ?case
  proof (cases "n < length ?bs")
    case True
    then have "reads r off (take n ?bs)" using Cons.prems(1) by simp
    then obtain r' where "ReadRecord mem_sequential r = Some (False, [], r')" "lr_reports r' = lr_reports r"
      using read_record_cut [OF _ Cons.prems(2) True, of r False "[]" 0 "[]"] ReadRecord by auto
    moreover have "j = 0" if "length (log_bytes off (take j (x # xs))) \<le> n" for j
      using that True by (cases j) simp_all
    ultimately show ?thesis by (subst read_all.simps) (auto intro!: exI [of _ 0])
  next
    case False
    then have "reads r off (?bs @ take (n - length ?bs) (log_bytes ?off xs))" using Cons.prems(1) by simp
    then obtain r1 where r1: "ReadRecord mem_sequential r = Some (True, x, r1)"
      "reads r1 ?off (take (n - length ?bs) (log_bytes ?off xs))" "lr_reports r1 = lr_reports r"
      using read_record_bytes [OF _ Cons.prems(2), of r x True _ False "[]" 0 "[]"] ReadRecord by auto
    obtain k r' where k: "read_all mem_sequential r1 = Some (take k xs, r')" "lr_reports r' = lr_reports r1" "k \<le> length xs"
      "\<forall>j\<le>length xs. length (log_bytes ?off (take j xs)) \<le> n - length ?bs \<longrightarrow> j \<le> k"
      using Cons.IH [OF r1(2) record_bytes_end [OF Cons.prems(2)]] by blast
    have "j \<le> Suc k" if "j \<le> length (x # xs)" "length (log_bytes off (take j (x # xs))) \<le> n" for j
      using that k(4) by (cases j) auto
    with r1 k show ?thesis by (subst read_all.simps) (auto intro!: exI [of _ "Suc k"])
  qed
qed

section \<open>Properties\<close>

text \<open>
  C21: The log recovers from a crash at any byte: records are written in any number of sessions, each
  of which reopens the file at its length; of every prefix of the file the reader returns, without
  reporting a corruption, a prefix of the records, which contains every record whose last byte is in
  the prefix of the file. In particular the whole file is read back completely.
\<close>

theorem log_recovers_prefix:
  "\<exists>f. write_sessions [] sessions = Some f \<and>
     (\<forall>n reporter checksum. \<exists>k r.
       read_all mem_sequential (Reader (take n f) reporter checksum 0) = Some (take k (concat sessions), r) \<and>
       lr_reports r = [] \<and>
       (\<forall>j f'. write_sessions [] [take j (concat sessions)] = Some f' \<longrightarrow> length f' \<le> n \<longrightarrow>
          take j (concat sessions) = take j (take k (concat sessions))))"
proof -
  let ?xs = "concat sessions"
  have "\<exists>k r. read_all mem_sequential (Reader (take n (log_bytes 0 ?xs)) reporter checksum 0) = Some (take k ?xs, r) \<and>
      lr_reports r = [] \<and> (\<forall>j f'. write_sessions [] [take j ?xs] = Some f' \<longrightarrow> length f' \<le> n \<longrightarrow>
        take j ?xs = take j (take k ?xs))" for n reporter checksum
  proof -
    have zero: "log_bytes kBlockSize ys = log_bytes 0 ys" for ys
      using log_bytes_mod [of kBlockSize ys] by simp
    obtain k r where k: "read_all mem_sequential (Reader (take n (log_bytes 0 ?xs)) reporter checksum 0) = Some (take k ?xs, r)"
      "lr_reports r = lr_reports (Reader (take n (log_bytes 0 ?xs)) reporter checksum 0)"
      "\<forall>j\<le>length ?xs. length (log_bytes 0 (take j ?xs)) \<le> n \<longrightarrow> j \<le> k"
      using read_all_log [of "Reader (take n (log_bytes 0 ?xs)) reporter checksum 0" kBlockSize n ?xs]
        reads_Reader [of "take n (log_bytes 0 ?xs)"] unfolding zero by auto
    have "take j ?xs = take j (take k ?xs)" if "write_sessions [] [take j ?xs] = Some f'" "length f' \<le> n" for j f'
    proof -
      have "take j ?xs = take (min j (length ?xs)) ?xs" by (simp add: min_def)
      then have "f' = log_bytes 0 (take (min j (length ?xs)) ?xs)"
        using that(1) write_sessions_mem [of "[]" "[]" "[take j ?xs]"] by (simp del: write_sessions.simps)
      then have "min j (length ?xs) \<le> k" using k(3) that(2) by simp
      then show ?thesis by (auto simp: min_def split: if_splits)
    qed
    with k show ?thesis by (auto simp: Reader_def)
  qed
  moreover have "write_sessions [] sessions = Some (log_bytes 0 ?xs)"
    using write_sessions_mem [of "[]" "[]" sessions] by simp
  ultimately show ?thesis by blast
qed

lemma log_recovers_prefix_witness:
  "\<exists>f r. write_sessions [] [[[7]], [[8], []]] = Some f \<and>
     read_all mem_sequential (Reader f True True 0) = Some ([[7], [8], []], r) \<and> lr_reports r = []"
proof -
  let ?ss = "[[[7]], [[8], []]] :: slice list list"
  obtain f where f: "write_sessions [] ?ss = Some f"
    "\<forall>n reporter checksum. \<exists>k r.
       read_all mem_sequential (Reader (take n f) reporter checksum 0) = Some (take k (concat ?ss), r) \<and>
       lr_reports r = [] \<and>
       (\<forall>j f'. write_sessions [] [take j (concat ?ss)] = Some f' \<longrightarrow> length f' \<le> n \<longrightarrow>
          take j (concat ?ss) = take j (take k (concat ?ss)))"
    using log_recovers_prefix [of ?ss] by blast
  have one: "write_sessions [] [take 3 (concat ?ss)] = Some f"
    using f(1) write_sessions_mem [of "[]" "[]" ?ss] write_sessions_mem [of "[]" "[]" "[take 3 (concat ?ss)]"]
    by (simp del: write_sessions.simps)
  obtain k r where k: "read_all mem_sequential (Reader f True True 0) = Some (take k (concat ?ss), r)" "lr_reports r = []"
    "take 3 (concat ?ss) = take 3 (take k (concat ?ss))"
    using f(2) [rule_format, of "length f" True True] one by auto
  have "take k (concat ?ss) = concat ?ss" using k(3) by (cases "k < 3") (auto simp: numeral_eq_Suc less_Suc_eq)
  with f(1) k show ?thesis by auto
qed

end
