(* ===== verification/L_Filter.thy ===== *)
theory L_Filter
  imports L_Dbformat
begin

text \<open>
  Model of the filters of leveldb: \<^verbatim>\<open>util/hash.cc\<close>, the Bloom filter of \<^verbatim>\<open>util/bloom.cc\<close>, the policy on
  internal keys in \<^verbatim>\<open>db/dbformat.cc\<close> and the filter blocks of \<^verbatim>\<open>table/filter_block.cc\<close>. The interface
  \<^verbatim>\<open>FilterPolicy\<close> is a locale with the law its comment states: no key that went into a filter is
  missed. \<open>None\<close> is a failed assertion, an access out of range or another undefined operation.
\<close>

section \<open>Hash\<close>

fun Hash_loop :: "byte list \<Rightarrow> uint32 \<Rightarrow> uint32 \<times> byte list" where
  "Hash_loop (b0 # b1 # b2 # b3 # data) h =
     (let w = le_word [b0, b1, b2, b3];
          h = h + w;
          h = h * 0xc6a4a793;
          h = h XOR drop_bit 16 h in
      Hash_loop data h)"
| "Hash_loop data h = (h, data)"

definition Hash :: "byte list \<Rightarrow> uint32 \<Rightarrow> uint32" where
  "Hash data seed =
     (let m = 0xc6a4a793;
          h = ucast (ucast seed XOR (of_nat (length data) * m :: uint64));
          (h, data) = Hash_loop data h;
          h = (if length data = 3 then h + push_bit 16 (ucast (data ! 2)) else h);
          h = (if length data \<ge> 2 then h + push_bit 8 (ucast (data ! 1)) else h) in
      if length data \<ge> 1 then
        (let h = h + ucast (data ! 0);
             h = h * ucast m in
         h XOR drop_bit 24 h)
      else h)"

section \<open>The Bloom filter\<close>

definition BloomHash :: "slice \<Rightarrow> uint32" where
  "BloomHash key = Hash key 0xbc9f1d34"

text \<open>
  The number of probes is \<^verbatim>\<open>bits_per_key * 0.69\<close> in double precision, cut to an integer and to the
  range from 1 to 30. Below 100 the product is no integer (but for 0), so that the rounding of 0.69
  and of the product does not change its integral part, and from 44 on the result is 30: the integer
  quotient is the same number. The cast of a product at or below -1 is undefined.
\<close>

record bloom_policy =
  bits_per_key :: size_t
  probes :: size_t

definition BloomFilterPolicy :: "int \<Rightarrow> bloom_policy option" where
  "BloomFilterPolicy n =
     (if n \<le> -2 then None
      else
        let k = (if n < 0 then 0 else nat (69 * n div 100));
            k = (if k < 1 then 1 else k);
            k = (if k > 30 then 30 else k) in
        Some \<lparr>bits_per_key = of_int n, probes = of_nat k\<rparr>)"

definition bloom_delta :: "uint32 \<Rightarrow> uint32" where
  "bloom_delta h = drop_bit 17 h OR push_bit 15 h"

text \<open>The bit positions that a key probes: \<open>k\<close> of them from the hash \<open>h\<close> on.\<close>

primrec set_probes :: "nat \<Rightarrow> size_t \<Rightarrow> uint32 \<Rightarrow> uint32 \<Rightarrow> byte list \<Rightarrow> byte list option" where
  "set_probes 0 bits delta h array = Some array"
| "set_probes (Suc k) bits delta h array =
     (if bits = 0 then None
      else
        let bitpos = (ucast (ucast h mod bits) :: uint32);
            i = unat (bitpos div 8) in
        if i < length array
        then set_probes k bits delta (h + delta) (array[i := array ! i OR push_bit (unat (bitpos mod 8)) 1])
        else None)"

primrec add_keys :: "nat \<Rightarrow> size_t \<Rightarrow> slice list \<Rightarrow> byte list \<Rightarrow> byte list option" where
  "add_keys k bits [] array = Some array"
| "add_keys k bits (key # keys) array = do {
     let h = BloomHash key;
     array \<leftarrow> set_probes k bits (bloom_delta h) h array;
     add_keys k bits keys array
   }"

definition Bloom_CreateFilter :: "bloom_policy \<Rightarrow> slice list \<Rightarrow> byte list \<Rightarrow> byte list option" where
  "Bloom_CreateFilter p keys dst =
     (let bits = of_nat (length keys) * bits_per_key p;
          bits = (if bits < 64 then 64 else bits);
          bytes = (bits + 7) div 8;
          bits = bytes * 8 in
      do {
        array \<leftarrow> add_keys (unat (probes p)) bits keys (replicate (unat bytes) 0);
        Some (dst @ array @ [ucast (probes p)])
      })"

primrec match_probes :: "nat \<Rightarrow> size_t \<Rightarrow> uint32 \<Rightarrow> uint32 \<Rightarrow> byte list \<Rightarrow> bool option" where
  "match_probes 0 bits delta h array = Some True"
| "match_probes (Suc k) bits delta h array =
     (if bits = 0 then None
      else
        let bitpos = (ucast (ucast h mod bits) :: uint32);
            i = unat (bitpos div 8) in
        if i < length array
        then if array ! i AND push_bit (unat (bitpos mod 8)) 1 = 0 then Some False
          else match_probes k bits delta (h + delta) array
        else None)"

definition Bloom_KeyMayMatch :: "slice \<Rightarrow> slice \<Rightarrow> bool option" where
  "Bloom_KeyMayMatch key bloom_filter =
     (let len = length bloom_filter in
      if len < 2 then Some False
      else
        let bits = of_nat (len - 1) * 8;
            k = (scast (bloom_filter ! (len - 1)) :: size_t) in
        if k > 30 then Some True
        else
          let h = BloomHash key in
          match_probes (unat k) bits (bloom_delta h) h bloom_filter)"

section \<open>The policy on internal keys\<close>

definition InternalFilterPolicy_CreateFilter ::
    "(slice list \<Rightarrow> byte list \<Rightarrow> byte list option) \<Rightarrow> slice list \<Rightarrow> byte list \<Rightarrow> byte list option" where
  "InternalFilterPolicy_CreateFilter user_create keys dst = do {
     mkeys \<leftarrow> those (map ExtractUserKey keys);
     user_create mkeys dst
   }"

definition InternalFilterPolicy_KeyMayMatch ::
    "(slice \<Rightarrow> slice \<Rightarrow> bool option) \<Rightarrow> slice \<Rightarrow> slice \<Rightarrow> bool option" where
  "InternalFilterPolicy_KeyMayMatch user_match key f = do {
     ukey \<leftarrow> ExtractUserKey key;
     user_match ukey f
   }"

section \<open>Filter blocks\<close>

definition kFilterBaseLg :: nat where
  "kFilterBaseLg = 11"

definition kFilterBase :: uint64 where
  "kFilterBase = push_bit kFilterBaseLg 1"

record filter_builder =
  fb_keys :: "byte list"
  fb_start :: "nat list"
  fb_result :: "byte list"
  fb_filter_offsets :: "uint32 list"

definition FilterBlockBuilder :: filter_builder where
  "FilterBlockBuilder = \<lparr>fb_keys = [], fb_start = [], fb_result = [], fb_filter_offsets = []\<rparr>"

definition tmp_keys :: "nat \<Rightarrow> nat list \<Rightarrow> byte list \<Rightarrow> slice list" where
  "tmp_keys num_keys start keys = map (\<lambda>i. take (start ! (i + 1) - start ! i) (drop (start ! i) keys)) [0..<num_keys]"

definition GenerateFilter ::
    "(slice list \<Rightarrow> byte list \<Rightarrow> byte list option) \<Rightarrow> filter_builder \<Rightarrow> filter_builder option" where
  "GenerateFilter create b =
     (let num_keys = length (fb_start b) in
      if num_keys = 0 then Some (b\<lparr>fb_filter_offsets := fb_filter_offsets b @ [of_nat (length (fb_result b))]\<rparr>)
      else do {
        let start = fb_start b @ [length (fb_keys b)];
        let offsets = fb_filter_offsets b @ [of_nat (length (fb_result b))];
        result \<leftarrow> create (tmp_keys num_keys start (fb_keys b)) (fb_result b);
        Some \<lparr>fb_keys = [], fb_start = [], fb_result = result, fb_filter_offsets = offsets\<rparr>
      })"

lemma GenerateFilter_offsets:
  "GenerateFilter create b = Some b' \<Longrightarrow> length (fb_filter_offsets b') = Suc (length (fb_filter_offsets b))"
  by (auto simp: GenerateFilter_def Let_def Option.bind_eq_Some_conv split: if_splits)

function StartBlock_loop ::
    "(slice list \<Rightarrow> byte list \<Rightarrow> byte list option) \<Rightarrow> nat \<Rightarrow> filter_builder \<Rightarrow> filter_builder option" where
  "StartBlock_loop create filter_index b =
     (if filter_index > length (fb_filter_offsets b)
      then do { b' \<leftarrow> GenerateFilter create b; StartBlock_loop create filter_index b' }
      else Some b)"
  by pat_completeness auto
termination
  by (relation "measure (\<lambda>(_, i, b). i - length (fb_filter_offsets b))") (auto dest: GenerateFilter_offsets)

declare StartBlock_loop.simps [simp del]

definition StartBlock ::
    "(slice list \<Rightarrow> byte list \<Rightarrow> byte list option) \<Rightarrow> uint64 \<Rightarrow> filter_builder \<Rightarrow> filter_builder option" where
  "StartBlock create block_offset b =
     (let filter_index = unat (block_offset div kFilterBase) in
      if filter_index \<ge> length (fb_filter_offsets b) then StartBlock_loop create filter_index b else None)"

definition AddKey :: "slice \<Rightarrow> filter_builder \<Rightarrow> filter_builder" where
  "AddKey key b = b\<lparr>fb_start := fb_start b @ [length (fb_keys b)], fb_keys := fb_keys b @ key\<rparr>"

definition Finish :: "(slice list \<Rightarrow> byte list \<Rightarrow> byte list option) \<Rightarrow> filter_builder \<Rightarrow> slice option" where
  "Finish create b = do {
     b \<leftarrow> (if fb_start b \<noteq> [] then GenerateFilter create b else Some b);
     let array_offset = of_nat (length (fb_result b));
     let result = foldl PutFixed32 (fb_result b) (fb_filter_offsets b);
     let result = PutFixed32 result array_offset;
     Some (result @ [of_nat kFilterBaseLg])
   }"

record filter_reader =
  fr_contents :: "byte list option"
  fr_offset :: nat
  fr_num :: nat
  fr_base_lg :: size_t

definition FilterBlockReader :: "slice \<Rightarrow> filter_reader option" where
  "FilterBlockReader contents =
     (let n = length contents;
          r = \<lparr>fr_contents = None, fr_offset = 0, fr_num = 0, fr_base_lg = 0\<rparr> in
      if n < 5 then Some r
      else do {
        let r = r\<lparr>fr_base_lg := scast (contents ! (n - 1))\<rparr>;
        last_word \<leftarrow> DecodeFixed32 (drop (n - 5) contents);
        if unat last_word > n - 5 then Some r
        else Some (r\<lparr>fr_contents := Some contents, fr_offset := unat last_word,
               fr_num := (n - 5 - unat last_word) div 4\<rparr>)
      })"

text \<open>A shift by 64 bits or more is undefined; \<open>fr_num\<close> is positive only when there are contents.\<close>

definition Reader_KeyMayMatch ::
    "(slice \<Rightarrow> slice \<Rightarrow> bool option) \<Rightarrow> filter_reader \<Rightarrow> uint64 \<Rightarrow> slice \<Rightarrow> bool option" where
  "Reader_KeyMayMatch user_match r block_offset key =
     (if fr_base_lg r \<ge> 64 then None
      else
        let index = unat (drop_bit (unat (fr_base_lg r)) block_offset) in
        if index < fr_num r then do {
          data \<leftarrow> fr_contents r;
          start \<leftarrow> DecodeFixed32 (drop (fr_offset r + index * 4) data);
          limit \<leftarrow> DecodeFixed32 (drop (fr_offset r + index * 4 + 4) data);
          if start \<le> limit \<and> unat limit \<le> fr_offset r
          then user_match key (take (unat (limit - start)) (drop (unat start) data))
          else if start = limit then Some False
          else Some True
        } else Some True)"

section \<open>The interface\<close>

locale filter_policy =
  fixes CreateFilter :: "slice list \<Rightarrow> byte list \<Rightarrow> byte list option"
    and KeyMayMatch :: "slice \<Rightarrow> slice \<Rightarrow> bool option"
    and valid :: "slice \<Rightarrow> bool"
  assumes no_false_negative: "keys \<noteq> [] \<Longrightarrow> length keys < 2 ^ 31 \<Longrightarrow> \<forall>k\<in>set keys. valid k \<Longrightarrow>
    \<exists>f. (\<forall>dst. CreateFilter keys dst = Some (dst @ f)) \<and> (\<forall>k\<in>set keys. KeyMayMatch k f = Some True)"

section \<open>The Bloom filter misses no key\<close>

definition within :: "byte \<Rightarrow> byte \<Rightarrow> bool" where
  "within x y \<longleftrightarrow> (\<forall>n. bit x n \<longrightarrow> bit y n)"

definition covers :: "byte list \<Rightarrow> byte list \<Rightarrow> bool" where
  "covers a b \<longleftrightarrow> list_all2 within a b"

lemma covers_refl [simp]: "covers a a"
  by (simp add: covers_def list_all2_refl within_def)

lemma covers_trans: "covers a b \<Longrightarrow> covers b c \<Longrightarrow> covers a c"
  unfolding covers_def by (rule list_all2_trans [of within within within]) (simp_all add: within_def)

lemma covers_length: "covers a b \<Longrightarrow> length b = length a"
  by (simp add: covers_def list_all2_lengthD)

lemma covers_set: "i < length a \<Longrightarrow> covers a (a[i := a ! i OR b])"
  by (simp add: covers_def list_all2_conv_all_nth nth_list_update within_def bit_or_iff)

lemma covers_nth: "covers a b \<Longrightarrow> i < length a \<Longrightarrow> within (a ! i) (b ! i)"
  by (simp add: covers_def list_all2_conv_all_nth)

lemma probe_in_range:
  fixes bits :: size_t
  assumes "unat bits = 8 * n" and "bits \<noteq> 0"
  shows "unat ((ucast (ucast (h :: uint32) mod bits) :: uint32) div 8) < n"
proof -
  have "unat ((ucast h :: size_t) mod bits) = unat h mod unat bits"
  proof -
    have "unat h < 2 ^ LENGTH(32)" by (rule unsigned_less)
    then have "unat h < 2 ^ 64" by simp
    then have "unat (ucast h :: size_t) = unat h" by (simp add: unsigned_ucast_eq take_bit_nat_eq_self)
    then show ?thesis by (simp add: unat_mod)
  qed
  moreover have "unat h mod unat bits < 2 ^ 32"
    by (rule le_less_trans [OF mod_less_eq_dividend]) (use unsigned_less [of h] in simp)
  ultimately have "unat (ucast ((ucast h :: size_t) mod bits) :: uint32) = unat h mod unat bits"
    by (simp add: unsigned_ucast_eq take_bit_nat_eq_self)
  moreover have "unat bits > 0" using assms(2) by (simp add: unat_gt_0)
  ultimately show ?thesis using assms(1) by (simp add: unat_div less_mult_imp_div_less mult.commute)
qed

lemma set_probes_total:
  assumes "unat bits = 8 * length array" and "bits \<noteq> 0"
  shows "\<exists>array'. set_probes k bits delta h array = Some array' \<and> covers array array'"
  using assms
proof (induction k arbitrary: h array)
  case (Suc k)
  let ?bitpos = "ucast (ucast h mod bits) :: uint32" and ?i = "unat ((ucast (ucast h mod bits) :: uint32) div 8)"
  let ?a = "array[?i := array ! ?i OR push_bit (unat (?bitpos mod 8)) 1]"
  have i: "?i < length array" using probe_in_range [OF Suc.prems] .
  obtain a' where "set_probes k bits delta (h + delta) ?a = Some a'" "covers ?a a'"
    using Suc.IH [of ?a "h + delta"] Suc.prems by auto
  with i covers_trans [OF covers_set [OF i]] Suc.prems(2) show ?case by (auto simp: Let_def)
qed simp

lemma add_keys_total:
  assumes "unat bits = 8 * length array" and "bits \<noteq> 0"
  shows "\<exists>array'. add_keys k bits keys array = Some array' \<and> covers array array'"
  using assms
proof (induction keys arbitrary: array)
  case (Cons key keys)
  obtain a where a: "set_probes k bits (bloom_delta (BloomHash key)) (BloomHash key) array = Some a" "covers array a"
    using set_probes_total [OF Cons.prems] by blast
  then show ?case using Cons.IH [of a] Cons.prems covers_length [OF a(2)] covers_trans [OF a(2)] by auto
qed simp

lemma set_probes_covers: "set_probes k bits delta h array = Some array' \<Longrightarrow> covers array array'"
proof (induction k arbitrary: h array)
  case (Suc k)
  let ?bitpos = "ucast (ucast h mod bits) :: uint32"
  let ?i = "unat (?bitpos div 8)"
  have "?i < length array" and "set_probes k bits delta (h + delta) (array[?i := array ! ?i OR push_bit (unat (?bitpos mod 8)) 1]) = Some array'"
    using Suc.prems by (auto simp: Let_def split: if_splits)
  with Suc.IH covers_trans [OF covers_set] show ?case by blast
qed simp

lemma covered_bit:
  assumes "within (x OR push_bit n 1) y" and "n < 8"
  shows "y AND push_bit n 1 \<noteq> 0"
proof -
  have "bit (x OR push_bit n 1 :: byte) n" using assms(2) by (simp add: bit_simps)
  then have "bit y n" using assms(1) by (simp add: within_def)
  then have "bit (y AND push_bit n 1) n" using assms(2) by (simp add: bit_simps)
  then show ?thesis by auto
qed

lemma match_probes_set:
  assumes "set_probes k bits delta h array = Some array'" and "covers array' b"
  shows "match_probes k bits delta h (b @ rest) = Some True"
  using assms
proof (induction k arbitrary: h array)
  case (Suc k)
  let ?bitpos = "ucast (ucast h mod bits) :: uint32"
  let ?i = "unat (?bitpos div 8)" and ?n = "unat (?bitpos mod 8)"
  let ?a = "array[?i := array ! ?i OR push_bit ?n 1]"
  have i: "bits \<noteq> 0" "?i < length array" and sub: "set_probes k bits delta (h + delta) ?a = Some array'"
    using Suc.prems(1) by (auto simp: Let_def split: if_splits)
  have cov: "covers ?a b" using set_probes_covers [OF sub] Suc.prems(2) covers_trans by blast
  have "?n < 8" by (simp add: unat_mod)
  then have "b ! ?i AND push_bit ?n 1 \<noteq> 0"
    using covers_nth [OF cov, of ?i] i(2) by (intro covered_bit [of "array ! ?i"]) simp_all
  moreover have "?i < length b" using i(2) covers_length [OF cov] by simp
  ultimately show ?case using Suc.IH [OF sub Suc.prems(2)] i(1) by (simp add: Let_def nth_append)
qed simp

lemma add_keys_covers: "add_keys k bits keys array = Some array' \<Longrightarrow> covers array array'"
  by (induction keys arbitrary: array) (auto simp: Let_def Option.bind_eq_Some_conv dest!: set_probes_covers intro: covers_trans)

lemma add_keys_match:
  assumes "add_keys k bits keys array = Some array'" and "key \<in> set keys"
  shows "match_probes k bits (bloom_delta (BloomHash key)) (BloomHash key) (array' @ rest) = Some True"
  using assms
proof (induction keys arbitrary: array)
  case (Cons x xs)
  then obtain a where "set_probes k bits (bloom_delta (BloomHash x)) (BloomHash x) array = Some a" "add_keys k bits xs a = Some array'"
    by (auto simp: Let_def Option.bind_eq_Some_conv)
  with Cons match_probes_set [OF _ add_keys_covers] show ?case by auto
qed simp

lemma BloomFilterPolicy_probes:
  assumes "BloomFilterPolicy n = Some p" and "0 \<le> n"
  shows "bits_per_key p = of_int n" and "unat (probes p) \<le> 30"
proof -
  define k where "k = (let k = nat (69 * n div 100); k = (if k < 1 then 1 else k) in if k > 30 then 30 else k)"
  have p: "p = \<lparr>bits_per_key = of_int n, probes = of_nat k\<rparr>"
  proof -
    have neg: "(n \<le> -2) = False" "(n < 0) = False" using assms(2) by simp_all
    show ?thesis using assms(1) unfolding BloomFilterPolicy_def k_def Let_def neg if_False by simp
  qed
  have "k \<le> 30" by (simp add: k_def Let_def)
  then show "bits_per_key p = of_int n" "unat (probes p) \<le> 30" unfolding p by (simp_all add: unat_of_nat)
qed

lemma small_byte:
  assumes "unat (w :: size_t) \<le> 30"
  shows "unat (scast (ucast w :: byte) :: size_t) = unat w"
proof -
  have "list_all (\<lambda>k. unat (scast (ucast (of_nat k :: size_t) :: byte) :: size_t) = k) [0..<31]"
    by (simp add: upt_rec)
  then have "unat (scast (ucast (of_nat (unat w) :: size_t) :: byte) :: size_t) = unat w"
    using assms unfolding list_all_iff by (metis atLeastLessThan_iff atLeastLessThan_upt bot_nat_0.extremum le_imp_less_Suc numeral_Bit0 eval_nat_numeral(3) Suc_eq_plus1 One_nat_def numeral_plus_one semiring_norm(5))
  then show ?thesis by simp
qed

lemma bloom_filter_policy:
  assumes "BloomFilterPolicy n = Some p" and "0 \<le> n" and "n < 2 ^ 31"
  shows "filter_policy (Bloom_CreateFilter p) Bloom_KeyMayMatch (\<lambda>_. True)"
proof
  fix keys :: "slice list" assume len: "length keys < 2 ^ 31"
  define k where "k = unat (probes p)"
  define bits0 :: size_t where "bits0 = (let bits = of_nat (length keys) * bits_per_key p in if bits < 64 then 64 else bits)"
  define bytes where "bytes = (bits0 + 7) div 8"
  define w where "w = length keys * nat n"
  have w: "w < 2 ^ 62"
    using mult_strict_mono [of "length keys" "2 ^ 31" "nat n" "2 ^ 31"] len assms(2,3) by (simp add: w_def)
  then have unat_w: "unat (of_nat w :: size_t) = w" by (simp add: unat_of_nat)
  have "of_nat (length keys) * bits_per_key p = of_nat w"
    using BloomFilterPolicy_probes(1) [OF assms(1,2)] assms(2) by (simp add: w_def)
  then have "bits0 = (if (of_nat w :: size_t) < 64 then 64 else of_nat w)" by (simp add: bits0_def Let_def)
  then have bits0: "unat bits0 < 2 ^ 62" "64 \<le> unat bits0"
    using w unat_w by (auto simp: word_less_nat_alt)
  then have bytes: "unat bytes = (unat bits0 + 7) div 8"
    by (simp add: bytes_def unat_div unat_word_ariths)
  then have small: "unat bytes < 2 ^ 60" and b0: "0 < unat bytes" using bits0 by simp_all
  then have bits: "unat (bytes * 8) = 8 * unat bytes" by (simp add: unat_word_ariths)
  then have nz: "bytes * 8 \<noteq> 0" using b0 by (metis mult_pos_pos unat_0 zero_less_numeral less_irrefl)
  obtain array where array: "add_keys k (bytes * 8) keys (replicate (unat bytes) 0) = Some array" "length array = unat bytes"
    using add_keys_total [of "bytes * 8" "replicate (unat bytes) 0" k keys] bits nz covers_length by fastforce
  let ?f = "array @ [ucast (probes p)]"
  have "Bloom_CreateFilter p keys dst = Some (dst @ ?f)" for dst
    using array(1) by (simp add: Bloom_CreateFilter_def bits0_def bytes_def k_def Let_def)
  moreover have "Bloom_KeyMayMatch key ?f = Some True" if "key \<in> set keys" for key
  proof -
    have "unat (scast (ucast (probes p) :: byte) :: size_t) = k"
      using BloomFilterPolicy_probes(2) [OF assms(1,2)] small_byte k_def by simp
    then show ?thesis
      using add_keys_match [OF array(1) that, of "[ucast (probes p)]"] array(2) b0
      by (simp add: Bloom_KeyMayMatch_def Let_def nth_append)
  qed
  ultimately show "\<exists>f. (\<forall>dst. Bloom_CreateFilter p keys dst = Some (dst @ f)) \<and> (\<forall>k\<in>set keys. Bloom_KeyMayMatch k f = Some True)"
    by blast
qed

text \<open>\<^verbatim>\<open>NewBloomFilterPolicy(10)\<close>, the policy the documentation recommends.\<close>

definition bloom10 :: bloom_policy where
  "bloom10 = \<lparr>bits_per_key = 10, probes = 6\<rparr>"

lemma BloomFilterPolicy_10: "BloomFilterPolicy 10 = Some bloom10"
  by (simp add: BloomFilterPolicy_def bloom10_def)

interpretation bloom10: filter_policy "Bloom_CreateFilter bloom10" Bloom_KeyMayMatch "\<lambda>_. True"
  by (rule bloom_filter_policy [OF BloomFilterPolicy_10]) simp_all

section \<open>The policy on internal keys keeps the law\<close>

lemma those_map_Some: "\<forall>x\<in>set xs. f x = Some (g x) \<Longrightarrow> those (map f xs) = Some (map g xs)"
  by (induction xs) simp_all

context filter_policy
begin

lemma internal_filter_policy:
  "filter_policy (InternalFilterPolicy_CreateFilter CreateFilter) (InternalFilterPolicy_KeyMayMatch KeyMayMatch)
     (\<lambda>k. 8 \<le> length k \<and> valid (take (length k - 8) k))"
proof
  let ?u = "\<lambda>k. take (length k - 8) k"
  fix keys :: "slice list"
  assume keys: "keys \<noteq> []" "length keys < 2 ^ 31" "\<forall>k\<in>set keys. 8 \<le> length k \<and> valid (?u k)"
  have "map ?u keys \<noteq> []" "length (map ?u keys) < 2 ^ 31" "\<forall>k\<in>set (map ?u keys). valid k"
    using keys by simp_all
  from no_false_negative [OF this] obtain f where f: "\<forall>dst. CreateFilter (map ?u keys) dst = Some (dst @ f)"
    "\<forall>k\<in>set (map ?u keys). KeyMayMatch k f = Some True" by blast
  have "those (map ExtractUserKey keys) = Some (map ?u keys)"
    using keys(3) by (intro those_map_Some) (simp add: ExtractUserKey_def)
  with f keys(3) show "\<exists>f. (\<forall>dst. InternalFilterPolicy_CreateFilter CreateFilter keys dst = Some (dst @ f)) \<and>
      (\<forall>k\<in>set keys. InternalFilterPolicy_KeyMayMatch KeyMayMatch k f = Some True)"
    by (intro exI [of _ f]) (auto simp: InternalFilterPolicy_CreateFilter_def InternalFilterPolicy_KeyMayMatch_def ExtractUserKey_def)
qed

end

interpretation bloom10_internal: filter_policy "InternalFilterPolicy_CreateFilter (Bloom_CreateFilter bloom10)"
    "InternalFilterPolicy_KeyMayMatch Bloom_KeyMayMatch" "\<lambda>k. 8 \<le> length k \<and> True"
  by (rule bloom10.internal_filter_policy)

section \<open>Filter blocks keep the law\<close>

text \<open>The calls of \<^verbatim>\<open>TableBuilder\<close>: every data block is started at its offset and its keys are added.\<close>

type_synonym data_block = "uint64 \<times> slice list"

primrec build_blocks ::
    "(slice list \<Rightarrow> byte list \<Rightarrow> byte list option) \<Rightarrow> data_block list \<Rightarrow> filter_builder \<Rightarrow> filter_builder option" where
  "build_blocks create [] b = Some b"
| "build_blocks create (blk # blks) b = do {
     b \<leftarrow> StartBlock create (fst blk) b;
     build_blocks create blks (fold AddKey (snd blk) b)
   }"

text \<open>The index of the filter of an offset, and the keys of every filter, the unfinished last one included.\<close>

definition filter_index :: "uint64 \<Rightarrow> nat" where
  "filter_index off = unat (off div kFilterBase)"

definition starts :: "slice list \<Rightarrow> nat list" where
  "starts keys = map (\<lambda>i. length (concat (take i keys))) [0..<length keys]"

lemma starts_snoc: "starts (keys @ [k]) = starts keys @ [length (concat keys)]"
  by (simp add: starts_def)

lemma tmp_keys_starts: "tmp_keys (length keys) (starts keys @ [length (concat keys)]) (concat keys) = keys"
proof (rule nth_equalityI)
  fix i assume "i < length (tmp_keys (length keys) (starts keys @ [length (concat keys)]) (concat keys))"
  then have i: "i < length keys" by (simp add: tmp_keys_def)
  have nth: "(starts keys @ [length (concat keys)]) ! j = length (concat (take j keys))" if "j \<le> length keys" for j
    using that by (cases "j = length keys") (simp_all add: starts_def nth_append)
  have split: "keys = take i keys @ keys ! i # drop (Suc i) keys" using i by (rule id_take_nth_drop)
  define pre post where "pre = concat (take i keys)" and "post = concat (drop (Suc i) keys)"
  have all: "concat keys = pre @ keys ! i @ post"
    unfolding pre_def post_def by (subst split) (simp only: concat_append concat.simps)
  have suc: "concat (take (Suc i) keys) = pre @ keys ! i"
    using i by (simp add: take_Suc_conv_app_nth pre_def)
  have "tmp_keys (length keys) (starts keys @ [length (concat keys)]) (concat keys) ! i =
      take (length (concat (take (Suc i) keys)) - length pre) (drop (length pre) (concat keys))"
    using i nth [of i] nth [of "Suc i"] by (simp add: tmp_keys_def pre_def)
  also have "\<dots> = keys ! i" unfolding suc all by simp
  finally show "tmp_keys (length keys) (starts keys @ [length (concat keys)]) (concat keys) ! i = keys ! i" .
qed (simp add: tmp_keys_def)

context filter_policy
begin

definition filter_of :: "slice list \<Rightarrow> byte list" where
  "filter_of keys = (if keys = [] then [] else the (CreateFilter keys []))"

lemma CreateFilter_filter_of:
  assumes "keys \<noteq> []" and "length keys < 2 ^ 31" and "\<forall>k\<in>set keys. valid k"
  shows "CreateFilter keys dst = Some (dst @ filter_of keys)" and "k \<in> set keys \<Longrightarrow> KeyMayMatch k (filter_of keys) = Some True"
  using no_false_negative [OF assms] assms(1) by (auto simp: filter_of_def)

definition filters :: "slice list list \<Rightarrow> byte list" where
  "filters gs = concat (map filter_of gs)"

definition offsets :: "slice list list \<Rightarrow> uint32 list" where
  "offsets gs = map (\<lambda>i. of_nat (length (filters (take i gs)))) [0..<length gs]"

lemma length_offsets [simp]: "length (offsets gs) = length gs"
  by (simp add: offsets_def)

lemma offsets_snoc: "offsets (gs @ [g]) = offsets gs @ [of_nat (length (filters gs))]"
  by (simp add: offsets_def)

lemma filters_snoc [simp]: "filters (gs @ [g]) = filters gs @ filter_of g" "filters [] = []"
  by (simp_all add: filters_def)

text \<open>A builder that has finished the filters of \<open>gs\<close> and holds the keys \<open>pending\<close> of the next one.\<close>

definition builds :: "filter_builder \<Rightarrow> slice list list \<Rightarrow> slice list \<Rightarrow> bool" where
  "builds b gs pending \<longleftrightarrow> fb_result b = filters gs \<and> fb_filter_offsets b = offsets gs \<and>
     fb_keys b = concat pending \<and> fb_start b = starts pending \<and>
     (\<forall>g\<in>set (gs @ [pending]). length g < 2 ^ 31 \<and> (\<forall>k\<in>set g. valid k))"

lemma builds_new: "builds FilterBlockBuilder [] []"
  by (simp add: builds_def FilterBlockBuilder_def offsets_def starts_def)

lemma builds_AddKey:
  "builds b gs pending \<Longrightarrow> valid k \<Longrightarrow> length pending + 1 < 2 ^ 31 \<Longrightarrow> builds (AddKey k b) gs (pending @ [k])"
  by (simp add: builds_def AddKey_def starts_snoc)

lemma builds_AddKeys:
  "builds b gs pending \<Longrightarrow> \<forall>k\<in>set keys. valid k \<Longrightarrow> length pending + length keys < 2 ^ 31 \<Longrightarrow>
   builds (fold AddKey keys b) gs (pending @ keys)"
proof (induction keys arbitrary: b pending)
  case (Cons k keys)
  then have "builds (AddKey k b) gs (pending @ [k])" by (intro builds_AddKey) simp_all
  from Cons.IH [OF this] Cons.prems show ?case by simp
qed simp

lemma builds_GenerateFilter:
  assumes "builds b gs pending"
  shows "\<exists>b'. GenerateFilter CreateFilter b = Some b' \<and> builds b' (gs @ [pending]) []"
proof (cases "pending = []")
  case True
  then show ?thesis
    using assms by (auto simp: builds_def GenerateFilter_def starts_def offsets_snoc filter_of_def)
next
  case False
  have "length (starts pending) = length pending" by (simp add: starts_def)
  moreover have "CreateFilter pending dst = Some (dst @ filter_of pending)" for dst
    using assms False by (intro CreateFilter_filter_of(1)) (simp_all add: builds_def)
  ultimately show ?thesis
    using assms False tmp_keys_starts [of pending]
    by (simp add: builds_def GenerateFilter_def Let_def offsets_snoc) (simp add: starts_def)
qed

lemma builds_StartBlock_loop:
  assumes "builds b gs pending" and "length gs \<le> i"
  shows "\<exists>b' gs' pending'. StartBlock_loop CreateFilter i b = Some b' \<and> builds b' gs' pending' \<and>
    gs' @ [pending'] = gs @ [pending] @ replicate (i - length gs) []"
  using assms
proof (induction "i - length gs" arbitrary: b gs pending)
  case 0
  then show ?case by (subst StartBlock_loop.simps) (auto simp: builds_def)
next
  case (Suc n)
  obtain b1 where b1: "GenerateFilter CreateFilter b = Some b1" "builds b1 (gs @ [pending]) []"
    using builds_GenerateFilter [OF Suc.prems(1)] by blast
  have "n = i - length (gs @ [pending])" "length (gs @ [pending]) \<le> i" using Suc.hyps(2) by simp_all
  from Suc.hyps(1) [OF this(1) b1(2) this(2)] obtain b' gs' pending' where
    b': "StartBlock_loop CreateFilter i b1 = Some b'" "builds b' gs' pending'"
    "gs' @ [pending'] = (gs @ [pending]) @ [[]] @ replicate (i - length (gs @ [pending])) []" by blast
  have "i - length gs = Suc (i - length (gs @ [pending]))" using Suc.hyps(2) by simp
  then have "gs' @ [pending'] = gs @ [pending] @ replicate (i - length gs) []" using b'(3) by simp
  moreover have "length (fb_filter_offsets b) < i" using Suc.prems Suc.hyps(2) by (simp add: builds_def)
  ultimately show ?case using b'(1,2) b1(1) by (subst StartBlock_loop.simps) auto
qed

text \<open>The groups of keys after the blocks, and where the keys of a block are.\<close>

lemma builds_StartBlock:
  assumes "builds b gs pending" and "length gs \<le> filter_index off"
  shows "\<exists>b' gs' pending'. StartBlock CreateFilter off b = Some b' \<and> builds b' gs' pending' \<and>
    gs' @ [pending'] = gs @ [pending] @ replicate (filter_index off - length gs) []"
proof -
  have "length (fb_filter_offsets b) = length gs" using assms(1) by (simp add: builds_def)
  then show ?thesis
    using builds_StartBlock_loop [OF assms] assms(2) by (simp add: StartBlock_def Let_def filter_index_def)
qed

lemma build_blocks_groups:
  assumes "builds b gs pending" and "sorted (map (\<lambda>blk. filter_index (fst blk)) blks)"
    and "\<forall>blk\<in>set blks. length gs \<le> filter_index (fst blk) \<and> (\<forall>k\<in>set (snd blk). valid k)"
    and "length pending + length (concat (map snd blks)) < 2 ^ 31"
  shows "\<exists>b' gs' pending'. build_blocks CreateFilter blks b = Some b' \<and> builds b' gs' pending' \<and>
    length gs \<le> length gs' \<and> (\<forall>i\<le>length gs. set ((gs @ [pending]) ! i) \<subseteq> set ((gs' @ [pending']) ! i)) \<and>
    (\<forall>blk\<in>set blks. filter_index (fst blk) \<le> length gs' \<and>
       set (snd blk) \<subseteq> set ((gs' @ [pending']) ! filter_index (fst blk)))"
  using assms
proof (induction blks arbitrary: b gs pending)
  case (Cons blk blks)
  let ?i = "filter_index (fst blk)" and ?keys = "snd blk"
  obtain b1 gs1 p1 where b1: "StartBlock CreateFilter (fst blk) b = Some b1" "builds b1 gs1 p1"
    and gs1: "gs1 @ [p1] = gs @ [pending] @ replicate (?i - length gs) []"
    using builds_StartBlock [OF Cons.prems(1)] Cons.prems(3) by fastforce
  have len: "length gs1 = ?i" using arg_cong [OF gs1, of length] Cons.prems(3) by simp
  have p1: "p1 = pending \<or> p1 = []"
    using arg_cong [OF gs1, of last] by (cases "?i - length gs") (simp_all add: last_append)
  have keep: "(gs1 @ [p1]) ! i = (gs @ [pending]) ! i" if "i \<le> length gs" for i
    unfolding gs1 append_assoc [symmetric] using that by (subst nth_append) simp
  have b2: "builds (fold AddKey ?keys b1) gs1 (p1 @ ?keys)"
    using p1 Cons.prems(3,4) by (intro builds_AddKeys [OF b1(2)]) auto
  have "\<forall>blk'\<in>set blks. length gs1 \<le> filter_index (fst blk') \<and> (\<forall>k\<in>set (snd blk'). valid k)"
    using Cons.prems(2,3) len by auto
  moreover have "length (p1 @ ?keys) + length (concat (map snd blks)) < 2 ^ 31" using p1 Cons.prems(4) by auto
  ultimately obtain b' gs' pending' where b': "build_blocks CreateFilter blks (fold AddKey ?keys b1) = Some b'" "builds b' gs' pending'"
    and le: "length gs1 \<le> length gs'"
    and sub: "\<forall>i\<le>length gs1. set ((gs1 @ [p1 @ ?keys]) ! i) \<subseteq> set ((gs' @ [pending']) ! i)"
    and blks: "\<forall>blk\<in>set blks. filter_index (fst blk) \<le> length gs' \<and>
       set (snd blk) \<subseteq> set ((gs' @ [pending']) ! filter_index (fst blk))"
    using Cons.IH [OF b2] Cons.prems(2) by fastforce
  have "set ((gs @ [pending]) ! i) \<subseteq> set ((gs' @ [pending']) ! i)" if "i \<le> length gs" for i
  proof -
    have "i \<le> length gs1" using that Cons.prems(3) len by simp
    moreover have "set ((gs1 @ [p1]) ! i) \<subseteq> set ((gs1 @ [p1 @ ?keys]) ! i)"
      using \<open>i \<le> length gs1\<close> by (auto simp: nth_append)
    ultimately show ?thesis using sub keep [OF that] by fastforce
  qed
  moreover have "set ?keys \<subseteq> set ((gs' @ [pending']) ! ?i)"
    using sub [rule_format, of "length gs1"] len by (simp add: nth_append)
  moreover have "?i \<le> length gs'" "length gs \<le> length gs'" using le len Cons.prems(3) by simp_all
  moreover have "build_blocks CreateFilter (blk # blks) b = Some b'" using b1(1) b'(1) by simp
  ultimately show ?case
    using b'(2) blks by (intro exI [of _ b'] exI [of _ gs'] exI [of _ pending']) simp
qed auto

text \<open>The finished block: the filters, their offsets, the offset of the offsets.\<close>

definition contents :: "slice list list \<Rightarrow> byte list" where
  "contents gs = filters gs @ concat (map (le_bytes 4) (offsets gs)) @
     le_bytes 4 (of_nat (length (filters gs)) :: uint32) @ [11]"

lemma foldl_PutFixed32: "foldl PutFixed32 r xs = r @ concat (map (le_bytes 4) xs)"
  by (induction xs arbitrary: r) (simp_all add: PutFixed32_def)

lemma Finish_contents:
  assumes "builds b gs pending"
  shows "Finish CreateFilter b = Some (contents (if pending = [] then gs else gs @ [pending]))"
proof -
  have "fb_start b \<noteq> [] \<longleftrightarrow> pending \<noteq> []" using assms by (simp add: builds_def starts_def)
  moreover have "builds b (gs) []" if "pending = []" using assms that by simp
  ultimately show ?thesis
    using builds_GenerateFilter [OF assms]
    by (cases "pending = []") (auto simp: Finish_def builds_def contents_def foldl_PutFixed32 PutFixed32_def kFilterBaseLg_def)
qed

lemma drop_le_bytes:
  "i \<le> length xs \<Longrightarrow> drop (i * 4) (concat (map (le_bytes 4) xs) @ t) = concat (map (le_bytes 4) (drop i xs)) @ t"
  for xs :: "uint32 list"
proof (induction xs arbitrary: i)
  case (Cons x xs)
  then show ?case by (cases i) simp_all
qed simp

lemma drop_length_add: "drop (length xs + k) (xs @ ys) = drop k ys"
  by simp

lemma Decode_offset:
  assumes "i \<le> length gs"
  shows "DecodeFixed32 (drop (length (filters gs) + i * 4) (contents gs)) = Some (of_nat (length (filters (take i gs))))"
proof -
  have "drop (length (filters gs) + i * 4) (contents gs) = concat (map (le_bytes 4) (drop i (offsets gs))) @
      le_bytes 4 (of_nat (length (filters gs)) :: uint32) @ [11]"
    unfolding contents_def drop_length_add using assms by (intro drop_le_bytes) simp
  moreover have "drop i (offsets gs) = of_nat (length (filters (take i gs))) # drop (Suc i) (offsets gs)" if "i < length gs"
    using that by (simp add: Cons_nth_drop_Suc [symmetric]) (simp add: offsets_def)
  ultimately show ?thesis using assms by (cases "i < length gs") simp_all
qed

lemma filters_split:
  assumes "i < length gs"
  shows "filters gs = filters (take i gs) @ filter_of (gs ! i) @ filters (drop (Suc i) gs)"
    and "filters (take (Suc i) gs) = filters (take i gs) @ filter_of (gs ! i)"
proof -
  show "filters gs = filters (take i gs) @ filter_of (gs ! i) @ filters (drop (Suc i) gs)"
    by (subst id_take_nth_drop [OF assms]) (simp add: filters_def)
  show "filters (take (Suc i) gs) = filters (take i gs) @ filter_of (gs ! i)"
    using assms by (simp add: take_Suc_conv_app_nth)
qed

lemma length_contents: "length (contents gs) = length (filters gs) + length gs * 4 + 5"
  by (induction gs) (simp_all add: contents_def length_concat comp_def sum_list_triv)

lemma FilterBlockReader_contents:
  assumes "length (contents gs) < 2 ^ 32"
  shows "FilterBlockReader (contents gs) = Some \<lparr>fr_contents = Some (contents gs), fr_offset = length (filters gs),
    fr_num = length gs, fr_base_lg = 11\<rparr>"
proof -
  let ?n = "length (contents gs)"
  have last: "contents gs ! (?n - 1) = 11"
    using length_contents [of gs] by (simp add: contents_def nth_append length_concat comp_def sum_list_triv)
  have n: "?n - 5 = length (filters gs) + length gs * 4" by (simp add: length_contents)
  have word: "DecodeFixed32 (drop (?n - 5) (contents gs)) = Some (of_nat (length (filters gs)))"
    unfolding n using Decode_offset [of "length gs" gs] by simp
  have unat: "unat (of_nat (length (filters gs)) :: uint32) = length (filters gs)"
    using assms length_contents [of gs] by (simp add: unat_of_nat)
  show ?thesis
    unfolding FilterBlockReader_def Let_def last word using length_contents [of gs] by (simp add: unat)
qed

lemma Reader_contents:
  assumes "length (contents gs) < 2 ^ 32" and "i = filter_index off" and "i < length gs"
  shows "do { r \<leftarrow> FilterBlockReader (contents gs); Reader_KeyMayMatch KeyMayMatch r off key } =
    KeyMayMatch key (filter_of (gs ! i))"
proof -
  let ?F = "filters gs" and ?s = "length (filters (take i gs))" and ?l = "length (filters (take (Suc i) gs))"
  have small: "length ?F < 2 ^ 32" using assms(1) length_contents [of gs] by simp
  note split = filters_split [OF assms(3)]
  have le: "?s \<le> ?l" "?l \<le> length ?F" using split by simp_all
  have unat: "unat (of_nat ?s :: uint32) = ?s" "unat (of_nat ?l :: uint32) = ?l"
    using small le by (simp_all add: unat_of_nat)
  have word_le: "(of_nat ?s :: uint32) \<le> of_nat ?l" using unat le by (simp add: word_le_nat_alt)
  have index: "unat (drop_bit 11 off) = i"
    using assms(2) by (simp add: filter_index_def kFilterBase_def kFilterBaseLg_def drop_bit_eq_div)
  have start: "DecodeFixed32 (drop (length ?F + i * 4) (contents gs)) = Some (of_nat ?s)"
    using Decode_offset [of i gs] assms(3) by simp
  have limit: "DecodeFixed32 (drop (length ?F + i * 4 + 4) (contents gs)) = Some (of_nat ?l)"
  proof -
    have "length ?F + i * 4 + 4 = length ?F + Suc i * 4" by simp
    then show ?thesis using Decode_offset [of "Suc i" gs] assms(3) by (simp only: Suc_leI)
  qed
  have filter: "take (?l - ?s) (drop ?s (contents gs)) = filter_of (gs ! i)"
    unfolding contents_def split(2) by (subst split(1)) simp
  show ?thesis
    unfolding FilterBlockReader_contents [OF assms(1)] Reader_KeyMayMatch_def Let_def
    using unat word_le le assms(3) filter by (simp add: index start limit unat_sub)
qed

text \<open>No key of a block is missed when the block's offset is looked up.\<close>

lemma filter_block_sound:
  assumes "sorted (map (\<lambda>blk. filter_index (fst blk)) blks)" and "\<forall>blk\<in>set blks. \<forall>k\<in>set (snd blk). valid k"
    and "length (concat (map snd blks)) < 2 ^ 31"
  shows "\<exists>b block. build_blocks CreateFilter blks FilterBlockBuilder = Some b \<and> Finish CreateFilter b = Some block \<and>
    (length block < 2 ^ 32 \<longrightarrow> (\<forall>blk\<in>set blks. \<forall>k\<in>set (snd blk).
       do { r \<leftarrow> FilterBlockReader block; Reader_KeyMayMatch KeyMayMatch r (fst blk) k } = Some True))"
proof -
  obtain b gs pending where b: "build_blocks CreateFilter blks FilterBlockBuilder = Some b" "builds b gs pending"
    and keys: "\<forall>blk\<in>set blks. filter_index (fst blk) \<le> length gs \<and>
      set (snd blk) \<subseteq> set ((gs @ [pending]) ! filter_index (fst blk))"
    using build_blocks_groups [OF builds_new assms(1)] assms(2,3) by auto
  let ?gs = "if pending = [] then gs else gs @ [pending]"
  have "do { r \<leftarrow> FilterBlockReader (contents ?gs); Reader_KeyMayMatch KeyMayMatch r (fst blk) k } = Some True"
    if len: "length (contents ?gs) < 2 ^ 32" and "blk \<in> set blks" and "k \<in> set (snd blk)" for blk k
  proof -
    let ?i = "filter_index (fst blk)"
    have k: "?i \<le> length gs" "k \<in> set ((gs @ [pending]) ! ?i)" using keys that(2,3) by auto
    then have i: "?i < length ?gs" and g: "?gs ! ?i = (gs @ [pending]) ! ?i"
      by (auto simp: nth_append split: if_splits)
    have "?gs ! ?i \<in> set (gs @ [pending])" unfolding g using k(1) by (intro nth_mem) simp
    then have "KeyMayMatch k (filter_of (?gs ! ?i)) = Some True"
      using b(2) k(2) unfolding g by (intro CreateFilter_filter_of(2)) (auto simp: builds_def)
    then show ?thesis using Reader_contents [OF len refl i] by simp
  qed
  then show ?thesis using b(1) Finish_contents [OF b(2)] by auto
qed

end

section \<open>Properties\<close>

text \<open>
  C24: No key is missed by a filter block: for every Bloom filter policy and data blocks of
  non-decreasing offsets that are started and filled with keys in this order, the builder returns
  a block without a failed assertion, and as long as it is smaller than 4 GiB the reader answers
  that a key may match at the offset of every block the key was added to.
\<close>

theorem filter_block_no_false_negatives:
  assumes "BloomFilterPolicy n = Some p" and "0 \<le> n" and "n < 2 ^ 31"
    and "sorted (map (\<lambda>blk. filter_index (fst blk)) blks)" and "length (concat (map snd blks)) < 2 ^ 31"
  shows "\<exists>b block. build_blocks (Bloom_CreateFilter p) blks FilterBlockBuilder = Some b \<and>
    Finish (Bloom_CreateFilter p) b = Some block \<and>
    (length block < 2 ^ 32 \<longrightarrow> (\<forall>blk\<in>set blks. \<forall>k\<in>set (snd blk).
       do { r \<leftarrow> FilterBlockReader block; Reader_KeyMayMatch Bloom_KeyMayMatch r (fst blk) k } = Some True))"
  using filter_policy.filter_block_sound [OF bloom_filter_policy [OF assms(1-3)] assms(4) _ assms(5)] by blast

definition example_blocks :: "data_block list" where
  "example_blocks = [(0, [[97]]), (4096, [[98, 99]])]"

lemma example_block_length:
  "(do { b \<leftarrow> build_blocks (Bloom_CreateFilter bloom10) example_blocks FilterBlockBuilder;
        map_option length (Finish (Bloom_CreateFilter bloom10) b) }) = Some 35"
  by code_simp

lemma filter_block_witness:
  "\<exists>b block. build_blocks (Bloom_CreateFilter bloom10) example_blocks FilterBlockBuilder = Some b \<and>
     Finish (Bloom_CreateFilter bloom10) b = Some block \<and>
     do { r \<leftarrow> FilterBlockReader block; Reader_KeyMayMatch Bloom_KeyMayMatch r 4096 [98, 99] } = Some True"
proof -
  have "sorted (map (\<lambda>blk. filter_index (fst blk)) example_blocks)" by code_simp
  moreover have "length (concat (map snd example_blocks)) < 2 ^ 31" by (simp add: example_blocks_def)
  ultimately obtain b block where b: "build_blocks (Bloom_CreateFilter bloom10) example_blocks FilterBlockBuilder = Some b"
    "Finish (Bloom_CreateFilter bloom10) b = Some block"
    and sound: "length block < 2 ^ 32 \<longrightarrow> (\<forall>blk\<in>set example_blocks. \<forall>k\<in>set (snd blk).
       do { r \<leftarrow> FilterBlockReader block; Reader_KeyMayMatch Bloom_KeyMayMatch r (fst blk) k } = Some True)"
    using filter_block_no_false_negatives [OF BloomFilterPolicy_10, of example_blocks] by auto
  have "length block = 35" using example_block_length b by simp
  with b sound show ?thesis by (auto simp: example_blocks_def)
qed

end
