(* ===== verification/L_VersionEdit.thy ===== *)
theory L_VersionEdit
  imports L_Dbformat L_Status
begin

text \<open>
  Model of \<^verbatim>\<open>db/version_edit.h\<close>, \<^verbatim>\<open>db/version_edit.cc\<close> and the \<^verbatim>\<open>DebugString\<close> members of
  \<^verbatim>\<open>db/dbformat.cc\<close>: the records of the manifest. A vector is the list of its elements, and the
  \<^verbatim>\<open>std::set\<close> of deleted files the strictly increasing list in the order of its iterator. An
  assertion that fails is \<open>None\<close>. The main result is that \<^verbatim>\<open>DecodeFrom\<close> reads back what \<^verbatim>\<open>EncodeTo\<close>
  has written, in front of whatever \<^verbatim>\<open>Clear\<close> has left in the object.
\<close>

section \<open>Printing of keys\<close>

definition ParsedInternalKey_DebugString :: "ParsedInternalKey \<Rightarrow> byte list" where
  "ParsedInternalKey_DebugString k =
     (let buf = take 49 ([0x27] @ str '' @ '' @ decimal (unat (pik_sequence k)) @ str '' : '' @
                         decimal (unat (value_type_code (pik_type k))))
      in [0x27] @ EscapeString (pik_user_key k) @ buf)"

definition InternalKey_DebugString :: "slice \<Rightarrow> byte list" where
  "InternalKey_DebugString rep = (case ParseInternalKey rep of
       Some parsed \<Rightarrow> ParsedInternalKey_DebugString parsed
     | None \<Rightarrow> str ''(bad)'' @ EscapeString rep)"

section \<open>Data\<close>

definition kNumLevels :: uint32 where
  "kNumLevels = 7"

text \<open>The tags of the fields.\<close>

definition kComparator :: uint32 where "kComparator = 1"
definition kLogNumber :: uint32 where "kLogNumber = 2"
definition kNextFileNumber :: uint32 where "kNextFileNumber = 3"
definition kLastSequence :: uint32 where "kLastSequence = 4"
definition kCompactPointer :: uint32 where "kCompactPointer = 5"
definition kDeletedFile :: uint32 where "kDeletedFile = 6"
definition kNewFile :: uint32 where "kNewFile = 7"
definition kPrevLogNumber :: uint32 where "kPrevLogNumber = 9"

lemmas tags = kComparator_def kLogNumber_def kNextFileNumber_def kLastSequence_def
  kCompactPointer_def kDeletedFile_def kNewFile_def kPrevLogNumber_def

text \<open>An internal key is its member \<^verbatim>\<open>rep_\<close>; a level is an \<^verbatim>\<open>int\<close>, compared as a signed word.\<close>

type_synonym level = "32 word"

record FileMetaData =
  fm_refs :: "32 word"
  fm_allowed_seeks :: "32 word"
  fm_number :: uint64
  fm_file_size :: uint64
  fm_smallest :: slice
  fm_largest :: slice

text \<open>
  A \<^verbatim>\<open>FileMetaData\<close> as its constructor initialises it, once its number, size and keys are assigned,
  which both users of the constructor do before they store the object.
\<close>

definition mk_FileMetaData :: "uint64 \<Rightarrow> uint64 \<Rightarrow> slice \<Rightarrow> slice \<Rightarrow> FileMetaData" where
  "mk_FileMetaData number file_size smallest largest =
     \<lparr>fm_refs = 0, fm_allowed_seeks = push_bit 30 1, fm_number = number, fm_file_size = file_size,
      fm_smallest = smallest, fm_largest = largest\<rparr>"

record VersionEdit =
  ve_comparator :: slice
  ve_log_number :: uint64
  ve_prev_log_number :: uint64
  ve_next_file_number :: uint64
  ve_last_sequence :: SequenceNumber
  ve_has_comparator :: bool
  ve_has_log_number :: bool
  ve_has_prev_log_number :: bool
  ve_has_next_file_number :: bool
  ve_has_last_sequence :: bool
  ve_compact_pointers :: "(level \<times> slice) list"
  ve_deleted_files :: "(level \<times> uint64) list"
  ve_new_files :: "(level \<times> FileMetaData) list"

section \<open>Operations\<close>

definition VersionEdit_Clear :: "VersionEdit \<Rightarrow> VersionEdit" where
  "VersionEdit_Clear e = e\<lparr>ve_comparator := [], ve_log_number := 0, ve_prev_log_number := 0,
     ve_last_sequence := 0, ve_next_file_number := 0, ve_has_comparator := False,
     ve_has_log_number := False, ve_has_prev_log_number := False, ve_has_next_file_number := False,
     ve_has_last_sequence := False, ve_deleted_files := [], ve_new_files := []\<rparr>"

text \<open>The constructor: empty containers, and \<^verbatim>\<open>Clear\<close>.\<close>

definition mk_VersionEdit :: VersionEdit where
  "mk_VersionEdit = VersionEdit_Clear
     \<lparr>ve_comparator = [], ve_log_number = 0, ve_prev_log_number = 0, ve_next_file_number = 0,
      ve_last_sequence = 0, ve_has_comparator = False, ve_has_log_number = False,
      ve_has_prev_log_number = False, ve_has_next_file_number = False, ve_has_last_sequence = False,
      ve_compact_pointers = [], ve_deleted_files = [], ve_new_files = []\<rparr>"

definition SetComparatorName :: "slice \<Rightarrow> VersionEdit \<Rightarrow> VersionEdit" where
  "SetComparatorName name e = e\<lparr>ve_has_comparator := True, ve_comparator := name\<rparr>"

definition SetLogNumber :: "uint64 \<Rightarrow> VersionEdit \<Rightarrow> VersionEdit" where
  "SetLogNumber num e = e\<lparr>ve_has_log_number := True, ve_log_number := num\<rparr>"

definition SetPrevLogNumber :: "uint64 \<Rightarrow> VersionEdit \<Rightarrow> VersionEdit" where
  "SetPrevLogNumber num e = e\<lparr>ve_has_prev_log_number := True, ve_prev_log_number := num\<rparr>"

definition SetNextFile :: "uint64 \<Rightarrow> VersionEdit \<Rightarrow> VersionEdit" where
  "SetNextFile num e = e\<lparr>ve_has_next_file_number := True, ve_next_file_number := num\<rparr>"

definition SetLastSequence :: "SequenceNumber \<Rightarrow> VersionEdit \<Rightarrow> VersionEdit" where
  "SetLastSequence seq e = e\<lparr>ve_has_last_sequence := True, ve_last_sequence := seq\<rparr>"

definition SetCompactPointer :: "level \<Rightarrow> slice \<Rightarrow> VersionEdit \<Rightarrow> VersionEdit" where
  "SetCompactPointer level key e = e\<lparr>ve_compact_pointers := ve_compact_pointers e @ [(level, key)]\<rparr>"

definition AddFile :: "level \<Rightarrow> uint64 \<Rightarrow> uint64 \<Rightarrow> slice \<Rightarrow> slice \<Rightarrow> VersionEdit \<Rightarrow> VersionEdit" where
  "AddFile level file file_size smallest largest e =
     e\<lparr>ve_new_files := ve_new_files e @ [(level, mk_FileMetaData file file_size smallest largest)]\<rparr>"

text \<open>\<^verbatim>\<open>operator<\<close> of a pair, and insertion into a \<^verbatim>\<open>std::set\<close> of pairs.\<close>

definition pair_less :: "level \<times> uint64 \<Rightarrow> level \<times> uint64 \<Rightarrow> bool" where
  "pair_less a b \<longleftrightarrow> fst a <s fst b \<or> \<not> fst b <s fst a \<and> snd a < snd b"

fun set_insert :: "level \<times> uint64 \<Rightarrow> (level \<times> uint64) list \<Rightarrow> (level \<times> uint64) list" where
  "set_insert x [] = [x]"
| "set_insert x (y # ys) =
     (if pair_less x y then x # y # ys else if pair_less y x then y # set_insert x ys else y # ys)"

definition DeleteFile :: "level \<Rightarrow> uint64 \<Rightarrow> VersionEdit \<Rightarrow> VersionEdit" where
  "DeleteFile level file e = e\<lparr>ve_deleted_files := set_insert (level, file) (ve_deleted_files e)\<rparr>"

section \<open>Encoding\<close>

fun encode_pointers :: "(level \<times> slice) list \<Rightarrow> byte list \<Rightarrow> byte list option" where
  "encode_pointers [] dst = Some dst"
| "encode_pointers ((level, key) # ps) dst = do {
     let dst = PutVarint32 (PutVarint32 dst kCompactPointer) level;
     k \<leftarrow> InternalKey_Encode key;
     encode_pointers ps (PutLengthPrefixedSlice dst k)
   }"

fun encode_deleted :: "(level \<times> uint64) list \<Rightarrow> byte list \<Rightarrow> byte list" where
  "encode_deleted [] dst = dst"
| "encode_deleted ((level, number) # ds) dst =
     encode_deleted ds (PutVarint64 (PutVarint32 (PutVarint32 dst kDeletedFile) level) number)"

fun encode_new :: "(level \<times> FileMetaData) list \<Rightarrow> byte list \<Rightarrow> byte list option" where
  "encode_new [] dst = Some dst"
| "encode_new ((level, f) # fs) dst = do {
     let dst = PutVarint32 (PutVarint32 dst kNewFile) level;
     let dst = PutVarint64 (PutVarint64 dst (fm_number f)) (fm_file_size f);
     smallest \<leftarrow> InternalKey_Encode (fm_smallest f);
     let dst = PutLengthPrefixedSlice dst smallest;
     largest \<leftarrow> InternalKey_Encode (fm_largest f);
     encode_new fs (PutLengthPrefixedSlice dst largest)
   }"

definition VersionEdit_EncodeTo :: "VersionEdit \<Rightarrow> byte list \<Rightarrow> byte list option" where
  "VersionEdit_EncodeTo e dst = do {
     let dst = (if ve_has_comparator e
       then PutLengthPrefixedSlice (PutVarint32 dst kComparator) (ve_comparator e) else dst);
     let dst = (if ve_has_log_number e
       then PutVarint64 (PutVarint32 dst kLogNumber) (ve_log_number e) else dst);
     let dst = (if ve_has_prev_log_number e
       then PutVarint64 (PutVarint32 dst kPrevLogNumber) (ve_prev_log_number e) else dst);
     let dst = (if ve_has_next_file_number e
       then PutVarint64 (PutVarint32 dst kNextFileNumber) (ve_next_file_number e) else dst);
     let dst = (if ve_has_last_sequence e
       then PutVarint64 (PutVarint32 dst kLastSequence) (ve_last_sequence e) else dst);
     dst \<leftarrow> encode_pointers (ve_compact_pointers e) dst;
     let dst = encode_deleted (ve_deleted_files e) dst;
     encode_new (ve_new_files e) dst
   }"

section \<open>Decoding\<close>

text \<open>
  The parsers return the parsed value, if any, and the advanced \<^verbatim>\<open>*input\<close>; \<open>and_then\<close> is \<^verbatim>\<open>&&\<close>
  between two of them.
\<close>

definition and_then :: "'a option \<times> slice \<Rightarrow> ('a \<Rightarrow> slice \<Rightarrow> 'b option \<times> slice) \<Rightarrow> 'b option \<times> slice" where
  "and_then r f = (case r of (None, input) \<Rightarrow> (None, input) | (Some x, input) \<Rightarrow> f x input)"

definition GetInternalKey :: "slice \<Rightarrow> slice option \<times> slice" where
  "GetInternalKey input = (case GetLengthPrefixedSlice input of
       (Some s, input) \<Rightarrow> (Some s, input)
     | (None, input) \<Rightarrow> (None, input))"

definition GetLevel :: "slice \<Rightarrow> level option \<times> slice" where
  "GetLevel input = and_then (GetVarint32 input)
     (\<lambda>v input. if v < kNumLevels then (Some v, input) else (None, input))"

text \<open>The two outcomes of a case: the object is updated, or \<^verbatim>\<open>msg\<close> is set.\<close>

definition field_or ::
    "string \<Rightarrow> VersionEdit \<Rightarrow> 'a option \<times> slice \<Rightarrow> ('a \<Rightarrow> VersionEdit) \<Rightarrow> string option \<times> VersionEdit \<times> slice" where
  "field_or message e r upd = (case r of
       (Some x, input) \<Rightarrow> (None, upd x, input)
     | (None, input) \<Rightarrow> (Some message, e, input))"

definition decode_field :: "uint32 \<Rightarrow> VersionEdit \<Rightarrow> slice \<Rightarrow> string option \<times> VersionEdit \<times> slice" where
  "decode_field tag e input =
     (if tag = kComparator then
        field_or ''comparator name'' e (GetLengthPrefixedSlice input)
          (\<lambda>s. e\<lparr>ve_comparator := s, ve_has_comparator := True\<rparr>)
      else if tag = kLogNumber then
        field_or ''log number'' e (GetVarint64 input)
          (\<lambda>n. e\<lparr>ve_log_number := n, ve_has_log_number := True\<rparr>)
      else if tag = kPrevLogNumber then
        field_or ''previous log number'' e (GetVarint64 input)
          (\<lambda>n. e\<lparr>ve_prev_log_number := n, ve_has_prev_log_number := True\<rparr>)
      else if tag = kNextFileNumber then
        field_or ''next file number'' e (GetVarint64 input)
          (\<lambda>n. e\<lparr>ve_next_file_number := n, ve_has_next_file_number := True\<rparr>)
      else if tag = kLastSequence then
        field_or ''last sequence number'' e (GetVarint64 input)
          (\<lambda>n. e\<lparr>ve_last_sequence := n, ve_has_last_sequence := True\<rparr>)
      else if tag = kCompactPointer then
        field_or ''compaction pointer'' e
          (and_then (GetLevel input) (\<lambda>level input.
           and_then (GetInternalKey input) (\<lambda>key input. (Some (level, key), input))))
          (\<lambda>p. e\<lparr>ve_compact_pointers := ve_compact_pointers e @ [p]\<rparr>)
      else if tag = kDeletedFile then
        field_or ''deleted file'' e
          (and_then (GetLevel input) (\<lambda>level input.
           and_then (GetVarint64 input) (\<lambda>number input. (Some (level, number), input))))
          (\<lambda>d. e\<lparr>ve_deleted_files := set_insert d (ve_deleted_files e)\<rparr>)
      else if tag = kNewFile then
        field_or ''new-file entry'' e
          (and_then (GetLevel input) (\<lambda>level input.
           and_then (GetVarint64 input) (\<lambda>number input.
           and_then (GetVarint64 input) (\<lambda>file_size input.
           and_then (GetInternalKey input) (\<lambda>smallest input.
           and_then (GetInternalKey input) (\<lambda>largest input.
             (Some (level, mk_FileMetaData number file_size smallest largest), input)))))))
          (\<lambda>f. e\<lparr>ve_new_files := ve_new_files e @ [f]\<rparr>)
      else (Some ''unknown tag'', e, input))"

text \<open>No parser leaves more input than it was given, and a tag takes at least one byte.\<close>

lemma GetVarint32_shorter: "GetVarint32 input = (Some v, rest) \<Longrightarrow> length rest < length input"
  by (auto simp: GetVarint32_def GetVarint32Ptr_decodes decodes_def dest: leb_shape_length
      split: option.splits prod.splits)

definition shrinks :: "('a option \<times> slice) \<Rightarrow> slice \<Rightarrow> bool" where
  "shrinks r input \<longleftrightarrow> length (snd r) \<le> length input"

lemma shrinks_and_then:
  assumes "shrinks r input" and "\<And>x i. length i \<le> length input \<Longrightarrow> shrinks (f x i) input"
  shows "shrinks (and_then r f) input"
  using assms by (auto simp: shrinks_def and_then_def split: prod.splits option.splits)

lemma shrinks_le: "shrinks r i \<Longrightarrow> length i \<le> length input \<Longrightarrow> shrinks r input"
  by (simp add: shrinks_def)

lemma shrinks_primitive:
  "shrinks (GetVarint32 input) input" "shrinks (GetVarint64 input) input"
  "shrinks (GetLengthPrefixedSlice input) input" "shrinks (GetInternalKey input) input"
proof -
  show a: "shrinks (GetVarint32 input) input"
    by (auto simp: shrinks_def GetVarint32_def GetVarint32Ptr_decodes decodes_def split: option.splits)
  show "shrinks (GetVarint64 input) input"
    by (auto simp: shrinks_def GetVarint64_def GetVarint64Ptr_decodes decodes_def split: option.splits)
  show b: "shrinks (GetLengthPrefixedSlice input) input"
    using a by (auto simp: shrinks_def GetLengthPrefixedSlice_def split: prod.splits option.splits)
  then show "shrinks (GetInternalKey input) input"
    by (auto simp: shrinks_def GetInternalKey_def split: prod.splits option.splits)
qed

lemma shrinks_GetLevel: "shrinks (GetLevel input) input"
  unfolding GetLevel_def
  by (rule shrinks_and_then [OF shrinks_primitive(1)]) (simp add: shrinks_def)

lemmas shrinks_rules = shrinks_primitive shrinks_GetLevel

lemma field_or_shrinks: "shrinks r input \<Longrightarrow> length (snd (snd (field_or message e r upd))) \<le> length input"
  by (auto simp: field_or_def shrinks_def split: prod.splits option.splits)

lemma decode_field_shrinks: "length (snd (snd (decode_field tag e input))) \<le> length input"
  unfolding decode_field_def
  by (simp; intro conjI impI)
    (intro field_or_shrinks shrinks_and_then shrinks_rules; (rule shrinks_le, rule shrinks_rules)?;
      simp add: shrinks_def)+

lemma decode_step_shorter:
  assumes "GetVarint32 input = (Some tag, rest)" and "decode_field tag e rest = (msg, e', rest')"
  shows "length rest' < length input"
  using GetVarint32_shorter [OF assms(1)] decode_field_shrinks [of tag e rest] assms(2) by simp

function DecodeFrom_loop :: "VersionEdit \<Rightarrow> slice \<Rightarrow> string option \<times> VersionEdit \<times> slice" where
  "DecodeFrom_loop e input = (case GetVarint32 input of
       (None, input) \<Rightarrow> (None, e, input)
     | (Some tag, input) \<Rightarrow> (case decode_field tag e input of
           (Some msg, e, input) \<Rightarrow> (Some msg, e, input)
         | (None, e, input) \<Rightarrow> DecodeFrom_loop e input))"
  by pat_completeness auto
termination
  by (relation "measure (\<lambda>(e, input). length input)")
    (auto dest!: sym [of _ "GetVarint32 _"] sym [of _ "decode_field _ _ _"] intro: decode_step_shorter)

declare DecodeFrom_loop.simps [simp del]

definition VersionEdit_DecodeFrom :: "VersionEdit \<Rightarrow> slice \<Rightarrow> (VersionEdit \<times> Status) option" where
  "VersionEdit_DecodeFrom e src = (case DecodeFrom_loop (VersionEdit_Clear e) src of
     (msg, e, input) \<Rightarrow>
       (let msg = (if msg = None \<and> input \<noteq> [] then Some ''invalid tag'' else msg)
        in case msg of None \<Rightarrow> Some (e, Status_OK)
           | Some m \<Rightarrow> map_option (Pair e) (Corruption (str ''VersionEdit'') (str m))))"

section \<open>Printing of edits\<close>

text \<open>A level is converted to the \<^verbatim>\<open>uint64_t\<close> of \<^verbatim>\<open>AppendNumberTo\<close> with its sign.\<close>

definition level_number :: "level \<Rightarrow> uint64" where
  "level_number level = scast level"

fun print_pointers :: "(level \<times> slice) list \<Rightarrow> byte list \<Rightarrow> byte list" where
  "print_pointers [] r = r"
| "print_pointers ((level, key) # ps) r =
     print_pointers ps (AppendNumberTo (r @ [0x0a] @ str ''  CompactPointer: '') (level_number level)
       @ str '' '' @ InternalKey_DebugString key)"

fun print_deleted :: "(level \<times> uint64) list \<Rightarrow> byte list \<Rightarrow> byte list" where
  "print_deleted [] r = r"
| "print_deleted ((level, number) # ds) r =
     print_deleted ds (AppendNumberTo (AppendNumberTo (r @ [0x0a] @ str ''  DeleteFile: '')
       (level_number level) @ str '' '') number)"

fun print_new :: "(level \<times> FileMetaData) list \<Rightarrow> byte list \<Rightarrow> byte list" where
  "print_new [] r = r"
| "print_new ((level, f) # fs) r =
     print_new fs (AppendNumberTo (AppendNumberTo (AppendNumberTo (r @ [0x0a] @ str ''  AddFile: '')
       (level_number level) @ str '' '') (fm_number f) @ str '' '') (fm_file_size f) @ str '' ''
       @ InternalKey_DebugString (fm_smallest f) @ str '' .. '' @ InternalKey_DebugString (fm_largest f))"

definition VersionEdit_DebugString :: "VersionEdit \<Rightarrow> byte list" where
  "VersionEdit_DebugString e = (
     let r = str ''VersionEdit {'';
         r = (if ve_has_comparator e then r @ [0x0a] @ str ''  Comparator: '' @ ve_comparator e else r);
         r = (if ve_has_log_number e
              then AppendNumberTo (r @ [0x0a] @ str ''  LogNumber: '') (ve_log_number e) else r);
         r = (if ve_has_prev_log_number e
              then AppendNumberTo (r @ [0x0a] @ str ''  PrevLogNumber: '') (ve_prev_log_number e) else r);
         r = (if ve_has_next_file_number e
              then AppendNumberTo (r @ [0x0a] @ str ''  NextFile: '') (ve_next_file_number e) else r);
         r = (if ve_has_last_sequence e
              then AppendNumberTo (r @ [0x0a] @ str ''  LastSeq: '') (ve_last_sequence e) else r);
         r = print_pointers (ve_compact_pointers e) r;
         r = print_deleted (ve_deleted_files e) r;
         r = print_new (ve_new_files e) r
     in r @ [0x0a, 0x7d, 0x0a])"

section \<open>The encoding as a concatenation\<close>

definition field :: "uint32 \<Rightarrow> byte list \<Rightarrow> byte list" where
  "field tag body = leb128 (unat tag) @ body"

definition number_bytes :: "uint64 \<Rightarrow> byte list" where
  "number_bytes n = leb128 (unat n)"

definition level_bytes :: "level \<Rightarrow> byte list" where
  "level_bytes n = leb128 (unat n)"

definition pointer_bytes :: "level \<times> slice \<Rightarrow> byte list" where
  "pointer_bytes p = field kCompactPointer (level_bytes (fst p) @ prefixed (snd p))"

definition deleted_bytes :: "level \<times> uint64 \<Rightarrow> byte list" where
  "deleted_bytes d = field kDeletedFile (level_bytes (fst d) @ number_bytes (snd d))"

definition new_bytes :: "level \<times> FileMetaData \<Rightarrow> byte list" where
  "new_bytes f = field kNewFile (level_bytes (fst f) @ number_bytes (fm_number (snd f)) @
     number_bytes (fm_file_size (snd f)) @ prefixed (fm_smallest (snd f)) @ prefixed (fm_largest (snd f)))"

definition given :: "bool \<Rightarrow> byte list \<Rightarrow> byte list" where
  "given b bs = (if b then bs else [])"

definition edit_bytes :: "VersionEdit \<Rightarrow> byte list" where
  "edit_bytes e =
     given (ve_has_comparator e) (field kComparator (prefixed (ve_comparator e))) @
     given (ve_has_log_number e) (field kLogNumber (number_bytes (ve_log_number e))) @
     given (ve_has_prev_log_number e) (field kPrevLogNumber (number_bytes (ve_prev_log_number e))) @
     given (ve_has_next_file_number e) (field kNextFileNumber (number_bytes (ve_next_file_number e))) @
     given (ve_has_last_sequence e) (field kLastSequence (number_bytes (ve_last_sequence e))) @
     concat (map pointer_bytes (ve_compact_pointers e)) @
     concat (map deleted_bytes (ve_deleted_files e)) @
     concat (map new_bytes (ve_new_files e))"

lemmas puts = PutVarint32_def PutVarint64_def EncodeVarint32_leb128 EncodeVarint64_leb128
  PutLengthPrefixedSlice_prefixed field_def number_bytes_def level_bytes_def

lemma encode_pointers_bytes:
  "\<forall>p \<in> set ps. snd p \<noteq> [] \<Longrightarrow> encode_pointers ps dst = Some (dst @ concat (map pointer_bytes ps))"
  by (induction ps dst rule: encode_pointers.induct)
    (auto simp: InternalKey_Encode_def pointer_bytes_def puts)

lemma encode_deleted_bytes: "encode_deleted ds dst = dst @ concat (map deleted_bytes ds)"
  by (induction ds dst rule: encode_deleted.induct) (auto simp: deleted_bytes_def puts)

lemma encode_new_bytes:
  "\<forall>f \<in> set fs. fm_smallest (snd f) \<noteq> [] \<and> fm_largest (snd f) \<noteq> [] \<Longrightarrow>
   encode_new fs dst = Some (dst @ concat (map new_bytes fs))"
  by (induction fs dst rule: encode_new.induct) (auto simp: InternalKey_Encode_def new_bytes_def puts)

section \<open>Well-formed edits\<close>

definition key_wf :: "slice \<Rightarrow> bool" where
  "key_wf k \<longleftrightarrow> k \<noteq> [] \<and> length k < 2 ^ 32"

definition file_wf :: "FileMetaData \<Rightarrow> bool" where
  "file_wf f \<longleftrightarrow> key_wf (fm_smallest f) \<and> key_wf (fm_largest f) \<and>
     f = mk_FileMetaData (fm_number f) (fm_file_size f) (fm_smallest f) (fm_largest f)"

definition edit_wf :: "VersionEdit \<Rightarrow> bool" where
  "edit_wf e \<longleftrightarrow> length (ve_comparator e) < 2 ^ 32 \<and>
     (\<not> ve_has_comparator e \<longrightarrow> ve_comparator e = []) \<and>
     (\<not> ve_has_log_number e \<longrightarrow> ve_log_number e = 0) \<and>
     (\<not> ve_has_prev_log_number e \<longrightarrow> ve_prev_log_number e = 0) \<and>
     (\<not> ve_has_next_file_number e \<longrightarrow> ve_next_file_number e = 0) \<and>
     (\<not> ve_has_last_sequence e \<longrightarrow> ve_last_sequence e = 0) \<and>
     (\<forall>p \<in> set (ve_compact_pointers e). fst p < kNumLevels \<and> key_wf (snd p)) \<and>
     (\<forall>d \<in> set (ve_deleted_files e). fst d < kNumLevels) \<and>
     sorted_wrt pair_less (ve_deleted_files e) \<and>
     (\<forall>f \<in> set (ve_new_files e). fst f < kNumLevels \<and> file_wf (snd f))"

text \<open>The edits that the operations of the class build from a fresh object.\<close>

inductive built :: "VersionEdit \<Rightarrow> bool" where
  built_new: "built mk_VersionEdit"
| built_comparator: "built e \<Longrightarrow> length name < 2 ^ 32 \<Longrightarrow> built (SetComparatorName name e)"
| built_log: "built e \<Longrightarrow> built (SetLogNumber n e)"
| built_prev_log: "built e \<Longrightarrow> built (SetPrevLogNumber n e)"
| built_next: "built e \<Longrightarrow> built (SetNextFile n e)"
| built_last: "built e \<Longrightarrow> built (SetLastSequence n e)"
| built_pointer: "built e \<Longrightarrow> level < kNumLevels \<Longrightarrow> key_wf key \<Longrightarrow> built (SetCompactPointer level key e)"
| built_add: "built e \<Longrightarrow> level < kNumLevels \<Longrightarrow> key_wf smallest \<Longrightarrow> key_wf largest \<Longrightarrow>
    built (AddFile level n file_size smallest largest e)"
| built_delete: "built e \<Longrightarrow> level < kNumLevels \<Longrightarrow> built (DeleteFile level n e)"

lemma pair_less_trans: "pair_less a b \<Longrightarrow> pair_less b c \<Longrightarrow> pair_less a c"
  by (auto simp: pair_less_def word_sless_alt)

lemma pair_less_total: "\<not> pair_less a b \<Longrightarrow> \<not> pair_less b a \<Longrightarrow> a = b"
proof (cases a, cases b)
  fix l m :: level and i j
  assume "\<not> pair_less a b" "\<not> pair_less b a" "a = (l, i)" "b = (m, j)"
  moreover from this have "sint l = sint m" by (auto simp: pair_less_def word_sless_alt not_less)
  ultimately show "a = b" by (auto simp: pair_less_def)
qed

lemma set_set_insert: "set (set_insert x ys) = insert x (set ys)"
  using pair_less_total by (induction x ys rule: set_insert.induct) auto

lemma sorted_set_insert: "sorted_wrt pair_less ys \<Longrightarrow> sorted_wrt pair_less (set_insert x ys)"
  by (induction x ys rule: set_insert.induct) (auto simp: set_set_insert intro: pair_less_trans)

lemma set_insert_last: "\<forall>y \<in> set ys. pair_less y x \<Longrightarrow> set_insert x ys = ys @ [x]"
proof (induction x ys rule: set_insert.induct)
  case (2 x y ys)
  then have "\<not> pair_less x y" by (auto simp: pair_less_def word_sless_alt)
  with 2 show ?case by simp
qed simp

lemma built_wf: "built e \<Longrightarrow> edit_wf e"
  by (induction rule: built.induct)
    (auto simp: edit_wf_def mk_VersionEdit_def VersionEdit_Clear_def SetComparatorName_def
      SetLogNumber_def SetPrevLogNumber_def SetNextFile_def SetLastSequence_def
      SetCompactPointer_def AddFile_def DeleteFile_def file_wf_def mk_FileMetaData_def
      set_set_insert sorted_set_insert)

lemma EncodeTo_bytes: "edit_wf e \<Longrightarrow> VersionEdit_EncodeTo e dst = Some (dst @ edit_bytes e)"
  by (simp add: VersionEdit_EncodeTo_def edit_wf_def file_wf_def key_wf_def Let_def
      encode_pointers_bytes encode_deleted_bytes encode_new_bytes edit_bytes_def given_def puts)

section \<open>Reading an edit back\<close>

lemma loop_field:
  assumes "decode_field tag e (body @ rest) = (None, e', rest)"
  shows "DecodeFrom_loop e (field tag body @ rest) = DecodeFrom_loop e' rest"
  using assms by (subst DecodeFrom_loop.simps) (simp add: field_def GetVarint32_def GetVarint32Ptr_leb128)

lemma loop_Nil: "DecodeFrom_loop e [] = (None, e, [])"
  by (subst DecodeFrom_loop.simps) (simp add: GetVarint32_def GetVarint32Ptr_def GetVarint32PtrFallback_def)

lemma loop_given:
  assumes "b \<Longrightarrow> DecodeFrom_loop e (bs @ rest) = DecodeFrom_loop e' rest" and "\<not> b \<Longrightarrow> e' = e"
  shows "DecodeFrom_loop e (given b bs @ rest) = DecodeFrom_loop e' rest"
  using assms by (simp add: given_def)

lemma GetVarint64_number [simp]: "GetVarint64 (number_bytes n @ rest) = (Some n, rest)"
  by (simp add: number_bytes_def GetVarint64_def GetVarint64Ptr_leb128)

lemma GetLevel_level [simp]: "level < kNumLevels \<Longrightarrow> GetLevel (level_bytes level @ rest) = (Some level, rest)"
  by (simp add: level_bytes_def GetLevel_def GetVarint32_def GetVarint32Ptr_leb128 and_then_def)

lemma GetInternalKey_prefixed [simp]: "key_wf k \<Longrightarrow> GetInternalKey (prefixed k @ rest) = (Some k, rest)"
  by (simp add: GetInternalKey_def key_wf_def)

lemmas decode_simps = decode_field_def tags field_or_def and_then_def

lemma loop_pointers:
  assumes "\<forall>p \<in> set ps. fst p < kNumLevels \<and> key_wf (snd p)"
  shows "DecodeFrom_loop e (concat (map pointer_bytes ps) @ rest) =
    DecodeFrom_loop (e\<lparr>ve_compact_pointers := ve_compact_pointers e @ ps\<rparr>) rest"
  using assms
proof (induction ps arbitrary: e)
  case (Cons p ps)
  let ?e = "e\<lparr>ve_compact_pointers := ve_compact_pointers e @ [p]\<rparr>"
  have "decode_field kCompactPointer e ((level_bytes (fst p) @ prefixed (snd p)) @ r) = (None, ?e, r)" for r
    using Cons.prems by (simp add: decode_simps)
  from loop_field [OF this] Cons.IH [of ?e] Cons.prems show ?case
    by (simp add: pointer_bytes_def)
qed simp

lemma loop_deleted:
  assumes "\<forall>d \<in> set ds. fst d < kNumLevels" and "sorted_wrt pair_less (ve_deleted_files e @ ds)"
  shows "DecodeFrom_loop e (concat (map deleted_bytes ds) @ rest) =
    DecodeFrom_loop (e\<lparr>ve_deleted_files := ve_deleted_files e @ ds\<rparr>) rest"
  using assms
proof (induction ds arbitrary: e)
  case (Cons d ds)
  let ?e = "e\<lparr>ve_deleted_files := ve_deleted_files e @ [d]\<rparr>"
  have "set_insert d (ve_deleted_files e) = ve_deleted_files e @ [d]"
    using Cons.prems by (intro set_insert_last) (simp add: sorted_wrt_append)
  then have "decode_field kDeletedFile e ((level_bytes (fst d) @ number_bytes (snd d)) @ r) = (None, ?e, r)" for r
    using Cons.prems by (simp add: decode_simps)
  from loop_field [OF this] Cons.IH [of ?e] Cons.prems show ?case
    by (simp add: deleted_bytes_def)
qed simp

lemma loop_new:
  assumes "\<forall>f \<in> set fs. fst f < kNumLevels \<and> file_wf (snd f)"
  shows "DecodeFrom_loop e (concat (map new_bytes fs) @ rest) =
    DecodeFrom_loop (e\<lparr>ve_new_files := ve_new_files e @ fs\<rparr>) rest"
  using assms
proof (induction fs arbitrary: e)
  case (Cons f fs)
  let ?e = "e\<lparr>ve_new_files := ve_new_files e @ [f]\<rparr>"
  have wf: "fst f < kNumLevels" "file_wf (snd f)" using Cons.prems by auto
  then have "f = (fst f, mk_FileMetaData (fm_number (snd f)) (fm_file_size (snd f)) (fm_smallest (snd f)) (fm_largest (snd f)))"
    by (simp add: file_wf_def prod_eq_iff)
  with wf have "decode_field kNewFile e ((level_bytes (fst f) @ number_bytes (fm_number (snd f)) @
     number_bytes (fm_file_size (snd f)) @ prefixed (fm_smallest (snd f)) @ prefixed (fm_largest (snd f))) @ r)
     = (None, ?e, r)" for r
    by (simp add: decode_simps file_wf_def)
  from loop_field [OF this] Cons.IH [of ?e] Cons.prems show ?case
    by (simp add: new_bytes_def)
qed simp

lemma loop_comparator:
  assumes "length s < 2 ^ 32"
  shows "DecodeFrom_loop e (field kComparator (prefixed s) @ rest) =
    DecodeFrom_loop (e\<lparr>ve_comparator := s, ve_has_comparator := True\<rparr>) rest"
  using assms by (intro loop_field) (simp add: decode_simps)

lemma loop_numbers:
  "DecodeFrom_loop e (field kLogNumber (number_bytes n) @ rest) =
    DecodeFrom_loop (e\<lparr>ve_log_number := n, ve_has_log_number := True\<rparr>) rest"
  "DecodeFrom_loop e (field kPrevLogNumber (number_bytes n) @ rest) =
    DecodeFrom_loop (e\<lparr>ve_prev_log_number := n, ve_has_prev_log_number := True\<rparr>) rest"
  "DecodeFrom_loop e (field kNextFileNumber (number_bytes n) @ rest) =
    DecodeFrom_loop (e\<lparr>ve_next_file_number := n, ve_has_next_file_number := True\<rparr>) rest"
  "DecodeFrom_loop e (field kLastSequence (number_bytes n) @ rest) =
    DecodeFrom_loop (e\<lparr>ve_last_sequence := n, ve_has_last_sequence := True\<rparr>) rest"
  by (intro loop_field; simp add: decode_simps)+

text \<open>The object after \<^verbatim>\<open>DecodeFrom\<close>: the edit that was written, behind the old compaction pointers.\<close>

definition onto :: "VersionEdit \<Rightarrow> VersionEdit \<Rightarrow> VersionEdit" where
  "onto d e = e\<lparr>ve_compact_pointers := ve_compact_pointers d @ ve_compact_pointers e\<rparr>"

lemma DecodeFrom_loop_bytes:
  assumes "edit_wf e"
  shows "DecodeFrom_loop (VersionEdit_Clear d) (edit_bytes e) = (None, onto d e, [])"
proof -
  let ?c = "VersionEdit_Clear d"
  let ?c1 = "?c\<lparr>ve_comparator := ve_comparator e, ve_has_comparator := ve_has_comparator e\<rparr>"
  let ?c2 = "?c1\<lparr>ve_log_number := ve_log_number e, ve_has_log_number := ve_has_log_number e\<rparr>"
  let ?c3 = "?c2\<lparr>ve_prev_log_number := ve_prev_log_number e, ve_has_prev_log_number := ve_has_prev_log_number e\<rparr>"
  let ?c4 = "?c3\<lparr>ve_next_file_number := ve_next_file_number e, ve_has_next_file_number := ve_has_next_file_number e\<rparr>"
  let ?c5 = "?c4\<lparr>ve_last_sequence := ve_last_sequence e, ve_has_last_sequence := ve_has_last_sequence e\<rparr>"
  note wf = assms [unfolded edit_wf_def]
  note loops = loop_comparator loop_numbers
  have 1: "DecodeFrom_loop ?c (given (ve_has_comparator e) (field kComparator (prefixed (ve_comparator e))) @ r)
      = DecodeFrom_loop ?c1 r" for r
    using wf by (intro loop_given) (auto simp: loops VersionEdit_Clear_def)
  have 2: "DecodeFrom_loop ?c1 (given (ve_has_log_number e) (field kLogNumber (number_bytes (ve_log_number e))) @ r)
      = DecodeFrom_loop ?c2 r" for r
    using wf by (intro loop_given) (auto simp: loops VersionEdit_Clear_def)
  have 3: "DecodeFrom_loop ?c2 (given (ve_has_prev_log_number e) (field kPrevLogNumber (number_bytes (ve_prev_log_number e))) @ r)
      = DecodeFrom_loop ?c3 r" for r
    using wf by (intro loop_given) (auto simp: loops VersionEdit_Clear_def)
  have 4: "DecodeFrom_loop ?c3 (given (ve_has_next_file_number e) (field kNextFileNumber (number_bytes (ve_next_file_number e))) @ r)
      = DecodeFrom_loop ?c4 r" for r
    using wf by (intro loop_given) (auto simp: loops VersionEdit_Clear_def)
  have 5: "DecodeFrom_loop ?c4 (given (ve_has_last_sequence e) (field kLastSequence (number_bytes (ve_last_sequence e))) @ r)
      = DecodeFrom_loop ?c5 r" for r
    using wf by (intro loop_given) (auto simp: loops VersionEdit_Clear_def)
  have "DecodeFrom_loop ?c (edit_bytes e) = DecodeFrom_loop ?c5 (concat (map pointer_bytes (ve_compact_pointers e)) @
      concat (map deleted_bytes (ve_deleted_files e)) @ concat (map new_bytes (ve_new_files e)) @ [])"
    unfolding edit_bytes_def 1 2 3 4 5 by simp
  also have "\<dots> = DecodeFrom_loop (?c5\<lparr>ve_compact_pointers := ve_compact_pointers d @ ve_compact_pointers e,
      ve_deleted_files := ve_deleted_files e, ve_new_files := ve_new_files e\<rparr>) []"
    using wf by (simp add: loop_pointers loop_deleted loop_new [of _ _ "[]", simplified] VersionEdit_Clear_def)
  also have "\<dots> = DecodeFrom_loop (onto d e) []"
    by (cases d, cases e) (simp add: onto_def VersionEdit_Clear_def)
  finally show ?thesis by (simp add: loop_Nil)
qed

section \<open>Any input\<close>

text \<open>What the levels of a decoded edit are worth: \<^verbatim>\<open>VersionSet\<close> indexes its arrays with them.\<close>

definition levels_ok :: "VersionEdit \<Rightarrow> bool" where
  "levels_ok e \<longleftrightarrow> (\<forall>p \<in> set (ve_compact_pointers e). fst p < kNumLevels) \<and>
     (\<forall>d \<in> set (ve_deleted_files e). fst d < kNumLevels) \<and> sorted_wrt pair_less (ve_deleted_files e) \<and>
     (\<forall>f \<in> set (ve_new_files e). fst f < kNumLevels)"

lemma GetLevel_bound: "GetLevel input = (Some level, rest) \<Longrightarrow> level < kNumLevels"
  by (auto simp: GetLevel_def and_then_def split: prod.splits option.splits if_splits)

lemma and_then_Some:
  "and_then r f = (Some y, rest) \<longleftrightarrow> (\<exists>x i. r = (Some x, i) \<and> f x i = (Some y, rest))"
  by (auto simp: and_then_def split: prod.splits option.splits)

lemma field_or_levels:
  assumes "levels_ok e" and "\<And>x rest. r = (Some x, rest) \<Longrightarrow> levels_ok (upd x)"
  shows "levels_ok (fst (snd (field_or message e r upd)))"
  using assms by (auto simp: field_or_def split: prod.splits option.splits)

lemma decode_field_levels: "levels_ok e \<Longrightarrow> levels_ok (fst (snd (decode_field tag e input)))"
  unfolding decode_field_def
  by (simp; intro conjI impI; (rule field_or_levels, assumption)?)
    (auto simp: levels_ok_def and_then_Some set_set_insert sorted_set_insert dest: GetLevel_bound)

lemma DecodeFrom_loop_levels: "levels_ok e \<Longrightarrow> levels_ok (fst (snd (DecodeFrom_loop e input)))"
proof (induction e input rule: DecodeFrom_loop.induct)
  case (1 e input)
  then show ?case
    using decode_field_levels [OF 1(2)]
    by (subst DecodeFrom_loop.simps) (auto split: prod.splits option.splits; (metis fst_conv snd_conv)+)
qed

text \<open>
  \<^verbatim>\<open>DecodeFrom\<close> returns on every input, with an OK or a corruption status, and never leaves a level
  out of range or an unordered set in the object.
\<close>

lemma version_edit_decode_total:
  assumes "levels_ok d"
  shows "\<exists>e s. VersionEdit_DecodeFrom d src = Some (e, s) \<and> levels_ok e \<and>
    (s = Status_OK \<or> IsCorruption s = Some True)"
proof -
  obtain msg e rest where loop: "DecodeFrom_loop (VersionEdit_Clear d) src = (msg, e, rest)"
    using prod_cases3 by blast
  have "levels_ok (VersionEdit_Clear d)" using assms by (simp add: levels_ok_def VersionEdit_Clear_def)
  from DecodeFrom_loop_levels [OF this, of src] loop have "levels_ok e" by simp
  moreover have "\<exists>s. Corruption a b = Some s \<and> IsCorruption s = Some True" for a b
    by (simp add: Corruption_def mk_Status_def IsCorruption_def Status_code_def status_codes Let_def nth_append)
  ultimately show ?thesis
    using loop by (auto simp: VersionEdit_DecodeFrom_def Let_def split: option.splits)
qed

section \<open>The manifest keeps an edit\<close>

text \<open>
  C23: \<^verbatim>\<open>VersionEdit\<close> survives the manifest: whatever edit the operations of the class build, with keys
  of less than 2^32 bytes and levels below \<^verbatim>\<open>kNumLevels\<close>, \<^verbatim>\<open>EncodeTo\<close> passes its assertions, and
  \<^verbatim>\<open>DecodeFrom\<close> of the bytes returns an OK status and the same edit: the same fields, files in the
  same order, the same set of deleted files. Only the compaction pointers are appended to those the
  object had before, because \<^verbatim>\<open>Clear\<close> leaves them; a fresh object is the edit itself.
\<close>

theorem version_edit_roundtrip:
  assumes "built e"
  shows "\<exists>bytes. VersionEdit_EncodeTo e [] = Some bytes \<and>
    VersionEdit_DecodeFrom mk_VersionEdit bytes = Some (e, Status_OK) \<and>
    (\<forall>d. VersionEdit_DecodeFrom d bytes =
      Some (e\<lparr>ve_compact_pointers := ve_compact_pointers d @ ve_compact_pointers e\<rparr>, Status_OK))"
proof -
  have wf: "edit_wf e" using assms by (rule built_wf)
  have "VersionEdit_DecodeFrom d (edit_bytes e) = Some (onto d e, Status_OK)" for d
    using DecodeFrom_loop_bytes [OF wf] by (simp add: VersionEdit_DecodeFrom_def)
  moreover have "onto mk_VersionEdit e = e"
    by (simp add: onto_def mk_VersionEdit_def VersionEdit_Clear_def)
  ultimately show ?thesis using EncodeTo_bytes [OF wf, of "[]"] by (simp add: onto_def)
qed

lemma version_edit_roundtrip_witness:
  "\<exists>bytes. VersionEdit_EncodeTo (DeleteFile 1 300 (AddFile 2 7 4096 [97] [98] (SetCompactPointer 1 [99] mk_VersionEdit))) [] = Some bytes \<and>
    VersionEdit_DecodeFrom mk_VersionEdit bytes =
      Some (DeleteFile 1 300 (AddFile 2 7 4096 [97] [98] (SetCompactPointer 1 [99] mk_VersionEdit)), Status_OK)"
proof -
  have "built (DeleteFile 1 300 (AddFile 2 7 4096 [97] [98] (SetCompactPointer 1 [99] mk_VersionEdit)))"
    by (intro built.intros) (simp_all add: kNumLevels_def key_wf_def)
  from version_edit_roundtrip [OF this] show ?thesis by blast
qed

end
