(* ===== verification/L_Version.thy ===== *)
theory L_Version
  imports L_VersionEdit
begin

text \<open>
  Model of the class \<^verbatim>\<open>Version\<close> of \<^verbatim>\<open>db/version_set.cc\<close>: the table files of every level, the search of a
  key in them and the choice of the files that overlap a range. A \<^verbatim>\<open>FileMetaData*\<close> is a number, the
  objects are a function of it, which the code shares between versions. \<^verbatim>\<open>TableCache::Get\<close> is a
  parameter that returns the status and the pair the saver is called with. The lists of versions, the
  reference counts and the compaction score, a \<^verbatim>\<open>double\<close>, are left out.
\<close>

section \<open>Limits\<close>

text \<open>The signed 32-bit product that the code forms; an overflow is undefined.\<close>

definition int_mult :: "int \<Rightarrow> int \<Rightarrow> int option" where
  "int_mult a b = (if - (2 ^ 31) \<le> a * b \<and> a * b < 2 ^ 31 then Some (a * b) else None)"

definition TargetFileSize :: "uint64 \<Rightarrow> int" where
  "TargetFileSize max_file_size = sint (ucast max_file_size :: 32 word)"

definition MaxGrandParentOverlapBytes :: "uint64 \<Rightarrow> int option" where
  "MaxGrandParentOverlapBytes max_file_size = int_mult 10 (TargetFileSize max_file_size)"

definition ExpandedCompactionByteSizeLimit :: "uint64 \<Rightarrow> int option" where
  "ExpandedCompactionByteSizeLimit max_file_size = int_mult 25 (TargetFileSize max_file_size)"

definition MaxFileSizeForLevel :: "uint64 \<Rightarrow> uint64" where
  "MaxFileSizeForLevel max_file_size = of_int (TargetFileSize max_file_size)"

type_synonym file_ptr = nat
type_synonym heap = "file_ptr \<Rightarrow> FileMetaData"

text \<open>The sum is an \<^verbatim>\<open>int64_t\<close>, to which an unsigned size is added.\<close>

definition TotalFileSize :: "heap \<Rightarrow> file_ptr list \<Rightarrow> uint64" where
  "TotalFileSize h files = foldl (\<lambda>sum f. sum + fm_file_size (h f)) 0 files"

section \<open>Searching a sorted level\<close>

definition file_smallest :: "heap \<Rightarrow> file_ptr \<Rightarrow> slice option" where
  "file_smallest h f = ExtractUserKey (fm_smallest (h f))"

definition file_largest :: "heap \<Rightarrow> file_ptr \<Rightarrow> slice option" where
  "file_largest h f = ExtractUserKey (fm_largest (h f))"

text \<open>
  The bounds are 32-bit words; with 2^31 files and more the sum wraps around and the search need not
  end, which \<open>None\<close> stands for as well.
\<close>

partial_function (option) FindFile_loop ::
    "(slice \<Rightarrow> slice \<Rightarrow> int option) \<Rightarrow> heap \<Rightarrow> file_ptr list \<Rightarrow> slice \<Rightarrow> uint32 \<Rightarrow> uint32 \<Rightarrow> uint32 option" where
  [code]: "FindFile_loop icmp h files key left right =
     (if left < right then
        let mid = (left + right) div 2 in
        if unat mid < length files then do {
          largest \<leftarrow> InternalKey_Encode (fm_largest (h (files ! unat mid)));
          c \<leftarrow> icmp largest key;
          if c < 0 then FindFile_loop icmp h files key (mid + 1) right
          else FindFile_loop icmp h files key left mid
        } else None
      else Some right)"

definition FindFile ::
    "(slice \<Rightarrow> slice \<Rightarrow> int option) \<Rightarrow> heap \<Rightarrow> file_ptr list \<Rightarrow> slice \<Rightarrow> uint32 option" where
  "FindFile icmp h files key = FindFile_loop icmp h files key 0 (of_nat (length files))"

text \<open>A user key that is \<^verbatim>\<open>NULL\<close> is \<open>None\<close>.\<close>

definition AfterFile :: "(slice \<Rightarrow> slice \<Rightarrow> int option) \<Rightarrow> heap \<Rightarrow> slice option \<Rightarrow> file_ptr \<Rightarrow> bool option" where
  "AfterFile ucmp h user_key f = (case user_key of
       None \<Rightarrow> Some False
     | Some k \<Rightarrow> do { largest \<leftarrow> file_largest h f; c \<leftarrow> ucmp k largest; Some (c > 0) })"

definition BeforeFile :: "(slice \<Rightarrow> slice \<Rightarrow> int option) \<Rightarrow> heap \<Rightarrow> slice option \<Rightarrow> file_ptr \<Rightarrow> bool option" where
  "BeforeFile ucmp h user_key f = (case user_key of
       None \<Rightarrow> Some False
     | Some k \<Rightarrow> do { smallest \<leftarrow> file_smallest h f; c \<leftarrow> ucmp k smallest; Some (c < 0) })"

fun some_file_overlaps ::
    "(slice \<Rightarrow> slice \<Rightarrow> int option) \<Rightarrow> heap \<Rightarrow> file_ptr list \<Rightarrow> slice option \<Rightarrow> slice option \<Rightarrow> bool option" where
  "some_file_overlaps ucmp h [] smallest largest = Some False"
| "some_file_overlaps ucmp h (f # files) smallest largest = do {
     after \<leftarrow> AfterFile ucmp h smallest f;
     outside \<leftarrow> (if after then Some True else BeforeFile ucmp h largest f);
     if outside then some_file_overlaps ucmp h files smallest largest else Some True
   }"

definition SomeFileOverlapsRange ::
    "(slice \<Rightarrow> slice \<Rightarrow> int option) \<Rightarrow> heap \<Rightarrow> bool \<Rightarrow> file_ptr list \<Rightarrow> slice option \<Rightarrow> slice option \<Rightarrow> bool option" where
  "SomeFileOverlapsRange ucmp h disjoint_sorted_files files smallest_user_key largest_user_key =
     (if \<not> disjoint_sorted_files then some_file_overlaps ucmp h files smallest_user_key largest_user_key
      else do {
        index \<leftarrow> (case smallest_user_key of
            None \<Rightarrow> Some 0
          | Some k \<Rightarrow> do {
              small \<leftarrow> InternalKey k kMaxSequenceNumber kValueTypeForSeek;
              FindFile (InternalKeyComparator_Compare ucmp) h files small
            });
        if unat index \<ge> length files then Some False
        else do {
          before \<leftarrow> BeforeFile ucmp h largest_user_key (files ! unat index);
          Some (\<not> before)
        }
      })"

section \<open>Versions\<close>

definition num_levels :: nat where
  "num_levels = 7"

definition kMaxMemCompactLevel :: nat where
  "kMaxMemCompactLevel = 2"

record Version =
  v_files :: "file_ptr list list"
  v_file_to_compact :: "file_ptr option"
  v_file_to_compact_level :: int

definition mk_Version :: Version where
  "mk_Version = \<lparr>v_files = replicate num_levels [], v_file_to_compact = None, v_file_to_compact_level = - 1\<rparr>"

definition files_at :: "Version \<Rightarrow> nat \<Rightarrow> file_ptr list option" where
  "files_at v level = (if level < length (v_files v) then Some (v_files v ! level) else None)"

section \<open>The files to search for a user key\<close>

text \<open>\<^verbatim>\<open>std::sort\<close> with \<^verbatim>\<open>NewestFirst\<close>: the numbers of files are distinct, so the order is determined.\<close>

definition NewestFirst_sort :: "heap \<Rightarrow> file_ptr list \<Rightarrow> file_ptr list" where
  "NewestFirst_sort h files = rev (sort_key (\<lambda>f. fm_number (h f)) files)"

fun level0_files :: "(slice \<Rightarrow> slice \<Rightarrow> int option) \<Rightarrow> heap \<Rightarrow> slice \<Rightarrow> file_ptr list \<Rightarrow> file_ptr list option" where
  "level0_files ucmp h user_key [] = Some []"
| "level0_files ucmp h user_key (f # files) = do {
     smallest \<leftarrow> file_smallest h f;
     c \<leftarrow> ucmp user_key smallest;
     hit \<leftarrow> (if c \<ge> 0 then do {
         largest \<leftarrow> file_largest h f;
         c \<leftarrow> ucmp user_key largest;
         Some (c \<le> 0)
       } else Some False);
     tmp \<leftarrow> level0_files ucmp h user_key files;
     Some (if hit then f # tmp else tmp)
   }"

text \<open>The files of a level in the order of the search; both \<^verbatim>\<open>ForEachOverlapping\<close> and \<^verbatim>\<open>Get\<close> have this code.\<close>

definition search_files ::
    "(slice \<Rightarrow> slice \<Rightarrow> int option) \<Rightarrow> heap \<Rightarrow> Version \<Rightarrow> slice \<Rightarrow> slice \<Rightarrow> nat \<Rightarrow> file_ptr list option" where
  "search_files ucmp h v user_key target level = do {
     files \<leftarrow> files_at v level;
     if files = [] then Some []
     else if level = 0 then map_option (NewestFirst_sort h) (level0_files ucmp h user_key files)
     else do {
       index \<leftarrow> FindFile (InternalKeyComparator_Compare ucmp) h files target;
       if unat index \<ge> length files then Some []
       else do {
         let f = files ! unat index;
         smallest \<leftarrow> file_smallest h f;
         c \<leftarrow> ucmp user_key smallest;
         Some (if c < 0 then [] else [f])
       }
     }
   }"

section \<open>Calling back for every overlapping file\<close>

text \<open>The function returns its state and whether to go on.\<close>

fun call_each :: "('a \<Rightarrow> nat \<Rightarrow> file_ptr \<Rightarrow> 'a \<times> bool) \<Rightarrow> nat \<Rightarrow> file_ptr list \<Rightarrow> 'a \<Rightarrow> 'a \<times> bool" where
  "call_each func level [] a = (a, True)"
| "call_each func level (f # files) a =
     (let (a, continue) = func a level f in if continue then call_each func level files a else (a, False))"

fun each_level ::
    "(slice \<Rightarrow> slice \<Rightarrow> int option) \<Rightarrow> heap \<Rightarrow> Version \<Rightarrow> slice \<Rightarrow> slice \<Rightarrow>
     ('a \<Rightarrow> nat \<Rightarrow> file_ptr \<Rightarrow> 'a \<times> bool) \<Rightarrow> nat list \<Rightarrow> 'a \<Rightarrow> 'a option" where
  "each_level ucmp h v user_key target func [] a = Some a"
| "each_level ucmp h v user_key target func (level # levels) a = do {
     files \<leftarrow> search_files ucmp h v user_key target level;
     let (a, continue) = call_each func level files a;
     if continue then each_level ucmp h v user_key target func levels a else Some a
   }"

definition ForEachOverlapping ::
    "(slice \<Rightarrow> slice \<Rightarrow> int option) \<Rightarrow> heap \<Rightarrow> Version \<Rightarrow> slice \<Rightarrow> slice \<Rightarrow>
     ('a \<Rightarrow> nat \<Rightarrow> file_ptr \<Rightarrow> 'a \<times> bool) \<Rightarrow> 'a \<Rightarrow> 'a option" where
  "ForEachOverlapping ucmp h v user_key target func a =
     each_level ucmp h v user_key target func [0..<num_levels] a"

section \<open>Seek statistics\<close>

record GetStats =
  seek_file :: "file_ptr option"
  seek_file_level :: int

text \<open>The decrement is of a signed number.\<close>

definition UpdateStats :: "GetStats \<Rightarrow> Version \<Rightarrow> heap \<Rightarrow> (bool \<times> Version \<times> heap) option" where
  "UpdateStats stats v h = (case seek_file stats of
       None \<Rightarrow> Some (False, v, h)
     | Some f \<Rightarrow>
         if fm_allowed_seeks (h f) = push_bit 31 1 then None
         else
           let seeks = fm_allowed_seeks (h f) - 1;
               h = h(f := (h f)\<lparr>fm_allowed_seeks := seeks\<rparr>) in
           if seeks \<le>s 0 \<and> v_file_to_compact v = None
           then Some (True, v\<lparr>v_file_to_compact := Some f, v_file_to_compact_level := seek_file_level stats\<rparr>, h)
           else Some (False, v, h))"

text \<open>The matches counted and the statistics, uninitialised before the first match.\<close>

definition sample_match :: "int \<times> GetStats \<Rightarrow> nat \<Rightarrow> file_ptr \<Rightarrow> (int \<times> GetStats) \<times> bool" where
  "sample_match state level f = (case state of (matches, stats) \<Rightarrow>
     let matches = matches + 1;
         stats = (if matches = 1 then \<lparr>seek_file = Some f, seek_file_level = int level\<rparr> else stats)
     in ((matches, stats), matches < 2))"

definition RecordReadSample ::
    "(slice \<Rightarrow> slice \<Rightarrow> int option) \<Rightarrow> slice \<Rightarrow> Version \<Rightarrow> heap \<Rightarrow> (bool \<times> Version \<times> heap) option" where
  "RecordReadSample ucmp key v h = (case ParseInternalKey key of
       None \<Rightarrow> Some (False, v, h)
     | Some k \<Rightarrow> do {
         (matches, stats) \<leftarrow> ForEachOverlapping ucmp h v (pik_user_key k) key sample_match
           (0, \<lparr>seek_file = None, seek_file_level = - 1\<rparr>);
         if matches \<ge> 2 then UpdateStats stats v h else Some (False, v, h)
       })"

section \<open>Get\<close>

datatype SaverState = SaverNotFound | SaverFound | SaverDeleted | SaverCorrupt

record Saver =
  sv_state :: SaverState
  sv_user_key :: slice
  sv_value :: "byte list"

definition SaveValue :: "(slice \<Rightarrow> slice \<Rightarrow> int option) \<Rightarrow> slice \<Rightarrow> slice \<Rightarrow> Saver \<Rightarrow> Saver option" where
  "SaveValue ucmp key v s = (case ParseInternalKey key of
       None \<Rightarrow> Some (s\<lparr>sv_state := SaverCorrupt\<rparr>)
     | Some parsed_key \<Rightarrow> do {
         c \<leftarrow> ucmp (pik_user_key parsed_key) (sv_user_key s);
         if c = 0 then
           if pik_type parsed_key = kTypeValue then Some (s\<lparr>sv_state := SaverFound, sv_value := v\<rparr>)
           else Some (s\<lparr>sv_state := SaverDeleted\<rparr>)
         else Some s
       })"

text \<open>
  \<^verbatim>\<open>TableCache::Get\<close>: for the number and the size of a file and an internal key, the status and the
  key and value of the call of the saver, if it is called.
\<close>

type_synonym table_cache = "uint64 \<Rightarrow> uint64 \<Rightarrow> slice \<Rightarrow> (Status \<times> (slice \<times> slice) option) option"

record get_state =
  gs_stats :: GetStats
  gs_last_file_read :: "file_ptr option"
  gs_last_file_read_level :: int
  gs_value :: "byte list"

text \<open>A file that was read before is charged at the second one.\<close>

definition charge_seek :: "get_state \<Rightarrow> get_state" where
  "charge_seek g = (if gs_last_file_read g \<noteq> None \<and> seek_file (gs_stats g) = None
     then g\<lparr>gs_stats := \<lparr>seek_file = gs_last_file_read g, seek_file_level = gs_last_file_read_level g\<rparr>\<rparr> else g)"

text \<open>The files of one level; \<open>None\<close> in the result is the end of the loop.\<close>

fun get_files ::
    "table_cache \<Rightarrow> (slice \<Rightarrow> slice \<Rightarrow> int option) \<Rightarrow> heap \<Rightarrow> slice \<Rightarrow> slice \<Rightarrow> nat \<Rightarrow> file_ptr list \<Rightarrow>
     get_state \<Rightarrow> (Status option \<times> get_state) option" where
  "get_files tc ucmp h user_key target level [] g = Some (None, g)"
| "get_files tc ucmp h user_key target level (f # files) g = do {
     let g = charge_seek g;
     let g = g\<lparr>gs_last_file_read := Some f, gs_last_file_read_level := int level\<rparr>;
     (s, saved) \<leftarrow> tc (fm_number (h f)) (fm_file_size (h f)) target;
     let saver = \<lparr>sv_state = SaverNotFound, sv_user_key = user_key, sv_value = gs_value g\<rparr>;
     saver \<leftarrow> (case saved of None \<Rightarrow> Some saver | Some (k, v) \<Rightarrow> SaveValue ucmp k v saver);
     let g = g\<lparr>gs_value := sv_value saver\<rparr>;
     if \<not> Status_ok s then Some (Some s, g)
     else (case sv_state saver of
         SaverNotFound \<Rightarrow> get_files tc ucmp h user_key target level files g
       | SaverFound \<Rightarrow> Some (Some s, g)
       | SaverDeleted \<Rightarrow> map_option (\<lambda>s. (Some s, g)) (NotFound [] [])
       | SaverCorrupt \<Rightarrow> map_option (\<lambda>s. (Some s, g)) (Corruption (str ''corrupted key for '') user_key))
   }"

fun get_levels ::
    "table_cache \<Rightarrow> (slice \<Rightarrow> slice \<Rightarrow> int option) \<Rightarrow> heap \<Rightarrow> Version \<Rightarrow> slice \<Rightarrow> slice \<Rightarrow> nat list \<Rightarrow>
     get_state \<Rightarrow> (Status \<times> get_state) option" where
  "get_levels tc ucmp h v user_key target [] g = map_option (\<lambda>s. (s, g)) (NotFound [] [])"
| "get_levels tc ucmp h v user_key target (level # levels) g = do {
     files \<leftarrow> search_files ucmp h v user_key target level;
     (s, g) \<leftarrow> get_files tc ucmp h user_key target level files g;
     (case s of None \<Rightarrow> get_levels tc ucmp h v user_key target levels g | Some s \<Rightarrow> Some (s, g))
   }"

text \<open>The status, the value, which is changed only when the key is found, and the statistics.\<close>

definition Version_Get ::
    "table_cache \<Rightarrow> (slice \<Rightarrow> slice \<Rightarrow> int option) \<Rightarrow> heap \<Rightarrow> Version \<Rightarrow> LookupKey \<Rightarrow> byte list \<Rightarrow>
     (Status \<times> byte list \<times> GetStats) option" where
  "Version_Get tc ucmp h v k val = do {
     (s, g) \<leftarrow> get_levels tc ucmp h v (lookup_user_key k) (internal_key k) [0..<num_levels]
       \<lparr>gs_stats = \<lparr>seek_file = None, seek_file_level = - 1\<rparr>, gs_last_file_read = None,
        gs_last_file_read_level = - 1, gs_value = val\<rparr>;
     Some (s, gs_value g, gs_stats g)
   }"

section \<open>Files that overlap a range\<close>

definition OverlapInLevel ::
    "(slice \<Rightarrow> slice \<Rightarrow> int option) \<Rightarrow> heap \<Rightarrow> Version \<Rightarrow> nat \<Rightarrow> slice option \<Rightarrow> slice option \<Rightarrow> bool option" where
  "OverlapInLevel ucmp h v level smallest_user_key largest_user_key = do {
     files \<leftarrow> files_at v level;
     SomeFileOverlapsRange ucmp h (level > 0) files smallest_user_key largest_user_key
   }"

definition below_bound :: "(slice \<Rightarrow> slice \<Rightarrow> int option) \<Rightarrow> slice \<Rightarrow> slice option \<Rightarrow> bool option" where
  "below_bound ucmp k bound = (case bound of None \<Rightarrow> Some False | Some b \<Rightarrow> map_option (\<lambda>c. c < 0) (ucmp k b))"

definition above_bound :: "(slice \<Rightarrow> slice \<Rightarrow> int option) \<Rightarrow> slice \<Rightarrow> slice option \<Rightarrow> bool option" where
  "above_bound ucmp k bound = (case bound of None \<Rightarrow> Some False | Some b \<Rightarrow> map_option (\<lambda>c. c > 0) (ucmp k b))"

text \<open>
  The state of the loop is \<^verbatim>\<open>i\<close>, the bounds (\<open>None\<close> for \<^verbatim>\<open>NULL\<close>) and the inputs; in level 0 it starts
  again when a file widens the range.
\<close>

type_synonym overlap_state = "nat \<times> slice option \<times> slice option \<times> file_ptr list"

definition overlap_step ::
    "(slice \<Rightarrow> slice \<Rightarrow> int option) \<Rightarrow> heap \<Rightarrow> nat \<Rightarrow> file_ptr list \<Rightarrow> overlap_state \<Rightarrow> overlap_state option" where
  "overlap_step ucmp h level files st = (case st of (i, user_begin, user_end, inputs) \<Rightarrow> do {
     let f = files ! i;
     file_start \<leftarrow> file_smallest h f;
     file_limit \<leftarrow> file_largest h f;
     before \<leftarrow> below_bound ucmp file_limit user_begin;
     outside \<leftarrow> (if before then Some True else above_bound ucmp file_start user_end);
     if outside then Some (i + 1, user_begin, user_end, inputs)
     else if level = 0 then do {
       wider \<leftarrow> below_bound ucmp file_start user_begin;
       if wider then Some (0, Some file_start, user_end, [])
       else do {
         wider \<leftarrow> above_bound ucmp file_limit user_end;
         if wider then Some (0, user_begin, Some file_limit, [])
         else Some (i + 1, user_begin, user_end, inputs @ [f])
       }
     }
     else Some (i + 1, user_begin, user_end, inputs @ [f])
   })"

partial_function (option) overlapping_loop ::
    "(slice \<Rightarrow> slice \<Rightarrow> int option) \<Rightarrow> heap \<Rightarrow> nat \<Rightarrow> file_ptr list \<Rightarrow> overlap_state \<Rightarrow> file_ptr list option" where
  [code]: "overlapping_loop ucmp h level files st =
     (if fst st < length files then do {
        st \<leftarrow> overlap_step ucmp h level files st;
        overlapping_loop ucmp h level files st
      } else Some (snd (snd (snd st))))"

definition user_bound :: "slice option \<Rightarrow> slice option option" where
  "user_bound key = (case key of None \<Rightarrow> Some None | Some k \<Rightarrow> map_option Some (ExtractUserKey k))"

definition GetOverlappingInputs ::
    "(slice \<Rightarrow> slice \<Rightarrow> int option) \<Rightarrow> heap \<Rightarrow> Version \<Rightarrow> nat \<Rightarrow> slice option \<Rightarrow> slice option \<Rightarrow> file_ptr list option" where
  "GetOverlappingInputs ucmp h v level begin_key end_key =
     (if \<not> level < num_levels then None
      else do {
        user_begin \<leftarrow> user_bound begin_key;
        user_end \<leftarrow> user_bound end_key;
        files \<leftarrow> files_at v level;
        overlapping_loop ucmp h level files (0, user_begin, user_end, [])
      })"

function pick_level_loop ::
    "(slice \<Rightarrow> slice \<Rightarrow> int option) \<Rightarrow> heap \<Rightarrow> Version \<Rightarrow> uint64 \<Rightarrow> slice \<Rightarrow> slice \<Rightarrow> slice \<Rightarrow> slice \<Rightarrow> nat \<Rightarrow> nat option" where
  "pick_level_loop ucmp h v max_file_size smallest largest start limit level =
     (if level < kMaxMemCompactLevel then do {
        overlap \<leftarrow> OverlapInLevel ucmp h v (level + 1) (Some smallest) (Some largest);
        if overlap then Some level
        else do {
          too_many \<leftarrow> (if level + 2 < num_levels then do {
              overlaps \<leftarrow> GetOverlappingInputs ucmp h v (level + 2) (Some start) (Some limit);
              bytes \<leftarrow> MaxGrandParentOverlapBytes max_file_size;
              Some (sint (TotalFileSize h overlaps) > bytes)
            } else Some False);
          if too_many then Some level
          else pick_level_loop ucmp h v max_file_size smallest largest start limit (level + 1)
        }
      } else Some level)"
  by pat_completeness auto
termination
  by (relation "measure (\<lambda>(_, _, _, _, _, _, _, _, level). kMaxMemCompactLevel - level)") auto

declare pick_level_loop.simps [simp del]

definition PickLevelForMemTableOutput ::
    "(slice \<Rightarrow> slice \<Rightarrow> int option) \<Rightarrow> heap \<Rightarrow> Version \<Rightarrow> uint64 \<Rightarrow> slice \<Rightarrow> slice \<Rightarrow> nat option" where
  "PickLevelForMemTableOutput ucmp h v max_file_size smallest_user_key largest_user_key = do {
     overlap \<leftarrow> OverlapInLevel ucmp h v 0 (Some smallest_user_key) (Some largest_user_key);
     if overlap then Some 0
     else do {
       start \<leftarrow> InternalKey smallest_user_key kMaxSequenceNumber kValueTypeForSeek;
       limit \<leftarrow> InternalKey largest_user_key 0 kTypeDeletion;
       pick_level_loop ucmp h v max_file_size smallest_user_key largest_user_key start limit 0
     }
   }"

section \<open>Printing\<close>

definition print_file :: "heap \<Rightarrow> file_ptr \<Rightarrow> byte list \<Rightarrow> byte list" where
  "print_file h f r =
     AppendNumberTo (AppendNumberTo (r @ [0x20]) (fm_number (h f)) @ [0x3a]) (fm_file_size (h f)) @ str ''['' @
     InternalKey_DebugString (fm_smallest (h f)) @ str '' .. '' @ InternalKey_DebugString (fm_largest (h f)) @ str '']'' @ [0xa]"

fun print_level :: "heap \<Rightarrow> nat \<times> file_ptr list \<Rightarrow> byte list \<Rightarrow> byte list" where
  "print_level h (level, files) r = fold (print_file h) files
     (AppendNumberTo (r @ str ''--- level '') (of_nat level) @ str '' ---'' @ [0xa])"

definition Version_DebugString :: "heap \<Rightarrow> Version \<Rightarrow> byte list" where
  "Version_DebugString h v = fold (print_level h) (zip [0..<num_levels] (v_files v)) []"

section \<open>The range of a set of files\<close>

text \<open>The smallest and the largest internal key; the assertion is that there is a file.\<close>

fun range_loop ::
    "(slice \<Rightarrow> slice \<Rightarrow> int option) \<Rightarrow> heap \<Rightarrow> file_ptr list \<Rightarrow> slice \<times> slice \<Rightarrow> (slice \<times> slice) option" where
  "range_loop icmp h [] r = Some r"
| "range_loop icmp h (f # files) (smallest, largest) = do {
     c \<leftarrow> icmp (fm_smallest (h f)) smallest;
     d \<leftarrow> icmp (fm_largest (h f)) largest;
     range_loop icmp h files
       (if c < 0 then fm_smallest (h f) else smallest, if d > 0 then fm_largest (h f) else largest)
   }"

definition GetRange ::
    "(slice \<Rightarrow> slice \<Rightarrow> int option) \<Rightarrow> heap \<Rightarrow> file_ptr list \<Rightarrow> (slice \<times> slice) option" where
  "GetRange icmp h inputs = (case inputs of
       [] \<Rightarrow> None
     | f # files \<Rightarrow> range_loop icmp h files (fm_smallest (h f), fm_largest (h f)))"

definition GetRange2 ::
    "(slice \<Rightarrow> slice \<Rightarrow> int option) \<Rightarrow> heap \<Rightarrow> file_ptr list \<Rightarrow> file_ptr list \<Rightarrow> (slice \<times> slice) option" where
  "GetRange2 icmp h inputs1 inputs2 = GetRange icmp h (inputs1 @ inputs2)"

end
