(* ===== verification/L_Format.thy ===== *)
theory L_Format
  imports L_Status L_Crc32c
begin

text \<open>
  Model of \<^verbatim>\<open>table/format.h\<close> and \<^verbatim>\<open>table/format.cc\<close> and of the Snappy functions of
  \<^verbatim>\<open>port/port_posix.h\<close>: block handles, the footer of a table and the reading of one block. A
  \<^verbatim>\<open>RandomAccessFile\<close> is a parameter, its operation \<^verbatim>\<open>Read\<close> a function of the state of the file; it
  returns the bytes and whether they are in the buffer of the caller.
\<close>

section \<open>Block handles\<close>

record BlockHandle =
  bh_offset :: uint64
  bh_size :: uint64

definition mk_BlockHandle :: BlockHandle where
  "mk_BlockHandle = \<lparr>bh_offset = NOT 0, bh_size = NOT 0\<rparr>"

definition kMaxEncodedLength :: nat where
  "kMaxEncodedLength = 10 + 10"

definition BlockHandle_EncodeTo :: "BlockHandle \<Rightarrow> byte list \<Rightarrow> byte list option" where
  "BlockHandle_EncodeTo h dst = (if bh_offset h \<noteq> NOT 0 \<and> bh_size h \<noteq> NOT 0
     then Some (PutVarint64 (PutVarint64 dst (bh_offset h)) (bh_size h)) else None)"

definition BlockHandle_DecodeFrom :: "BlockHandle \<Rightarrow> slice \<Rightarrow> (Status \<times> BlockHandle \<times> slice) option" where
  "BlockHandle_DecodeFrom h input = (case GetVarint64 input of
       (None, input) \<Rightarrow> map_option (\<lambda>s. (s, h, input)) (Corruption (str ''bad block handle'') [])
     | (Some offset, input) \<Rightarrow>
         let h = h\<lparr>bh_offset := offset\<rparr> in
         (case GetVarint64 input of
             (None, input) \<Rightarrow> map_option (\<lambda>s. (s, h, input)) (Corruption (str ''bad block handle'') [])
           | (Some sz, input) \<Rightarrow> Some (Status_OK, h\<lparr>bh_size := sz\<rparr>, input)))"

section \<open>The footer\<close>

record Footer =
  ft_metaindex_handle :: BlockHandle
  ft_index_handle :: BlockHandle

definition mk_Footer :: Footer where
  "mk_Footer = \<lparr>ft_metaindex_handle = mk_BlockHandle, ft_index_handle = mk_BlockHandle\<rparr>"

definition kEncodedLength :: nat where
  "kEncodedLength = 2 * kMaxEncodedLength + 8"

definition kTableMagicNumber :: uint64 where
  "kTableMagicNumber = 0xdb4775248b80fb57"

definition resize :: "nat \<Rightarrow> byte list \<Rightarrow> byte list" where
  "resize n s = take n s @ replicate (n - length s) 0"

lemma length_resize: "length (resize n s) = n"
  by (simp add: resize_def)

definition Footer_EncodeTo :: "Footer \<Rightarrow> byte list \<Rightarrow> byte list option" where
  "Footer_EncodeTo f dst = do {
     let original_size = length dst;
     dst \<leftarrow> BlockHandle_EncodeTo (ft_metaindex_handle f) dst;
     dst \<leftarrow> BlockHandle_EncodeTo (ft_index_handle f) dst;
     let dst = resize (2 * kMaxEncodedLength) dst;
     let dst = PutFixed32 dst (ucast (kTableMagicNumber AND 0xffffffff));
     let dst = PutFixed32 dst (ucast (drop_bit 32 kTableMagicNumber));
     if length dst = original_size + kEncodedLength then Some dst else None
   }"

text \<open>The magic number is read without a check of the length of the input.\<close>

definition Footer_DecodeFrom :: "Footer \<Rightarrow> slice \<Rightarrow> (Status \<times> Footer \<times> slice) option" where
  "Footer_DecodeFrom f input = do {
     let magic_ptr = kEncodedLength - 8;
     magic_lo \<leftarrow> DecodeFixed32 (drop magic_ptr input);
     magic_hi \<leftarrow> DecodeFixed32 (drop (magic_ptr + 4) input);
     let magic = push_bit 32 (ucast magic_hi) OR (ucast magic_lo :: uint64);
     if magic \<noteq> kTableMagicNumber
     then map_option (\<lambda>s. (s, f, input)) (Corruption (str ''not an sstable (bad magic number)'') [])
     else do {
       (result, h, rest) \<leftarrow> BlockHandle_DecodeFrom (ft_metaindex_handle f) input;
       let f = f\<lparr>ft_metaindex_handle := h\<rparr>;
       if \<not> Status_ok result then Some (result, f, rest)
       else do {
         (result, h, rest) \<leftarrow> BlockHandle_DecodeFrom (ft_index_handle f) rest;
         let f = f\<lparr>ft_index_handle := h\<rparr>;
         if \<not> Status_ok result then Some (result, f, rest)
         else Some (result, f, drop (magic_ptr + 8) input)
       }
     }
   }"

section \<open>Reading a block\<close>

definition kNoCompression :: byte where "kNoCompression = 0"
definition kSnappyCompression :: byte where "kSnappyCompression = 1"

definition kBlockTrailerSize :: uint64 where
  "kBlockTrailerSize = 5"

text \<open>
  The functions of the port: \<open>None\<close> is \<^verbatim>\<open>false\<close>. \<^verbatim>\<open>SNAPPY\<close> is not defined in the build of the
  application, where all of them return \<^verbatim>\<open>false\<close>; with it they are those of the library.
\<close>

record snappy =
  Snappy_Compress :: "slice \<Rightarrow> byte list option"
  Snappy_GetUncompressedLength :: "slice \<Rightarrow> nat option"
  Snappy_Uncompress :: "slice \<Rightarrow> byte list option"

definition no_snappy :: snappy where
  "no_snappy = \<lparr>Snappy_Compress = (\<lambda>_. None), Snappy_GetUncompressedLength = (\<lambda>_. None),
     Snappy_Uncompress = (\<lambda>_. None)\<rparr>"

record 'f random_file =
  raf_Read :: "'f \<Rightarrow> uint64 \<Rightarrow> uint64 \<Rightarrow> Status \<times> slice \<times> bool"

record BlockContents =
  bc_data :: slice
  bc_cachable :: bool
  bc_heap_allocated :: bool

definition ReadBlock ::
    "snappy \<Rightarrow> 'f random_file \<Rightarrow> 'f \<Rightarrow> bool \<Rightarrow> BlockHandle \<Rightarrow> (Status \<times> BlockContents) option" where
  "ReadBlock S R file verify_checksums handle = (
     let result = \<lparr>bc_data = [], bc_cachable = False, bc_heap_allocated = False\<rparr>;
         n = bh_size handle;
         (s, contents, own) = raf_Read R file (bh_offset handle) (n + kBlockTrailerSize)
     in if \<not> Status_ok s then Some (s, result)
     else if of_nat (length contents) \<noteq> n + kBlockTrailerSize
     then map_option (\<lambda>s. (s, result)) (Corruption (str ''truncated block read'') [])
     else do {
       bad \<leftarrow> (if verify_checksums then do {
           stored \<leftarrow> DecodeFixed32 (drop (unat n + 1) contents);
           actual \<leftarrow> (if unat n + 1 \<le> length contents then Value (take (unat n + 1) contents) else None);
           Some (actual \<noteq> Unmask stored)
         } else Some False);
       if bad then map_option (\<lambda>s. (s, result)) (Corruption (str ''block checksum mismatch'') [])
       else do {
         ty \<leftarrow> slice_nth contents (unat n);
         let data = take (unat n) contents;
         if ty = kNoCompression
         then Some (Status_OK, \<lparr>bc_data = data, bc_cachable = own, bc_heap_allocated = own\<rparr>)
         else if ty = kSnappyCompression then
           (case Snappy_GetUncompressedLength S data of
               None \<Rightarrow> map_option (\<lambda>s. (s, result)) (Corruption (str ''corrupted compressed block contents'') [])
             | Some ulength \<Rightarrow> (case Snappy_Uncompress S data of
                 None \<Rightarrow> map_option (\<lambda>s. (s, result)) (Corruption (str ''corrupted compressed block contents'') [])
               | Some ubuf \<Rightarrow> if length ubuf = ulength
                   then Some (Status_OK, \<lparr>bc_data = ubuf, bc_cachable = True, bc_heap_allocated = True\<rparr>)
                   else None))
         else map_option (\<lambda>s. (s, result)) (Corruption (str ''bad block type'') [])
       }
     })"

section \<open>Round trips\<close>

definition handle_ok :: "BlockHandle \<Rightarrow> bool" where
  "handle_ok h \<longleftrightarrow> bh_offset h \<noteq> NOT 0 \<and> bh_size h \<noteq> NOT 0"

definition handle_bytes :: "BlockHandle \<Rightarrow> byte list" where
  "handle_bytes h = leb128 (unat (bh_offset h)) @ leb128 (unat (bh_size h))"

lemma BlockHandle_EncodeTo_bytes: "handle_ok h \<Longrightarrow> BlockHandle_EncodeTo h dst = Some (dst @ handle_bytes h)"
  by (simp add: handle_ok_def BlockHandle_EncodeTo_def handle_bytes_def PutVarint64_def EncodeVarint64_leb128)

lemma BlockHandle_DecodeFrom_bytes:
  "BlockHandle_DecodeFrom g (handle_bytes h @ rest) = Some (Status_OK, h, rest)"
  by (simp add: BlockHandle_DecodeFrom_def handle_bytes_def GetVarint64_def GetVarint64Ptr_leb128)

lemma length_handle_bytes: "length (handle_bytes h) \<le> kMaxEncodedLength"
proof -
  have "unat (bh_offset h) < 2 ^ LENGTH(64)" "unat (bh_size h) < 2 ^ LENGTH(64)" by (rule unsigned_less)+
  then show ?thesis
    using length_leb128 [of "unat (bh_offset h)" 9] length_leb128 [of "unat (bh_size h)" 9]
    by (simp add: handle_bytes_def kMaxEncodedLength_def)
qed

definition footer_bytes :: "Footer \<Rightarrow> byte list" where
  "footer_bytes f = (let hs = handle_bytes (ft_metaindex_handle f) @ handle_bytes (ft_index_handle f)
     in hs @ replicate (2 * kMaxEncodedLength - length hs) 0 @ le_bytes 8 kTableMagicNumber)"

definition footer_ok :: "Footer \<Rightarrow> bool" where
  "footer_ok f \<longleftrightarrow> handle_ok (ft_metaindex_handle f) \<and> handle_ok (ft_index_handle f)"

lemma length_footer_bytes: "length (footer_bytes f) = kEncodedLength"
  using length_handle_bytes [of "ft_metaindex_handle f"] length_handle_bytes [of "ft_index_handle f"]
  by (simp add: footer_bytes_def kEncodedLength_def Let_def)

lemma magic_bytes:
  "le_bytes 4 (ucast (kTableMagicNumber AND 0xffffffff) :: uint32) @
   le_bytes 4 (ucast (drop_bit 32 kTableMagicNumber) :: uint32) = le_bytes 8 kTableMagicNumber"
  by code_simp

lemma magic_bytes': "le_bytes 8 kTableMagicNumber = le_bytes 4 (0x8b80fb57 :: uint32) @ le_bytes 4 (0xdb477524 :: uint32)"
  by code_simp

lemma Footer_EncodeTo_bytes:
  assumes "footer_ok f"
  shows "Footer_EncodeTo f [] = Some (footer_bytes f)"
proof -
  let ?hs = "handle_bytes (ft_metaindex_handle f) @ handle_bytes (ft_index_handle f)"
  have len: "length ?hs \<le> 2 * kMaxEncodedLength"
    using length_handle_bytes [of "ft_metaindex_handle f"] length_handle_bytes [of "ft_index_handle f"] by simp
  then have "resize (2 * kMaxEncodedLength) ?hs = ?hs @ replicate (2 * kMaxEncodedLength - length ?hs) 0"
    by (simp add: resize_def)
  then show ?thesis
    using assms len magic_bytes
    by (simp add: Footer_EncodeTo_def footer_ok_def BlockHandle_EncodeTo_bytes footer_bytes_def PutFixed32_def
        kEncodedLength_def Let_def)
qed

lemma Footer_DecodeFrom_bytes:
  "Footer_DecodeFrom g (footer_bytes f @ rest) = Some (Status_OK, f, rest)"
proof -
  let ?hs = "handle_bytes (ft_metaindex_handle f) @ handle_bytes (ft_index_handle f)"
  let ?pad = "replicate (2 * kMaxEncodedLength - length ?hs) 0 :: byte list"
  have len: "length (?hs @ ?pad) = 40"
    using length_handle_bytes [of "ft_metaindex_handle f"] length_handle_bytes [of "ft_index_handle f"]
    by (simp add: kMaxEncodedLength_def)
  have bytes: "footer_bytes f = (?hs @ ?pad) @ le_bytes 4 (0x8b80fb57 :: uint32) @ le_bytes 4 (0xdb477524 :: uint32)"
    by (simp only: footer_bytes_def Let_def magic_bytes' append_assoc)
  have ptr: "kEncodedLength - 8 = 40" by (simp add: kEncodedLength_def kMaxEncodedLength_def)
  have lo: "DecodeFixed32 (drop 40 (footer_bytes f @ rest)) = Some 0x8b80fb57"
    unfolding bytes using len by (simp del: append_assoc) (simp add: append_assoc)
  have hi: "DecodeFixed32 (drop (40 + 4) (footer_bytes f @ rest)) = Some 0xdb477524"
    unfolding drop_drop [symmetric] bytes using len by (simp add: add.commute)
  have magic: "push_bit 32 (ucast (0xdb477524 :: uint32)) OR ucast (0x8b80fb57 :: uint32) = kTableMagicNumber"
    by (simp add: kTableMagicNumber_def)
  have "drop (40 + 8) (footer_bytes f @ rest) = rest"
    using length_footer_bytes [of f] by (simp add: kEncodedLength_def kMaxEncodedLength_def)
  moreover have "footer_bytes f @ rest = handle_bytes (ft_metaindex_handle f) @ handle_bytes (ft_index_handle f) @
      (?pad @ le_bytes 8 kTableMagicNumber @ rest)"
    by (simp add: footer_bytes_def Let_def)
  ultimately show ?thesis
    using lo hi magic unfolding Footer_DecodeFrom_def ptr
    by (simp add: BlockHandle_DecodeFrom_bytes Status_ok_def Status_OK_def Let_def)
qed

text \<open>
  \<^verbatim>\<open>resize\<close> counts from the start of \<^verbatim>\<open>*dst\<close>: a footer can only be appended to an empty string, the
  final assertion fails on every other one.
\<close>

lemma footer_needs_empty_string:
  assumes "dst \<noteq> []"
  shows "Footer_EncodeTo f dst = None"
  using assms
  by (simp add: Footer_EncodeTo_def PutFixed32_def length_resize kEncodedLength_def Let_def Option.bind_eq_None_conv)

section \<open>Stored blocks\<close>

text \<open>A block with its trailer, and the file of the memory environment.\<close>

definition stored_block :: "slice \<Rightarrow> byte \<Rightarrow> byte list" where
  "stored_block contents ty = contents @ [ty] @ le_bytes 4 (Mask (crc32c 0 (contents @ [ty])))"

definition mem_random :: "byte list random_file" where
  "mem_random = \<lparr>raf_Read = (\<lambda>f offset n. (Status_OK, take (unat n) (drop (unat offset) f), True))\<rparr>"

lemma unat_small64: "n < 2 ^ 64 \<Longrightarrow> unat (of_nat n :: uint64) = n"
  by (simp add: unat_of_nat)

text \<open>What the port promises: it uncompresses what it has compressed.\<close>

locale snappy_port =
  fixes S :: snappy
  assumes uncompress: "Snappy_Compress S x = Some c \<Longrightarrow>
    Snappy_GetUncompressedLength S c = Some (length x) \<and> Snappy_Uncompress S c = Some x"
begin

text \<open>The contents of a block as \<^verbatim>\<open>WriteBlock\<close> stores them.\<close>

definition stores :: "slice \<Rightarrow> slice \<Rightarrow> byte \<Rightarrow> bool" where
  "stores raw contents ty \<longleftrightarrow> ty = kNoCompression \<and> contents = raw \<or>
     ty = kSnappyCompression \<and> Snappy_Compress S raw = Some contents"

lemma ReadBlock_stored:
  assumes "raf_Read R file (bh_offset h) (bh_size h + kBlockTrailerSize) = (Status_OK, stored_block contents ty, own)"
    and "bh_size h = of_nat (length contents)" and "length contents + 5 < 2 ^ 64" and "stores raw contents ty"
  shows "\<exists>c. ReadBlock S R file verify h = Some (Status_OK, c) \<and> bc_data c = raw"
proof -
  have n: "unat (bh_size h) = length contents" "of_nat (length contents + 5) = bh_size h + kBlockTrailerSize"
    using assms(2,3) by (simp_all add: unat_of_nat kBlockTrailerSize_def)
  have len: "length (stored_block contents ty) = length contents + 5" by (simp add: stored_block_def)
  have crc: "DecodeFixed32 (drop (unat (bh_size h) + 1) (stored_block contents ty)) =
      Some (Mask (crc32c 0 (contents @ [ty])))"
    using DecodeFixed32_le_bytes [of "Mask (crc32c 0 (contents @ [ty]))" "[]"]
    by (simp add: n stored_block_def)
  have "take (unat (bh_size h) + 1) (stored_block contents ty) = contents @ [ty]"
    by (simp add: n stored_block_def)
  moreover have "slice_nth (stored_block contents ty) (unat (bh_size h)) = Some ty"
    "take (unat (bh_size h)) (stored_block contents ty) = contents"
    by (simp_all add: n slice_nth_def stored_block_def)
  ultimately show ?thesis
    using assms(1,4) crc len n(2) uncompress [of raw contents]
    by (auto simp: ReadBlock_def Let_def Status_ok_def Status_OK_def n(1) stores_def
        kNoCompression_def kSnappyCompression_def)
qed

lemma ReadBlock_mem:
  assumes "file = pre @ stored_block contents ty @ post" and "length file < 2 ^ 64"
    and "h = \<lparr>bh_offset = of_nat (length pre), bh_size = of_nat (length contents)\<rparr>" and "stores raw contents ty"
  shows "\<exists>c. ReadBlock S mem_random file verify h = Some (Status_OK, c) \<and> bc_data c = raw"
proof (rule ReadBlock_stored)
  have len: "length (stored_block contents ty) = length contents + 5" by (simp add: stored_block_def)
  show "length contents + 5 < 2 ^ 64" using assms(1,2) len by simp
  then have "unat (bh_size h + kBlockTrailerSize) = length contents + 5"
    using assms(3) unat_small64 [of "length contents + 5"] by (simp add: kBlockTrailerSize_def)
  moreover have "unat (bh_offset h) = length pre" using assms(1,2,3) by (simp add: unat_of_nat)
  ultimately show "raf_Read mem_random file (bh_offset h) (bh_size h + kBlockTrailerSize) = (Status_OK, stored_block contents ty, True)"
    using assms(1) len by (simp add: mem_random_def)
qed (use assms in simp_all)

end

interpretation no_snappy: snappy_port no_snappy
  by unfold_locales (simp add: no_snappy_def)

text \<open>
  The size of a corrupted handle can make \<^verbatim>\<open>n + kBlockTrailerSize\<close> wrap around: \<^verbatim>\<open>ReadBlock\<close> then
  accepts a read of two bytes for a block of 2^64 - 3 and has no defined result.
\<close>

lemma read_block_wraps:
  "ReadBlock no_snappy mem_random [1, 2] verify \<lparr>bh_offset = 0, bh_size = 0xFFFFFFFFFFFFFFFD\<rparr> = None"
  by (cases verify) (simp_all add: ReadBlock_def mem_random_def kBlockTrailerSize_def Status_ok_def Status_OK_def
      slice_nth_def DecodeFixed32_le)

end
