(* ===== verification/L_Block.thy ===== *)
theory L_Block
  imports L_Dbformat L_Status
begin

text \<open>
  Model of \<^verbatim>\<open>table/block_builder.cc\<close>, \<^verbatim>\<open>table/block.cc\<close> and the empty iterator of
  \<^verbatim>\<open>table/iterator.cc\<close>: blocks of prefix-compressed entries with restart points. A pointer into the
  contents of a block is its offset, and a range \<^verbatim>\<open>[p, limit)\<close> that a parser gets the list of its
  bytes. Failed assertions, reads outside the contents and loops that do not end are \<open>None\<close>.
\<close>

section \<open>The builder\<close>

text \<open>\<^verbatim>\<open>block_restart_interval\<close> and the comparator of the options are parameters.\<close>

record block_builder =
  bb_buffer :: "byte list"
  bb_restarts :: "uint32 list"
  bb_counter :: int
  bb_finished :: bool
  bb_last_key :: "byte list"

definition mk_BlockBuilder :: "int \<Rightarrow> block_builder option" where
  "mk_BlockBuilder block_restart_interval = (if block_restart_interval \<ge> 1 then
     Some \<lparr>bb_buffer = [], bb_restarts = [0], bb_counter = 0, bb_finished = False, bb_last_key = []\<rparr>
   else None)"

definition BlockBuilder_Reset :: "block_builder \<Rightarrow> block_builder" where
  "BlockBuilder_Reset b = b\<lparr>bb_buffer := [], bb_restarts := [] @ [0], bb_counter := 0,
     bb_finished := False, bb_last_key := []\<rparr>"

definition CurrentSizeEstimate :: "block_builder \<Rightarrow> nat" where
  "CurrentSizeEstimate b = length (bb_buffer b) + length (bb_restarts b) * 4 + 4"

definition BlockBuilder_empty :: "block_builder \<Rightarrow> bool" where
  "BlockBuilder_empty b \<longleftrightarrow> bb_buffer b = []"

definition BlockBuilder_Finish :: "block_builder \<Rightarrow> slice \<times> block_builder" where
  "BlockBuilder_Finish b = (
     let buffer = fold (\<lambda>r dst. PutFixed32 dst r) (bb_restarts b) (bb_buffer b);
         buffer = PutFixed32 buffer (of_nat (length (bb_restarts b)))
     in (buffer, b\<lparr>bb_buffer := buffer, bb_finished := True\<rparr>))"

text \<open>The loop that counts the bytes shared with the previous key.\<close>

fun shared_loop :: "slice \<Rightarrow> slice \<Rightarrow> nat \<Rightarrow> nat" where
  "shared_loop (a # last_key_piece) (b # key) shared =
     (if a = b then shared_loop last_key_piece key (shared + 1) else shared)"
| "shared_loop last_key_piece key shared = shared"

definition BlockBuilder_Add ::
    "int \<Rightarrow> (slice \<Rightarrow> slice \<Rightarrow> int option) \<Rightarrow> slice \<Rightarrow> slice \<Rightarrow> block_builder \<Rightarrow> block_builder option" where
  "BlockBuilder_Add block_restart_interval Compare key value b =
     (if bb_finished b \<or> \<not> bb_counter b \<le> block_restart_interval then None
      else do {
        above \<leftarrow> if bb_buffer b = [] then Some True
                 else map_option (\<lambda>c. c > 0) (Compare key (bb_last_key b));
        if \<not> above then None else do {
          let (shared, b) = (if bb_counter b < block_restart_interval
            then (shared_loop (bb_last_key b) key 0, b)
            else (0, b\<lparr>bb_restarts := bb_restarts b @ [of_nat (length (bb_buffer b))], bb_counter := 0\<rparr>));
          let non_shared = length key - shared;
          let buffer = PutVarint32 (bb_buffer b) (of_nat shared);
          let buffer = PutVarint32 buffer (of_nat non_shared);
          let buffer = PutVarint32 buffer (of_nat (length value));
          let buffer = buffer @ drop shared key @ value;
          let last_key = take shared (bb_last_key b) @ drop shared key;
          if last_key \<noteq> key then None
          else Some (b\<lparr>bb_buffer := buffer, bb_last_key := last_key, bb_counter := bb_counter b + 1\<rparr>)
        }
      })"

section \<open>Blocks\<close>

text \<open>\<^verbatim>\<open>restart_offset_\<close> is not initialised in a block with the error marker.\<close>

record Block =
  blk_data :: "byte list"
  blk_size :: nat
  blk_restart_offset :: "uint32 option"

definition NumRestarts :: "Block \<Rightarrow> uint32 option" where
  "NumRestarts b = (if blk_size b \<ge> 4 then DecodeFixed32 (drop (blk_size b - 4) (blk_data b)) else None)"

definition mk_Block :: "slice \<Rightarrow> Block option" where
  "mk_Block contents = (
     let b = \<lparr>blk_data = contents, blk_size = length contents, blk_restart_offset = None\<rparr> in
     if blk_size b < 4 then Some (b\<lparr>blk_size := 0\<rparr>)
     else do {
       let max_restarts_allowed = (blk_size b - 4) div 4;
       n \<leftarrow> NumRestarts b;
       if unat n > max_restarts_allowed then Some (b\<lparr>blk_size := 0\<rparr>)
       else Some (b\<lparr>blk_restart_offset := Some (of_nat (blk_size b) - of_nat (unat (1 + n) * 4))\<rparr>)
     })"

text \<open>
  \<^verbatim>\<open>DecodeEntry\<close> on the range \<^verbatim>\<open>[p, limit)\<close>: the three lengths and the range that is left. The two
  lengths are added as 32-bit numbers.
\<close>

definition DecodeEntry :: "byte list \<Rightarrow> (uint32 \<times> uint32 \<times> uint32 \<times> byte list) option" where
  "DecodeEntry p = (if length p < 3 then None else do {
     let shared = (ucast (p ! 0) :: uint32);
     let non_shared = (ucast (p ! 1) :: uint32);
     let value_length = (ucast (p ! 2) :: uint32);
     (shared, non_shared, value_length, p) \<leftarrow>
       (if shared OR non_shared OR value_length < 128
        then Some (shared, non_shared, value_length, drop 3 p)
        else do {
          (shared, p) \<leftarrow> GetVarint32Ptr p;
          (non_shared, p) \<leftarrow> GetVarint32Ptr p;
          (value_length, p) \<leftarrow> GetVarint32Ptr p;
          Some (shared, non_shared, value_length, p)
        });
     if of_nat (length p) < non_shared + value_length then None
     else Some (shared, non_shared, value_length, p)
   })"

section \<open>Iterators\<close>

text \<open>
  A value is the offset and length of a slice of the contents, \<open>None\<close> for the empty slice of a
  cleared member, which does not point into them. The slice is formed without reading its bytes; what
  \<^verbatim>\<open>value()\<close> returns has no defined contents when the range leaves those of the block.
\<close>

record block_iter =
  bi_data :: "byte list"
  bi_restarts :: uint32
  bi_num_restarts :: uint32
  bi_current :: uint32
  bi_restart_index :: uint32
  bi_key :: "byte list"
  bi_value :: "(nat \<times> nat) option"
  bi_status :: Status

definition mk_Iter :: "byte list \<Rightarrow> uint32 \<Rightarrow> uint32 \<Rightarrow> block_iter option" where
  "mk_Iter data restarts num_restarts = (if num_restarts > 0 then
     Some \<lparr>bi_data = data, bi_restarts = restarts, bi_num_restarts = num_restarts,
       bi_current = restarts, bi_restart_index = num_restarts, bi_key = [], bi_value = None,
       bi_status = Status_OK\<rparr>
   else None)"

definition NextEntryOffset :: "block_iter \<Rightarrow> uint32 option" where
  "NextEntryOffset it = map_option (\<lambda>(offset, len). of_nat (offset + len)) (bi_value it)"

definition GetRestartPoint :: "block_iter \<Rightarrow> uint32 \<Rightarrow> uint32 option" where
  "GetRestartPoint it index = (if index < bi_num_restarts it
     then DecodeFixed32 (drop (unat (bi_restarts it) + unat index * 4) (bi_data it)) else None)"

definition SeekToRestartPoint :: "uint32 \<Rightarrow> block_iter \<Rightarrow> block_iter option" where
  "SeekToRestartPoint index it = do {
     let it = it\<lparr>bi_key := [], bi_restart_index := index\<rparr>;
     offset \<leftarrow> GetRestartPoint it index;
     Some (it\<lparr>bi_value := Some (unat offset, 0)\<rparr>)
   }"

definition bi_Valid :: "block_iter \<Rightarrow> bool" where
  "bi_Valid it \<longleftrightarrow> bi_current it < bi_restarts it"

definition bi_get_key :: "block_iter \<Rightarrow> slice option" where
  "bi_get_key it = (if bi_Valid it then Some (bi_key it) else None)"

definition bi_get_value :: "block_iter \<Rightarrow> slice option" where
  "bi_get_value it = (if bi_Valid it then (case bi_value it of None \<Rightarrow> Some []
     | Some (offset, len) \<Rightarrow> if offset + len \<le> length (bi_data it)
                           then Some (take len (drop offset (bi_data it))) else None) else None)"

definition CorruptionError :: "block_iter \<Rightarrow> block_iter option" where
  "CorruptionError it = do {
     status \<leftarrow> Corruption (str ''bad entry in block'') [];
     Some (it\<lparr>bi_current := bi_restarts it, bi_restart_index := bi_num_restarts it,
       bi_status := status, bi_key := [], bi_value := None\<rparr>)
   }"

lemma restart_step:
  assumes "i + 1 < (n :: uint32)"
  shows "unat (n - (i + 2)) < unat (n - (i + 1))"
proof -
  have eq: "n - (i + 2) = n - (i + 1) - 1" by (simp add: algebra_simps)
  have ne: "n - (i + 1) \<noteq> 0" using assms by auto
  have "unat (n - (i + 2)) = unat (n - (i + 1)) - 1" unfolding eq using ne by (rule unat_minus_one)
  moreover have "unat (n - (i + 1)) \<noteq> 0" using ne by (simp add: unat_eq_0)
  ultimately show ?thesis by linarith
qed

function restart_loop :: "block_iter \<Rightarrow> block_iter option" where
  "restart_loop it =
     (if bi_restart_index it + 1 < bi_num_restarts it then do {
        point \<leftarrow> GetRestartPoint it (bi_restart_index it + 1);
        if point < bi_current it then restart_loop (it\<lparr>bi_restart_index := bi_restart_index it + 1\<rparr>)
        else Some it
      } else Some it)"
  by pat_completeness auto
termination
  by (relation "measure (\<lambda>it. unat (bi_num_restarts it - (bi_restart_index it + 1)))")
    (simp_all add: restart_step add.assoc)

declare restart_loop.simps [simp del]

definition ParseNextKey :: "block_iter \<Rightarrow> (bool \<times> block_iter) option" where
  "ParseNextKey it = do {
     current \<leftarrow> NextEntryOffset it;
     let it = it\<lparr>bi_current := current\<rparr>;
     if current \<ge> bi_restarts it
     then Some (False, it\<lparr>bi_current := bi_restarts it, bi_restart_index := bi_num_restarts it\<rparr>)
     else (case DecodeEntry (drop (unat current) (take (unat (bi_restarts it)) (bi_data it))) of
         None \<Rightarrow> do { it \<leftarrow> CorruptionError it; Some (False, it) }
       | Some (shared, non_shared, value_length, rest) \<Rightarrow>
           if length (bi_key it) < unat shared then do { it \<leftarrow> CorruptionError it; Some (False, it) }
           else
             let p = unat (bi_restarts it) - length rest in
             if p + unat non_shared > length (bi_data it) then None
             else do {
               let it = it\<lparr>bi_key := take (unat shared) (bi_key it) @ take (unat non_shared) (drop p (bi_data it)),
                           bi_value := Some (p + unat non_shared, unat value_length)\<rparr>;
               it \<leftarrow> restart_loop it;
               Some (True, it)
             })
   }"

definition bi_Next :: "block_iter \<Rightarrow> block_iter option" where
  "bi_Next it = (if bi_Valid it then do { (ok, it) \<leftarrow> ParseNextKey it; Some it } else None)"

text \<open>The loops of \<^verbatim>\<open>Prev\<close> and \<^verbatim>\<open>SeekToLast\<close>: parse until the end of an entry is at \<open>stop\<close>.\<close>

partial_function (option) parse_until :: "uint32 \<Rightarrow> block_iter \<Rightarrow> block_iter option" where
  "parse_until stop it = do {
     (ok, it) \<leftarrow> ParseNextKey it;
     if ok then do {
       offset \<leftarrow> NextEntryOffset it;
       if offset < stop then parse_until stop it else Some it
     } else Some it
   }"

text \<open>The scan backwards over the restart points; \<open>False\<close> when there is no entry before.\<close>

function before_loop :: "uint32 \<Rightarrow> block_iter \<Rightarrow> (bool \<times> block_iter) option" where
  "before_loop original it = do {
     point \<leftarrow> GetRestartPoint it (bi_restart_index it);
     if point \<ge> original then
       (if bi_restart_index it = 0
        then Some (False, it\<lparr>bi_current := bi_restarts it, bi_restart_index := bi_num_restarts it\<rparr>)
        else before_loop original (it\<lparr>bi_restart_index := bi_restart_index it - 1\<rparr>))
     else Some (True, it)
   }"
  by pat_completeness auto
termination
  by (relation "measure (\<lambda>(_, it). unat (bi_restart_index it))") (auto simp: unat_minus_one unat_gt_0)

declare before_loop.simps [simp del]

definition bi_Prev :: "block_iter \<Rightarrow> block_iter option" where
  "bi_Prev it = (if bi_Valid it then do {
       let original = bi_current it;
       (found, it) \<leftarrow> before_loop original it;
       if found then do {
         it \<leftarrow> SeekToRestartPoint (bi_restart_index it) it;
         parse_until original it
       } else Some it
     } else None)"

text \<open>The binary search over the restart points; \<open>None\<close> for \<^verbatim>\<open>left\<close> is a corrupted entry.\<close>

partial_function (option) search_loop ::
    "(slice \<Rightarrow> slice \<Rightarrow> int option) \<Rightarrow> slice \<Rightarrow> block_iter \<Rightarrow> uint32 \<Rightarrow> uint32 \<Rightarrow> uint32 option option" where
  "search_loop Compare target it left right =
     (if left < right then do {
        let mid = (left + right + 1) div 2;
        region_offset \<leftarrow> GetRestartPoint it mid;
        (case DecodeEntry (drop (unat region_offset) (take (unat (bi_restarts it)) (bi_data it))) of
            None \<Rightarrow> Some None
          | Some (shared, non_shared, value_length, rest) \<Rightarrow>
              if shared \<noteq> 0 then Some None
              else let p = unat (bi_restarts it) - length rest in
                if p + unat non_shared > length (bi_data it) then None
                else do {
                  c \<leftarrow> Compare (take (unat non_shared) (drop p (bi_data it))) target;
                  if c < 0 then search_loop Compare target it mid right
                  else search_loop Compare target it left (mid - 1)
                })
      } else Some (Some left))"

text \<open>The linear search.\<close>

partial_function (option) linear_loop ::
    "(slice \<Rightarrow> slice \<Rightarrow> int option) \<Rightarrow> slice \<Rightarrow> block_iter \<Rightarrow> block_iter option" where
  "linear_loop Compare target it = do {
     (ok, it) \<leftarrow> ParseNextKey it;
     if \<not> ok then Some it
     else do {
       c \<leftarrow> Compare (bi_key it) target;
       if c \<ge> 0 then Some it else linear_loop Compare target it
     }
   }"

definition bi_Seek :: "(slice \<Rightarrow> slice \<Rightarrow> int option) \<Rightarrow> slice \<Rightarrow> block_iter \<Rightarrow> block_iter option" where
  "bi_Seek Compare target it = do {
     left \<leftarrow> search_loop Compare target it 0 (bi_num_restarts it - 1);
     case left of
       None \<Rightarrow> CorruptionError it
     | Some left \<Rightarrow> do {
         it \<leftarrow> SeekToRestartPoint left it;
         linear_loop Compare target it
       }
   }"

definition bi_SeekToFirst :: "block_iter \<Rightarrow> block_iter option" where
  "bi_SeekToFirst it = do {
     it \<leftarrow> SeekToRestartPoint 0 it;
     (ok, it) \<leftarrow> ParseNextKey it;
     Some it
   }"

definition bi_SeekToLast :: "block_iter \<Rightarrow> block_iter option" where
  "bi_SeekToLast it = do {
     it \<leftarrow> SeekToRestartPoint (bi_num_restarts it - 1) it;
     parse_until (bi_restarts it) it
   }"

text \<open>The iterator of a block: an empty iterator with a status, or one over its entries.\<close>

datatype new_iterator = EmptyIterator Status | BlockIter block_iter

definition NewIterator :: "Block \<Rightarrow> new_iterator option" where
  "NewIterator b = (if blk_size b < 4
     then map_option EmptyIterator (Corruption (str ''bad block contents'') [])
     else do {
       num_restarts \<leftarrow> NumRestarts b;
       if num_restarts = 0 then Some (EmptyIterator Status_OK)
       else do {
         restart_offset \<leftarrow> blk_restart_offset b;
         it \<leftarrow> mk_Iter (blk_data b) restart_offset num_restarts;
         Some (BlockIter it)
       }
     })"

end
