(* ===== verification/L_TableBuilder.thy ===== *)
theory L_TableBuilder
  imports L_Format L_Block L_Filter L_Log
begin

text \<open>
  Model of \<^verbatim>\<open>table/table_builder.cc\<close> and of \<^verbatim>\<open>Options\<close>. The comparator and
  the filter policy are records of their virtual functions; the file is a \<^verbatim>\<open>WritableFile\<close> over a
  state of its own and Snappy the record of the port. A failed assertion is \<open>None\<close>.
\<close>

section \<open>Options\<close>

record comparator_ops =
  co_Compare :: "slice \<Rightarrow> slice \<Rightarrow> int option"
  co_FindShortestSeparator :: "slice \<Rightarrow> slice \<Rightarrow> slice option"
  co_FindShortSuccessor :: "slice \<Rightarrow> slice option"

record policy_ops =
  fp_Name :: "byte list"
  fp_CreateFilter :: "slice list \<Rightarrow> byte list \<Rightarrow> byte list option"
  fp_KeyMayMatch :: "slice \<Rightarrow> slice \<Rightarrow> bool option"

text \<open>
  The members \<^verbatim>\<open>env\<close> and \<^verbatim>\<open>info_log\<close> are objects of the operating system that the code below does not
  use; \<^verbatim>\<open>block_cache\<close> is \<^verbatim>\<open>NULL\<close>.
\<close>

record Options =
  op_comparator :: comparator_ops
  op_create_if_missing :: bool
  op_error_if_exists :: bool
  op_paranoid_checks :: bool
  op_write_buffer_size :: nat
  op_max_open_files :: int
  op_block_size :: nat
  op_block_restart_interval :: int
  op_max_file_size :: nat
  op_compression :: byte
  op_reuse_logs :: bool
  op_filter_policy :: "policy_ops option"

definition BytewiseComparator :: comparator_ops where
  "BytewiseComparator = \<lparr>co_Compare = BytewiseComparator_Compare,
     co_FindShortestSeparator = BytewiseComparator_FindShortestSeparator,
     co_FindShortSuccessor = BytewiseComparator_FindShortSuccessor\<rparr>"

definition mk_Options :: Options where
  "mk_Options = \<lparr>op_comparator = BytewiseComparator, op_create_if_missing = False, op_error_if_exists = False,
     op_paranoid_checks = False, op_write_buffer_size = push_bit 20 4, op_max_open_files = 1000,
     op_block_size = 4096, op_block_restart_interval = 16, op_max_file_size = push_bit 20 2,
     op_compression = kSnappyCompression, op_reuse_logs = False, op_filter_policy = None\<rparr>"

section \<open>The representation\<close>

text \<open>The filter block builder keeps the policy it was made with.\<close>

record 'f table_builder =
  tb_options :: Options
  tb_index_block_options :: Options
  tb_file :: 'f
  tb_offset :: uint64
  tb_status :: Status
  tb_data_block :: block_builder
  tb_index_block :: block_builder
  tb_last_key :: slice
  tb_num_entries :: int
  tb_closed :: bool
  tb_filter_block :: "(policy_ops \<times> filter_builder) option"
  tb_pending_index_entry :: bool
  tb_pending_handle :: BlockHandle

definition mk_TableBuilder :: "Options \<Rightarrow> 'f \<Rightarrow> 'f table_builder option" where
  "mk_TableBuilder options file = do {
     data_block \<leftarrow> mk_BlockBuilder (op_block_restart_interval options);
     index_block \<leftarrow> mk_BlockBuilder (op_block_restart_interval options);
     filter_block \<leftarrow> (case op_filter_policy options of
         None \<Rightarrow> Some None
       | Some p \<Rightarrow> map_option (\<lambda>fb. Some (p, fb)) (StartBlock (fp_CreateFilter p) 0 FilterBlockBuilder));
     Some \<lparr>tb_options = options, tb_index_block_options = options\<lparr>op_block_restart_interval := 1\<rparr>,
       tb_file = file, tb_offset = 0, tb_status = Status_OK, tb_data_block = data_block,
       tb_index_block = index_block, tb_last_key = [], tb_num_entries = 0, tb_closed = False,
       tb_filter_block = filter_block, tb_pending_index_entry = False,
       tb_pending_handle = mk_BlockHandle\<rparr>
   }"

definition tb_ok :: "'f table_builder \<Rightarrow> bool" where
  "tb_ok b \<longleftrightarrow> Status_ok (tb_status b)"

text \<open>The comparators are compared as pointers; the result of the comparison is a parameter.\<close>

definition ChangeOptions :: "bool \<Rightarrow> Options \<Rightarrow> 'f table_builder \<Rightarrow> (Status \<times> 'f table_builder) option" where
  "ChangeOptions same_comparator options b =
     (if \<not> same_comparator
      then map_option (\<lambda>s. (s, b)) (InvalidArgument (str ''changing comparator while building table'') [])
      else Some (Status_OK, b\<lparr>tb_options := options,
        tb_index_block_options := options\<lparr>op_block_restart_interval := 1\<rparr>\<rparr>))"

definition WriteRawBlock ::
    "'f writable_file \<Rightarrow> slice \<Rightarrow> byte \<Rightarrow> 'f table_builder \<Rightarrow> (BlockHandle \<times> 'f table_builder) option" where
  "WriteRawBlock F block_contents ty b = (
     let handle = \<lparr>bh_offset = tb_offset b, bh_size = of_nat (length block_contents)\<rparr>;
         (s, file) = wf_Append F (tb_file b) block_contents;
         b = b\<lparr>tb_status := s, tb_file := file\<rparr>
     in if Status_ok s then do {
       crc \<leftarrow> Value block_contents;
       crc \<leftarrow> Extend crc [ty];
       let trailer = [ty] @ EncodeFixed32 (Mask crc);
       let (s, file) = wf_Append F file trailer;
       let b = b\<lparr>tb_status := s, tb_file := file\<rparr>;
       Some (handle, if Status_ok s
         then b\<lparr>tb_offset := tb_offset b + (of_nat (length block_contents) + kBlockTrailerSize)\<rparr> else b)
     } else Some (handle, b))"

text \<open>The contents and the type that are stored for a finished block.\<close>

definition block_contents :: "snappy \<Rightarrow> byte \<Rightarrow> slice \<Rightarrow> slice \<times> byte" where
  "block_contents S compression raw =
     (if compression = kNoCompression then (raw, compression)
      else if compression = kSnappyCompression then
        (case Snappy_Compress S raw of
            None \<Rightarrow> (raw, kNoCompression)
          | Some compressed \<Rightarrow> if length compressed < length raw - length raw div 8
              then (compressed, compression) else (raw, kNoCompression))
      else ([], compression))"

definition WriteBlock ::
    "'f writable_file \<Rightarrow> snappy \<Rightarrow> block_builder \<Rightarrow> 'f table_builder \<Rightarrow>
     (BlockHandle \<times> block_builder \<times> 'f table_builder) option" where
  "WriteBlock F S block b = (if \<not> tb_ok b then None else do {
     let (raw, block) = BlockBuilder_Finish block;
     let (contents, ty) = block_contents S (op_compression (tb_options b)) raw;
     (handle, b) \<leftarrow> WriteRawBlock F contents ty b;
     Some (handle, BlockBuilder_Reset block, b)
   })"

definition Flush :: "'f writable_file \<Rightarrow> snappy \<Rightarrow> 'f table_builder \<Rightarrow> 'f table_builder option" where
  "Flush F S b =
     (if tb_closed b then None
      else if \<not> tb_ok b then Some b
      else if BlockBuilder_empty (tb_data_block b) then Some b
      else if tb_pending_index_entry b then None
      else do {
        (handle, block, b) \<leftarrow> WriteBlock F S (tb_data_block b) b;
        let b = b\<lparr>tb_pending_handle := handle, tb_data_block := block\<rparr>;
        let b = (if tb_ok b then
            let (s, file) = wf_Flush F (tb_file b) in
            b\<lparr>tb_pending_index_entry := True, tb_status := s, tb_file := file\<rparr>
          else b);
        (case tb_filter_block b of
            None \<Rightarrow> Some b
          | Some (p, fb) \<Rightarrow> do {
              fb \<leftarrow> StartBlock (fp_CreateFilter p) (tb_offset b) fb;
              Some (b\<lparr>tb_filter_block := Some (p, fb)\<rparr>)
            })
      })"

text \<open>The index entry of the last block, with the key that separates it from what follows.\<close>

definition add_index_entry :: "slice \<Rightarrow> 'f table_builder \<Rightarrow> 'f table_builder option" where
  "add_index_entry last_key b = do {
     handle_encoding \<leftarrow> BlockHandle_EncodeTo (tb_pending_handle b) [];
     index_block \<leftarrow> BlockBuilder_Add (op_block_restart_interval (tb_index_block_options b))
       (co_Compare (op_comparator (tb_index_block_options b))) last_key handle_encoding (tb_index_block b);
     Some (b\<lparr>tb_last_key := last_key, tb_index_block := index_block, tb_pending_index_entry := False\<rparr>)
   }"

definition TableBuilder_Add ::
    "'f writable_file \<Rightarrow> snappy \<Rightarrow> slice \<Rightarrow> slice \<Rightarrow> 'f table_builder \<Rightarrow> 'f table_builder option" where
  "TableBuilder_Add F S key value b =
     (if tb_closed b then None
      else if \<not> tb_ok b then Some b
      else do {
        above \<leftarrow> (if tb_num_entries b > 0
          then map_option (\<lambda>c. c > 0) (co_Compare (op_comparator (tb_options b)) key (tb_last_key b))
          else Some True);
        if \<not> above then None else do {
          b \<leftarrow> (if tb_pending_index_entry b then
              if \<not> BlockBuilder_empty (tb_data_block b) then None
              else do {
                last_key \<leftarrow> co_FindShortestSeparator (op_comparator (tb_options b)) (tb_last_key b) key;
                add_index_entry last_key b
              }
            else Some b);
          let b = b\<lparr>tb_filter_block := map_option (\<lambda>(p, fb). (p, AddKey key fb)) (tb_filter_block b),
                    tb_last_key := key, tb_num_entries := tb_num_entries b + 1\<rparr>;
          data_block \<leftarrow> BlockBuilder_Add (op_block_restart_interval (tb_options b))
            (co_Compare (op_comparator (tb_options b))) key value (tb_data_block b);
          let b = b\<lparr>tb_data_block := data_block\<rparr>;
          if CurrentSizeEstimate (tb_data_block b) \<ge> op_block_size (tb_options b) then Flush F S b else Some b
        }
      })"

text \<open>The four parts of \<^verbatim>\<open>Finish\<close> behind the flush; each is left out once the status is not OK.\<close>

definition write_filter_block ::
    "'f writable_file \<Rightarrow> 'f table_builder \<Rightarrow> (BlockHandle \<times> 'f table_builder) option" where
  "write_filter_block F b = (case tb_filter_block b of
       Some (p, fb) \<Rightarrow> if tb_ok b then do {
           contents \<leftarrow> Finish (fp_CreateFilter p) fb;
           WriteRawBlock F contents kNoCompression b
         } else Some (mk_BlockHandle, b)
     | None \<Rightarrow> Some (mk_BlockHandle, b))"

definition write_metaindex_block ::
    "'f writable_file \<Rightarrow> snappy \<Rightarrow> BlockHandle \<Rightarrow> 'f table_builder \<Rightarrow> (BlockHandle \<times> 'f table_builder) option" where
  "write_metaindex_block F S filter_block_handle b = (if \<not> tb_ok b then Some (mk_BlockHandle, b) else do {
     meta \<leftarrow> mk_BlockBuilder (op_block_restart_interval (tb_options b));
     meta \<leftarrow> (if tb_filter_block b \<noteq> None then do {
         policy \<leftarrow> op_filter_policy (tb_options b);
         handle_encoding \<leftarrow> BlockHandle_EncodeTo filter_block_handle [];
         BlockBuilder_Add (op_block_restart_interval (tb_options b)) (co_Compare (op_comparator (tb_options b)))
           (str ''filter.'' @ fp_Name policy) handle_encoding meta
       } else Some meta);
     (handle, block, b) \<leftarrow> WriteBlock F S meta b;
     Some (handle, b)
   })"

definition write_index_block ::
    "'f writable_file \<Rightarrow> snappy \<Rightarrow> 'f table_builder \<Rightarrow> (BlockHandle \<times> 'f table_builder) option" where
  "write_index_block F S b = (if \<not> tb_ok b then Some (mk_BlockHandle, b) else do {
     b \<leftarrow> (if tb_pending_index_entry b then do {
         last_key \<leftarrow> co_FindShortSuccessor (op_comparator (tb_options b)) (tb_last_key b);
         add_index_entry last_key b
       } else Some b);
     (handle, block, b) \<leftarrow> WriteBlock F S (tb_index_block b) b;
     Some (handle, b\<lparr>tb_index_block := block\<rparr>)
   })"

definition write_footer ::
    "'f writable_file \<Rightarrow> BlockHandle \<Rightarrow> BlockHandle \<Rightarrow> 'f table_builder \<Rightarrow> 'f table_builder option" where
  "write_footer F metaindex_handle index_handle b = (if \<not> tb_ok b then Some b else do {
     footer_encoding \<leftarrow> Footer_EncodeTo \<lparr>ft_metaindex_handle = metaindex_handle, ft_index_handle = index_handle\<rparr> [];
     let (s, file) = wf_Append F (tb_file b) footer_encoding;
     let b = b\<lparr>tb_status := s, tb_file := file\<rparr>;
     Some (if Status_ok s then b\<lparr>tb_offset := tb_offset b + of_nat (length footer_encoding)\<rparr> else b)
   })"

definition TableBuilder_Finish ::
    "'f writable_file \<Rightarrow> snappy \<Rightarrow> 'f table_builder \<Rightarrow> (Status \<times> 'f table_builder) option" where
  "TableBuilder_Finish F S b = do {
     b \<leftarrow> Flush F S b;
     if tb_closed b then None else do {
       let b = b\<lparr>tb_closed := True\<rparr>;
       (filter_block_handle, b) \<leftarrow> write_filter_block F b;
       (metaindex_block_handle, b) \<leftarrow> write_metaindex_block F S filter_block_handle b;
       (index_block_handle, b) \<leftarrow> write_index_block F S b;
       b \<leftarrow> write_footer F metaindex_block_handle index_block_handle b;
       Some (tb_status b, b)
     }
   }"

definition Abandon :: "'f table_builder \<Rightarrow> 'f table_builder option" where
  "Abandon b = (if tb_closed b then None else Some (b\<lparr>tb_closed := True\<rparr>))"

definition NumEntries :: "'f table_builder \<Rightarrow> uint64" where
  "NumEntries b = of_int (tb_num_entries b)"

definition FileSize :: "'f table_builder \<Rightarrow> uint64" where
  "FileSize b = tb_offset b"

end
