(* ===== verification/L_Table.thy ===== *)
theory L_Table
  imports L_TableBuilder
begin

text \<open>
  Model of \<^verbatim>\<open>table/table.cc\<close> without a block cache (\<^verbatim>\<open>block_cache == NULL\<close>): \<^verbatim>\<open>Table::Open\<close> with the
  loading of the filter, \<^verbatim>\<open>BlockReader\<close>, \<^verbatim>\<open>InternalGet\<close> and \<^verbatim>\<open>ApproximateOffsetOf\<close>. The call of the
  function \<^verbatim>\<open>saver\<close> is the pair it is called with.
\<close>

section \<open>Iterators of blocks, empty ones included\<close>

definition it_Seek :: "(slice \<Rightarrow> slice \<Rightarrow> int option) \<Rightarrow> slice \<Rightarrow> new_iterator \<Rightarrow> new_iterator option" where
  "it_Seek Compare target it = (case it of
       EmptyIterator s \<Rightarrow> Some it
     | BlockIter bi \<Rightarrow> map_option BlockIter (bi_Seek Compare target bi))"

definition it_Valid :: "new_iterator \<Rightarrow> bool" where
  "it_Valid it = (case it of EmptyIterator s \<Rightarrow> False | BlockIter bi \<Rightarrow> bi_Valid bi)"

definition it_key :: "new_iterator \<Rightarrow> slice option" where
  "it_key it = (case it of EmptyIterator s \<Rightarrow> None | BlockIter bi \<Rightarrow> bi_get_key bi)"

definition it_value :: "new_iterator \<Rightarrow> slice option" where
  "it_value it = (case it of EmptyIterator s \<Rightarrow> None | BlockIter bi \<Rightarrow> bi_get_value bi)"

definition it_status :: "new_iterator \<Rightarrow> Status" where
  "it_status it = (case it of EmptyIterator s \<Rightarrow> s | BlockIter bi \<Rightarrow> bi_status bi)"

section \<open>Opening a table\<close>

record 'f table =
  ta_options :: Options
  ta_file :: 'f
  ta_filter :: "(policy_ops \<times> filter_reader) option"
  ta_metaindex_handle :: BlockHandle
  ta_index_block :: Block

definition ReadFilter ::
    "snappy \<Rightarrow> 'f random_file \<Rightarrow> policy_ops \<Rightarrow> slice \<Rightarrow> 'f table \<Rightarrow> 'f table option" where
  "ReadFilter S R policy filter_handle_value t = do {
     (s, filter_handle, v) \<leftarrow> BlockHandle_DecodeFrom mk_BlockHandle filter_handle_value;
     if \<not> Status_ok s then Some t
     else do {
       (s, block) \<leftarrow> ReadBlock S R (ta_file t) (op_paranoid_checks (ta_options t)) filter_handle;
       if \<not> Status_ok s then Some t
       else do {
         reader \<leftarrow> FilterBlockReader (bc_data block);
         Some (t\<lparr>ta_filter := Some (policy, reader)\<rparr>)
       }
     }
   }"

definition ReadMeta :: "snappy \<Rightarrow> 'f random_file \<Rightarrow> Footer \<Rightarrow> 'f table \<Rightarrow> 'f table option" where
  "ReadMeta S R footer t = (case op_filter_policy (ta_options t) of
       None \<Rightarrow> Some t
     | Some policy \<Rightarrow> do {
         (s, contents) \<leftarrow> ReadBlock S R (ta_file t) (op_paranoid_checks (ta_options t)) (ft_metaindex_handle footer);
         if \<not> Status_ok s then Some t
         else do {
           meta \<leftarrow> mk_Block (bc_data contents);
           it \<leftarrow> NewIterator meta;
           let key = str ''filter.'' @ fp_Name policy;
           it \<leftarrow> it_Seek BytewiseComparator_Compare key it;
           if it_Valid it then do {
             k \<leftarrow> it_key it;
             if k = key then do {
               v \<leftarrow> it_value it;
               ReadFilter S R policy v t
             } else Some t
           } else Some t
         }
       })"

definition Table_Open ::
    "snappy \<Rightarrow> 'f random_file \<Rightarrow> Options \<Rightarrow> 'f \<Rightarrow> uint64 \<Rightarrow> (Status \<times> 'f table option) option" where
  "Table_Open S R options file sz =
     (if sz < of_nat kEncodedLength
      then map_option (\<lambda>s. (s, None)) (Corruption (str ''file is too short to be an sstable'') [])
      else
        let (s, footer_input, own) = raf_Read R file (sz - of_nat kEncodedLength) (of_nat kEncodedLength) in
        if \<not> Status_ok s then Some (s, None)
        else do {
          (s, footer, rest) \<leftarrow> Footer_DecodeFrom mk_Footer footer_input;
          if \<not> Status_ok s then Some (s, None)
          else do {
            (s, contents) \<leftarrow> ReadBlock S R file (op_paranoid_checks options) (ft_index_handle footer);
            if \<not> Status_ok s then Some (s, None)
            else do {
              index_block \<leftarrow> mk_Block (bc_data contents);
              t \<leftarrow> ReadMeta S R footer \<lparr>ta_options = options, ta_file = file, ta_filter = None,
                ta_metaindex_handle = ft_metaindex_handle footer, ta_index_block = index_block\<rparr>;
              Some (s, Some t)
            }
          }
        })"

section \<open>Reading\<close>

definition BlockReader ::
    "snappy \<Rightarrow> 'f random_file \<Rightarrow> bool \<Rightarrow> slice \<Rightarrow> 'f table \<Rightarrow> new_iterator option" where
  "BlockReader S R verify_checksums index_value t = do {
     (s, handle, input) \<leftarrow> BlockHandle_DecodeFrom mk_BlockHandle index_value;
     if \<not> Status_ok s then Some (EmptyIterator s)
     else do {
       (s, contents) \<leftarrow> ReadBlock S R (ta_file t) verify_checksums handle;
       if \<not> Status_ok s then Some (EmptyIterator s)
       else do {
         block \<leftarrow> mk_Block (bc_data contents);
         NewIterator block
       }
     }
   }"

text \<open>Whether the filter excludes the key; without a filter, or with a bad handle, it does not.\<close>

definition filter_excludes :: "'f table \<Rightarrow> slice \<Rightarrow> slice \<Rightarrow> bool option" where
  "filter_excludes t handle_value k = (case ta_filter t of
       None \<Rightarrow> Some False
     | Some (policy, reader) \<Rightarrow> do {
         (s, handle, rest) \<leftarrow> BlockHandle_DecodeFrom mk_BlockHandle handle_value;
         if \<not> Status_ok s then Some False
         else do {
           may \<leftarrow> Reader_KeyMayMatch (fp_KeyMayMatch policy) reader (bh_offset handle) k;
           Some (\<not> may)
         }
       })"

definition InternalGet ::
    "snappy \<Rightarrow> 'f random_file \<Rightarrow> bool \<Rightarrow> slice \<Rightarrow> 'f table \<Rightarrow> (Status \<times> (slice \<times> slice) option) option" where
  "InternalGet S R verify_checksums k t = do {
     iiter \<leftarrow> NewIterator (ta_index_block t);
     iiter \<leftarrow> it_Seek (co_Compare (op_comparator (ta_options t))) k iiter;
     (s, saved) \<leftarrow> (if it_Valid iiter then do {
         handle_value \<leftarrow> it_value iiter;
         excluded \<leftarrow> filter_excludes t handle_value k;
         if excluded then Some (Status_OK, None)
         else do {
           block_iter \<leftarrow> BlockReader S R verify_checksums handle_value t;
           block_iter \<leftarrow> it_Seek (co_Compare (op_comparator (ta_options t))) k block_iter;
           saved \<leftarrow> (if it_Valid block_iter then do {
               key \<leftarrow> it_key block_iter;
               val \<leftarrow> it_value block_iter;
               Some (Some (key, val))
             } else Some None);
           Some (it_status block_iter, saved)
         }
       } else Some (Status_OK, None));
     Some (if Status_ok s then it_status iiter else s, saved)
   }"

definition ApproximateOffsetOf :: "slice \<Rightarrow> 'f table \<Rightarrow> uint64 option" where
  "ApproximateOffsetOf key t = do {
     index_iter \<leftarrow> NewIterator (ta_index_block t);
     index_iter \<leftarrow> it_Seek (co_Compare (op_comparator (ta_options t))) key index_iter;
     if it_Valid index_iter then do {
       input \<leftarrow> it_value index_iter;
       (s, handle, rest) \<leftarrow> BlockHandle_DecodeFrom mk_BlockHandle input;
       Some (if Status_ok s then bh_offset handle else bh_offset (ta_metaindex_handle t))
     } else Some (bh_offset (ta_metaindex_handle t))
   }"

end
