(* ===== verification/L_Block_Props.thy ===== *)
theory L_Block_Props
  imports L_Block
begin

text \<open>
  Blocks as lists of entries: what \<^verbatim>\<open>BlockBuilder\<close> writes, and the iterator of \<^verbatim>\<open>Block\<close> as a position
  in the list. An entry is its key, its value and the number of bytes its key shares with the one
  before; \<open>ri\<close> lists the indices of the restart points.
\<close>

section \<open>Entries\<close>

type_synonym block_entry = "slice \<times> slice \<times> nat"

definition ekey :: "block_entry \<Rightarrow> slice" where "ekey e = fst e"
definition evalue :: "block_entry \<Rightarrow> slice" where "evalue e = fst (snd e)"
definition eshared :: "block_entry \<Rightarrow> nat" where "eshared e = snd (snd e)"

definition entry_bytes :: "block_entry \<Rightarrow> byte list" where
  "entry_bytes e = leb128 (eshared e) @ leb128 (length (ekey e) - eshared e) @ leb128 (length (evalue e)) @
     drop (eshared e) (ekey e) @ evalue e"

definition entries_bytes :: "block_entry list \<Rightarrow> byte list" where
  "entries_bytes es = concat (map entry_bytes es)"

definition off :: "block_entry list \<Rightarrow> nat \<Rightarrow> nat" where
  "off es i = length (entries_bytes (take i es))"

text \<open>The key before position \<open>i\<close>, and an entry that may follow a key.\<close>

definition prev_key :: "block_entry list \<Rightarrow> nat \<Rightarrow> slice" where
  "prev_key es i = (case i of 0 \<Rightarrow> [] | Suc k \<Rightarrow> ekey (es ! k))"

definition follows :: "slice \<Rightarrow> block_entry \<Rightarrow> bool" where
  "follows prev e \<longleftrightarrow> eshared e \<le> length prev \<and> eshared e \<le> length (ekey e) \<and>
     take (eshared e) prev = take (eshared e) (ekey e)"

definition chained :: "block_entry list \<Rightarrow> bool" where
  "chained es \<longleftrightarrow> (\<forall>i < length es. follows (prev_key es i) (es ! i))"

definition restarts_ok :: "block_entry list \<Rightarrow> nat list \<Rightarrow> bool" where
  "restarts_ok es ri \<longleftrightarrow> ri \<noteq> [] \<and> ri ! 0 = 0 \<and> sorted_wrt (<) ri \<and>
     (if es = [] then ri = [0] else \<forall>r \<in> set ri. r < length es \<and> eshared (es ! r) = 0)"

definition fixed32s :: "nat list \<Rightarrow> byte list" where
  "fixed32s ns = concat (map (\<lambda>n. le_bytes 4 (of_nat n :: uint32)) ns)"

definition block_bytes :: "block_entry list \<Rightarrow> nat list \<Rightarrow> byte list" where
  "block_bytes es ri = entries_bytes es @ fixed32s (map (off es) ri) @ le_bytes 4 (of_nat (length ri) :: uint32)"

lemma entries_bytes_simps [simp]:
  "entries_bytes [] = []" "entries_bytes (e # es) = entry_bytes e @ entries_bytes es"
  "entries_bytes (es @ fs) = entries_bytes es @ entries_bytes fs"
  by (simp_all add: entries_bytes_def)

lemma entries_split: "entries_bytes es = entries_bytes (take i es) @ entries_bytes (drop i es)"
  by (metis append_take_drop_id entries_bytes_simps(3))

lemma off_simps [simp]: "off es 0 = 0" "off es (length es) = length (entries_bytes es)"
  by (simp_all add: off_def)

lemma off_Suc: "i < length es \<Longrightarrow> off es (Suc i) = off es i + length (entry_bytes (es ! i))"
  by (simp add: off_def take_Suc_conv_app_nth)

lemma entry_bytes_pos: "0 < length (entry_bytes e)"
  by (simp add: entry_bytes_def)

lemma off_mono: "i \<le> j \<Longrightarrow> j \<le> length es \<Longrightarrow> off es i \<le> off es j"
proof (induction j)
  case (Suc j)
  then show ?case by (cases "i = Suc j") (auto simp: off_Suc)
qed simp

lemma off_less_Suc: "i < length es \<Longrightarrow> off es i < off es (Suc i)"
  using entry_bytes_pos [of "es ! i"] by (simp add: off_Suc)

lemma off_less_iff: "i \<le> length es \<Longrightarrow> j \<le> length es \<Longrightarrow> off es i < off es j \<longleftrightarrow> i < j"
  using off_mono [of "Suc i" j es] off_less_Suc [of i es] off_mono [of j i es] by linarith

lemma off_append: "i \<le> length es \<Longrightarrow> off (es @ fs) i = off es i"
  by (simp add: off_def)

lemma drop_off: "i \<le> length es \<Longrightarrow> drop (off es i) (entries_bytes es) = entries_bytes (drop i es)"
  using entries_split [of es i] by (simp add: off_def)

lemma length_fixed32s [simp]: "length (fixed32s ns) = 4 * length ns"
  by (induction ns) (auto simp: fixed32s_def)

lemma drop_fixed32s:
  "j < length ns \<Longrightarrow> drop (4 * j) (fixed32s ns @ z) = le_bytes 4 (of_nat (ns ! j) :: uint32) @ fixed32s (drop (Suc j) ns) @ z"
proof (induction ns arbitrary: j)
  case (Cons n ns)
  have "fixed32s (n # ns) = le_bytes 4 (of_nat n :: uint32) @ fixed32s ns" by (simp add: fixed32s_def)
  with Cons show ?case by (cases j) auto
qed simp

lemma chained_append: "chained (es @ [e]) \<longleftrightarrow> chained es \<and> follows (prev_key es (length es)) e"
proof -
  have "prev_key (es @ [e]) i = prev_key es i" if "i \<le> length es" for i
    using that by (auto simp: prev_key_def nth_append split: nat.splits)
  then show ?thesis by (auto simp: chained_def nth_append less_Suc_eq)
qed

section \<open>Decoding an entry\<close>

lemma less_128_iff: "x < 128 \<longleftrightarrow> drop_bit 7 (x :: uint32) = 0"
proof -
  have "drop_bit 7 x = 0 \<longleftrightarrow> unat (drop_bit 7 x) = 0" by (simp add: unat_eq_0)
  also have "\<dots> \<longleftrightarrow> x < 128" by (simp add: unat_drop_bit_7 word_less_nat_alt div_eq_0_iff)
  finally show ?thesis by simp
qed

lemma or_less_128: "(a OR b OR c :: uint32) < 128 \<longleftrightarrow> a < 128 \<and> b < 128 \<and> c < 128"
  by (simp add: less_128_iff drop_bit_or or_eq_0_iff)

lemma leb128_small: "n < 128 \<Longrightarrow> leb128 n = [of_nat n]"
  by (subst leb128.simps) simp

lemma leb128_first: "128 \<le> n \<Longrightarrow> \<exists>ds. leb128 n = more_digit n # ds"
  by (subst leb128.simps) simp

lemma ucast_more_digit: "\<not> (ucast (more_digit n) :: uint32) < 128"
  by (simp add: word_less_nat_alt unsigned_ucast_eq take_bit_nat_eq_self)

lemma ucast_of_nat_byte: "n < 128 \<Longrightarrow> (ucast (of_nat n :: byte) :: uint32) = of_nat n"
  by (rule unsigned_word_eqI) (simp add: unsigned_ucast_eq unsigned_of_nat take_bit_nat_eq_self)

text \<open>Of the two lengths behind the first only the sum of 32 bits counts.\<close>

lemma DecodeEntry_fit:
  assumes "s < 2 ^ 32" "n < 2 ^ 32" "v < 2 ^ 32"
    and fit: "\<not> of_nat (length rest) < (of_nat n + of_nat v :: uint32)"
  shows "DecodeEntry (leb128 s @ leb128 n @ leb128 v @ rest) = Some (of_nat s, of_nat n, of_nat v, rest)"
proof -
  let ?p = "leb128 s @ leb128 n @ leb128 v @ rest"
  have len: "3 \<le> length ?p"
    using leb128_not_Nil [of s] leb128_not_Nil [of n] leb128_not_Nil [of v]
    by (cases "leb128 s"; cases "leb128 n"; cases "leb128 v") auto
  have slow: "do { (a, p) \<leftarrow> GetVarint32Ptr ?p; (b, p) \<leftarrow> GetVarint32Ptr p; (c, p) \<leftarrow> GetVarint32Ptr p;
      Some (a, b, c, p) } = Some (of_nat s, of_nat n, of_nat v, rest)"
    using assms(1-3) by (simp add: GetVarint32Ptr_nat)
  consider "s < 128" "n < 128" "v < 128" | "128 \<le> s" | "s < 128" "128 \<le> n" | "s < 128" "n < 128" "128 \<le> v"
    by linarith
  then show ?thesis
  proof cases
    case 1
    have "(of_nat s :: uint32) < 128" "(of_nat n :: uint32) < 128" "(of_nat v :: uint32) < 128"
      using 1 by (simp_all add: word_less_nat_alt unat_of_nat)
    with 1 fit show ?thesis
      by (simp add: DecodeEntry_def leb128_small ucast_of_nat_byte or_less_128 Let_def numeral_eq_Suc)
  next
    case 2
    then obtain ds where "leb128 s = more_digit s # ds" using leb128_first by blast
    then show ?thesis
      using len slow fit by (simp add: DecodeEntry_def or_less_128 ucast_more_digit Let_def)
  next
    case 3
    then obtain ds where "leb128 n = more_digit n # ds" using leb128_first by blast
    with 3 show ?thesis
      using len slow fit by (simp add: DecodeEntry_def or_less_128 ucast_more_digit leb128_small Let_def)
  next
    case 4
    then obtain ds where "leb128 v = more_digit v # ds" using leb128_first by blast
    with 4 show ?thesis
      using len slow fit by (simp add: DecodeEntry_def or_less_128 ucast_more_digit leb128_small Let_def numeral_eq_Suc)
  qed
qed

lemma DecodeEntry_bytes:
  assumes "s < 2 ^ 32" "n < 2 ^ 32" "v < 2 ^ 32" "n + v \<le> length rest" "length rest < 2 ^ 32"
  shows "DecodeEntry (leb128 s @ leb128 n @ leb128 v @ rest) = Some (of_nat s, of_nat n, of_nat v, rest)"
  using assms by (intro DecodeEntry_fit) (simp_all add: word_less_nat_alt unat_of_nat flip: of_nat_add)

section \<open>The builder\<close>

lemma shared_loop_add: "shared_loop a b n = n + shared_loop a b 0"
proof (induction a arbitrary: b n)
  case (Cons x a)
  show ?case
  proof (cases b)
    case (Cons y c)
    show ?thesis
      unfolding Cons using Cons.IH [of c "Suc n"] Cons.IH [of c "Suc 0"] by simp
  qed simp
qed simp

lemma shared_loop_prefix:
  "shared_loop a b 0 \<le> length a \<and> shared_loop a b 0 \<le> length b \<and> take (shared_loop a b 0) a = take (shared_loop a b 0) b"
proof (induction a arbitrary: b)
  case (Cons x a)
  then show ?case
    by (cases b) (auto simp: shared_loop_add [of _ _ "Suc 0"])
qed simp

text \<open>The state of a builder that holds the entries \<open>es\<close>.\<close>

definition built_block :: "int \<Rightarrow> block_entry list \<Rightarrow> nat list \<Rightarrow> block_builder \<Rightarrow> bool" where
  "built_block interval es ri b \<longleftrightarrow> chained es \<and> restarts_ok es ri \<and>
     bb_buffer b = entries_bytes es \<and> bb_restarts b = map (\<lambda>r. of_nat (off es r)) ri \<and>
     0 \<le> bb_counter b \<and> bb_counter b \<le> interval \<and> (bb_counter b = 0 \<longleftrightarrow> es = []) \<and>
     \<not> bb_finished b \<and> bb_last_key b = prev_key es (length es)"

definition entry_fits :: "slice \<Rightarrow> slice \<Rightarrow> bool" where
  "entry_fits key value \<longleftrightarrow> length key < 2 ^ 32 \<and> length value < 2 ^ 32"

lemma built_block_new: "1 \<le> interval \<Longrightarrow> \<exists>b. mk_BlockBuilder interval = Some b \<and> built_block interval [] [0] b"
  by (simp add: mk_BlockBuilder_def built_block_def chained_def restarts_ok_def prev_key_def)

lemma prev_key_snoc [simp]: "prev_key (es @ [e]) (Suc (length es)) = ekey e"
  by (simp add: prev_key_def)

lemma puts_entry:
  assumes "s \<le> length key" "entry_fits key value"
  shows "PutVarint32 (PutVarint32 (PutVarint32 dst (of_nat s)) (of_nat (length key - s))) (of_nat (length value))
    @ drop s key @ value = dst @ entry_bytes (key, value, s)"
proof -
  have "s < 2 ^ 32" "length key - s < 2 ^ 32" "length value < 2 ^ 32"
    using assms by (auto simp: entry_fits_def)
  then show ?thesis
    by (simp add: PutVarint32_def EncodeVarint32_leb128 entry_bytes_def ekey_def evalue_def eshared_def unat_of_nat)
qed

lemma restarts_ok_snoc:
  assumes "restarts_ok es ri" and "es = [] \<Longrightarrow> eshared e = 0"
  shows "restarts_ok (es @ [e]) ri"
  using assms by (cases "es = []") (auto simp: restarts_ok_def nth_append)

lemma restarts_ok_push:
  assumes "restarts_ok es ri" and "es \<noteq> []" and "eshared e = 0"
  shows "restarts_ok (es @ [e]) (ri @ [length es])"
  using assms by (auto simp: restarts_ok_def nth_append sorted_wrt_append less_Suc_eq)

lemma restarts_le: "restarts_ok es ri \<Longrightarrow> r \<in> set ri \<Longrightarrow> r \<le> length es"
  by (auto simp: restarts_ok_def split: if_splits)

lemma BlockBuilder_Add_entry:
  assumes "built_block interval es ri b" and "1 \<le> interval" and "entry_fits key value"
    and above: "es \<noteq> [] \<Longrightarrow> \<exists>c > 0. Compare key (prev_key es (length es)) = Some c"
  shows "\<exists>b' s ri'. BlockBuilder_Add interval Compare key value b = Some b' \<and>
    built_block interval (es @ [(key, value, s)]) ri' b'"
proof -
  let ?last = "bb_last_key b" and ?c = "bb_counter b < interval"
  note inv = assms(1) [unfolded built_block_def]
  define s where "s = (if ?c then shared_loop ?last key 0 else 0)"
  define ri' where "ri' = (if ?c then ri else ri @ [length es])"
  have s: "s \<le> length ?last" "s \<le> length key" "take s ?last = take s key"
    using shared_loop_prefix [of ?last key] by (auto simp: s_def)
  have empty: "bb_buffer b = [] \<longleftrightarrow> es = []"
    using inv entry_bytes_pos by (cases es) auto
  have first: "es = [] \<Longrightarrow> s = 0" using inv s(1) by (simp add: prev_key_def)
  have not_c: "\<not> ?c \<Longrightarrow> es \<noteq> []"
    using inv assms(2) first by (auto simp: restarts_ok_def)
  have "off (es @ [(key, value, s)]) r = off es r" if "r \<in> set ri" for r
    using off_append [OF restarts_le] inv that by blast
  moreover have "bb_restarts b = map (\<lambda>r. of_nat (off es r)) ri" using inv by blast
  ultimately have offs: "map (\<lambda>r. of_nat (off (es @ [(key, value, s)]) r)) ri = bb_restarts b"
    by simp
  have restarts: "restarts_ok (es @ [(key, value, s)]) ri'"
  proof (cases ?c)
    case True
    then show ?thesis using inv first restarts_ok_snoc [of es ri "(key, value, s)"] by (simp add: ri'_def eshared_def)
  next
    case False
    then have "s = 0" by (simp add: s_def)
    with False show ?thesis
      using inv not_c restarts_ok_push [of es ri "(key, value, s)"] by (simp add: ri'_def eshared_def)
  qed
  have "follows (prev_key es (length es)) (key, value, s)"
    using inv s by (auto simp: follows_def eshared_def ekey_def)
  then have chained: "chained (es @ [(key, value, s)])"
    using inv by (simp add: chained_append)
  have test: "(if bb_buffer b = [] then Some True else map_option (\<lambda>c. c > 0) (Compare key ?last)) = Some True"
    using above inv empty by auto
  have key: "take s ?last @ drop s key = key" using s(3) by simp
  let ?b = "b\<lparr>bb_restarts := map (\<lambda>r. of_nat (off (es @ [(key, value, s)]) r)) ri',
    bb_buffer := bb_buffer b @ entry_bytes (key, value, s), bb_last_key := key,
    bb_counter := (if ?c then bb_counter b else 0) + 1\<rparr>"
  have "BlockBuilder_Add interval Compare key value b = Some ?b"
  proof (cases ?c)
    case True
    then show ?thesis
      using inv test key offs puts_entry [OF s(2) assms(3)] unfolding BlockBuilder_Add_def
      by (simp add: Let_def s_def ri'_def)
  next
    case False
    have "off (es @ [(key, value, s)]) (length es) = length (bb_buffer b)"
      using inv by (simp add: off_append)
    with False show ?thesis
      using inv test offs puts_entry [OF s(2) assms(3)] unfolding BlockBuilder_Add_def
      by (simp add: Let_def s_def ri'_def)
  qed
  moreover have "built_block interval (es @ [(key, value, s)]) ri' ?b"
    using inv assms(2) chained restarts by (auto simp: built_block_def ekey_def)
  ultimately show ?thesis by blast
qed

lemma fold_PutFixed32: "fold (\<lambda>r dst. PutFixed32 dst r) rs dst = dst @ concat (map (le_bytes 4) rs)"
  by (induction rs arbitrary: dst) (auto simp: PutFixed32_def)

lemma BlockBuilder_Finish_bytes:
  assumes "built_block interval es ri b"
  shows "fst (BlockBuilder_Finish b) = block_bytes es ri"
  using assms unfolding BlockBuilder_Finish_def fold_PutFixed32
  by (simp add: built_block_def PutFixed32_def block_bytes_def fixed32s_def Let_def comp_def)

text \<open>Adding a list of pairs.\<close>

fun add_pairs ::
    "int \<Rightarrow> (slice \<Rightarrow> slice \<Rightarrow> int option) \<Rightarrow> (slice \<times> slice) list \<Rightarrow> block_builder \<Rightarrow> block_builder option" where
  "add_pairs interval Compare [] b = Some b"
| "add_pairs interval Compare ((key, value) # kvs) b = do {
     b \<leftarrow> BlockBuilder_Add interval Compare key value b;
     add_pairs interval Compare kvs b
   }"

definition pairs :: "block_entry list \<Rightarrow> (slice \<times> slice) list" where
  "pairs es = map (\<lambda>e. (ekey e, evalue e)) es"

end
