(* ===== verification/L_Block_Iter.thy ===== *)
theory L_Block_Iter
  imports L_Block_Props
begin

text \<open>
  The iterator of a block that a \<^verbatim>\<open>BlockBuilder\<close> has written is a position in the list of its
  entries: every parse moves it to the next entry, and the searches find the position they should.
\<close>

section \<open>Positions\<close>

definition block_ok :: "block_entry list \<Rightarrow> nat list \<Rightarrow> bool" where
  "block_ok es ri \<longleftrightarrow> chained es \<and> restarts_ok es ri \<and> length (block_bytes es ri) < 2 ^ 32"

text \<open>What no operation changes, an iterator before entry \<open>m\<close>, at entry \<open>i\<close> and behind all entries.\<close>

definition over :: "block_entry list \<Rightarrow> nat list \<Rightarrow> block_iter \<Rightarrow> bool" where
  "over es ri it \<longleftrightarrow> bi_data it = block_bytes es ri \<and> bi_restarts it = of_nat (off es (length es)) \<and>
     bi_num_restarts it = of_nat (length ri) \<and> bi_status it = Status_OK"

definition in_block :: "nat list \<Rightarrow> nat \<Rightarrow> block_iter \<Rightarrow> bool" where
  "in_block ri m it \<longleftrightarrow> (\<exists>j < length ri. bi_restart_index it = of_nat j \<and> ri ! j \<le> m)"

definition before_entry :: "block_entry list \<Rightarrow> nat list \<Rightarrow> nat \<Rightarrow> block_iter \<Rightarrow> bool" where
  "before_entry es ri m it \<longleftrightarrow> over es ri it \<and> m \<le> length es \<and> in_block ri m it \<and>
     (\<exists>a l. bi_value it = Some (a, l) \<and> a + l = off es m) \<and>
     (m < length es \<longrightarrow> eshared (es ! m) \<le> length (bi_key it) \<and>
        take (eshared (es ! m)) (bi_key it) = take (eshared (es ! m)) (ekey (es ! m)))"

definition at_entry :: "block_entry list \<Rightarrow> nat list \<Rightarrow> nat \<Rightarrow> block_iter \<Rightarrow> bool" where
  "at_entry es ri i it \<longleftrightarrow> over es ri it \<and> i < length es \<and> in_block ri i it \<and>
     bi_current it = of_nat (off es i) \<and> bi_key it = ekey (es ! i) \<and>
     (\<exists>a. bi_value it = Some (a, length (evalue (es ! i))) \<and> a + length (evalue (es ! i)) = off es (Suc i) \<and>
        take (length (evalue (es ! i))) (drop a (bi_data it)) = evalue (es ! i))"

definition at_end :: "block_entry list \<Rightarrow> nat list \<Rightarrow> block_iter \<Rightarrow> bool" where
  "at_end es ri it \<longleftrightarrow> over es ri it \<and> bi_current it = bi_restarts it"

section \<open>Reading the contents\<close>

lemma block_ok_bounds:
  assumes "block_ok es ri"
  shows "i \<le> length es \<Longrightarrow> off es i < 2 ^ 32" and "length ri < 2 ^ 32"
proof -
  have "length (block_bytes es ri) = off es (length es) + 4 * length ri + 4"
    by (simp add: block_bytes_def)
  with assms have "off es (length es) + 4 * length ri + 4 < 2 ^ 32" by (simp add: block_ok_def)
  then show "i \<le> length es \<Longrightarrow> off es i < 2 ^ 32" "length ri < 2 ^ 32"
    using off_mono [of i "length es" es] by linarith+
qed

lemma unat_small: "n < 2 ^ 32 \<Longrightarrow> unat (of_nat n :: uint32) = n"
  by (simp add: unat_of_nat)

lemma less_small: "m < 2 ^ 32 \<Longrightarrow> n < 2 ^ 32 \<Longrightarrow> (of_nat m :: uint32) < of_nat n \<longleftrightarrow> m < n"
  by (simp add: word_less_nat_alt unat_of_nat)

lemma unat_off: "block_ok es ri \<Longrightarrow> i \<le> length es \<Longrightarrow> unat (of_nat (off es i) :: uint32) = off es i"
  using block_ok_bounds(1) unat_small by blast

lemma off_less: "block_ok es ri \<Longrightarrow> i \<le> length es \<Longrightarrow> j \<le> length es \<Longrightarrow>
    (of_nat (off es i) :: uint32) < of_nat (off es j) \<longleftrightarrow> i < j"
  using block_ok_bounds(1) [of es ri] by (simp add: less_small off_less_iff)

lemma restart_le: "block_ok es ri \<Longrightarrow> j < length ri \<Longrightarrow> ri ! j \<le> length es"
  using restarts_le [of es ri "ri ! j"] by (simp add: block_ok_def)

lemma restart_shared: "block_ok es ri \<Longrightarrow> j < length ri \<Longrightarrow> ri ! j < length es \<Longrightarrow> eshared (es ! (ri ! j)) = 0"
  by (cases "es = []") (auto simp: block_ok_def restarts_ok_def)

lemma GetRestartPoint_off:
  assumes "block_ok es ri" "over es ri it" "j < length ri"
  shows "GetRestartPoint it (of_nat j) = Some (of_nat (off es (ri ! j)))"
proof -
  have j: "unat (of_nat j :: uint32) = j" "(of_nat j :: uint32) < of_nat (length ri)"
    using block_ok_bounds(2) [OF assms(1)] assms(3) by (auto intro: unat_small simp: less_small)
  have "drop (off es (length es) + j * 4) (block_bytes es ri) =
      drop (4 * j) (fixed32s (map (off es) ri) @ le_bytes 4 (of_nat (length ri) :: uint32))"
    by (simp add: block_bytes_def mult.commute)
  also have "\<dots> = le_bytes 4 (of_nat (off es (ri ! j)) :: uint32) @
      fixed32s (drop (Suc j) (map (off es) ri)) @ le_bytes 4 (of_nat (length ri) :: uint32)"
    using assms(3) drop_fixed32s [of j "map (off es) ri"] by simp
  finally show ?thesis
    using assms(2) j unat_off [OF assms(1), of "length es"]
    by (simp add: GetRestartPoint_def over_def)
qed

lemma restart_loop_in_block:
  assumes "block_ok es ri" "over es ri it" "i < length es" "bi_current it = of_nat (off es i)" "in_block ri i it"
  shows "\<exists>k. restart_loop it = Some (it\<lparr>bi_restart_index := k\<rparr>) \<and> in_block ri i (it\<lparr>bi_restart_index := k\<rparr>)"
proof -
  have "\<exists>k. restart_loop it = Some (it\<lparr>bi_restart_index := k\<rparr>) \<and> in_block ri i (it\<lparr>bi_restart_index := k\<rparr>)"
    if "bi_restart_index it = of_nat j" "ri ! j \<le> i" "over es ri it" "bi_current it = of_nat (off es i)" "j < length ri"
    for j it
    using that
  proof (induction "length ri - j" arbitrary: j it rule: less_induct)
    case less
    have idx: "bi_restart_index it + 1 = of_nat (Suc j)" using less.prems by (simp add: add.commute)
    have num: "of_nat (Suc j) < (of_nat (length ri) :: uint32) \<longleftrightarrow> Suc j < length ri"
      using less.prems block_ok_bounds(2) [OF assms(1)] less_small [of "Suc j" "length ri"] by simp
    have stay: "in_block ri i (it\<lparr>bi_restart_index := bi_restart_index it\<rparr>)"
      using less.prems by (auto simp: in_block_def)
    consider "Suc j < length ri" "ri ! Suc j < i" | "\<not> (Suc j < length ri \<and> ri ! Suc j < i)" by blast
    then show ?case
    proof cases
      case 1
      have "(of_nat (off es (ri ! Suc j)) :: uint32) < of_nat (off es i)"
        using off_less [OF assms(1) restart_le [OF assms(1) 1(1)], of i] 1 assms(3) by simp
      then have step: "restart_loop it = restart_loop (it\<lparr>bi_restart_index := of_nat (Suc j)\<rparr>)"
        using 1 less.prems GetRestartPoint_off [OF assms(1) less.prems(3) 1(1)] num idx
        by (subst restart_loop.simps) (simp add: over_def del: of_nat_Suc)
      let ?it = "it\<lparr>bi_restart_index := of_nat (Suc j)\<rparr>"
      have "over es ri ?it" using less.prems by (simp add: over_def)
      from less.hyps [of "Suc j" ?it] this 1 less.prems step show ?thesis by auto
    next
      case 2
      have "restart_loop it = Some it"
      proof (cases "Suc j < length ri")
        case True
        then have "\<not> (of_nat (off es (ri ! Suc j)) :: uint32) < of_nat (off es i)"
          using off_less [OF assms(1) restart_le [OF assms(1) True], of i] 2 assms(3) by simp
        then show ?thesis
          using True less.prems GetRestartPoint_off [OF assms(1) less.prems(3) True] num idx
          by (subst restart_loop.simps) (simp add: over_def del: of_nat_Suc)
      next
        case False
        then show ?thesis using less.prems num idx
          by (subst restart_loop.simps) (simp add: over_def del: of_nat_Suc)
      qed
      with stay show ?thesis by (intro exI [of _ "bi_restart_index it"]) simp
    qed
  qed
  with assms show ?thesis by (auto simp: in_block_def)
qed

section \<open>One step\<close>

lemma entries_at:
  assumes "i < length es"
  shows "entries_bytes es = entries_bytes (take i es) @ entry_bytes (es ! i) @ entries_bytes (drop (Suc i) es)"
proof -
  have "entries_bytes es = entries_bytes (take i es) @ entries_bytes (drop i es)" by (rule entries_split)
  then show ?thesis using assms by (simp add: Cons_nth_drop_Suc [symmetric])
qed

text \<open>The three lengths in front of an entry, and the layout of the contents around it.\<close>

definition entry_head :: "block_entry \<Rightarrow> byte list" where
  "entry_head e = leb128 (eshared e) @ leb128 (length (ekey e) - eshared e) @ leb128 (length (evalue e))"

lemma entry_bytes_head: "entry_bytes e = entry_head e @ drop (eshared e) (ekey e) @ evalue e"
  by (simp add: entry_bytes_def entry_head_def)

lemma block_around:
  assumes "i < length es"
  shows "block_bytes es ri = entries_bytes (take i es) @ entry_head (es ! i) @
      drop (eshared (es ! i)) (ekey (es ! i)) @ evalue (es ! i) @
      drop (off es (Suc i)) (block_bytes es ri)"
    and "off es (Suc i) = off es i + length (entry_head (es ! i)) +
      (length (ekey (es ! i)) - eshared (es ! i)) + length (evalue (es ! i))"
proof -
  show "off es (Suc i) = off es i + length (entry_head (es ! i)) +
      (length (ekey (es ! i)) - eshared (es ! i)) + length (evalue (es ! i))"
    using assms by (simp add: off_Suc entry_bytes_head)
  have "block_bytes es ri = take (off es (Suc i)) (block_bytes es ri) @ drop (off es (Suc i)) (block_bytes es ri)"
    by simp
  also have "take (off es (Suc i)) (block_bytes es ri) = entries_bytes (take (Suc i) es)"
    by (simp add: block_bytes_def off_def entries_split [of es "Suc i"])
  finally show "block_bytes es ri = entries_bytes (take i es) @ entry_head (es ! i) @
      drop (eshared (es ! i)) (ekey (es ! i)) @ evalue (es ! i) @
      drop (off es (Suc i)) (block_bytes es ri)"
    using assms by (simp add: take_Suc_conv_app_nth entry_bytes_head)
qed

text \<open>A key is no longer than the bytes up to the end of its entry.\<close>

lemma key_le_off:
  assumes "chained es" and "i < length es"
  shows "length (ekey (es ! i)) \<le> off es (Suc i)"
  using assms(2)
proof (induction i)
  case 0
  have "eshared (es ! 0) = 0" using assms(1) 0 by (auto simp: chained_def follows_def prev_key_def)
  then show ?case using block_around(2) [OF 0] by simp
next
  case (Suc i)
  have "eshared (es ! Suc i) \<le> length (ekey (es ! i))"
    using assms(1) Suc.prems by (auto simp: chained_def follows_def prev_key_def)
  with Suc show ?case using block_around(2) [OF Suc.prems] by simp
qed

lemma DecodeEntry_at:
  assumes ok: "block_ok es ri" and over: "over es ri it" and i: "i < length es"
  shows "\<exists>rest. DecodeEntry (drop (off es i) (take (unat (bi_restarts it)) (bi_data it))) =
      Some (of_nat (eshared (es ! i)), of_nat (length (ekey (es ! i)) - eshared (es ! i)),
        of_nat (length (evalue (es ! i))), rest) \<and>
    unat (bi_restarts it) - length rest = off es i + length (entry_head (es ! i))"
proof -
  let ?e = "es ! i"
  let ?rest = "drop (eshared ?e) (ekey ?e) @ evalue ?e @ entries_bytes (drop (Suc i) es)"
  have restarts: "unat (bi_restarts it) = off es (length es)"
    using over unat_off [OF ok, of "length es"] by (simp add: over_def)
  have bound: "off es (Suc i) < 2 ^ 32" "off es (length es) < 2 ^ 32"
    using block_ok_bounds(1) [OF ok, of "Suc i"] block_ok_bounds(1) [OF ok, of "length es"] i by simp_all
  have key: "eshared ?e \<le> length (ekey ?e)" "length (ekey ?e) \<le> off es (Suc i)"
    using ok i key_le_off [of es i] by (auto simp: block_ok_def chained_def follows_def)
  have "drop (off es i) (take (unat (bi_restarts it)) (bi_data it)) = entry_head ?e @ ?rest"
    using over i restarts drop_off [of i es] entries_at [OF i]
    by (simp add: over_def block_bytes_def entry_bytes_head off_def)
  moreover have "length ?rest \<le> off es (length es)" 
    using off_simps(2) [of es] entries_at [OF i] by (simp add: entry_bytes_head)
  ultimately have "DecodeEntry (drop (off es i) (take (unat (bi_restarts it)) (bi_data it))) =
      Some (of_nat (eshared ?e), of_nat (length (ekey ?e) - eshared ?e), of_nat (length (evalue ?e)), ?rest)"
    using bound key by (simp add: entry_head_def DecodeEntry_bytes)
  moreover have "off es (length es) = off es i + length (entry_head ?e) + length ?rest"
    using i entries_at [OF i] by (simp add: entry_bytes_head off_def)
  ultimately show ?thesis using restarts by (intro exI [of _ ?rest]) simp
qed

lemma NextEntryOffset_value: "bi_value it = Some (a, l) \<Longrightarrow> a + l = n \<Longrightarrow> NextEntryOffset it = Some (of_nat n)"
  by (auto simp: NextEntryOffset_def simp del: of_nat_add)

lemma ParseNextKey_entry:
  assumes ok: "block_ok es ri" and before: "before_entry es ri m it" and m: "m < length es"
  shows "\<exists>it'. ParseNextKey it = Some (True, it') \<and> at_entry es ri m it'"
proof -
  let ?e = "es ! m" and ?cur = "of_nat (off es m) :: uint32"
  let ?n = "length (ekey ?e) - eshared ?e" and ?v = "length (evalue ?e)"
  obtain a l where slice: "bi_value it = Some (a, l)" "a + l = off es m" and over: "over es ri it"
    and block: "in_block ri m it" and key: "eshared ?e \<le> length (bi_key it)"
      "take (eshared ?e) (bi_key it) = take (eshared ?e) (ekey ?e)"
    using before m by (auto simp: before_entry_def)
  obtain rest where decode: "DecodeEntry (drop (off es m) (take (unat (bi_restarts it)) (bi_data it))) =
      Some (of_nat (eshared ?e), of_nat ?n, of_nat ?v, rest)"
    and p: "unat (bi_restarts it) - length rest = off es m + length (entry_head ?e)"
    using DecodeEntry_at [OF ok over m] by blast
  have bound: "off es m < 2 ^ 32" "off es (Suc m) < 2 ^ 32"
    using block_ok_bounds(1) [OF ok, of m] block_ok_bounds(1) [OF ok, of "Suc m"] m by simp_all
  have keylen: "eshared ?e \<le> length (ekey ?e)" "length (ekey ?e) \<le> off es (Suc m)"
    using ok m key_le_off [of es m] by (auto simp: block_ok_def chained_def follows_def)
  have "eshared ?e < 2 ^ 32" "?n < 2 ^ 32" "?v < 2 ^ 32"
    using keylen bound block_around(2) [OF m] by linarith+
  then have u: "unat (of_nat (eshared ?e) :: uint32) = eshared ?e" "unat (of_nat ?n :: uint32) = ?n"
    "unat (of_nat ?v :: uint32) = ?v" "unat ?cur = off es m"
    using bound(1) by (simp_all only: unat_small)
  have lt: "?cur < bi_restarts it"
    using over off_less [OF ok, of m "length es"] m by (simp add: over_def del: off_simps)
  have data: "bi_data it = entries_bytes (take m es) @ entry_head ?e @ drop (eshared ?e) (ekey ?e) @
      evalue ?e @ drop (off es (Suc m)) (bi_data it)"
    using over block_around(1) [OF m, of ri] by (simp add: over_def)
  let ?p = "off es m + length (entry_head ?e)"
  have delta: "take ?n (drop ?p (bi_data it)) = drop (eshared ?e) (ekey ?e)"
    by (subst data) (simp add: off_def)
  have val: "take ?v (drop (?p + ?n) (bi_data it)) = evalue ?e"
    by (subst data) (simp add: off_def)
  have inside: "\<not> ?p + ?n > length (bi_data it)"
    by (subst data) (simp add: off_def)
  let ?it = "it\<lparr>bi_current := ?cur, bi_key := ekey ?e, bi_value := Some (?p + ?n, ?v)\<rparr>"
  have "over es ri ?it" "in_block ri m ?it" using over block by (auto simp: over_def in_block_def)
  with restart_loop_in_block [OF ok, of ?it m] m obtain k where
    k: "restart_loop ?it = Some (?it\<lparr>bi_restart_index := k\<rparr>)" "in_block ri m (?it\<lparr>bi_restart_index := k\<rparr>)"
    by auto
  have "ParseNextKey it = Some (True, ?it\<lparr>bi_restart_index := k\<rparr>)"
  proof -
    have "take (eshared ?e) (bi_key it) @ drop (eshared ?e) (ekey ?e) = ekey ?e" using key(2) by simp
    then show ?thesis
      using NextEntryOffset_value [OF slice] lt decode p key(1) u delta inside k(1)
      by (simp add: ParseNextKey_def Let_def not_le not_less)
  qed
  moreover have "at_entry es ri m (?it\<lparr>bi_restart_index := k\<rparr>)"
    using over m k(2) val block_around(2) [OF m] by (simp add: at_entry_def over_def)
  ultimately show ?thesis by blast
qed

lemma ParseNextKey_end:
  assumes "block_ok es ri" and "before_entry es ri (length es) it"
  shows "\<exists>it'. ParseNextKey it = Some (False, it') \<and> at_end es ri it'"
proof -
  have "NextEntryOffset it = Some (bi_restarts it)" and "over es ri it"
    using assms(2) NextEntryOffset_value by (auto simp: before_entry_def over_def)
  then show ?thesis by (simp add: ParseNextKey_def at_end_def over_def Let_def)
qed

lemma at_before:
  assumes "block_ok es ri" and "at_entry es ri i it"
  shows "before_entry es ri (Suc i) it"
proof -
  have "Suc i < length es \<Longrightarrow> follows (ekey (es ! i)) (es ! Suc i)"
    using assms(1) by (auto simp: block_ok_def chained_def prev_key_def)
  then show ?thesis
    using assms(2) by (auto simp: at_entry_def before_entry_def follows_def in_block_def intro: le_SucI)
qed

lemma SeekToRestartPoint_before:
  assumes ok: "block_ok es ri" and over: "over es ri it" and j: "j < length ri"
  shows "\<exists>it'. SeekToRestartPoint (of_nat j) it = Some it' \<and> before_entry es ri (ri ! j) it'"
proof -
  let ?it = "it\<lparr>bi_key := [], bi_restart_index := of_nat j\<rparr>"
  have over': "over es ri ?it" using over by (simp add: over_def)
  have "unat (of_nat (off es (ri ! j)) :: uint32) = off es (ri ! j)"
    using unat_off [OF ok restart_le [OF ok j]] .
  moreover have "ri ! j < length es \<Longrightarrow> eshared (es ! (ri ! j)) = 0" using restart_shared [OF ok j] .
  ultimately show ?thesis
    using GetRestartPoint_off [OF ok over' j] over j restart_le [OF ok j]
    by (auto simp: SeekToRestartPoint_def before_entry_def over_def in_block_def Let_def)
qed

section \<open>The operations\<close>

lemma at_entry_over: "at_entry es ri i it \<Longrightarrow> over es ri it"
  by (simp add: at_entry_def)

lemma at_entry_Valid: "block_ok es ri \<Longrightarrow> at_entry es ri i it \<Longrightarrow> bi_Valid it"
  using off_less [of es ri i "length es"] by (simp add: at_entry_def bi_Valid_def over_def)

lemma NextEntryOffset_at: "at_entry es ri i it \<Longrightarrow> NextEntryOffset it = Some (of_nat (off es (Suc i)))"
  using NextEntryOffset_value by (auto simp: at_entry_def)

text \<open>The position \<open>i\<close>, of an entry or behind the last one.\<close>

definition positioned :: "block_entry list \<Rightarrow> nat list \<Rightarrow> nat \<Rightarrow> block_iter \<Rightarrow> bool" where
  "positioned es ri i it \<longleftrightarrow> (if i < length es then at_entry es ri i it else at_end es ri it)"

lemma ParseNextKey_positioned:
  assumes "block_ok es ri" and "before_entry es ri m it"
  shows "\<exists>it'. ParseNextKey it = Some (m < length es, it') \<and> positioned es ri m it'"
proof (cases "m < length es")
  case True
  then show ?thesis using ParseNextKey_entry [OF assms] by (simp add: positioned_def)
next
  case False
  then have "m = length es" using assms(2) by (simp add: before_entry_def)
  then show ?thesis using ParseNextKey_end [OF assms(1), of it] assms(2) by (simp add: positioned_def)
qed

lemma bi_Next_positioned:
  assumes "block_ok es ri" and "at_entry es ri i it"
  shows "\<exists>it'. bi_Next it = Some it' \<and> positioned es ri (Suc i) it'"
  using ParseNextKey_positioned [OF assms(1) at_before [OF assms]] at_entry_Valid [OF assms]
  by (auto simp: bi_Next_def)

lemma parse_until_at:
  assumes "block_ok es ri" and "before_entry es ri m it" and "m \<le> e" and "e < length es"
  shows "\<exists>it'. parse_until (of_nat (off es (Suc e))) it = Some it' \<and> at_entry es ri e it'"
  using assms(2,3)
proof (induction "e - m" arbitrary: m it)
  case 0
  then have "m = e" by simp
  with 0 obtain it' where "ParseNextKey it = Some (True, it')" "at_entry es ri e it'"
    using ParseNextKey_entry [OF assms(1), of m it] assms(4) by auto
  then show ?case by (subst parse_until.simps) (simp add: NextEntryOffset_at)
next
  case (Suc d)
  then have "m < e" by simp
  with Suc obtain it' where it': "ParseNextKey it = Some (True, it')" "at_entry es ri m it'"
    using ParseNextKey_entry [OF assms(1), of m it] assms(4) by auto
  have "(of_nat (off es (Suc m)) :: uint32) < of_nat (off es (Suc e))"
    using off_less [OF assms(1), of "Suc m" "Suc e"] \<open>m < e\<close> assms(4) by simp
  then have "parse_until (of_nat (off es (Suc e))) it = parse_until (of_nat (off es (Suc e))) it'"
    using it' by (subst parse_until.simps) (simp add: NextEntryOffset_at)
  moreover have "before_entry es ri (Suc m) it'" using at_before [OF assms(1) it'(2)] .
  ultimately show ?case using Suc.hyps(1) [of "Suc m" it'] Suc.hyps(2) \<open>m < e\<close> by simp
qed

lemma bi_SeekToFirst_positioned:
  assumes "block_ok es ri" and "over es ri it"
  shows "\<exists>it'. bi_SeekToFirst it = Some it' \<and> positioned es ri 0 it'"
proof -
  have "0 < length ri" "ri ! 0 = 0" using assms(1) by (auto simp: block_ok_def restarts_ok_def)
  with SeekToRestartPoint_before [OF assms, of 0] obtain it1 where
    "SeekToRestartPoint 0 it = Some it1" "before_entry es ri 0 it1" by auto
  with ParseNextKey_positioned [OF assms(1), of 0 it1] show ?thesis
    by (auto simp: bi_SeekToFirst_def)
qed

lemma bi_SeekToLast_positioned:
  assumes ok: "block_ok es ri" and over: "over es ri it"
  shows "\<exists>it'. bi_SeekToLast it = Some it' \<and> positioned es ri (length es - 1) it'"
proof -
  let ?j = "length ri - 1"
  have ri: "ri \<noteq> []" using ok by (auto simp: block_ok_def restarts_ok_def)
  then have "bi_num_restarts it - 1 = of_nat ?j"
    using over by (simp add: over_def of_nat_diff Suc_le_eq)
  moreover obtain it1 where it1: "SeekToRestartPoint (of_nat ?j) it = Some it1" "before_entry es ri (ri ! ?j) it1"
    using SeekToRestartPoint_before [OF assms, of ?j] ri by auto
  moreover have restarts: "bi_restarts it = of_nat (off es (length es))" "bi_restarts it1 = of_nat (off es (length es))"
    using over it1(2) by (simp_all add: over_def before_entry_def)
  moreover have "\<exists>it'. parse_until (bi_restarts it1) it1 = Some it' \<and> positioned es ri (length es - 1) it'"
  proof (cases "es = []")
    case True
    then have "ri ! ?j = length es" using restart_le [OF ok, of ?j] ri by simp
    with it1 ParseNextKey_end [OF ok, of it1] obtain it' where
      "ParseNextKey it1 = Some (False, it')" "at_end es ri it'" by auto
    with True show ?thesis by (subst parse_until.simps) (simp add: positioned_def)
  next
    case False
    then have "ri ! ?j < length es"
      using ok ri nth_mem [of ?j ri] by (auto simp: block_ok_def restarts_ok_def)
    then have "ri ! ?j \<le> length es - 1" by simp
    from parse_until_at [OF ok it1(2) this] False restarts(2) show ?thesis
      by (simp add: positioned_def del: off_simps)
  qed
  ultimately show ?thesis by (simp add: bi_SeekToLast_def)
qed

lemma before_loop_found:
  assumes ok: "block_ok es ri" and "i < length es" "0 < i"
    and "over es ri it" "j < length ri" "bi_restart_index it = of_nat j" "ri ! j \<le> i"
  shows "\<exists>k < length ri. before_loop (of_nat (off es i)) it = Some (True, it\<lparr>bi_restart_index := of_nat k\<rparr>) \<and> ri ! k < i"
  using assms(4-7)
proof (induction j arbitrary: it)
  case 0
  then have "ri ! 0 < i" using ok assms(3) by (simp add: block_ok_def restarts_ok_def)
  then have "\<not> (of_nat (off es i) :: uint32) \<le> of_nat (off es (ri ! 0))"
    using off_less [OF ok restart_le [OF ok], of 0 i] 0 assms(2) by (simp add: not_le)
  then have "before_loop (of_nat (off es i)) it = Some (True, it\<lparr>bi_restart_index := of_nat 0\<rparr>)"
    using 0 GetRestartPoint_off [OF ok 0(1), of 0] by (subst before_loop.simps) simp
  with 0 \<open>ri ! 0 < i\<close> show ?case by blast
next
  case (Suc j)
  have idx: "(of_nat (Suc j) :: uint32) \<noteq> 0" "(of_nat (Suc j) :: uint32) - 1 = of_nat j"
    using unat_small [of "Suc j"] block_ok_bounds(2) [OF ok] Suc.prems(2) by auto
  show ?case
  proof (cases "ri ! Suc j < i")
    case True
    then have "\<not> (of_nat (off es i) :: uint32) \<le> of_nat (off es (ri ! Suc j))"
      using off_less [OF ok restart_le [OF ok Suc.prems(2)], of i] assms(2) by (simp add: not_le)
    then have "before_loop (of_nat (off es i)) it = Some (True, it)"
      using Suc.prems GetRestartPoint_off [OF ok Suc.prems(1,2)] by (subst before_loop.simps) (simp del: of_nat_Suc)
    with True Suc.prems show ?thesis by (intro exI [of _ "Suc j"]) simp
  next
    case False
    then have "(of_nat (off es i) :: uint32) \<le> of_nat (off es (ri ! Suc j))"
      using off_less [OF ok restart_le [OF ok Suc.prems(2)], of i] assms(2) by (simp add: not_less)
    then have step: "before_loop (of_nat (off es i)) it = before_loop (of_nat (off es i)) (it\<lparr>bi_restart_index := of_nat j\<rparr>)"
      using Suc.prems GetRestartPoint_off [OF ok Suc.prems(1,2)] idx by (subst before_loop.simps) (simp del: of_nat_Suc)
    have "ri ! j < ri ! Suc j"
      using ok Suc.prems(2) by (simp add: block_ok_def restarts_ok_def sorted_wrt_iff_nth_less)
    with Suc.prems have "ri ! j \<le> i" by simp
    with Suc.IH [of "it\<lparr>bi_restart_index := of_nat j\<rparr>"] Suc.prems step show ?thesis
      by (auto simp: over_def)
  qed
qed

lemma before_loop_none:
  assumes ok: "block_ok es ri" and "over es ri it" "j < length ri" "bi_restart_index it = of_nat j" "ri ! j = 0"
  shows "before_loop (of_nat (off es 0)) it =
    Some (False, it\<lparr>bi_current := bi_restarts it, bi_restart_index := bi_num_restarts it\<rparr>)"
proof -
  have "j = 0"
  proof (rule ccontr)
    assume "j \<noteq> 0"
    moreover have "sorted_wrt (<) ri" using ok by (simp add: block_ok_def restarts_ok_def)
    ultimately have "ri ! 0 < ri ! j" using sorted_wrt_nth_less [of "(<)" ri 0 j] assms(3) by blast
    with assms(5) show False by simp
  qed
  then show ?thesis
    using assms GetRestartPoint_off [OF ok assms(2), of 0] by (subst before_loop.simps) simp
qed

lemma bi_Prev_positioned:
  assumes ok: "block_ok es ri" and at: "at_entry es ri i it"
  shows "\<exists>it'. bi_Prev it = Some it' \<and> positioned es ri (if i = 0 then length es else i - 1) it'"
proof -
  have over: "over es ri it" and i: "i < length es" and cur: "bi_current it = of_nat (off es i)"
    using at by (simp_all add: at_entry_def)
  obtain j where j: "j < length ri" "bi_restart_index it = of_nat j" "ri ! j \<le> i"
    using at by (auto simp: at_entry_def in_block_def)
  note Valid = at_entry_Valid [OF assms]
  show ?thesis
  proof (cases "i = 0")
    case True
    with j before_loop_none [OF ok over j(1,2)] Valid cur over show ?thesis
      by (simp add: bi_Prev_def positioned_def at_end_def over_def)
  next
    case False
    then obtain k where k: "k < length ri" "ri ! k < i"
      "before_loop (of_nat (off es i)) it = Some (True, it\<lparr>bi_restart_index := of_nat k\<rparr>)"
      using before_loop_found [OF ok i _ over j] by auto
    have "over es ri (it\<lparr>bi_restart_index := of_nat k\<rparr>)" using over by (simp add: over_def)
    from SeekToRestartPoint_before [OF ok this k(1)] obtain it1 where
      it1: "SeekToRestartPoint (of_nat k) (it\<lparr>bi_restart_index := of_nat k\<rparr>) = Some it1" "before_entry es ri (ri ! k) it1"
      by blast
    have "ri ! k \<le> i - 1" "i - 1 < length es" "Suc (i - 1) = i" using k(2) i False by auto
    from parse_until_at [OF ok it1(2) this(1,2)] this(3) it1(1) k(3) Valid cur i False show ?thesis
      by (auto simp: bi_Prev_def positioned_def Let_def)
  qed
qed

section \<open>Searching\<close>

text \<open>\<^verbatim>\<open>DecodeEntry\<close> at a restart point yields the whole key.\<close>

lemma restart_key:
  assumes ok: "block_ok es ri" and over: "over es ri it" and j: "j < length ri" and i: "ri ! j < length es"
  shows "\<exists>n v rest p. DecodeEntry (drop (off es (ri ! j)) (take (unat (bi_restarts it)) (bi_data it))) =
      Some (0, n, v, rest) \<and> unat (bi_restarts it) - length rest = p \<and> p + unat n \<le> length (bi_data it) \<and>
    take (unat n) (drop p (bi_data it)) = ekey (es ! (ri ! j))"
proof -
  let ?i = "ri ! j" and ?e = "es ! (ri ! j)"
  have shared: "eshared ?e = 0" using restart_shared [OF ok j i] .
  have "length (ekey ?e) \<le> off es (Suc ?i)" "off es (Suc ?i) < 2 ^ 32"
    using ok i key_le_off [of es ?i] block_ok_bounds(1) [OF ok, of "Suc ?i"] by (auto simp: block_ok_def)
  then have u: "unat (of_nat (length (ekey ?e)) :: uint32) = length (ekey ?e)" by (intro unat_small) linarith
  have data: "bi_data it = entries_bytes (take ?i es) @ entry_head ?e @ ekey ?e @
      evalue ?e @ drop (off es (Suc ?i)) (bi_data it)"
    using over block_around(1) [OF i, of ri] shared by (simp add: over_def)
  let ?p = "off es ?i + length (entry_head ?e)"
  have "take (length (ekey ?e)) (drop ?p (bi_data it)) = ekey ?e" "?p + length (ekey ?e) \<le> length (bi_data it)"
    by (subst data, simp add: off_def)+
  with DecodeEntry_at [OF ok over i] shared u show ?thesis by fastforce
qed

text \<open>The position that \<^verbatim>\<open>Seek\<close> has to find.\<close>

definition seek_position :: "(slice \<Rightarrow> slice \<Rightarrow> int option) \<Rightarrow> slice \<Rightarrow> slice list \<Rightarrow> nat" where
  "seek_position Compare target ks = length (takeWhile (\<lambda>k. cmp_less Compare k target) ks)"

lemma seek_position_unique:
  assumes "m \<le> length ks" "\<And>i. i < m \<Longrightarrow> cmp_less Compare (ks ! i) target"
    and "m < length ks \<Longrightarrow> \<not> cmp_less Compare (ks ! m) target"
  shows "seek_position Compare target ks = m"
proof -
  have "takeWhile (\<lambda>k. cmp_less Compare k target) ks = take m ks"
    using assms by (intro takeWhile_eq_take_P_nth) auto
  with assms(1) show ?thesis by (simp add: seek_position_def)
qed

locale block_order = comparator Compare valid
  for Compare :: "slice \<Rightarrow> slice \<Rightarrow> int option" and valid :: "slice \<Rightarrow> bool"
begin

text \<open>\<^verbatim>\<open>Compare(b, a) > 0\<close> for \<open>a\<close> below \<open>b\<close>, and the sign of a comparison.\<close>

lemma Compare_above:
  assumes "valid a" "valid b" "cmp_less Compare a b"
  shows "\<exists>c > 0. Compare b a = Some c"
proof -
  obtain r where r: "Compare a b = Some r" "r < 0"
    using assms(3) by (auto simp: cmp_less_def split: option.splits)
  then obtain s where "Compare b a = Some s" "sgn s = - sgn r" using Compare_swap assms(1,2) by blast
  with r show ?thesis by (auto simp: sgn_if split: if_splits)
qed

lemma Compare_sign:
  assumes "valid a" "valid b"
  shows "\<exists>c. Compare a b = Some c \<and> (c < 0 \<longleftrightarrow> cmp_less Compare a b)"
  using Compare_returns [OF assms] by (auto simp: cmp_less_def)

lemma search_loop_found:
  assumes ok: "block_ok es ri" and over: "over es ri it" and target: "valid target"
    and keys: "\<forall>e \<in> set es. valid (ekey e)"
  shows "l \<le> r \<Longrightarrow> r < length ri \<Longrightarrow> l = 0 \<or> ri ! l < length es \<and> cmp_less Compare (ekey (es ! (ri ! l))) target \<Longrightarrow>
    \<exists>j < length ri. search_loop Compare target it (of_nat l) (of_nat r) = Some (Some (of_nat j)) \<and>
      (j = 0 \<or> ri ! j < length es \<and> cmp_less Compare (ekey (es ! (ri ! j))) target)"
proof (induction "r - l" arbitrary: l r rule: less_induct)
  case less
  have num: "length ri < 2 ^ 30" 
    using ok by (simp add: block_ok_def block_bytes_def)
  have lr: "(of_nat l :: uint32) < of_nat r \<longleftrightarrow> l < r"
    using num less.prems by (intro less_small) simp_all
  show ?case
  proof (cases "l < r")
    case False
    then have "search_loop Compare target it (of_nat l) (of_nat r) = Some (Some (of_nat l))"
      using lr by (subst search_loop.simps) simp
    with less.prems False show ?thesis by auto
  next
    case True
    define mid where "mid = (l + r + 1) div 2"
    have mid: "l < mid" "mid \<le> r" "mid < length ri" using True less.prems by (auto simp: mid_def)
    have sum: "of_nat l + of_nat r + 1 = (of_nat (l + r + 1) :: uint32)" by simp
    have wmid: "(of_nat l + of_nat r + 1) div 2 = (of_nat mid :: uint32)"
    proof (rule unsigned_word_eqI)
      have "unat (of_nat (l + r + 1) :: uint32) = l + r + 1" "unat (of_nat mid :: uint32) = mid"
        using num less.prems(1,2) mid by (intro unat_small; simp)+
      then show "unat ((of_nat l + of_nat r + 1) div 2 :: uint32) = unat (of_nat mid :: uint32)"
        unfolding sum unat_div by (simp add: mid_def del: of_nat_add of_nat_Suc)
    qed
    have pred: "(of_nat mid :: uint32) - 1 = of_nat (mid - 1)" using mid by (simp add: of_nat_diff Suc_le_eq)
    have "ri \<noteq> [0]" using mid by (cases ri) auto
    then have i: "ri ! mid < length es" using ok mid by (auto simp: block_ok_def restarts_ok_def split: if_splits)
    let ?k = "ekey (es ! (ri ! mid))"
    obtain n v rest where decode: "DecodeEntry (drop (off es (ri ! mid)) (take (unat (bi_restarts it)) (bi_data it))) =
        Some (0, n, v, rest)" "unat (bi_restarts it) - length rest + unat n \<le> length (bi_data it)"
      "take (unat n) (drop (unat (bi_restarts it) - length rest) (bi_data it)) = ?k"
      using restart_key [OF ok over mid(3) i] by blast
    obtain c where c: "Compare ?k target = Some c" "c < 0 \<longleftrightarrow> cmp_less Compare ?k target"
      using Compare_sign [of ?k target] keys target i by auto
    have step: "search_loop Compare target it (of_nat l) (of_nat r) =
        (if c < 0 then search_loop Compare target it (of_nat mid) (of_nat r)
         else search_loop Compare target it (of_nat l) (of_nat (mid - 1)))"
      using lr True wmid pred GetRestartPoint_off [OF ok over mid(3)] decode c(1)
        unat_off [OF ok, of "ri ! mid"] i
      by (subst search_loop.simps) (simp add: Let_def)
    show ?thesis
    proof (cases "c < 0")
      case True
      with less.hyps [of r mid] mid less.prems c i step show ?thesis by auto
    next
      case False
      with less.hyps [of "mid - 1" l] mid less.prems step show ?thesis by auto
    qed
  qed
qed

lemma linear_loop_found:
  assumes ok: "block_ok es ri" and target: "valid target" and keys: "\<forall>e \<in> set es. valid (ekey e)"
  shows "before_entry es ri m it \<Longrightarrow> \<forall>i < m. cmp_less Compare (ekey (es ! i)) target \<Longrightarrow>
    \<exists>it'. linear_loop Compare target it = Some it' \<and>
      positioned es ri (seek_position Compare target (map ekey es)) it'"
proof (induction "length es - m" arbitrary: m it)
  case 0
  then have m: "m = length es" by (simp add: before_entry_def)
  with ParseNextKey_end [OF ok, of it] 0 obtain it' where
    it': "ParseNextKey it = Some (False, it')" "at_end es ri it'" by auto
  moreover have "seek_position Compare target (map ekey es) = m"
    using 0 m by (intro seek_position_unique) simp_all
  ultimately show ?case using m by (subst linear_loop.simps) (simp add: positioned_def)
next
  case (Suc d)
  then have m: "m < length es" by simp
  obtain it' where it': "ParseNextKey it = Some (True, it')" "at_entry es ri m it'"
    using ParseNextKey_entry [OF ok Suc.prems(1) m] by blast
  have key: "bi_key it' = ekey (es ! m)" using it'(2) by (simp add: at_entry_def)
  obtain c where c: "Compare (ekey (es ! m)) target = Some c" "c < 0 \<longleftrightarrow> cmp_less Compare (ekey (es ! m)) target"
    using Compare_sign [of "ekey (es ! m)" target] keys target m by auto
  show ?case
  proof (cases "c < 0")
    case True
    have "before_entry es ri (Suc m) it'" using at_before [OF ok it'(2)] .
    moreover have "\<forall>i < Suc m. cmp_less Compare (ekey (es ! i)) target"
      using Suc.prems(2) c True by (auto simp: less_Suc_eq)
    moreover have "linear_loop Compare target it = linear_loop Compare target it'"
      using it' c True key by (subst linear_loop.simps) simp
    ultimately show ?thesis using Suc.hyps(1) [of "Suc m" it'] Suc.hyps(2) by simp
  next
    case False
    then have "linear_loop Compare target it = Some it'"
      using it' c key by (subst linear_loop.simps) simp
    moreover have "seek_position Compare target (map ekey es) = m"
      using Suc.prems m c False by (intro seek_position_unique) simp_all
    ultimately show ?thesis using it' m by (simp add: positioned_def)
  qed
qed

lemma bi_Seek_positioned:
  assumes ok: "block_ok es ri" and over: "over es ri it" and target: "valid target"
    and keys: "\<forall>e \<in> set es. valid (ekey e)" and sorted: "sorted_wrt (cmp_less Compare) (map ekey es)"
  shows "\<exists>it'. bi_Seek Compare target it = Some it' \<and>
    positioned es ri (seek_position Compare target (map ekey es)) it'"
proof -
  have ri: "0 < length ri" "ri ! 0 = 0" using ok by (auto simp: block_ok_def restarts_ok_def)
  then have "bi_num_restarts it - 1 = of_nat (length ri - 1)"
    using over by (simp add: over_def of_nat_diff Suc_le_eq)
  with search_loop_found [OF ok over target keys, of 0 "length ri - 1"] ri obtain j where
    j: "j < length ri" "search_loop Compare target it 0 (bi_num_restarts it - 1) = Some (Some (of_nat j))"
      "j = 0 \<or> ri ! j < length es \<and> cmp_less Compare (ekey (es ! (ri ! j))) target" by auto
  obtain it1 where it1: "SeekToRestartPoint (of_nat j) it = Some it1" "before_entry es ri (ri ! j) it1"
    using SeekToRestartPoint_before [OF ok over j(1)] by blast
  have "\<forall>i < ri ! j. cmp_less Compare (ekey (es ! i)) target"
  proof (intro allI impI)
    fix i assume i: "i < ri ! j"
    with ri(2) j(3) have r: "ri ! j < length es" "cmp_less Compare (ekey (es ! (ri ! j))) target" by auto
    then have "cmp_less Compare (ekey (es ! i)) (ekey (es ! (ri ! j)))"
      using List.sorted_wrt_nth_less [OF sorted, of i "ri ! j"] i by simp
    with r i keys target show "cmp_less Compare (ekey (es ! i)) target"
      using less_trans [of "ekey (es ! i)" "ekey (es ! (ri ! j))" target] by auto
  qed
  from linear_loop_found [OF ok target keys it1(2) this] it1(1) j(2) show ?thesis
    by (auto simp: bi_Seek_def)
qed

lemma add_pairs_built:
  assumes "1 \<le> interval" and "built_block interval es ri b"
    and "sorted_wrt (cmp_less Compare) (map ekey es @ map fst kvs)" and "\<forall>k \<in> set (map ekey es @ map fst kvs). valid k"
    and "\<forall>(k, v) \<in> set kvs. entry_fits k v"
  shows "\<exists>b' fs ri'. add_pairs interval Compare kvs b = Some b' \<and> built_block interval (es @ fs) ri' b' \<and> pairs fs = kvs"
  using assms(2-)
proof (induction kvs arbitrary: es ri b)
  case Nil
  then show ?case by (intro exI [of _ b] exI [of _ "[]"] exI [of _ ri]) (simp add: pairs_def)
next
  case (Cons kv kvs)
  obtain k v where kv: "kv = (k, v)" by (cases kv)
  have above: "\<exists>c > 0. Compare k (prev_key es (length es)) = Some c" if ne: "es \<noteq> []"
  proof -
    obtain n where n: "length es = Suc n" using ne by (cases es) auto
    then have "ekey (es ! n) \<in> set (map ekey es)" by simp
    with n Cons.prems kv show ?thesis
      by (intro Compare_above) (auto simp: prev_key_def sorted_wrt_append)
  qed
  have "entry_fits k v" using Cons.prems(4) kv by simp
  from BlockBuilder_Add_entry [where Compare = Compare, OF Cons.prems(1) assms(1) this above] obtain b1 s ri1 where
    b1: "BlockBuilder_Add interval Compare k v b = Some b1" "built_block interval (es @ [(k, v, s)]) ri1 b1" by blast
  from Cons.IH [OF this(2)] Cons.prems kv obtain b' fs ri' where
    "add_pairs interval Compare kvs b1 = Some b'" "built_block interval ((es @ [(k, v, s)]) @ fs) ri' b'" "pairs fs = kvs"
    by (auto simp: ekey_def)
  with b1(1) kv show ?case
    by (auto simp: pairs_def ekey_def evalue_def intro!: exI [of _ "(k, v, s) # fs"])
qed

end

end
