(* ===== verification/L_Block_Theorems.thy ===== *)
theory L_Block_Theorems
  imports L_Block_Iter
begin

text \<open>
  The iterator of a block refines a position in the list of pairs that were added, on the two
  comparators of the library, and the unchecked sum of \<^verbatim>\<open>DecodeEntry\<close>.
\<close>

interpretation bytewise_block: block_order BytewiseComparator_Compare "\<lambda>_. True"
  by unfold_locales

interpretation internal_block: block_order "InternalKeyComparator_Compare BytewiseComparator_Compare"
  "valid_internal (\<lambda>_. True)"
  by unfold_locales

section \<open>The size of a block\<close>

lemma length_entry_bytes:
  assumes "entry_fits (ekey e) (evalue e)" and "eshared e \<le> length (ekey e)"
  shows "length (entry_bytes e) \<le> length (ekey e) + length (evalue e) + 15"
proof -
  have "length (leb128 n) \<le> 5" if "n < 2 ^ 32" for n
    using length_leb128 [of n 4] that by simp
  moreover from assms have "eshared e < 2 ^ 32" "length (ekey e) - eshared e < 2 ^ 32" "length (evalue e) < 2 ^ 32"
    unfolding entry_fits_def by linarith+
  ultimately have "length (leb128 (eshared e)) \<le> 5" "length (leb128 (length (ekey e) - eshared e)) \<le> 5"
    "length (leb128 (length (evalue e))) \<le> 5" by blast+
  with assms show ?thesis by (simp add: entry_bytes_def)
qed

lemma length_restarts:
  assumes "restarts_ok es ri"
  shows "length ri \<le> length es + 1"
proof (cases "es = []")
  case False
  with assms have "set ri \<subseteq> {..< length es}" "distinct ri"
    by (auto simp: restarts_ok_def strict_sorted_iff)
  then show ?thesis using card_mono [of "{..< length es}" "set ri"] distinct_card [of ri] by simp
qed (use assms in \<open>simp add: restarts_ok_def\<close>)

definition block_bound :: "(slice \<times> slice) list \<Rightarrow> nat" where
  "block_bound kvs = sum_list (map (\<lambda>(k, v). length k + length v + 19) kvs) + 8"

lemma length_entries_bytes:
  assumes "chained es" and "\<forall>e \<in> set es. entry_fits (ekey e) (evalue e)"
  shows "length (entries_bytes es) + 4 * length es + 8 \<le> block_bound (pairs es)"
  using assms
proof (induction es rule: rev_induct)
  case (snoc e es)
  then have "length (entry_bytes e) \<le> length (ekey e) + length (evalue e) + 15"
    by (intro length_entry_bytes) (auto simp: chained_append follows_def)
  with snoc show ?case by (simp add: chained_append block_bound_def pairs_def)
qed (simp add: block_bound_def pairs_def)

lemma block_bound_fits:
  assumes "block_bound kvs < 2 ^ 32"
  shows "\<forall>(k, v) \<in> set kvs. entry_fits k v"
proof -
  have "length k + length v + 19 \<le> sum_list (map (\<lambda>(k, v). length k + length v + 19) kvs)"
    if "(k, v) \<in> set kvs" for k v
    using that by (intro member_le_sum_list) (force simp: image_iff, simp)
  then show ?thesis using assms by (force simp: block_bound_def entry_fits_def)
qed

lemma built_block_size:
  assumes "built_block interval es ri b" and "block_bound (pairs es) < 2 ^ 32"
  shows "length (block_bytes es ri) \<le> block_bound (pairs es)"
proof -
  have "\<forall>e \<in> set es. entry_fits (ekey e) (evalue e)"
    using block_bound_fits [OF assms(2)] by (auto simp: pairs_def)
  then have "length (entries_bytes es) + 4 * length es + 8 \<le> block_bound (pairs es)"
    using assms(1) by (intro length_entries_bytes) (auto simp: built_block_def)
  moreover have "length ri \<le> length es + 1"
    using assms(1) by (intro length_restarts) (simp add: built_block_def)
  ultimately show ?thesis by (simp add: block_bytes_def)
qed

lemma built_block_ok:
  assumes "built_block interval es ri b" and "block_bound (pairs es) < 2 ^ 32"
  shows "block_ok es ri"
  using assms built_block_size [OF assms] by (simp add: block_ok_def built_block_def)

lemma NewIterator_over:
  assumes ok: "block_ok es ri"
  shows "\<exists>blk it. mk_Block (block_bytes es ri) = Some blk \<and> NewIterator blk = Some (BlockIter it) \<and> at_end es ri it"
proof -
  let ?d = "block_bytes es ri" and ?n = "of_nat (length ri) :: uint32"
  have len: "length ?d = off es (length es) + 4 * length ri + 4" by (simp add: block_bytes_def)
  have bound: "length ?d < 2 ^ 32" using ok by (simp add: block_ok_def)
  have ri: "0 < length ri" using ok by (auto simp: block_ok_def restarts_ok_def)
  have un: "unat ?n = length ri" "unat (1 + ?n) = 1 + length ri" "?n > 0"
    using len bound ri unat_small [of "length ri"] unat_small [of "1 + length ri"] less_small [of 0 "length ri"] by simp_all
  have "drop (length ?d - 4) ?d = le_bytes 4 ?n @ []"
    by (simp add: block_bytes_def)
  then have num: "NumRestarts \<lparr>blk_data = ?d, blk_size = length ?d, blk_restart_offset = r\<rparr> = Some ?n" for r
    using len by (simp add: NumRestarts_def del: append_Nil2)
  have "of_nat (length ?d) - of_nat (unat (1 + ?n) * 4) = (of_nat (off es (length es)) :: uint32)"
    unfolding un(2) len by (simp add: algebra_simps)
  then have "mk_Block ?d = Some \<lparr>blk_data = ?d, blk_size = length ?d,
      blk_restart_offset = Some (of_nat (off es (length es)))\<rparr>"
    using num [of None] un(1) len by (simp add: mk_Block_def Let_def)
  moreover have "NewIterator \<lparr>blk_data = ?d, blk_size = length ?d,
      blk_restart_offset = Some (of_nat (off es (length es)))\<rparr> =
    Some (BlockIter \<lparr>bi_data = ?d, bi_restarts = of_nat (off es (length es)), bi_num_restarts = ?n,
       bi_current = of_nat (off es (length es)), bi_restart_index = ?n, bi_key = [], bi_value = None,
       bi_status = Status_OK\<rparr>)"
    using num un(3) len by (simp add: NewIterator_def mk_Iter_def)
  ultimately show ?thesis by (fastforce simp: at_end_def over_def)
qed

section \<open>Sequences of operations\<close>

datatype block_op = SeekFirst | SeekLast | SeekKey slice | NextEntry | PrevEntry

definition run_op :: "(slice \<Rightarrow> slice \<Rightarrow> int option) \<Rightarrow> block_op \<Rightarrow> block_iter \<Rightarrow> block_iter option" where
  "run_op Compare oper it = (case oper of
       SeekFirst \<Rightarrow> bi_SeekToFirst it
     | SeekLast \<Rightarrow> bi_SeekToLast it
     | SeekKey target \<Rightarrow> bi_Seek Compare target it
     | NextEntry \<Rightarrow> bi_Next it
     | PrevEntry \<Rightarrow> bi_Prev it)"

fun run_ops :: "(slice \<Rightarrow> slice \<Rightarrow> int option) \<Rightarrow> block_op list \<Rightarrow> block_iter \<Rightarrow> block_iter option" where
  "run_ops Compare [] it = Some it"
| "run_ops Compare (oper # opers) it = Option.bind (run_op Compare oper it) (run_ops Compare opers)"

text \<open>
  The specification: a position in the sorted list of keys; the position behind the last key is
  that of an iterator that is not valid, where \<^verbatim>\<open>Next\<close> and \<^verbatim>\<open>Prev\<close> are not allowed.
\<close>

definition spec_op :: "(slice \<Rightarrow> slice \<Rightarrow> int option) \<Rightarrow> slice list \<Rightarrow> block_op \<Rightarrow> nat \<Rightarrow> nat option" where
  "spec_op Compare ks oper p = (case oper of
       SeekFirst \<Rightarrow> Some 0
     | SeekLast \<Rightarrow> Some (length ks - 1)
     | SeekKey target \<Rightarrow> Some (length (takeWhile (\<lambda>k. cmp_less Compare k target) ks))
     | NextEntry \<Rightarrow> if p < length ks then Some (p + 1) else None
     | PrevEntry \<Rightarrow> if p < length ks then Some (if p = 0 then length ks else p - 1) else None)"

fun spec_ops :: "(slice \<Rightarrow> slice \<Rightarrow> int option) \<Rightarrow> slice list \<Rightarrow> block_op list \<Rightarrow> nat \<Rightarrow> nat option" where
  "spec_ops Compare ks [] p = Some p"
| "spec_ops Compare ks (oper # opers) p = Option.bind (spec_op Compare ks oper p) (spec_ops Compare ks opers)"

text \<open>An iterator that is not valid, without an error, or that yields a pair.\<close>

definition shows_pair :: "(slice \<times> slice) list \<Rightarrow> nat \<Rightarrow> block_iter \<Rightarrow> bool" where
  "shows_pair kvs p it \<longleftrightarrow> bi_status it = Status_OK \<and>
     (if p < length kvs
      then bi_Valid it \<and> bi_get_key it = Some (fst (kvs ! p)) \<and> bi_get_value it = Some (snd (kvs ! p))
      else \<not> bi_Valid it)"

lemma positioned_shows:
  assumes ok: "block_ok es ri" and pos: "positioned es ri p it"
  shows "shows_pair (pairs es) p it"
proof (cases "p < length es")
  case True
  then have at: "at_entry es ri p it" using pos by (simp add: positioned_def)
  from at obtain a where a: "bi_value it = Some (a, length (evalue (es ! p)))"
    "a + length (evalue (es ! p)) = off es (Suc p)" "take (length (evalue (es ! p))) (drop a (bi_data it)) = evalue (es ! p)"
    by (auto simp: at_entry_def)
  have "off es (Suc p) \<le> off es (length es)" using True by (intro off_mono) simp_all
  also have "\<dots> \<le> length (bi_data it)" using at by (simp add: at_entry_def over_def block_bytes_def)
  finally have "bi_get_value it = Some (evalue (es ! p))"
    using a at_entry_Valid [OF ok at] by (simp add: bi_get_value_def)
  then show ?thesis
    using True at at_entry_Valid [OF ok at]
    by (simp add: shows_pair_def pairs_def bi_get_key_def at_entry_def over_def)
next
  case False
  then show ?thesis using pos
    by (simp add: shows_pair_def positioned_def pairs_def at_end_def over_def bi_Valid_def)
qed

lemma positioned_over: "positioned es ri p it \<Longrightarrow> over es ri it"
  by (auto simp: positioned_def at_entry_def at_end_def split: if_splits)

lemma positioned_not_Valid: "positioned es ri p it \<Longrightarrow> \<not> p < length es \<Longrightarrow> \<not> bi_Valid it"
  by (simp add: positioned_def at_end_def bi_Valid_def)

text \<open>The targets of the searches are keys that the comparator is defined on.\<close>

fun targets_ok :: "(slice \<Rightarrow> bool) \<Rightarrow> block_op list \<Rightarrow> bool" where
  "targets_ok valid [] = True"
| "targets_ok valid (oper # opers) = ((case oper of SeekKey target \<Rightarrow> valid target | _ \<Rightarrow> True) \<and> targets_ok valid opers)"

context block_order
begin

lemma run_op_refines:
  assumes ok: "block_ok es ri" and pos: "positioned es ri p it"
    and keys: "\<forall>e \<in> set es. valid (ekey e)" and sorted: "sorted_wrt (cmp_less Compare) (map ekey es)"
    and target: "case oper of SeekKey target \<Rightarrow> valid target | _ \<Rightarrow> True"
  shows "case spec_op Compare (map ekey es) oper p of
      None \<Rightarrow> run_op Compare oper it = None
    | Some q \<Rightarrow> \<exists>it'. run_op Compare oper it = Some it' \<and> positioned es ri q it'"
proof (cases oper)
  case SeekFirst
  then show ?thesis
    using bi_SeekToFirst_positioned [OF ok positioned_over [OF pos]] by (simp add: spec_op_def run_op_def)
next
  case SeekLast
  then show ?thesis
    using bi_SeekToLast_positioned [OF ok positioned_over [OF pos]] by (simp add: spec_op_def run_op_def)
next
  case (SeekKey target)
  then show ?thesis
    using bi_Seek_positioned [OF ok positioned_over [OF pos] _ keys sorted] target
    by (simp add: spec_op_def run_op_def seek_position_def)
next
  case NextEntry
  show ?thesis
  proof (cases "p < length es")
    case True
    then have "at_entry es ri p it" using pos by (simp add: positioned_def)
    from bi_Next_positioned [OF ok this] True NextEntry show ?thesis by (simp add: spec_op_def run_op_def)
  next
    case False
    with NextEntry positioned_not_Valid [OF pos] show ?thesis
      by (simp add: spec_op_def run_op_def bi_Next_def)
  qed
next
  case PrevEntry
  show ?thesis
  proof (cases "p < length es")
    case True
    then have "at_entry es ri p it" using pos by (simp add: positioned_def)
    from bi_Prev_positioned [OF ok this] True PrevEntry show ?thesis
      by (cases "p = 0") (simp_all add: spec_op_def run_op_def)
  next
    case False
    with PrevEntry positioned_not_Valid [OF pos] show ?thesis
      by (simp add: spec_op_def run_op_def bi_Prev_def)
  qed
qed

lemma run_ops_refine:
  assumes ok: "block_ok es ri" and keys: "\<forall>e \<in> set es. valid (ekey e)"
    and sorted: "sorted_wrt (cmp_less Compare) (map ekey es)"
  shows "positioned es ri p it \<Longrightarrow> targets_ok valid opers \<Longrightarrow>
    (case spec_ops Compare (map ekey es) opers p of
      None \<Rightarrow> run_ops Compare opers it = None
    | Some q \<Rightarrow> \<exists>it'. run_ops Compare opers it = Some it' \<and> positioned es ri q it')"
proof (induction opers arbitrary: p it)
  case (Cons oper opers)
  then have "case oper of SeekKey target \<Rightarrow> valid target | _ \<Rightarrow> True" by simp
  note step = run_op_refines [OF ok Cons.prems(1) keys sorted this]
  show ?case
  proof (cases "spec_op Compare (map ekey es) oper p")
    case None
    with step show ?thesis by simp
  next
    case (Some q)
    with step obtain it' where it': "run_op Compare oper it = Some it'" "positioned es ri q it'" by auto
    then have run: "run_ops Compare (oper # opers) it = run_ops Compare opers it'" by simp
    have spec: "spec_ops Compare (map ekey es) (oper # opers) p = spec_ops Compare (map ekey es) opers q"
      using Some by simp
    show ?thesis unfolding run spec using Cons.IH [OF it'(2)] Cons.prems(2) by simp
  qed
qed simp

text \<open>From the builder to the iterator.\<close>

lemma block_refines:
  assumes "1 \<le> interval" and sorted: "sorted_wrt (cmp_less Compare) (map fst kvs)"
    and keys: "\<forall>kv \<in> set kvs. valid (fst kv)" and bound: "block_bound kvs < 2 ^ 32"
  shows "\<exists>b0 b blk it. mk_BlockBuilder interval = Some b0 \<and> add_pairs interval Compare kvs b0 = Some b \<and>
    mk_Block (fst (BlockBuilder_Finish b)) = Some blk \<and> NewIterator blk = Some (BlockIter it) \<and>
    (\<forall>opers. targets_ok valid opers \<longrightarrow>
      (case spec_ops Compare (map fst kvs) opers (length kvs) of
        None \<Rightarrow> run_ops Compare opers it = None
      | Some p \<Rightarrow> \<exists>it'. run_ops Compare opers it = Some it' \<and> shows_pair kvs p it'))"
proof -
  obtain b0 where b0: "mk_BlockBuilder interval = Some b0" "built_block interval [] [0] b0"
    using built_block_new [OF assms(1)] by blast
  obtain b es ri where b: "add_pairs interval Compare kvs b0 = Some b" "built_block interval es ri b" "pairs es = kvs"
    using add_pairs_built [OF assms(1) b0(2), of kvs] sorted keys block_bound_fits [OF bound] by auto
  have ok: "block_ok es ri" using built_block_ok [OF b(2)] b(3) bound by simp
  obtain blk it where it: "mk_Block (fst (BlockBuilder_Finish b)) = Some blk" "NewIterator blk = Some (BlockIter it)"
    "at_end es ri it"
    using NewIterator_over [OF ok] BlockBuilder_Finish_bytes [OF b(2)] by auto
  have ks: "map ekey es = map fst kvs" "length es = length kvs" using b(3) by (auto simp: pairs_def)
  have es: "\<forall>e \<in> set es. valid (ekey e)" using keys b(3) by (auto simp: pairs_def)
  have pos: "positioned es ri (length kvs) it" using it(3) ks by (simp add: positioned_def)
  have "case spec_ops Compare (map fst kvs) opers (length kvs) of
        None \<Rightarrow> run_ops Compare opers it = None
      | Some p \<Rightarrow> \<exists>it'. run_ops Compare opers it = Some it' \<and> shows_pair kvs p it'"
    if "targets_ok valid opers" for opers
    using run_ops_refine [OF ok es _ pos that] positioned_shows [OF ok] sorted ks b(3)
    by (auto split: option.splits)
  with b0(1) b(1) it(1,2) show ?thesis by blast
qed

end

section \<open>Properties\<close>

text \<open>
  C20: A data block refines the sorted list of the pairs that were added to its builder. For every
  restart interval, \<^verbatim>\<open>BlockBuilder\<close> accepts pairs with increasing internal keys, \<^verbatim>\<open>Block\<close> accepts the
  contents it finishes, and whatever sequence of \<^verbatim>\<open>SeekToFirst\<close>, \<^verbatim>\<open>SeekToLast\<close>, \<^verbatim>\<open>Seek\<close>, \<^verbatim>\<open>Next\<close> and \<^verbatim>\<open>Prev\<close>
  is run on a new iterator ends, without a failed assertion, an access outside the block or a
  corruption, at the pair where the same sequence on the list ends: \<^verbatim>\<open>Seek\<close> at the first key at or
  above its target, \<^verbatim>\<open>Prev\<close> at the pair before. Only \<^verbatim>\<open>Next\<close> and \<^verbatim>\<open>Prev\<close> on an iterator that is not valid
  fail their assertion.
\<close>

theorem block_iterator_refines:
  assumes "1 \<le> interval" and "block_bound kvs < 2 ^ 32" and "\<forall>kv \<in> set kvs. valid_internal (\<lambda>_. True) (fst kv)"
    and "sorted_wrt (cmp_less (InternalKeyComparator_Compare BytewiseComparator_Compare)) (map fst kvs)"
    and "targets_ok (valid_internal (\<lambda>_. True)) opers"
  defines "cmp \<equiv> InternalKeyComparator_Compare BytewiseComparator_Compare"
  shows "\<exists>b0 b blk it. mk_BlockBuilder interval = Some b0 \<and> add_pairs interval cmp kvs b0 = Some b \<and>
    mk_Block (fst (BlockBuilder_Finish b)) = Some blk \<and> NewIterator blk = Some (BlockIter it) \<and>
    (case spec_ops cmp (map fst kvs) opers (length kvs) of
        None \<Rightarrow> run_ops cmp opers it = None
      | Some p \<Rightarrow> \<exists>it'. run_ops cmp opers it = Some it' \<and> shows_pair kvs p it')"
  using internal_block.block_refines [OF assms(1,4,3,2)] assms(5) unfolding cmp_def by blast

lemma block_iterator_refines_witness:
  "\<exists>b0 b blk it it'. mk_BlockBuilder 2 = Some b0 \<and>
    add_pairs 2 (InternalKeyComparator_Compare BytewiseComparator_Compare)
      [(ikey [97] 257, [1]), (ikey [97, 98] 513, [2]), (ikey [99] 257, [])] b0 = Some b \<and>
    mk_Block (fst (BlockBuilder_Finish b)) = Some blk \<and> NewIterator blk = Some (BlockIter it) \<and>
    run_ops (InternalKeyComparator_Compare BytewiseComparator_Compare)
      [SeekKey (ikey [98] 0), PrevEntry] it = Some it' \<and>
    shows_pair [(ikey [97] 257, [1]), (ikey [97, 98] 513, [2]), (ikey [99] 257, [])] 1 it'"
proof -
  let ?kvs = "[(ikey [97] 257, [1]), (ikey [97, 98] 513, [2]), (ikey [99] 257, [])] :: (slice \<times> slice) list"
  let ?cmp = "InternalKeyComparator_Compare BytewiseComparator_Compare"
  have sorted: "sorted_wrt (cmp_less ?cmp) (map fst ?kvs)"
    by (simp add: internal_less_ikey bytewise_iff)
  have bound: "block_bound ?kvs < 2 ^ 32" by (simp add: block_bound_def ikey_def)
  have "spec_ops ?cmp (map fst ?kvs) [SeekKey (ikey [98] 0), PrevEntry] (length ?kvs) = Some 1"
    by (simp add: spec_op_def internal_less_ikey bytewise_iff)
  with block_iterator_refines [of 2 ?kvs "[SeekKey (ikey [98] 0), PrevEntry]", OF _ bound _ sorted]
  show ?thesis by simp
qed

text \<open>An entry whose two lengths have a sum of 2^32 or more, which the check of \<^verbatim>\<open>DecodeEntry\<close> wraps around.\<close>

definition entry_bytes_of :: "uint32 \<Rightarrow> uint32 \<Rightarrow> uint32 \<Rightarrow> byte list" where
  "entry_bytes_of shared non_shared value_length =
     PutVarint32 (PutVarint32 (PutVarint32 [] shared) non_shared) value_length"

lemma DecodeEntry_entry:
  assumes "\<not> of_nat (length rest) < non_shared + value_length"
  shows "DecodeEntry (entry_bytes_of shared non_shared value_length @ rest) = Some (shared, non_shared, value_length, rest)"
  using DecodeEntry_fit [of "unat shared" "unat non_shared" "unat value_length" rest] assms
    unsigned_less [of shared] unsigned_less [of non_shared] unsigned_less [of value_length]
  by (simp add: entry_bytes_of_def PutVarint32_def EncodeVarint32_leb128)

lemma GetRestartPoint_total:
  assumes "unat (bi_restarts it) + 4 * unat (bi_num_restarts it) \<le> length (bi_data it)" and "i < bi_num_restarts it"
  shows "\<exists>point. GetRestartPoint it i = Some point"
  using assms by (simp add: GetRestartPoint_def DecodeFixed32_le word_less_nat_alt)

lemma restart_loop_total:
  "unat (bi_restarts it) + 4 * unat (bi_num_restarts it) \<le> length (bi_data it) \<Longrightarrow>
   \<exists>k. restart_loop it = Some (it\<lparr>bi_restart_index := k\<rparr>)"
proof (induction it rule: restart_loop.induct)
  case (1 it)
  show ?case
  proof (cases "bi_restart_index it + 1 < bi_num_restarts it")
    case True
    then obtain point where point: "GetRestartPoint it (bi_restart_index it + 1) = Some point"
      using GetRestartPoint_total [OF 1(2)] by blast
    show ?thesis
    proof (cases "point < bi_current it")
      case True
      with 1(1) [OF \<open>bi_restart_index it + 1 < bi_num_restarts it\<close> point True] 1(2) obtain k where
        "restart_loop (it\<lparr>bi_restart_index := bi_restart_index it + 1\<rparr>) = Some (it\<lparr>bi_restart_index := k\<rparr>)" by auto
      then show ?thesis using point True \<open>bi_restart_index it + 1 < bi_num_restarts it\<close>
        by (subst restart_loop.simps) auto
    next
      case False
      then show ?thesis using point \<open>bi_restart_index it + 1 < bi_num_restarts it\<close>
        by (subst restart_loop.simps) (auto intro: exI [of _ "bi_restart_index it"])
    qed
  next
    case False
    then show ?thesis by (subst restart_loop.simps) (auto intro: exI [of _ "bi_restart_index it"])
  qed
qed

text \<open>
  C39: \<^verbatim>\<open>DecodeEntry\<close> does not keep its promise not to go past \<^verbatim>\<open>limit\<close>: \<^verbatim>\<open>*non_shared + *value_length\<close> is a
  32-bit sum. For all lengths that wrap around to a sum that fits, it accepts an entry that ends behind
  \<^verbatim>\<open>limit\<close>, where it should report a corruption. \<^verbatim>\<open>ParseNextKey\<close> on an iterator over a block with this
  entry then reads the key from behind the contents, which has no defined result, when \<^verbatim>\<open>non_shared\<close>
  alone leaves them; and otherwise it returns true with the status unchanged and a value that reaches
  behind the contents, whose bytes have no defined contents.
\<close>

theorem decode_entry_overflow:
  assumes wrap: "2 ^ 32 \<le> unat non_shared + unat value_length" "unat (non_shared + value_length) \<le> length rest"
    and entry: "NextEntryOffset it = Some offset" "offset < bi_restarts it" "unat shared \<le> length (bi_key it)"
      "drop (unat offset) (take (unat (bi_restarts it)) (bi_data it)) = entry_bytes_of shared non_shared value_length @ rest"
    and block: "unat (bi_restarts it) + 4 * unat (bi_num_restarts it) \<le> length (bi_data it)" "length (bi_data it) < 2 ^ 32"
  shows "DecodeEntry (entry_bytes_of shared non_shared value_length @ rest) = Some (shared, non_shared, value_length, rest) \<and>
    length rest < unat non_shared + unat value_length \<and>
    (let p = unat (bi_restarts it) - length rest in
      if length (bi_data it) < p + unat non_shared then ParseNextKey it = None
      else \<exists>it'. ParseNextKey it = Some (True, it') \<and> bi_status it' = bi_status it \<and> bi_Valid it' \<and>
        bi_value it' = Some (p + unat non_shared, unat value_length) \<and> bi_get_value it' = None)"
proof -
  let ?p = "unat (bi_restarts it) - length rest"
  have "length rest \<le> unat (bi_restarts it)" using arg_cong [OF entry(4), of length] block by simp
  moreover have "unat (bi_restarts it) < 2 ^ LENGTH(32)" by (rule unsigned_less)
  ultimately have small: "length rest < 2 ^ 32" by simp
  then have "\<not> of_nat (length rest) < non_shared + value_length"
    using wrap(2) by (simp add: word_less_nat_alt unat_of_nat)
  then have decode: "DecodeEntry (entry_bytes_of shared non_shared value_length @ rest) = Some (shared, non_shared, value_length, rest)"
    by (rule DecodeEntry_entry)
  let ?it = "it\<lparr>bi_current := offset, bi_key := take (unat shared) (bi_key it) @ take (unat non_shared) (drop ?p (bi_data it)),
    bi_value := Some (?p + unat non_shared, unat value_length)\<rparr>"
  have parse: "ParseNextKey it = (if length (bi_data it) < ?p + unat non_shared then None
      else do { it \<leftarrow> restart_loop ?it; Some (True, it) })"
  proof -
    have "\<not> bi_restarts it \<le> offset" "\<not> length (bi_key it) < unat shared" using entry(2,3) by simp_all
    then show ?thesis using entry(1,4) decode by (simp add: ParseNextKey_def Let_def)
  qed
  obtain k where "restart_loop ?it = Some (?it\<lparr>bi_restart_index := k\<rparr>)"
    using restart_loop_total [of ?it] block(1) by auto
  moreover have "bi_get_value (?it\<lparr>bi_restart_index := k\<rparr>) = None"
    using wrap(1) block(2) entry(2) by (simp add: bi_get_value_def bi_Valid_def)
  ultimately show ?thesis
    using decode small wrap(1) entry(2) unfolding Let_def parse by (auto simp: bi_Valid_def)
qed

text \<open>
  Two blocks with one entry: the lengths 2^32 - 1 and 1, where \<^verbatim>\<open>SeekToFirst\<close> reads 4 GB from behind the
  contents; and 1 and 2^32 - 1, where the key is read from the restart array.
\<close>

lemma decode_entry_overflow_witness:
  "(\<exists>blk it. mk_Block [0, 0xff, 0xff, 0xff, 0xff, 0x0f, 1, 0, 0, 0, 0, 1, 0, 0, 0] = Some blk \<and>
      NewIterator blk = Some (BlockIter it) \<and> bi_SeekToFirst it = None) \<and>
   (\<exists>blk it it'. mk_Block [0, 1, 0xff, 0xff, 0xff, 0xff, 0x0f, 0, 0, 0, 0, 1, 0, 0, 0] = Some blk \<and>
      NewIterator blk = Some (BlockIter it) \<and> bi_SeekToFirst it = Some it' \<and> bi_Valid it' \<and>
      bi_status it' = Status_OK \<and> bi_get_value it' = None)"
proof -
  let ?e = "[0, 0xff, 0xff, 0xff, 0xff, 0x0f, 1] :: byte list" and ?f = "[0, 1, 0xff, 0xff, 0xff, 0xff, 0x0f] :: byte list"
  let ?tail = "[0, 0, 0, 0, 1, 0, 0, 0] :: byte list"
  let ?blk = "\<lambda>d. \<lparr>blk_data = d @ ?tail, blk_size = 15, blk_restart_offset = Some 7\<rparr>"
  let ?it = "\<lambda>d. \<lparr>bi_data = d @ ?tail, bi_restarts = 7, bi_num_restarts = 1, bi_current = 7, bi_restart_index = 1,
    bi_key = [], bi_value = None, bi_status = Status_OK\<rparr>"
  let ?start = "\<lambda>d. (?it d)\<lparr>bi_restart_index := 0, bi_value := Some (0, 0)\<rparr>"
  have blocks: "mk_Block (?e @ ?tail) = Some (?blk ?e)" "mk_Block (?f @ ?tail) = Some (?blk ?f)"
    "NewIterator (?blk ?e) = Some (BlockIter (?it ?e))" "NewIterator (?blk ?f) = Some (BlockIter (?it ?f))"
    "SeekToRestartPoint 0 (?it ?e) = Some (?start ?e)" "SeekToRestartPoint 0 (?it ?f) = Some (?start ?f)"
    by code_simp+
  have entries: "entry_bytes_of 0 0xffffffff 1 = ?e" "entry_bytes_of 0 1 0xffffffff = ?f" by code_simp+
  have "ParseNextKey (?start ?e) = None"
    using decode_entry_overflow [where non_shared = "0xffffffff" and value_length = 1 and rest = "[]" and it = "?start ?e" and offset = 0 and shared = 0] entries
    by (simp add: NextEntryOffset_def)
  moreover obtain it' where "ParseNextKey (?start ?f) = Some (True, it')" "bi_status it' = Status_OK" "bi_Valid it'"
    "bi_get_value it' = None"
    using decode_entry_overflow [where non_shared = 1 and value_length = "0xffffffff" and rest = "[]" and it = "?start ?f" and offset = 0 and shared = 0] entries
    by (auto simp: NextEntryOffset_def)
  ultimately show ?thesis using blocks by (auto simp: bi_SeekToFirst_def)
qed

end
