(* ===== verification/L_Filter_Size.thy ===== *)
theory L_Filter_Size
  imports L_Filter
begin

text \<open>
  How large filter blocks get: a policy whose filters take at most two bytes for a key and 16 bytes
  more makes filter blocks that are linear in the number of keys and in the last block offset. The
  Bloom filter with ten bits for a key is such a policy.
\<close>

definition small_filters :: "(slice list \<Rightarrow> byte list \<Rightarrow> byte list option) \<Rightarrow> bool" where
  "small_filters create \<longleftrightarrow>
     (\<forall>keys dst r. create keys dst = Some r \<longrightarrow> length r \<le> length dst + 2 * length keys + 16)"

section \<open>The builder\<close>

definition fb_weight :: "filter_builder \<Rightarrow> nat" where
  "fb_weight b = length (fb_result b) + 2 * length (fb_start b)"

lemma GenerateFilter_weight:
  assumes "small_filters create" and "GenerateFilter create b = Some b'"
  shows "fb_weight b' \<le> fb_weight b + 16 \<and> length (fb_filter_offsets b') = Suc (length (fb_filter_offsets b))"
proof (cases "fb_start b = []")
  case True
  then show ?thesis using assms(2) by (auto simp: GenerateFilter_def fb_weight_def)
next
  case False
  then obtain r where r: "create (tmp_keys (length (fb_start b)) (fb_start b @ [length (fb_keys b)]) (fb_keys b)) (fb_result b) = Some r"
    "b' = \<lparr>fb_keys = [], fb_start = [], fb_result = r, fb_filter_offsets = fb_filter_offsets b @ [of_nat (length (fb_result b))]\<rparr>"
    using assms(2) by (auto simp: GenerateFilter_def Let_def Option.bind_eq_Some_conv)
  from r(1) assms(1) have "length r \<le> length (fb_result b) +
      2 * length (tmp_keys (length (fb_start b)) (fb_start b @ [length (fb_keys b)]) (fb_keys b)) + 16"
    unfolding small_filters_def by blast
  with r(2) show ?thesis by (simp add: fb_weight_def tmp_keys_def)
qed

lemma StartBlock_loop_weight:
  assumes "small_filters create" and "StartBlock_loop create i b = Some b'"
  shows "fb_weight b' + 16 * length (fb_filter_offsets b) \<le> fb_weight b + 16 * length (fb_filter_offsets b') \<and>
    length (fb_filter_offsets b') \<le> max (length (fb_filter_offsets b)) i"
  using assms
proof (induction create i b rule: StartBlock_loop.induct)
  case (1 create i b)
  show ?case
  proof (cases "length (fb_filter_offsets b) < i")
    case True
    then obtain b1 where b1: "GenerateFilter create b = Some b1" "StartBlock_loop create i b1 = Some b'"
      using 1(3) by (subst (asm) StartBlock_loop.simps) (auto simp: Option.bind_eq_Some_conv)
    show ?thesis
      using 1(1) [OF True b1(1) 1(2) b1(2)] GenerateFilter_weight [OF 1(2) b1(1)] True by auto
  next
    case False
    then show ?thesis using 1(3) by (subst (asm) StartBlock_loop.simps) simp
  qed
qed

lemma AddKeys_weight:
  "fb_weight (fold AddKey keys b) = fb_weight b + 2 * length keys \<and>
   fb_filter_offsets (fold AddKey keys b) = fb_filter_offsets b"
  by (induction keys arbitrary: b) (auto simp: AddKey_def fb_weight_def)

lemma build_blocks_weight:
  assumes "small_filters create"
  shows "build_blocks create blks b = Some b' \<Longrightarrow> \<forall>blk \<in> set blks. filter_index (fst blk) \<le> n \<Longrightarrow>
    fb_weight b' + 16 * length (fb_filter_offsets b) \<le>
      fb_weight b + 2 * length (concat (map snd blks)) + 16 * length (fb_filter_offsets b') \<and>
    length (fb_filter_offsets b') \<le> max (length (fb_filter_offsets b)) n"
proof (induction blks arbitrary: b)
  case (Cons blk blks)
  then obtain b1 where b1: "StartBlock create (fst blk) b = Some b1" "build_blocks create blks (fold AddKey (snd blk) b1) = Some b'"
    by (auto simp: Option.bind_eq_Some_conv)
  have "StartBlock_loop create (filter_index (fst blk)) b = Some b1"
    using b1(1) by (simp add: StartBlock_def Let_def filter_index_def split: if_splits)
  from StartBlock_loop_weight [OF assms this] Cons.IH [OF b1(2)] Cons.prems(2) AddKeys_weight [of "snd blk" b1]
  show ?case by auto
qed simp

lemma foldl_Put32: "foldl PutFixed32 r xs = r @ concat (map (le_bytes 4) xs)"
  by (induction xs arbitrary: r) (simp_all add: PutFixed32_def)

lemma Finish_size:
  assumes "small_filters create" and "Finish create b = Some block"
  shows "length block \<le> fb_weight b + 4 * length (fb_filter_offsets b) + 25"
proof -
  obtain b' where b': "(if fb_start b \<noteq> [] then GenerateFilter create b else Some b) = Some b'"
    "block = PutFixed32 (foldl PutFixed32 (fb_result b') (fb_filter_offsets b')) (of_nat (length (fb_result b'))) @ [of_nat kFilterBaseLg]"
    using assms(2) by (auto simp: Finish_def Let_def Option.bind_eq_Some_conv)
  have "fb_weight b' \<le> fb_weight b + 16 \<and> length (fb_filter_offsets b') \<le> Suc (length (fb_filter_offsets b))"
    using b'(1) GenerateFilter_weight [OF assms(1), of b b'] by (cases "fb_start b = []") auto
  moreover have "length (concat (map (le_bytes 4) xs)) = 4 * length xs" for xs :: "uint32 list"
    by (induction xs) auto
  then have "length block = length (fb_result b') + 4 * length (fb_filter_offsets b') + 5"
    unfolding b'(2) by (simp add: PutFixed32_def foldl_Put32)
  ultimately show ?thesis by (simp add: fb_weight_def)
qed

text \<open>A finished filter block, from the keys and the last offset.\<close>

lemma filter_block_size:
  assumes "small_filters create" and "build_blocks create blks FilterBlockBuilder = Some b"
    and "Finish create b = Some block" and "\<forall>blk \<in> set blks. filter_index (fst blk) \<le> n"
  shows "length block \<le> 2 * length (concat (map snd blks)) + 20 * n + 25"
  using build_blocks_weight [OF assms(1,2,4)] Finish_size [OF assms(1,3)]
  by (simp add: FilterBlockBuilder_def fb_weight_def)

section \<open>The Bloom filter\<close>

lemma unat_mult_le: "unat (a * b :: 'a::len word) \<le> unat a * unat b"
  by (simp add: unat_word_ariths)

lemma unat_plus_le: "unat (a + b :: 'a::len word) \<le> unat a + unat b"
  by (simp add: unat_word_ariths)

lemma bloom10_small: "small_filters (Bloom_CreateFilter bloom10)"
  unfolding small_filters_def
proof (intro allI impI)
  fix keys :: "slice list" and dst r
  assume r: "Bloom_CreateFilter bloom10 keys dst = Some r"
  let ?m = "of_nat (length keys) * 10 :: size_t"
  let ?bits = "if ?m < 64 then 64 else ?m"
  have "unat ?m \<le> length keys * 10"
    using unat_mult_le [of "of_nat (length keys) :: size_t" 10] by (simp add: unat_of_nat)
  then have "unat ?bits \<le> max 64 (length keys * 10)" by (auto simp: max_def)
  then have "unat (?bits + 7) \<le> max 64 (length keys * 10) + 7" using unat_plus_le [of ?bits 7] by simp
  then have "unat ((?bits + 7) div 8) \<le> (max 64 (length keys * 10) + 7) div 8"
    unfolding unat_div by (simp add: div_le_mono)
  moreover have "max 64 (length keys * 10) + 7 < (2 * length keys + 16) * 8" by simp
  then have "(max 64 (length keys * 10) + 7) div 8 < 2 * length keys + 16" by (rule less_mult_imp_div_less)
  ultimately have bytes: "unat ((?bits + 7) div 8) \<le> 2 * length keys + 15" by linarith
  obtain array where array: "add_keys (unat (probes bloom10)) ((?bits + 7) div 8 * 8) keys
      (replicate (unat ((?bits + 7) div 8)) 0) = Some array" "r = dst @ array @ [ucast (probes bloom10)]"
    using r by (auto simp: Bloom_CreateFilter_def Let_def Option.bind_eq_Some_conv bloom10_def)
  from array(1) have "length array = unat ((?bits + 7) div 8)"
    using covers_length [OF add_keys_covers] by fastforce
  with array(2) bytes show "length r \<le> length dst + 2 * length keys + 16" by simp
qed

lemma internal_small:
  assumes "small_filters create"
  shows "small_filters (InternalFilterPolicy_CreateFilter create)"
proof -
  have "length ys = length xs" if "those xs = Some ys" for xs :: "slice option list" and ys
    using that by (induction xs arbitrary: ys) (auto split: option.splits)
  then show ?thesis
    using assms unfolding small_filters_def InternalFilterPolicy_CreateFilter_def
    by (fastforce simp: Option.bind_eq_Some_conv)
qed

end
