(* ===== verification/L_Table_Build.thy ===== *)
theory L_Table_Build
  imports L_Table L_Block_Theorems L_Filter_Size
begin

text \<open>
  What \<^verbatim>\<open>TableBuilder\<close> writes to a file of the memory environment: the state of the builder between
  two calls, and the parts of the finished file.
\<close>

section \<open>Blocks of a table\<close>

text \<open>A finished block of given pairs.\<close>

definition is_block :: "(slice \<times> slice) list \<Rightarrow> slice \<Rightarrow> bool" where
  "is_block kvs raw \<longleftrightarrow> (\<exists>es ri. block_ok es ri \<and> pairs es = kvs \<and> raw = block_bytes es ri)"

text \<open>A data block in the file: its pairs, the contents and the type that are stored.\<close>

type_synonym file_block = "(slice \<times> slice) list \<times> slice \<times> byte"

definition bpairs :: "file_block \<Rightarrow> (slice \<times> slice) list" where "bpairs x = fst x"
definition bcontents :: "file_block \<Rightarrow> slice" where "bcontents x = fst (snd x)"
definition btype :: "file_block \<Rightarrow> byte" where "btype x = snd (snd x)"

definition file_of :: "file_block list \<Rightarrow> byte list" where
  "file_of fbs = concat (map (\<lambda>x. stored_block (bcontents x) (btype x)) fbs)"

definition block_offset :: "file_block list \<Rightarrow> nat \<Rightarrow> nat" where
  "block_offset fbs i = length (file_of (take i fbs))"

definition handle_of :: "file_block list \<Rightarrow> nat \<Rightarrow> BlockHandle" where
  "handle_of fbs i = \<lparr>bh_offset = of_nat (block_offset fbs i), bh_size = of_nat (length (bcontents (fbs ! i)))\<rparr>"

definition index_pairs :: "file_block list \<Rightarrow> slice list \<Rightarrow> (slice \<times> slice) list" where
  "index_pairs fbs seps = map (\<lambda>i. (seps ! i, handle_bytes (handle_of fbs i))) [0..<length seps]"

text \<open>The pairs behind block \<open>i\<close>, and the data blocks as the filter block builder sees them.\<close>

definition behind :: "file_block list \<Rightarrow> (slice \<times> slice) list \<Rightarrow> nat \<Rightarrow> (slice \<times> slice) list" where
  "behind fbs cur i = concat (map bpairs (drop (Suc i) fbs)) @ cur"

definition filter_blocks :: "file_block list \<Rightarrow> (slice \<times> slice) list \<Rightarrow> data_block list" where
  "filter_blocks fbs cur = map (\<lambda>i. (of_nat (block_offset fbs i), map fst (bpairs (fbs ! i)))) [0..<length fbs] @
     [(of_nat (length (file_of fbs)), map fst cur)]"

definition pairs_of :: "file_block list \<Rightarrow> (slice \<times> slice) list \<Rightarrow> (slice \<times> slice) list" where
  "pairs_of fbs cur = concat (map bpairs fbs) @ cur"

lemma file_of_simps [simp]:
  "file_of [] = []" "file_of (fbs @ [x]) = file_of fbs @ stored_block (bcontents x) (btype x)"
  by (simp_all add: file_of_def)

lemma file_of_split: "file_of fbs = file_of (take i fbs) @ file_of (drop i fbs)"
  by (subst append_take_drop_id [of i fbs, symmetric]) (simp only: file_of_def map_append concat_append)

lemma block_offset_simps [simp]:
  "block_offset fbs (length fbs) = length (file_of fbs)"
  "i \<le> length fbs \<Longrightarrow> block_offset (fbs @ [x]) i = block_offset fbs i"
  by (simp_all add: block_offset_def)

lemma handle_of_append [simp]: "i < length fbs \<Longrightarrow> handle_of (fbs @ [x]) i = handle_of fbs i"
  by (simp add: handle_of_def nth_append)

lemma index_pairs_append: "length seps \<le> length fbs \<Longrightarrow> index_pairs (fbs @ [x]) seps = index_pairs fbs seps"
  by (simp add: index_pairs_def)

lemma index_pairs_snoc:
  "index_pairs fbs (seps @ [s]) = index_pairs fbs seps @ [(s, handle_bytes (handle_of fbs (length seps)))]"
  by (simp add: index_pairs_def nth_append)

lemma length_stored_block [simp]: "length (stored_block c ty) = length c + 5"
  by (simp add: stored_block_def)

text \<open>
  Bounds on the size: every pair counts with its key in the data block and in the index, its value
  and 100 bytes for lengths, trailers, handles and filters.
\<close>

definition table_bound :: "(slice \<times> slice) list \<Rightarrow> nat" where
  "table_bound kvs = sum_list (map (\<lambda>(k, v). 2 * length k + length v + 100) kvs)"

definition data_bound :: "(slice \<times> slice) list \<Rightarrow> nat" where
  "data_bound kvs = sum_list (map (\<lambda>(k, v). length k + length v + 32) kvs)"

lemma table_bound_append [simp]: "table_bound (a @ b) = table_bound a + table_bound b"
  by (simp add: table_bound_def)

lemma data_bound_append [simp]: "data_bound (a @ b) = data_bound a + data_bound b"
  by (simp add: data_bound_def)

lemma data_le_table: "data_bound kvs \<le> table_bound kvs"
  by (induction kvs) (auto simp: data_bound_def table_bound_def)

lemma block_le_data: "kvs \<noteq> [] \<Longrightarrow> block_bound kvs + 5 \<le> data_bound kvs"
proof (induction kvs)
  case (Cons kv kvs)
  then show ?case by (cases "kvs = []") (auto simp: block_bound_def data_bound_def split: prod.splits)
qed simp

lemma block_le_data': "block_bound kvs \<le> data_bound kvs + 8"
  by (induction kvs) (auto simp: block_bound_def data_bound_def)

lemma length_le_table: "100 * length kvs \<le> table_bound kvs"
  by (induction kvs) (auto simp: table_bound_def)

section \<open>Writing a block\<close>

lemma WriteRawBlock_mem:
  "WriteRawBlock mem_writable c ty b =
    Some (\<lparr>bh_offset = tb_offset b, bh_size = of_nat (length c)\<rparr>,
      b\<lparr>tb_status := Status_OK, tb_file := tb_file b @ stored_block c ty,
        tb_offset := tb_offset b + of_nat (length (stored_block c ty))\<rparr>)"
  by (simp add: WriteRawBlock_def mem_writable_def Status_ok_def Status_OK_def stored_block_def crc32c_append
      kBlockTrailerSize_def Let_def add.assoc)

context snappy_port
begin

lemma block_contents_stores:
  assumes "compression = kNoCompression \<or> compression = kSnappyCompression" and "block_contents S compression raw = (c, ty)"
  shows "stores raw c ty \<and> length c \<le> length raw"
  using assms
  by (auto simp: block_contents_def stores_def kNoCompression_def kSnappyCompression_def split: option.splits if_splits)

lemma WriteBlock_mem:
  assumes "tb_status b = Status_OK" and "op_compression (tb_options b) = kNoCompression \<or> op_compression (tb_options b) = kSnappyCompression"
  shows "\<exists>c ty. WriteBlock mem_writable S block b =
      Some (\<lparr>bh_offset = tb_offset b, bh_size = of_nat (length c)\<rparr>,
        BlockBuilder_Reset (snd (BlockBuilder_Finish block)),
        b\<lparr>tb_status := Status_OK, tb_file := tb_file b @ stored_block c ty,
          tb_offset := tb_offset b + of_nat (length (stored_block c ty))\<rparr>) \<and>
    stores (fst (BlockBuilder_Finish block)) c ty \<and> length c \<le> length (fst (BlockBuilder_Finish block))"
proof -
  obtain c ty where c: "block_contents S (op_compression (tb_options b)) (fst (BlockBuilder_Finish block)) = (c, ty)"
    by (cases "block_contents S (op_compression (tb_options b)) (fst (BlockBuilder_Finish block))")
  show ?thesis
    using block_contents_stores [OF assms(2) c] assms(1) c
    by (intro exI [of _ c] exI [of _ ty])
      (simp add: WriteBlock_def tb_ok_def Status_ok_def Status_OK_def WriteRawBlock_mem case_prod_beta)
qed

end

lemma Reset_built: "1 \<le> interval \<Longrightarrow> built_block interval [] [0] (BlockBuilder_Reset block)"
  by (simp add: BlockBuilder_Reset_def built_block_def chained_def restarts_ok_def prev_key_def)

section \<open>The state of the builder\<close>

text \<open>
  The configuration of a table: a comparator with its shortening functions, a port, and a filter
  policy, if any, that keeps the law of \<open>filter_policy\<close>, whose filters are small and which is
  defined on the keys of the comparator.
\<close>

locale table_setup = key_comparator Compare valid Sep Succ + snappy_port S
  for Compare :: "slice \<Rightarrow> slice \<Rightarrow> int option" and valid :: "slice \<Rightarrow> bool"
    and Sep :: "slice \<Rightarrow> slice \<Rightarrow> slice option" and Succ :: "slice \<Rightarrow> slice option" and S :: snappy +
  fixes policy :: "policy_ops option" and fvalid :: "slice \<Rightarrow> bool"
  assumes policy_law: "policy = Some p \<Longrightarrow> filter_policy (fp_CreateFilter p) (fp_KeyMayMatch p) fvalid"
    and policy_size: "policy = Some p \<Longrightarrow> small_filters (fp_CreateFilter p)"
    and policy_name: "policy = Some p \<Longrightarrow> length (fp_Name p) < 2 ^ 20"
    and valid_fvalid: "valid k \<Longrightarrow> fvalid k"
begin

sublocale block_order Compare valid
  by unfold_locales

definition opts_ok :: "Options \<Rightarrow> bool" where
  "opts_ok opts \<longleftrightarrow>
     op_comparator opts = \<lparr>co_Compare = Compare, co_FindShortestSeparator = Sep, co_FindShortSuccessor = Succ\<rparr> \<and>
     1 \<le> op_block_restart_interval opts \<and>
     (op_compression opts = kNoCompression \<or> op_compression opts = kSnappyCompression) \<and>
     op_filter_policy opts = policy"

definition fblock_ok :: "file_block \<Rightarrow> bool" where
  "fblock_ok x \<longleftrightarrow> bpairs x \<noteq> [] \<and> length (bcontents x) \<le> block_bound (bpairs x) \<and>
     (\<exists>raw. is_block (bpairs x) raw \<and> stores raw (bcontents x) (btype x))"

definition keys_ok :: "(slice \<times> slice) list \<Rightarrow> bool" where
  "keys_ok kvs \<longleftrightarrow> sorted_wrt (cmp_less Compare) (map fst kvs) \<and> (\<forall>kv \<in> set kvs. valid (fst kv))"

text \<open>The separators: what the code computed from the keys around the end of a block.\<close>

definition seps_ok :: "file_block list \<Rightarrow> (slice \<times> slice) list \<Rightarrow> slice list \<Rightarrow> bool" where
  "seps_ok fbs cur seps \<longleftrightarrow> (\<forall>i < length seps. behind fbs cur i \<noteq> [] \<and>
     Sep (fst (last (bpairs (fbs ! i)))) (fst (hd (behind fbs cur i))) = Some (seps ! i))"

definition filter_ok :: "file_block list \<Rightarrow> (slice \<times> slice) list \<Rightarrow> (policy_ops \<times> filter_builder) option \<Rightarrow> bool" where
  "filter_ok fbs cur filter_block \<longleftrightarrow> (case policy of
       None \<Rightarrow> filter_block = None
     | Some p \<Rightarrow> \<exists>fb. filter_block = Some (p, fb) \<and>
         build_blocks (fp_CreateFilter p) (filter_blocks fbs cur) FilterBlockBuilder = Some fb)"

definition building :: "Options \<Rightarrow> file_block list \<Rightarrow> (slice \<times> slice) list \<Rightarrow> slice list \<Rightarrow> byte list table_builder \<Rightarrow> bool" where
  "building opts fbs cur seps b \<longleftrightarrow> opts_ok opts \<and> tb_options b = opts \<and>
     tb_index_block_options b = opts\<lparr>op_block_restart_interval := 1\<rparr> \<and>
     tb_status b = Status_OK \<and> \<not> tb_closed b \<and>
     tb_file b = file_of fbs \<and> tb_offset b = of_nat (length (file_of fbs)) \<and> (\<forall>x \<in> set fbs. fblock_ok x) \<and>
     (\<exists>es ri. built_block (op_block_restart_interval opts) es ri (tb_data_block b) \<and> pairs es = cur) \<and>
     (\<exists>es ri. built_block 1 es ri (tb_index_block b) \<and> pairs es = index_pairs fbs seps) \<and>
     length seps = length fbs - (if tb_pending_index_entry b then 1 else 0) \<and>
     (tb_pending_index_entry b \<longrightarrow> fbs \<noteq> [] \<and> cur = [] \<and> tb_pending_handle b = handle_of fbs (length fbs - 1)) \<and>
     seps_ok fbs cur seps \<and> keys_ok (pairs_of fbs cur) \<and>
     tb_num_entries b = int (length (pairs_of fbs cur)) \<and>
     (pairs_of fbs cur \<noteq> [] \<longrightarrow> tb_last_key b = fst (last (pairs_of fbs cur))) \<and>
     filter_ok fbs cur (tb_filter_block b)"

lemma length_file_of:
  assumes "\<forall>x \<in> set fbs. fblock_ok x"
  shows "length (file_of fbs) \<le> data_bound (concat (map bpairs fbs))"
  using assms
proof (induction fbs rule: rev_induct)
  case (snoc x fbs)
  then have "length (bcontents x) + 5 \<le> data_bound (bpairs x)"
    using block_le_data [of "bpairs x"] by (auto simp: fblock_ok_def)
  with snoc show ?case by simp
qed (simp add: data_bound_def)

lemma block_offset_le:
  assumes "\<forall>x \<in> set fbs. fblock_ok x" and "i \<le> length fbs"
  shows "block_offset fbs i \<le> data_bound (concat (map bpairs fbs))"
proof -
  have "block_offset fbs i \<le> length (file_of fbs)"
    using arg_cong [OF file_of_split [of fbs i], of length] by (simp add: block_offset_def)
  with length_file_of [OF assms(1)] show ?thesis by linarith
qed

lemma handle_of_ok:
  assumes "\<forall>x \<in> set fbs. fblock_ok x" and "i < length fbs" and "data_bound (concat (map bpairs fbs)) < 2 ^ 31"
  shows "handle_ok (handle_of fbs i)"
proof -
  have "fblock_ok (fbs ! i)" using assms by auto
  then have "length (bcontents (fbs ! i)) + 5 \<le> data_bound (bpairs (fbs ! i))"
    using block_le_data [of "bpairs (fbs ! i)"] by (auto simp: fblock_ok_def)
  also have "\<dots> \<le> data_bound (concat (map bpairs fbs))"
    by (subst id_take_nth_drop [OF assms(2)]) simp
  finally have "length (bcontents (fbs ! i)) < 2 ^ 31" using assms(3) by linarith
  moreover have "block_offset fbs i < 2 ^ 31" using block_offset_le [OF assms(1), of i] assms(2,3) by linarith
  moreover have "(of_nat n :: uint64) \<noteq> NOT 0" if "n < 2 ^ 31" for n
  proof
    assume eq: "(of_nat n :: uint64) = NOT 0"
    have "unat (of_nat n :: uint64) = n" using that by (intro unat_small64) simp
    moreover have "unat (NOT 0 :: uint64) = 2 ^ 64 - 1" by (simp add: unsigned_minus_1_eq_mask mask_eq_exp_minus_1)
    ultimately show False using that unfolding eq by simp
  qed
  ultimately show ?thesis by (simp add: handle_ok_def handle_of_def)
qed

text \<open>A new builder.\<close>

lemma mk_TableBuilder_building:
  assumes "opts_ok opts"
  shows "\<exists>b. mk_TableBuilder opts [] = Some b \<and> building opts [] [] [] b"
proof -
  obtain db where db: "mk_BlockBuilder (op_block_restart_interval opts) = Some db"
    "built_block (op_block_restart_interval opts) [] [0] db"
    using built_block_new assms by (auto simp: opts_ok_def)
  have "built_block 1 [] [0] db" using db(2) by (simp add: built_block_def)
  moreover have start: "StartBlock (fp_CreateFilter p) 0 FilterBlockBuilder = Some FilterBlockBuilder" for p :: policy_ops
    by (simp add: StartBlock_def FilterBlockBuilder_def StartBlock_loop.simps)
  then have "build_blocks (fp_CreateFilter p) (filter_blocks [] []) FilterBlockBuilder = Some FilterBlockBuilder" for p :: policy_ops
    by (simp add: filter_blocks_def)
  moreover have fp: "op_filter_policy opts = policy" using assms by (simp add: opts_ok_def)
  define fbk where "fbk = map_option (\<lambda>p. (p, FilterBlockBuilder)) policy"
  have "(case op_filter_policy opts of None \<Rightarrow> Some None
      | Some p \<Rightarrow> map_option (\<lambda>fb. Some (p, fb)) (StartBlock (fp_CreateFilter p) 0 FilterBlockBuilder)) = Some fbk"
    unfolding fp fbk_def using start by (simp split: option.splits)
  moreover have "filter_ok [] [] fbk"
    unfolding filter_ok_def fbk_def using calculation(2) by (simp split: option.splits)
  ultimately show ?thesis
    using db assms
    by (auto simp: mk_TableBuilder_def building_def index_pairs_def seps_ok_def keys_ok_def
        pairs_of_def pairs_def intro!: exI [of _ "[]"] exI [of _ "[0]"])
qed

text \<open>The filter builder never fails, and the finished filter block is small and misses no key.\<close>

lemma filter_index_of_nat: "n < 2 ^ 64 \<Longrightarrow> filter_index (of_nat n) = n div 2048"
  by (simp add: filter_index_def kFilterBase_def kFilterBaseLg_def unat_div unat_small64)

lemma filter_total:
  assumes policy: "policy = Some p" and blocks: "\<forall>x \<in> set fbs. fblock_ok x" and keys: "keys_ok (pairs_of fbs cur)"
    and bound: "table_bound (pairs_of fbs cur) < 2 ^ 30"
  shows "\<exists>fb fblock. build_blocks (fp_CreateFilter p) (filter_blocks fbs cur) FilterBlockBuilder = Some fb \<and>
    Finish (fp_CreateFilter p) fb = Some fblock \<and>
    length fblock \<le> 2 * length (pairs_of fbs cur) + 20 * (length (file_of fbs) div 2048) + 25 \<and>
    (\<forall>blk \<in> set (filter_blocks fbs cur). \<forall>k \<in> set (snd blk).
       do { r \<leftarrow> FilterBlockReader fblock; Reader_KeyMayMatch (fp_KeyMayMatch p) r (fst blk) k } = Some True)"
proof -
  let ?blks = "filter_blocks fbs cur" and ?n = "length (file_of fbs) div 2048"
  have data: "data_bound (concat (map bpairs fbs)) < 2 ^ 30" "data_bound (pairs_of fbs cur) < 2 ^ 30"
    using bound data_le_table [of "pairs_of fbs cur"] by (simp_all add: pairs_of_def)
  have flen: "length (file_of fbs) < 2 ^ 30" using length_file_of [OF blocks] data(1) by linarith
  have offsets: "block_offset fbs i \<le> length (file_of fbs)" for i
    using arg_cong [OF file_of_split [of fbs i], of length] by (simp add: block_offset_def)
  have mono: "block_offset fbs i \<le> block_offset fbs j" if "i \<le> j" for i j
    using that arg_cong [OF file_of_split [of "take j fbs" i], of length] by (simp add: block_offset_def min_def)
  have index: "filter_index (of_nat (block_offset fbs i)) = block_offset fbs i div 2048" for i
    using offsets [of i] flen by (intro filter_index_of_nat) simp
  have last: "filter_index (of_nat (length (file_of fbs))) = ?n" using flen by (intro filter_index_of_nat) simp
  have "map (\<lambda>blk. filter_index (fst blk)) ?blks = map (\<lambda>i. block_offset fbs i div 2048) [0..<length fbs] @ [?n]"
    using index last by (simp add: filter_blocks_def comp_def)
  moreover have "sorted (map (\<lambda>i. block_offset fbs i div 2048) [0..<length fbs] @ [?n])"
    unfolding sorted_append
    using mono offsets by (auto simp: sorted_map sorted_wrt_upt sorted_wrt_iff_nth_less intro!: div_le_mono)
  ultimately have sorted: "sorted (map (\<lambda>blk. filter_index (fst blk)) ?blks)" by simp
  have concat: "concat (map snd ?blks) = map fst (pairs_of fbs cur)"
  proof -
    have "concat (map (\<lambda>i. map fst (bpairs (fbs ! i))) [0..<length fbs]) = map fst (concat (map bpairs fbs))"
      using arg_cong [OF map_nth [of fbs], of "\<lambda>xs. map fst (concat (map bpairs xs))"] by (simp add: map_concat comp_def)
    then show ?thesis by (simp add: filter_blocks_def pairs_of_def comp_def)
  qed
  have valid: "\<forall>blk \<in> set ?blks. \<forall>k \<in> set (snd blk). fvalid k"
  proof (intro ballI)
    fix blk k assume "blk \<in> set ?blks" "k \<in> set (snd blk)"
    then have "k \<in> set (concat (map snd ?blks))" by auto
    then show "fvalid k" using keys valid_fvalid unfolding concat by (auto simp: keys_ok_def)
  qed
  have len: "length (concat (map snd ?blks)) < 2 ^ 31"
    unfolding concat using length_le_table [of "pairs_of fbs cur"] bound by simp
  obtain fb fblock where fb: "build_blocks (fp_CreateFilter p) ?blks FilterBlockBuilder = Some fb"
    "Finish (fp_CreateFilter p) fb = Some fblock"
    and sound: "length fblock < 2 ^ 32 \<longrightarrow> (\<forall>blk \<in> set ?blks. \<forall>k \<in> set (snd blk).
       do { r \<leftarrow> FilterBlockReader fblock; Reader_KeyMayMatch (fp_KeyMayMatch p) r (fst blk) k } = Some True)"
    using filter_policy.filter_block_sound [OF policy_law [OF policy] sorted valid len] by blast
  have "\<forall>blk \<in> set ?blks. filter_index (fst blk) \<le> ?n"
    using index last offsets by (auto simp: filter_blocks_def intro: div_le_mono)
  from filter_block_size [OF policy_size [OF policy] fb this]
  have small: "length fblock \<le> 2 * length (pairs_of fbs cur) + 20 * ?n + 25" unfolding concat by simp
  moreover have "length fblock < 2 ^ 32"
  proof -
    have "?n < 2 ^ 20" using flen by (simp add: less_mult_imp_div_less)
    then show ?thesis using small length_le_table [of "pairs_of fbs cur"] bound by simp
  qed
  ultimately show ?thesis using fb sound by blast
qed

lemma build_blocks_append:
  "build_blocks create (xs @ ys) b = Option.bind (build_blocks create xs b) (build_blocks create ys)"
  by (induction xs arbitrary: b) (auto split: Option.bind_splits)

lemma filter_blocks_add:
  "build_blocks create (filter_blocks fbs (cur @ [kv])) b = map_option (AddKey (fst kv)) (build_blocks create (filter_blocks fbs cur) b)"
  by (auto simp: filter_blocks_def build_blocks_append split: Option.bind_splits)

lemma filter_blocks_flush:
  "filter_blocks (fbs @ [(cur, c, ty)]) [] = filter_blocks fbs cur @ [(of_nat (length (file_of (fbs @ [(cur, c, ty)]))), [])]"
  by (simp add: filter_blocks_def bpairs_def nth_append)

section \<open>Keys and separators\<close>

lemma pairs_of_split: "i < length fbs \<Longrightarrow> pairs_of fbs cur = concat (map bpairs (take i fbs)) @ bpairs (fbs ! i) @ behind fbs cur i"
  by (subst (1) id_take_nth_drop [of i fbs]) (simp_all add: pairs_of_def behind_def)

lemma behind_elem:
  assumes "i < j" "j < length fbs" "kv \<in> set (bpairs (fbs ! j))"
  shows "kv \<in> set (behind fbs cur i)"
proof -
  have "fbs ! j \<in> set (drop (Suc i) fbs)"
    using assms(1,2) nth_mem [of "j - Suc i" "drop (Suc i) fbs"] by simp
  with assms(3) show ?thesis by (auto simp: behind_def)
qed

lemma boundary:
  assumes keys: "keys_ok (pairs_of fbs cur)" and i: "i < length fbs" and ne: "bpairs (fbs ! i) \<noteq> []"
  shows "valid (fst (last (bpairs (fbs ! i))))"
    and "kv \<in> set (behind fbs cur i) \<Longrightarrow> valid (fst kv) \<and> cmp_less Compare (fst (last (bpairs (fbs ! i)))) (fst kv)"
    and "kv \<in> set (behind fbs cur i) \<Longrightarrow> cmp_leq Compare (fst (hd (behind fbs cur i))) (fst kv)"
    and "kv \<in> set (bpairs (fbs ! i)) \<Longrightarrow> valid (fst kv) \<and> cmp_leq Compare (fst kv) (fst (last (bpairs (fbs ! i))))"
proof -
  let ?k = "bpairs (fbs ! i)" and ?r = "behind fbs cur i"
  have sorted: "sorted_wrt (cmp_less Compare) (map fst ?k @ map fst ?r)"
    and valid: "\<forall>kv \<in> set ?k \<union> set ?r. valid (fst kv)"
    using keys unfolding keys_ok_def pairs_of_split [OF i] by (auto simp: sorted_wrt_append)
  have last: "last ?k \<in> set ?k" using ne by simp
  then show "valid (fst (last ?k))" using valid by blast
  show "kv \<in> set ?r \<Longrightarrow> valid (fst kv) \<and> cmp_less Compare (fst (last ?k)) (fst kv)"
    using sorted valid last by (auto simp: sorted_wrt_append)
  show "cmp_leq Compare (fst (hd ?r)) (fst kv)" if "kv \<in> set ?r"
    using sorted valid that leq_refl less_imp_leq by (cases ?r) (auto simp: sorted_wrt_append)
  show "valid (fst kv) \<and> cmp_leq Compare (fst kv) (fst (last ?k))" if "kv \<in> set ?k"
  proof -
    obtain ks where ks: "?k = ks @ [last ?k]" using ne by (metis append_butlast_last_id)
    have "sorted_wrt (cmp_less Compare) (map fst (ks @ [last ?k]))" using sorted ks by (simp add: sorted_wrt_append)
    moreover have "kv \<in> set (ks @ [last ?k])" using that ks by simp
    ultimately have "kv = last ?k \<or> cmp_less Compare (fst kv) (fst (last ?k))" by (auto simp: sorted_wrt_append)
    then show ?thesis using valid that leq_refl less_imp_leq by auto
  qed
qed

lemma separators:
  assumes "keys_ok (pairs_of fbs cur)" and "\<forall>x \<in> set fbs. fblock_ok x" and "seps_ok fbs cur seps"
    and "length seps \<le> length fbs" and i: "i < length seps"
  shows "valid (seps ! i) \<and> cmp_leq Compare (fst (last (bpairs (fbs ! i)))) (seps ! i) \<and>
    cmp_less Compare (seps ! i) (fst (hd (behind fbs cur i))) \<and> behind fbs cur i \<noteq> [] \<and>
    length (seps ! i) \<le> length (fst (last (bpairs (fbs ! i))))"
proof -
  have len: "i < length fbs" using assms(4) i by simp
  then have ne: "bpairs (fbs ! i) \<noteq> []" using assms(2) by (auto simp: fblock_ok_def)
  note b = boundary [OF assms(1) len ne]
  have sep: "behind fbs cur i \<noteq> []" "Sep (fst (last (bpairs (fbs ! i)))) (fst (hd (behind fbs cur i))) = Some (seps ! i)"
    using assms(3) i by (auto simp: seps_ok_def)
  then have hd: "hd (behind fbs cur i) \<in> set (behind fbs cur i)" by simp
  from separator [OF b(1), of "fst (hd (behind fbs cur i))"] b(2) [OF hd] sep show ?thesis by auto
qed

text \<open>A separator is below every key behind its block, and so below every key that is not below one.\<close>

lemma separator_below:
  assumes "keys_ok (pairs_of fbs cur)" and "\<forall>x \<in> set fbs. fblock_ok x" and "seps_ok fbs cur seps"
    and "length seps \<le> length fbs" and i: "i < length seps" and kv: "kv \<in> set (behind fbs cur i)"
  shows "cmp_less Compare (seps ! i) (fst kv)"
proof -
  have len: "i < length fbs" using assms(4) i by simp
  then have ne: "bpairs (fbs ! i) \<noteq> []" using assms(2) by (auto simp: fblock_ok_def)
  note s = separators [OF assms(1-5)] and b = boundary [OF assms(1) len ne]
  have "hd (behind fbs cur i) \<in> set (behind fbs cur i)" using s by simp
  then show ?thesis using s b(2) b(3) [OF kv] kv less_leq_trans by blast
qed

end

end
