(* ===== verification/L_Table_Finish.thy ===== *)
theory L_Table_Finish
  imports L_Table_Build
begin

text \<open>
  Every call of \<^verbatim>\<open>TableBuilder\<close> keeps the state of \<open>building\<close>, and \<^verbatim>\<open>Finish\<close> writes a file of known
  parts: data blocks, filter block, metaindex block, index block and footer.
\<close>

context table_setup
begin

lemma buildingI:
  assumes "opts_ok opts" "tb_options b = opts" "tb_index_block_options b = opts\<lparr>op_block_restart_interval := 1\<rparr>"
    "tb_status b = Status_OK" "\<not> tb_closed b" "tb_file b = file_of fbs" "tb_offset b = of_nat (length (file_of fbs))"
    "\<forall>x \<in> set fbs. fblock_ok x"
    "built_block (op_block_restart_interval opts) es ri (tb_data_block b)" "pairs es = cur"
    "built_block 1 es' ri' (tb_index_block b)" "pairs es' = index_pairs fbs seps"
    "length seps = length fbs - (if tb_pending_index_entry b then 1 else 0)"
    "tb_pending_index_entry b \<Longrightarrow> fbs \<noteq> [] \<and> cur = [] \<and> tb_pending_handle b = handle_of fbs (length fbs - 1)"
    "seps_ok fbs cur seps" "keys_ok (pairs_of fbs cur)" "tb_num_entries b = int (length (pairs_of fbs cur))"
    "pairs_of fbs cur \<noteq> [] \<Longrightarrow> tb_last_key b = fst (last (pairs_of fbs cur))"
    "filter_ok fbs cur (tb_filter_block b)"
  shows "building opts fbs cur seps b"
  unfolding building_def using assms by blast

lemma buildingD:
  assumes "building opts fbs cur seps b"
  shows "opts_ok opts" "tb_options b = opts" "tb_index_block_options b = opts\<lparr>op_block_restart_interval := 1\<rparr>"
    "tb_status b = Status_OK" "\<not> tb_closed b" "tb_file b = file_of fbs" "tb_offset b = of_nat (length (file_of fbs))"
    "\<forall>x \<in> set fbs. fblock_ok x"
    "length seps = length fbs - (if tb_pending_index_entry b then 1 else 0)"
    "tb_pending_index_entry b \<Longrightarrow> fbs \<noteq> [] \<and> cur = [] \<and> tb_pending_handle b = handle_of fbs (length fbs - 1)"
    "seps_ok fbs cur seps" "keys_ok (pairs_of fbs cur)" "tb_num_entries b = int (length (pairs_of fbs cur))"
    "pairs_of fbs cur \<noteq> [] \<Longrightarrow> tb_last_key b = fst (last (pairs_of fbs cur))"
    "filter_ok fbs cur (tb_filter_block b)"
  using assms unfolding building_def by blast+

lemma building_blocks:
  assumes "building opts fbs cur seps b"
  obtains es ri es' ri' where "built_block (op_block_restart_interval opts) es ri (tb_data_block b)" "pairs es = cur"
    "built_block 1 es' ri' (tb_index_block b)" "pairs es' = index_pairs fbs seps"
  using assms unfolding building_def by blast

section \<open>The index block\<close>

lemma add_index_entry_built:
  assumes opts: "opts_ok opts" "tb_index_block_options b = opts\<lparr>op_block_restart_interval := 1\<rparr>"
    and index: "built_block 1 es ri (tb_index_block b)" "pairs es = index_pairs fbs seps"
    and handle: "tb_pending_handle b = handle_of fbs (length seps)" "handle_ok (handle_of fbs (length seps))"
    and sep: "valid sep" "length sep < 2 ^ 32" "\<forall>i < length seps. valid (seps ! i) \<and> cmp_less Compare (seps ! i) sep"
  shows "\<exists>ib es ri. add_index_entry sep b =
      Some (b\<lparr>tb_last_key := sep, tb_index_block := ib, tb_pending_index_entry := False\<rparr>) \<and>
    built_block 1 es ri ib \<and> pairs es = index_pairs fbs (seps @ [sep])"
proof -
  let ?h = "handle_bytes (handle_of fbs (length seps))"
  have fits: "entry_fits sep ?h"
    using sep(2) length_handle_bytes [of "handle_of fbs (length seps)"] by (simp add: entry_fits_def kMaxEncodedLength_def)
  have keys: "map ekey es = seps"
  proof -
    have "map ekey es = map fst (pairs es)" by (simp add: pairs_def comp_def)
    also have "\<dots> = map fst (index_pairs fbs seps)" using index(2) by simp
    finally have "map ekey es = map fst (index_pairs fbs seps)" .
    then show ?thesis by (simp add: index_pairs_def comp_def map_nth)
  qed
  have above: "\<exists>c > 0. Compare sep (prev_key es (length es)) = Some c" if ne: "es \<noteq> []"
  proof -
    obtain n where n: "length es = Suc n" using ne by (cases es) auto
    have "n < length seps" using keys n by auto
    moreover have "prev_key es (length es) = seps ! n"
      using keys n by (auto simp: prev_key_def)
    ultimately show ?thesis using sep Compare_above by simp
  qed
  from BlockBuilder_Add_entry [where Compare = Compare, OF index(1) _ fits above] obtain ib s ri' where
    ib: "BlockBuilder_Add 1 Compare sep ?h (tb_index_block b) = Some ib" "built_block 1 (es @ [(sep, ?h, s)]) ri' ib"
    by auto
  have "pairs (es @ [(sep, ?h, s)]) = index_pairs fbs (seps @ [sep])"
    using index(2) by (simp add: pairs_def index_pairs_snoc ekey_def evalue_def)
  moreover have "add_index_entry sep b = Some (b\<lparr>tb_last_key := sep, tb_index_block := ib, tb_pending_index_entry := False\<rparr>)"
    using opts handle ib(1) BlockHandle_EncodeTo_bytes [OF handle(2), of "[]"]
    by (simp add: add_index_entry_def opts_ok_def)
  ultimately show ?thesis using ib(2) by blast
qed

text \<open>A key at or above the last key of all blocks is above all separators.\<close>

lemma separators_below_key:
  assumes "keys_ok (pairs_of fbs cur)" and "\<forall>x \<in> set fbs. fblock_ok x" and "seps_ok fbs cur seps"
    and "length seps \<le> length fbs" and "valid k" and "pairs_of fbs cur \<noteq> []"
    and above: "cmp_leq Compare (fst (last (pairs_of fbs cur))) k" and i: "i < length seps"
  shows "valid (seps ! i) \<and> cmp_less Compare (seps ! i) k"
proof -
  note s = separators [OF assms(1-4) i]
  have "pairs_of fbs cur = concat (map bpairs (take i fbs)) @ bpairs (fbs ! i) @ behind fbs cur i"
    using pairs_of_split i assms(4) by simp
  then have "last (pairs_of fbs cur) = last (behind fbs cur i)" using s by simp
  moreover have "last (behind fbs cur i) \<in> set (behind fbs cur i)" using s by simp
  ultimately have "cmp_less Compare (seps ! i) (fst (last (pairs_of fbs cur)))" "valid (fst (last (pairs_of fbs cur)))"
    using separator_below [OF assms(1-4) i] assms(1) by (auto simp: keys_ok_def pairs_of_split [OF less_le_trans [OF i assms(4)]])
  then show ?thesis using s above assms(5) less_leq_trans by blast
qed

section \<open>Adding a pair\<close>

lemma behind_add: "behind fbs (cur @ d) i = behind fbs cur i @ d"
  by (simp add: behind_def)

lemma seps_ok_add: "seps_ok fbs cur seps \<Longrightarrow> seps_ok fbs (cur @ d) seps"
  by (simp add: seps_ok_def behind_add)

lemma keys_ok_snoc:
  assumes "keys_ok (kvs @ [(k, v)])"
  shows "keys_ok kvs" and "valid k" and "kvs \<noteq> [] \<Longrightarrow> valid (fst (last kvs)) \<and> cmp_less Compare (fst (last kvs)) k"
proof -
  show "keys_ok kvs" "valid k" using assms by (auto simp: keys_ok_def sorted_wrt_append)
  show "valid (fst (last kvs)) \<and> cmp_less Compare (fst (last kvs)) k" if "kvs \<noteq> []"
    using assms that last_in_set [OF that] by (auto simp: keys_ok_def sorted_wrt_append)
qed

lemma key_length:
  assumes "table_bound kvs < 2 ^ 30" and "(k, v) \<in> set kvs"
  shows "length k < 2 ^ 30" and "length v < 2 ^ 30"
proof -
  have "2 * length k + length v + 100 \<le> table_bound kvs"
    unfolding table_bound_def using assms(2) by (intro member_le_sum_list) (force, simp)
  with assms(1) show "length k < 2 ^ 30" "length v < 2 ^ 30" by linarith+
qed

text \<open>The call up to the check of the size: the pair is in the data block, no index entry is pending.\<close>

definition add_entry :: "slice \<Rightarrow> slice \<Rightarrow> byte list table_builder \<Rightarrow> byte list table_builder option" where
  "add_entry key value b = do {
     b \<leftarrow> (if tb_pending_index_entry b then
         if \<not> BlockBuilder_empty (tb_data_block b) then None
         else do {
           last_key \<leftarrow> Sep (tb_last_key b) key;
           add_index_entry last_key b
         }
       else Some b);
     let b = b\<lparr>tb_filter_block := map_option (\<lambda>(p, fb). (p, AddKey key fb)) (tb_filter_block b),
               tb_last_key := key, tb_num_entries := tb_num_entries b + 1\<rparr>;
     data_block \<leftarrow> BlockBuilder_Add (op_block_restart_interval (tb_options b)) Compare key value (tb_data_block b);
     Some (b\<lparr>tb_data_block := data_block\<rparr>)
   }"

lemma building_pending:
  assumes b: "building opts fbs cur seps b" and keys: "keys_ok (pairs_of fbs cur @ [(k, v)])"
    and bound: "table_bound (pairs_of fbs cur) < 2 ^ 30" and pending: "tb_pending_index_entry b"
  shows "\<exists>sep ib es ri. Sep (tb_last_key b) k = Some sep \<and>
    add_index_entry sep b = Some (b\<lparr>tb_last_key := sep, tb_index_block := ib, tb_pending_index_entry := False\<rparr>) \<and>
    built_block 1 es ri ib \<and> pairs es = index_pairs fbs (seps @ [sep]) \<and> seps_ok fbs [(k, v)] (seps @ [sep])"
proof -
  note inv = b [unfolded building_def]
  have cur: "cur = []" "fbs \<noteq> []" "length seps = length fbs - 1" using inv pending by auto
  let ?n = "length fbs - 1"
  have n: "?n < length fbs" "Suc ?n = length fbs" using cur(2) by simp_all
  have blocks: "\<forall>x \<in> set fbs. fblock_ok x" using inv by blast
  then have ne: "bpairs (fbs ! ?n) \<noteq> []" using n(1) by (auto simp: fblock_ok_def)
  have all: "pairs_of fbs [] = concat (map bpairs (take ?n fbs)) @ bpairs (fbs ! ?n)"
    using pairs_of_split [OF n(1), of "[]"] n(2) by (simp add: behind_def)
  then have pne: "pairs_of fbs [] \<noteq> []" and last: "last (pairs_of fbs []) = last (bpairs (fbs ! ?n))" using ne by auto
  have kb: "valid k" "keys_ok (pairs_of fbs [])" "valid (fst (last (pairs_of fbs [])))"
    "cmp_less Compare (fst (last (pairs_of fbs []))) k"
    using keys_ok_snoc [OF keys] pne cur(1) by auto
  have lk: "tb_last_key b = fst (last (pairs_of fbs []))" using inv pne cur(1) by simp
  obtain sep where sep: "Sep (tb_last_key b) k = Some sep" "valid sep" "cmp_leq Compare (tb_last_key b) sep"
    "cmp_less Compare sep k" "length sep \<le> length (tb_last_key b)"
    using separator [OF kb(3,1,4)] lk by auto
  have "(fst (last (pairs_of fbs [])), snd (last (pairs_of fbs []))) \<in> set (pairs_of fbs [])" using pne by simp
  then have "length sep < 2 ^ 32" using key_length(1) [OF bound] sep(5) lk cur(1) by fastforce
  moreover have "\<forall>i < length seps. valid (seps ! i) \<and> cmp_less Compare (seps ! i) sep"
    using separators_below_key [OF kb(2) blocks _ _ sep(2) pne] sep(3) lk inv cur by auto
  moreover have "handle_ok (handle_of fbs (length seps))"
    using bound data_le_table [of "pairs_of fbs cur"] cur n(1)
    by (intro handle_of_ok [OF blocks]) (auto simp: pairs_of_def)
  moreover obtain es ri where "built_block 1 es ri (tb_index_block b)" "pairs es = index_pairs fbs seps"
    using inv by blast
  moreover have "opts_ok opts" "tb_index_block_options b = opts\<lparr>op_block_restart_interval := 1\<rparr>"
    "tb_pending_handle b = handle_of fbs (length seps)"
    using inv pending cur(3) by auto
  ultimately obtain ib es' ri' where
    "add_index_entry sep b = Some (b\<lparr>tb_last_key := sep, tb_index_block := ib, tb_pending_index_entry := False\<rparr>)"
    "built_block 1 es' ri' ib" "pairs es' = index_pairs fbs (seps @ [sep])"
    using add_index_entry_built [of opts b es ri fbs seps sep] sep(2) by blast
  moreover have "seps_ok fbs [(k, v)] (seps @ [sep])"
  proof -
    have "seps_ok fbs [(k, v)] seps" using seps_ok_add [of fbs cur seps "[(k, v)]"] inv cur(1) by simp
    moreover have "behind fbs [(k, v)] ?n = [(k, v)]" using n(2) by (simp add: behind_def)
    ultimately show ?thesis
      using sep(1) lk last cur(3) by (auto simp: seps_ok_def nth_append less_Suc_eq)
  qed
  ultimately show ?thesis using sep(1) by blast
qed

lemma add_entry_building:
  assumes b: "building opts fbs cur seps b" and keys: "keys_ok (pairs_of fbs cur @ [(k, v)])"
    and bound: "table_bound (pairs_of fbs cur @ [(k, v)]) < 2 ^ 30"
  shows "\<exists>b' seps'. add_entry k v b = Some b' \<and> building opts fbs (cur @ [(k, v)]) seps' b' \<and>
    \<not> tb_pending_index_entry b'"
proof -
  note i = buildingD [OF b] and inv = b [unfolded building_def]
  have fits: "entry_fits k v"
    using key_length [OF bound, of k v] by (simp add: entry_fits_def)
  obtain es ri where data: "built_block (op_block_restart_interval opts) es ri (tb_data_block b)" "pairs es = cur"
    using inv by blast
  have above: "\<exists>c > 0. Compare k (prev_key es (length es)) = Some c" if ne: "es \<noteq> []"
  proof -
    have cur: "cur \<noteq> []" using data(2) ne by (auto simp: pairs_def)
    then have "last (pairs_of fbs cur) = last cur" "pairs_of fbs cur \<noteq> []" by (auto simp: pairs_of_def)
    moreover have "prev_key es (length es) = fst (last cur)"
      using ne data(2) by (cases es rule: rev_cases) (auto simp: pairs_def prev_key_def)
    ultimately show ?thesis using keys_ok_snoc(2,3) [OF keys] Compare_above by auto
  qed
  obtain db s ri' where db: "BlockBuilder_Add (op_block_restart_interval opts) Compare k v (tb_data_block b) = Some db"
    "built_block (op_block_restart_interval opts) (es @ [(k, v, s)]) ri' db"
    using BlockBuilder_Add_entry [where Compare = Compare, OF data(1) _ fits above] i(1) by (auto simp: opts_ok_def)
  have cur': "pairs (es @ [(k, v, s)]) = cur @ [(k, v)]" using data(2) by (simp add: pairs_def ekey_def evalue_def)
  have filter: "filter_ok fbs (cur @ [(k, v)]) (map_option (\<lambda>(p, fb). (p, AddKey k fb)) (tb_filter_block b))"
    using i(15) by (auto simp: filter_ok_def filter_blocks_add split: option.splits)
  have all: "pairs_of fbs (cur @ [(k, v)]) = pairs_of fbs cur @ [(k, v)]" by (simp add: pairs_of_def)
  let ?done = "\<lambda>b. b\<lparr>tb_filter_block := map_option (\<lambda>(p, fb). (p, AddKey k fb)) (tb_filter_block b),
    tb_last_key := k, tb_num_entries := tb_num_entries b + 1, tb_data_block := db\<rparr>"
  show ?thesis
  proof (cases "tb_pending_index_entry b")
    case True
    obtain sep ib es2 ri2 where sep: "Sep (tb_last_key b) k = Some sep"
      "add_index_entry sep b = Some (b\<lparr>tb_last_key := sep, tb_index_block := ib, tb_pending_index_entry := False\<rparr>)"
      "built_block 1 es2 ri2 ib" "pairs es2 = index_pairs fbs (seps @ [sep])" "seps_ok fbs [(k, v)] (seps @ [sep])"
      using building_pending [OF b keys _ True] bound by auto
    have cur: "cur = []" "fbs \<noteq> []" "length seps = length fbs - 1" using i(9,10) True by auto
    have seps: "seps_ok fbs (cur @ [(k, v)]) (seps @ [sep])" "Suc (length seps) = length fbs" using sep(5) cur by simp_all
    have "es = []" using cur(1) data(2) by (simp add: pairs_def)
    then have "bb_buffer (tb_data_block b) = []" using data(1) by (simp add: built_block_def)
    then have "add_entry k v b = Some (?done (b\<lparr>tb_last_key := sep, tb_index_block := ib, tb_pending_index_entry := False\<rparr>))"
      using True sep(1,2) db(1) i(1,2) by (simp add: add_entry_def BlockBuilder_empty_def Let_def)
    moreover have "building opts fbs (cur @ [(k, v)]) (seps @ [sep])
        (?done (b\<lparr>tb_last_key := sep, tb_index_block := ib, tb_pending_index_entry := False\<rparr>))"
      by (rule buildingI [where es = "es @ [(k, v, s)]" and ri = ri' and es' = es2 and ri' = ri2])
        (simp_all add: i(1-8,13) sep(3,4) seps db(2) cur' filter keys all)
    ultimately show ?thesis by auto
  next
    case False
    obtain es2 ri2 where es2: "built_block 1 es2 ri2 (tb_index_block b)" "pairs es2 = index_pairs fbs seps"
      using inv by blast
    have "add_entry k v b = Some (?done b)" using False
      db(1) i(1,2) by (simp add: add_entry_def Let_def)
    moreover have "building opts fbs (cur @ [(k, v)]) seps (?done b)"
      by (rule buildingI [where es = "es @ [(k, v, s)]" and ri = ri' and es' = es2 and ri' = ri2])
        (simp_all add: i(1-8,9,11,13) es2 seps_ok_add db(2) cur' filter keys False all)
    ultimately show ?thesis using False by auto
  qed
qed

section \<open>Flushing\<close>

lemma data_empty: "built_block interval es ri db \<Longrightarrow> pairs es = cur \<Longrightarrow> BlockBuilder_empty db \<longleftrightarrow> cur = []"
  using entry_bytes_pos by (cases es) (auto simp: built_block_def BlockBuilder_empty_def pairs_def)

lemma seps_ok_flush:
  assumes "seps_ok fbs cur seps" and "length seps \<le> length fbs"
  shows "seps_ok (fbs @ [(cur, c, ty)]) [] seps"
proof -
  have "behind (fbs @ [(cur, c, ty)]) [] i = behind fbs cur i" if "i < length seps" for i
    using that assms(2) by (simp add: behind_def bpairs_def)
  then show ?thesis using assms by (auto simp: seps_ok_def nth_append)
qed

lemma pairs_of_flush: "pairs_of (fbs @ [(cur, c, ty)]) [] = pairs_of fbs cur"
  by (simp add: pairs_of_def bpairs_def)

lemma Flush_building:
  assumes b: "building opts fbs cur seps b" and pending: "\<not> tb_pending_index_entry b" and cur: "cur \<noteq> []"
    and bound: "table_bound (pairs_of fbs cur) < 2 ^ 30"
  shows "\<exists>c ty b'. Flush mem_writable S b = Some b' \<and> building opts (fbs @ [(cur, c, ty)]) [] seps b'"
proof -
  note i = buildingD [OF b]
  obtain es ri es' ri' where es: "built_block (op_block_restart_interval opts) es ri (tb_data_block b)" "pairs es = cur"
    and index: "built_block 1 es' ri' (tb_index_block b)" "pairs es' = index_pairs fbs seps"
    using building_blocks [OF b] by blast
  have bb: "block_bound (pairs es) < 2 ^ 32"
  proof -
    have "data_bound cur \<le> data_bound (pairs_of fbs cur)" by (simp add: pairs_of_def)
    then have "block_bound cur \<le> table_bound (pairs_of fbs cur) + 8"
      using block_le_data' [of cur] data_le_table [of "pairs_of fbs cur"] by linarith
    then show ?thesis using bound es(2) by simp
  qed
  obtain c ty where w: "WriteBlock mem_writable S (tb_data_block b) b =
      Some (\<lparr>bh_offset = tb_offset b, bh_size = of_nat (length c)\<rparr>,
        BlockBuilder_Reset (snd (BlockBuilder_Finish (tb_data_block b))),
        b\<lparr>tb_status := Status_OK, tb_file := tb_file b @ stored_block c ty,
          tb_offset := tb_offset b + of_nat (length (stored_block c ty))\<rparr>)"
    and c: "stores (fst (BlockBuilder_Finish (tb_data_block b))) c ty" "length c \<le> length (fst (BlockBuilder_Finish (tb_data_block b)))"
    using WriteBlock_mem [OF i(4), of "tb_data_block b"] i(1,2) by (auto simp: opts_ok_def)
  let ?fbs = "fbs @ [(cur, c, ty)]"
  let ?reset = "BlockBuilder_Reset (snd (BlockBuilder_Finish (tb_data_block b)))"
  have raw: "fst (BlockBuilder_Finish (tb_data_block b)) = block_bytes es ri" using BlockBuilder_Finish_bytes [OF es(1)] .
  have new: "fblock_ok (cur, c, ty)"
    using cur c raw built_block_size [OF es(1) bb] built_block_ok [OF es(1) bb] es(2)
    by (auto simp: fblock_ok_def bpairs_def bcontents_def btype_def is_block_def)
  have flen: "file_of ?fbs = tb_file b @ stored_block c ty"
    "of_nat (length (file_of ?fbs)) = tb_offset b + of_nat (length (stored_block c ty))"
    using i(6,7) by (simp_all add: bcontents_def btype_def)
  have handle: "handle_of ?fbs (length fbs) = \<lparr>bh_offset = tb_offset b, bh_size = of_nat (length c)\<rparr>"
    using i(7) by (simp add: handle_of_def bcontents_def)
  let ?b = "\<lambda>fbk. b\<lparr>tb_status := Status_OK, tb_file := file_of ?fbs, tb_offset := of_nat (length (file_of ?fbs)),
    tb_pending_handle := handle_of ?fbs (length fbs), tb_data_block := ?reset, tb_pending_index_entry := True,
    tb_filter_block := fbk\<rparr>"
  have blocks: "\<forall>x \<in> set ?fbs. fblock_ok x" using i(8) new by simp
  have keys: "keys_ok (pairs_of ?fbs [])" "table_bound (pairs_of ?fbs []) < 2 ^ 30"
    using i(12) bound by (simp_all only: pairs_of_flush)
  have empty: "\<not> BlockBuilder_empty (tb_data_block b)" using data_empty [OF es] cur by simp
  have "\<exists>fbk. Flush mem_writable S b = Some (?b fbk) \<and> filter_ok ?fbs [] fbk"
  proof (cases policy)
    case None
    then have "tb_filter_block b = None" using i(15) [unfolded filter_ok_def] by simp
    then have "Flush mem_writable S b = Some (?b None)"
      using w i(4,5) pending empty flen(1) handle unfolding flen(2)
      by (simp add: Flush_def tb_ok_def Status_ok_def Status_OK_def mem_writable_def)
    then show ?thesis using None unfolding filter_ok_def by auto
  next
    case (Some p)
    then obtain fb where fb: "tb_filter_block b = Some (p, fb)"
      "build_blocks (fp_CreateFilter p) (filter_blocks fbs cur) FilterBlockBuilder = Some fb"
      using i(15) [unfolded filter_ok_def] by auto
    obtain fb' where fb': "build_blocks (fp_CreateFilter p) (filter_blocks ?fbs []) FilterBlockBuilder = Some fb'"
      using filter_total [OF Some blocks keys] by blast
    then have "StartBlock (fp_CreateFilter p) (of_nat (length (file_of ?fbs))) fb = Some fb'"
      using fb(2) unfolding filter_blocks_flush build_blocks_append by (auto simp: Option.bind_eq_Some_conv)
    then have "Flush mem_writable S b = Some (?b (Some (p, fb')))"
      using w i(4,5) pending empty flen(1) handle fb(1) unfolding flen(2)
      by (simp add: Flush_def tb_ok_def Status_ok_def Status_OK_def mem_writable_def)
    then show ?thesis using Some fb' unfolding filter_ok_def by auto
  qed
  then obtain fbk where flush: "Flush mem_writable S b = Some (?b fbk)" and fok: "filter_ok ?fbs [] fbk" by blast
  have seps: "length seps = length fbs" using i(9) pending by simp
  have "building opts ?fbs [] seps (?b fbk)"
  proof (rule buildingI [where es = "[]" and ri = "[0]" and es' = es' and ri' = ri'])
    show "built_block (op_block_restart_interval opts) [] [0] (tb_data_block (?b fbk))"
      using Reset_built i(1) by (simp add: opts_ok_def)
    show "seps_ok ?fbs [] seps" using seps_ok_flush [OF i(11)] seps by simp
    show "pairs es' = index_pairs ?fbs seps" using index(2) seps by (simp add: index_pairs_append)
    show "keys_ok (pairs_of ?fbs [])" "filter_ok ?fbs [] (tb_filter_block (?b fbk))" using keys(1) fok by simp_all
    show "\<forall>x \<in> set ?fbs. fblock_ok x" by (rule blocks)
    show "tb_num_entries (?b fbk) = int (length (pairs_of ?fbs []))" using i(13) by (simp add: pairs_of_flush)
    show "pairs_of ?fbs [] \<noteq> [] \<Longrightarrow> tb_last_key (?b fbk) = fst (last (pairs_of ?fbs []))"
      using i(14) by (simp add: pairs_of_flush)
  qed (simp_all add: i(1-5) index(1) seps pairs_def)
  with flush show ?thesis by blast
qed

section \<open>The whole call\<close>

lemma TableBuilder_Add_entry:
  assumes "opts_ok (tb_options b)" and "\<not> tb_closed b" and "tb_status b = Status_OK"
    and "tb_num_entries b > 0 \<Longrightarrow> \<exists>c > 0. Compare key (tb_last_key b) = Some c"
  shows "TableBuilder_Add F S key v b = do {
    b \<leftarrow> add_entry key v b;
    if CurrentSizeEstimate (tb_data_block b) \<ge> op_block_size (tb_options b) then Flush F S b else Some b
  }"
proof -
  have c: "co_Compare (op_comparator (tb_options b)) = Compare" "co_FindShortestSeparator (op_comparator (tb_options b)) = Sep"
    using assms(1) by (simp_all add: opts_ok_def)
  have above: "(if tb_num_entries b > 0 then map_option (\<lambda>c. c > 0) (Compare key (tb_last_key b)) else Some True) = Some True"
    using assms(4) by auto
  have opts: "tb_options b' = tb_options b" if "add_index_entry sep b = Some b'" for sep b'
    using that by (auto simp: add_index_entry_def Option.bind_eq_Some_conv)
  have ok: "tb_ok b" using assms(3) by (simp add: tb_ok_def Status_ok_def Status_OK_def)
  show ?thesis
    unfolding TableBuilder_Add_def add_entry_def c
    using assms(2) ok above opts c
    by (auto simp: Let_def split: Option.bind_splits)
qed

lemma TableBuilder_Add_building:
  assumes b: "building opts fbs cur seps b" and keys: "keys_ok (pairs_of fbs cur @ [(k, v)])"
    and bound: "table_bound (pairs_of fbs cur @ [(k, v)]) < 2 ^ 30"
  shows "\<exists>b' fbs' cur' seps'. TableBuilder_Add mem_writable S k v b = Some b' \<and> building opts fbs' cur' seps' b' \<and>
    pairs_of fbs' cur' = pairs_of fbs cur @ [(k, v)]"
proof -
  note i = buildingD [OF b]
  have all: "pairs_of fbs (cur @ [(k, v)]) = pairs_of fbs cur @ [(k, v)]" by (simp add: pairs_of_def)
  have "\<exists>c > 0. Compare k (tb_last_key b) = Some c" if "tb_num_entries b > 0"
  proof -
    have ne: "pairs_of fbs cur \<noteq> []" using that i(13) by auto
    show ?thesis using i(14) [OF ne] keys_ok_snoc(2,3) [OF keys] ne Compare_above by auto
  qed
  then have add: "TableBuilder_Add mem_writable S k v b = do {
      b \<leftarrow> add_entry k v b;
      if CurrentSizeEstimate (tb_data_block b) \<ge> op_block_size (tb_options b) then Flush mem_writable S b else Some b }"
    using TableBuilder_Add_entry i(1,2,4,5) by simp
  obtain b1 seps1 where b1: "add_entry k v b = Some b1" "building opts fbs (cur @ [(k, v)]) seps1 b1"
    "\<not> tb_pending_index_entry b1"
    using add_entry_building [OF assms] by blast
  show ?thesis
  proof (cases "CurrentSizeEstimate (tb_data_block b1) \<ge> op_block_size (tb_options b1)")
    case True
    obtain c ty b' where b': "Flush mem_writable S b1 = Some b'" "building opts (fbs @ [(cur @ [(k, v)], c, ty)]) [] seps1 b'"
      using Flush_building [OF b1(2,3)] bound all by auto
    have "TableBuilder_Add mem_writable S k v b = Some b'" using add b1(1) b'(1) True by simp
    with b'(2) show ?thesis using all by (metis pairs_of_flush)
  next
    case False
    then have "TableBuilder_Add mem_writable S k v b = Some b1" using add b1(1) by simp
    with b1(2) all show ?thesis by blast
  qed
qed

end

fun add_table :: "'f writable_file \<Rightarrow> snappy \<Rightarrow> (slice \<times> slice) list \<Rightarrow> 'f table_builder \<Rightarrow> 'f table_builder option" where
  "add_table F S [] b = Some b"
| "add_table F S ((key, v) # kvs) b = Option.bind (TableBuilder_Add F S key v b) (add_table F S kvs)"

context table_setup
begin

lemma keys_ok_prefix: "keys_ok (a @ b) \<Longrightarrow> keys_ok a"
  by (auto simp: keys_ok_def sorted_wrt_append)

lemma add_table_building:
  "building opts fbs cur seps b \<Longrightarrow> keys_ok (pairs_of fbs cur @ kvs) \<Longrightarrow> table_bound (pairs_of fbs cur @ kvs) < 2 ^ 30 \<Longrightarrow>
   \<exists>b' fbs' cur' seps'. add_table mem_writable S kvs b = Some b' \<and> building opts fbs' cur' seps' b' \<and>
     pairs_of fbs' cur' = pairs_of fbs cur @ kvs"
proof (induction kvs arbitrary: fbs cur seps b)
  case Nil
  then show ?case by auto
next
  case (Cons kv kvs)
  obtain k v where kv: "kv = (k, v)" by (cases kv)
  have "keys_ok (pairs_of fbs cur @ [(k, v)])" "table_bound (pairs_of fbs cur @ [(k, v)]) < 2 ^ 30"
    using keys_ok_prefix [of "pairs_of fbs cur @ [kv]" kvs] Cons.prems(2,3) kv by (auto simp: table_bound_def)
  from TableBuilder_Add_building [OF Cons.prems(1) this] obtain b1 fbs1 cur1 seps1 where
    b1: "TableBuilder_Add mem_writable S k v b = Some b1" "building opts fbs1 cur1 seps1 b1"
      "pairs_of fbs1 cur1 = pairs_of fbs cur @ [(k, v)]" by blast
  from Cons.IH [OF b1(2)] Cons.prems(2,3) b1(3) kv obtain b' fbs' cur' seps' where
    "add_table mem_writable S kvs b1 = Some b'" "building opts fbs' cur' seps' b'"
    "pairs_of fbs' cur' = pairs_of fbs cur @ kv # kvs" by auto
  with b1(1) kv show ?case by auto
qed

end

end
