(* ===== verification/L_Table_File.thy ===== *)
theory L_Table_File
  imports L_Table_Finish
begin

text \<open>The file that \<^verbatim>\<open>Finish\<close> leaves: its parts, and where the handles point.\<close>

section \<open>Sizes\<close>

lemma handle_small: "a < 2 ^ 32 \<Longrightarrow> n < 2 ^ 32 \<Longrightarrow> handle_ok \<lparr>bh_offset = of_nat a, bh_size = of_nat n\<rparr>"
proof -
  have "(of_nat k :: uint64) \<noteq> NOT 0" if "k < 2 ^ 32" for k
  proof
    assume eq: "(of_nat k :: uint64) = NOT 0"
    have "unat (of_nat k :: uint64) = k" using that by (intro unat_small64) simp
    moreover have "unat (NOT 0 :: uint64) = 2 ^ 64 - 1" by (simp add: unsigned_minus_1_eq_mask mask_eq_exp_minus_1)
    ultimately show False using that unfolding eq by simp
  qed
  then show "a < 2 ^ 32 \<Longrightarrow> n < 2 ^ 32 \<Longrightarrow> handle_ok \<lparr>bh_offset = of_nat a, bh_size = of_nat n\<rparr>"
    by (simp add: handle_ok_def)
qed

text \<open>A block that is written by itself, from a fresh builder.\<close>

definition filter_key :: "policy_ops \<Rightarrow> slice" where
  "filter_key p = str ''filter.'' @ fp_Name p"

context table_setup
begin

lemma index_bound:
  assumes blocks: "\<forall>x \<in> set fbs. fblock_ok x" and len: "length seps = length fbs"
    and sep: "\<forall>i < length fbs. length (seps ! i) \<le> length (fst (last (bpairs (fbs ! i))))"
  shows "block_bound (index_pairs fbs seps) \<le> table_bound (concat (map bpairs fbs)) + 8"
proof -
  have one: "length (seps ! i) + length (handle_bytes (handle_of fbs i)) + 19 \<le> table_bound (bpairs (fbs ! i))"
    if "i < length fbs" for i
  proof -
    have "bpairs (fbs ! i) \<noteq> []" using blocks that by (auto simp: fblock_ok_def)
    then have "last (bpairs (fbs ! i)) \<in> set (bpairs (fbs ! i))" by simp
    then have "2 * length (fst (last (bpairs (fbs ! i)))) + length (snd (last (bpairs (fbs ! i)))) + 100 \<le> table_bound (bpairs (fbs ! i))"
      unfolding table_bound_def by (intro member_le_sum_list) (force simp: case_prod_beta, simp)
    moreover have "length (handle_bytes (handle_of fbs i)) \<le> 20"
      using length_handle_bytes [of "handle_of fbs i"] by (simp add: kMaxEncodedLength_def)
    ultimately show ?thesis using sep that by fastforce
  qed
  have "sum_list (map (\<lambda>i. length (seps ! i) + length (handle_bytes (handle_of fbs i)) + 19) [0..<length fbs])
      \<le> sum_list (map (\<lambda>i. table_bound (bpairs (fbs ! i))) [0..<length fbs])"
    using one by (intro sum_list_mono) simp
  also have "\<dots> = sum_list (map (\<lambda>x. table_bound (bpairs x)) fbs)"
    using arg_cong [OF map_nth [of fbs], of "\<lambda>xs. sum_list (map (\<lambda>x. table_bound (bpairs x)) xs)"] by (simp add: comp_def)
  also have "\<dots> = table_bound (concat (map bpairs fbs))"
    by (induction fbs) (simp_all add: table_bound_def)
  finally show ?thesis by (simp add: block_bound_def index_pairs_def len comp_def)
qed

text \<open>The handles behind the data: of the filter block, if any, the metaindex block and the index block.\<close>

definition finished :: "file_block list \<Rightarrow> slice list \<Rightarrow> byte list \<Rightarrow> bool" where
  "finished fbs seps f \<longleftrightarrow> (\<forall>x \<in> set fbs. fblock_ok x) \<and> keys_ok (pairs_of fbs []) \<and> length seps = length fbs \<and>
     seps_ok fbs [] (butlast seps) \<and>
     (fbs \<noteq> [] \<longrightarrow> Succ (fst (last (pairs_of fbs []))) = Some (last seps)) \<and> length f < 2 ^ 32 \<and>
     (\<exists>fpart mraw mc mt iraw ic it.
        f = file_of fbs @ fpart @ stored_block mc mt @ stored_block ic it @
          footer_bytes \<lparr>ft_metaindex_handle = \<lparr>bh_offset = of_nat (length (file_of fbs @ fpart)), bh_size = of_nat (length mc)\<rparr>,
            ft_index_handle = \<lparr>bh_offset = of_nat (length (file_of fbs @ fpart @ stored_block mc mt)), bh_size = of_nat (length ic)\<rparr>\<rparr> \<and>
        stores mraw mc mt \<and> is_block (index_pairs fbs seps) iraw \<and> stores iraw ic it \<and>
        (case policy of
            None \<Rightarrow> fpart = [] \<and> is_block [] mraw
          | Some p \<Rightarrow> \<exists>fblock. fpart = stored_block fblock kNoCompression \<and>
              is_block [(filter_key p, handle_bytes \<lparr>bh_offset = of_nat (length (file_of fbs)), bh_size = of_nat (length fblock)\<rparr>)] mraw \<and>
              (\<exists>fb. Finish (fp_CreateFilter p) fb = Some fblock) \<and>
              (\<forall>blk \<in> set (filter_blocks fbs []). \<forall>k \<in> set (snd blk).
                 do { r \<leftarrow> FilterBlockReader fblock; Reader_KeyMayMatch (fp_KeyMayMatch p) r (fst blk) k } = Some True)))"

lemma Flush_empty: "tb_status b = Status_OK \<Longrightarrow> \<not> tb_closed b \<Longrightarrow> BlockBuilder_empty (tb_data_block b) \<Longrightarrow> Flush F S b = Some b"
  by (simp add: Flush_def tb_ok_def Status_ok_def Status_OK_def)

text \<open>The flush at the end: nothing is left in the data block.\<close>

lemma last_Flush:
  assumes b: "building opts fbs cur seps b" and bound: "table_bound (pairs_of fbs cur) < 2 ^ 30"
  shows "\<exists>b' fbs' seps'. Flush mem_writable S b = Some b' \<and> building opts fbs' [] seps' b' \<and>
    pairs_of fbs' [] = pairs_of fbs cur \<and> (tb_pending_index_entry b' \<longleftrightarrow> fbs' \<noteq> [])"
proof -
  note i = buildingD [OF b]
  obtain es ri where es: "built_block (op_block_restart_interval opts) es ri (tb_data_block b)" "pairs es = cur"
    using building_blocks [OF b] by blast
  have pending_iff: "tb_pending_index_entry b' \<longleftrightarrow> fbs' \<noteq> []" if b': "building opts fbs' [] seps' b'" for fbs' seps' b'
  proof
    note i' = buildingD [OF b']
    show "tb_pending_index_entry b' \<Longrightarrow> fbs' \<noteq> []" using i'(10) by blast
    show "tb_pending_index_entry b'" if "fbs' \<noteq> []"
    proof (rule ccontr)
      assume "\<not> tb_pending_index_entry b'"
      then have "length fbs' - 1 < length seps'" using i'(9) that by simp
      then have "behind fbs' [] (length fbs' - 1) \<noteq> []" using i'(11) unfolding seps_ok_def by blast
      then show False using that by (simp add: behind_def)
    qed
  qed
  show ?thesis
  proof (cases "cur = []")
    case True
    then have "Flush mem_writable S b = Some b" using data_empty [OF es] i(4,5) by (intro Flush_empty) simp_all
    with b True pending_iff show ?thesis by blast
  next
    case False
    then have "\<not> tb_pending_index_entry b" using i(10) by blast
    from Flush_building [OF b this False bound] obtain c ty b' where
      "Flush mem_writable S b = Some b'" "building opts (fbs @ [(cur, c, ty)]) [] seps b'" by blast
    with pending_iff pairs_of_flush [of fbs cur c ty] show ?thesis by blast
  qed
qed

section \<open>The parts behind the data\<close>

text \<open>A builder after bytes have been written.\<close>

definition wrote :: "byte list \<Rightarrow> byte list table_builder \<Rightarrow> byte list table_builder" where
  "wrote bs b = b\<lparr>tb_status := Status_OK, tb_file := tb_file b @ bs, tb_offset := tb_offset b + of_nat (length bs)\<rparr>"

lemma wrote_simps [simp]:
  "tb_options (wrote bs b) = tb_options b" "tb_index_block_options (wrote bs b) = tb_index_block_options b"
  "tb_file (wrote bs b) = tb_file b @ bs" "tb_offset (wrote bs b) = tb_offset b + of_nat (length bs)"
  "tb_status (wrote bs b) = Status_OK" "tb_index_block (wrote bs b) = tb_index_block b"
  "tb_last_key (wrote bs b) = tb_last_key b" "tb_filter_block (wrote bs b) = tb_filter_block b"
  "tb_pending_index_entry (wrote bs b) = tb_pending_index_entry b" "tb_pending_handle (wrote bs b) = tb_pending_handle b"
  by (simp_all add: wrote_def)

lemma wrote_nothing: "tb_status b = Status_OK \<Longrightarrow> wrote [] b = b"
  by (cases b) (simp add: wrote_def)

text \<open>Where the next block goes.\<close>

definition next_handle :: "byte list table_builder \<Rightarrow> slice \<Rightarrow> BlockHandle" where
  "next_handle b c = \<lparr>bh_offset = tb_offset b, bh_size = of_nat (length c)\<rparr>"

lemma write_filter_block_mem:
  assumes fok: "filter_ok fbs [] (tb_filter_block b)" and status: "tb_status b = Status_OK"
    and blocks: "\<forall>x \<in> set fbs. fblock_ok x" and keys: "keys_ok (pairs_of fbs [])"
    and bound: "table_bound (pairs_of fbs []) < 2 ^ 30"
  shows "case policy of
      None \<Rightarrow> tb_filter_block b = None \<and> write_filter_block mem_writable b = Some (mk_BlockHandle, b)
    | Some p \<Rightarrow> tb_filter_block b \<noteq> None \<and> (\<exists>fblock.
        write_filter_block mem_writable b = Some (next_handle b fblock, wrote (stored_block fblock kNoCompression) b) \<and>
        length fblock < 2 ^ 27 \<and> (\<exists>fb. Finish (fp_CreateFilter p) fb = Some fblock) \<and>
        (\<forall>blk \<in> set (filter_blocks fbs []). \<forall>k \<in> set (snd blk).
           do { r \<leftarrow> FilterBlockReader fblock; Reader_KeyMayMatch (fp_KeyMayMatch p) r (fst blk) k } = Some True))"
proof (cases policy)
  case None
  then show ?thesis using fok [unfolded filter_ok_def] by (simp add: write_filter_block_def)
next
  case (Some p)
  obtain fb fblock where fb: "build_blocks (fp_CreateFilter p) (filter_blocks fbs []) FilterBlockBuilder = Some fb"
    "Finish (fp_CreateFilter p) fb = Some fblock"
    "length fblock \<le> 2 * length (pairs_of fbs []) + 20 * (length (file_of fbs) div 2048) + 25"
    "\<forall>blk \<in> set (filter_blocks fbs []). \<forall>k \<in> set (snd blk).
       do { r \<leftarrow> FilterBlockReader fblock; Reader_KeyMayMatch (fp_KeyMayMatch p) r (fst blk) k } = Some True"
    using filter_total [OF Some blocks keys bound] by blast
  have "length (file_of fbs) < 2 ^ 30"
    using length_file_of [OF blocks] data_le_table [of "pairs_of fbs []"] bound by (simp add: pairs_of_def)
  then have "length (file_of fbs) div 2048 < 2 ^ 20" by (simp add: less_mult_imp_div_less)
  then have "length fblock < 2 ^ 27" using fb(3) length_le_table [of "pairs_of fbs []"] bound by simp
  moreover have filter: "tb_filter_block b = Some (p, fb)"
    using fok [unfolded filter_ok_def] Some fb(1) by simp
  moreover have "write_filter_block mem_writable b = Some (next_handle b fblock, wrote (stored_block fblock kNoCompression) b)"
    using filter fb(2) status
    by (simp add: write_filter_block_def tb_ok_def Status_ok_def Status_OK_def WriteRawBlock_mem wrote_def next_handle_def)
  ultimately show ?thesis using Some fb(2,4) by auto
qed

lemma WriteBlock_built:
  assumes opts: "opts_ok (tb_options b)" and status: "tb_status b = Status_OK"
    and built: "built_block interval es ri blk" and bound: "block_bound (pairs es) < 2 ^ 32"
  shows "\<exists>raw c ty blk'. WriteBlock mem_writable S blk b = Some (next_handle b c, blk', wrote (stored_block c ty) b) \<and>
    is_block (pairs es) raw \<and> stores raw c ty \<and> length c \<le> block_bound (pairs es)"
proof -
  have raw: "fst (BlockBuilder_Finish blk) = block_bytes es ri" by (rule BlockBuilder_Finish_bytes [OF built])
  have "is_block (pairs es) (block_bytes es ri)" using built_block_ok [OF built bound] by (auto simp: is_block_def)
  with raw WriteBlock_mem [OF status, of blk] opts built_block_size [OF built bound] show ?thesis
    by (fastforce simp: opts_ok_def wrote_def next_handle_def)
qed

text \<open>The entries of the metaindex block.\<close>

definition meta_pairs :: "BlockHandle \<Rightarrow> (slice \<times> slice) list" where
  "meta_pairs h = (case policy of None \<Rightarrow> [] | Some p \<Rightarrow> [(filter_key p, handle_bytes h)])"

lemma meta_bound: "block_bound (meta_pairs h) < 2 ^ 21"
proof (cases policy)
  case (Some p)
  then show ?thesis
    using policy_name [OF Some] length_handle_bytes [of h] unfolding meta_pairs_def
    by (simp add: block_bound_def filter_key_def str_def kMaxEncodedLength_def)
next
  case None
  then show ?thesis unfolding meta_pairs_def by (simp add: block_bound_def)
qed

lemma write_metaindex_block_mem:
  assumes opts: "opts_ok (tb_options b)" and status: "tb_status b = Status_OK"
    and filter: "tb_filter_block b \<noteq> None \<longleftrightarrow> policy \<noteq> None" and handle: "policy \<noteq> None \<Longrightarrow> handle_ok h"
  shows "\<exists>raw c ty. write_metaindex_block mem_writable S h b = Some (next_handle b c, wrote (stored_block c ty) b) \<and>
    is_block (meta_pairs h) raw \<and> stores raw c ty \<and> length c \<le> block_bound (meta_pairs h)"
proof -
  let ?i = "op_block_restart_interval (tb_options b)"
  have c: "co_Compare (op_comparator (tb_options b)) = Compare" "op_filter_policy (tb_options b) = policy" "1 \<le> ?i"
    using opts by (simp_all add: opts_ok_def)
  obtain m0 where m0: "mk_BlockBuilder ?i = Some m0" "built_block ?i [] [0] m0" using built_block_new [OF c(3)] by blast
  have ok: "tb_ok b" using status by (simp add: tb_ok_def Status_ok_def Status_OK_def)
  obtain m es ri where m: "(if tb_filter_block b \<noteq> None then do {
         policy \<leftarrow> op_filter_policy (tb_options b);
         handle_encoding \<leftarrow> BlockHandle_EncodeTo h [];
         BlockBuilder_Add ?i Compare (str ''filter.'' @ fp_Name policy) handle_encoding m0
       } else Some m0) = Some m" and es: "built_block ?i es ri m" "pairs es = meta_pairs h"
  proof (cases policy)
    case None
    then have "pairs [] = meta_pairs h" unfolding meta_pairs_def by (simp add: pairs_def)
    moreover have "tb_filter_block b = None" using filter None by blast
    ultimately show ?thesis using that [of m0 "[]" "[0]"] m0(2) by simp
  next
    case (Some p)
    have fits: "entry_fits (filter_key p) (handle_bytes h)"
      using policy_name [OF Some] length_handle_bytes [of h]
      by (simp add: entry_fits_def filter_key_def str_def kMaxEncodedLength_def)
    obtain m s ri' where m: "BlockBuilder_Add ?i Compare (filter_key p) (handle_bytes h) m0 = Some m"
      "built_block ?i ([] @ [(filter_key p, handle_bytes h, s)]) ri' m"
      using BlockBuilder_Add_entry [OF m0(2) c(3) fits, of Compare] by blast
    have "pairs ([] @ [(filter_key p, handle_bytes h, s)]) = meta_pairs h"
      using Some unfolding meta_pairs_def by (simp add: pairs_def ekey_def evalue_def)
    moreover have "tb_filter_block b \<noteq> None" using filter Some by simp
    ultimately show ?thesis
      using that [of m "[] @ [(filter_key p, handle_bytes h, s)]" ri'] m Some c(2) handle
        BlockHandle_EncodeTo_bytes [of h "[]"] by (auto simp: filter_key_def)
  qed
  have "block_bound (pairs es) < 2 ^ 32" using meta_bound [of h] es(2) by simp
  from WriteBlock_built [OF opts status es(1) this] obtain raw cc ty blk' where
    "WriteBlock mem_writable S m b = Some (next_handle b cc, blk', wrote (stored_block cc ty) b)"
    "is_block (meta_pairs h) raw" "stores raw cc ty" "length cc \<le> block_bound (meta_pairs h)"
    using es(2) by auto
  moreover from this(1) have "write_metaindex_block mem_writable S h b = Some (next_handle b cc, wrote (stored_block cc ty) b)"
    using ok m0(1) m unfolding write_metaindex_block_def c(1) by simp
  ultimately show ?thesis by blast
qed

text \<open>The keys of the index of a finished table.\<close>

definition index_keys_ok :: "file_block list \<Rightarrow> slice list \<Rightarrow> bool" where
  "index_keys_ok fbs seps \<longleftrightarrow> length seps = length fbs \<and> seps_ok fbs [] (butlast seps) \<and>
     (fbs \<noteq> [] \<longrightarrow> Succ (fst (last (pairs_of fbs []))) = Some (last seps))"

lemma last_pairs_of:
  assumes "fbs \<noteq> []" and "\<forall>x \<in> set fbs. fblock_ok x"
  shows "pairs_of fbs [] \<noteq> [] \<and> last (pairs_of fbs []) = last (bpairs (fbs ! (length fbs - 1)))"
proof -
  have n: "length fbs - 1 < length fbs" "Suc (length fbs - 1) = length fbs" using assms(1) by simp_all
  have "bpairs (fbs ! (length fbs - 1)) \<noteq> []" using assms(2) n(1) by (auto simp: fblock_ok_def)
  then show ?thesis using pairs_of_split [OF n(1), of "[]"] n(2) by (simp add: behind_def)
qed

lemma last_valid:
  assumes "fbs \<noteq> []" and "\<forall>x \<in> set fbs. fblock_ok x" and "keys_ok (pairs_of fbs [])"
  shows "valid (fst (last (pairs_of fbs [])))"
proof -
  have "last (pairs_of fbs []) \<in> set (pairs_of fbs [])"
    using conjunct1 [OF last_pairs_of [OF assms(1,2)]] by (rule last_in_set)
  with assms(3) show ?thesis unfolding keys_ok_def by blast
qed

lemma index_key_lengths:
  assumes keys: "keys_ok (pairs_of fbs [])" and blocks: "\<forall>x \<in> set fbs. fblock_ok x" and ok: "index_keys_ok fbs seps"
    and i: "i < length fbs"
  shows "length (seps ! i) \<le> length (fst (last (bpairs (fbs ! i))))"
proof (cases "i < length (butlast seps)")
  case True
  then show ?thesis
    using separators [OF keys blocks, of "butlast seps" i] ok by (simp add: index_keys_ok_def nth_butlast)
next
  case False
  then have n: "i = length fbs - 1" "fbs \<noteq> []" using ok i by (auto simp: index_keys_ok_def)
  have "seps \<noteq> []" using ok n(2) by (auto simp: index_keys_ok_def)
  then have "seps ! i = last seps" using ok n(1) last_conv_nth [of seps] by (simp add: index_keys_ok_def)
  moreover have "valid (fst (last (pairs_of fbs [])))" using last_valid [OF n(2) blocks keys] .
  ultimately show ?thesis
    using successor [of "fst (last (pairs_of fbs []))"] ok n last_pairs_of [OF n(2) blocks] by (auto simp: index_keys_ok_def)
qed

lemma write_index_block_mem:
  assumes opts: "opts_ok (tb_options b)" "tb_index_block_options b = opts\<lparr>op_block_restart_interval := 1\<rparr>" "opts_ok opts"
    and status: "tb_status b = Status_OK"
    and blocks: "\<forall>x \<in> set fbs. fblock_ok x" and keys: "keys_ok (pairs_of fbs [])"
    and bound: "table_bound (pairs_of fbs []) < 2 ^ 30"
    and index: "built_block 1 es ri (tb_index_block b)" "pairs es = index_pairs fbs seps"
    and len: "length seps = length fbs - 1" and seps: "seps_ok fbs [] seps"
    and pending: "tb_pending_index_entry b \<longleftrightarrow> fbs \<noteq> []" "fbs \<noteq> [] \<Longrightarrow> tb_pending_handle b = handle_of fbs (length fbs - 1)"
      "fbs \<noteq> [] \<Longrightarrow> tb_last_key b = fst (last (pairs_of fbs []))"
  shows "\<exists>seps' raw c ty b'. write_index_block mem_writable S b = Some (next_handle b c, b') \<and>
    tb_status b' = Status_OK \<and> tb_file b' = tb_file b @ stored_block c ty \<and> index_keys_ok fbs seps' \<and>
    is_block (index_pairs fbs seps') raw \<and> stores raw c ty \<and> length c < 2 ^ 31"
proof -
  have ok: "tb_ok b" using status by (simp add: tb_ok_def Status_ok_def Status_OK_def)
  have "\<exists>seps' es' ri' b1. (if tb_pending_index_entry b then do {
         last_key \<leftarrow> co_FindShortSuccessor (op_comparator (tb_options b)) (tb_last_key b);
         add_index_entry last_key b
       } else Some b) = Some b1 \<and> built_block 1 es' ri' (tb_index_block b1) \<and> pairs es' = index_pairs fbs seps' \<and>
     index_keys_ok fbs seps' \<and> tb_options b1 = tb_options b \<and> tb_status b1 = Status_OK \<and> tb_file b1 = tb_file b \<and>
     tb_offset b1 = tb_offset b"
  proof (cases "fbs = []")
    case True
    then show ?thesis
      using pending(1) index len status by (auto simp: index_keys_ok_def seps_ok_def)
  next
    case False
    note last = last_pairs_of [OF False blocks]
    let ?last = "fst (last (pairs_of fbs []))"
    have valid: "valid ?last" using last_valid [OF False blocks keys] .
    then obtain r where r: "Succ ?last = Some r" "valid r" "cmp_leq Compare ?last r" "length r \<le> length ?last"
      using successor by blast
    have "(fst (last (pairs_of fbs [])), snd (last (pairs_of fbs []))) \<in> set (pairs_of fbs [])"
      using last_in_set [OF conjunct1 [OF last]] by (simp only: prod.collapse)
    then have "length r < 2 ^ 32" using key_length(1) [OF bound] r(4) by fastforce
    moreover have "\<forall>i < length seps. valid (seps ! i) \<and> cmp_less Compare (seps ! i) r"
      using separators_below_key [OF keys blocks seps _ r(2) _ r(3)] last len by auto
    moreover have "handle_ok (handle_of fbs (length seps))"
      using bound data_le_table [of "pairs_of fbs []"] len False
      by (intro handle_of_ok [OF blocks]) (auto simp: pairs_of_def)
    moreover have "tb_pending_handle b = handle_of fbs (length seps)" using pending(2) False len by simp
    ultimately obtain ib es' ri' where
      "add_index_entry r b = Some (b\<lparr>tb_last_key := r, tb_index_block := ib, tb_pending_index_entry := False\<rparr>)"
      "built_block 1 es' ri' ib" "pairs es' = index_pairs fbs (seps @ [r])"
      using add_index_entry_built [OF opts(3,2) index(1,2)] r(2) by blast
    moreover have "index_keys_ok fbs (seps @ [r])"
      using len False seps r(1) by (simp add: index_keys_ok_def)
    moreover have "co_FindShortSuccessor (op_comparator (tb_options b)) = Succ" using opts(1) by (simp add: opts_ok_def)
    ultimately show ?thesis
      using pending(1,3) False r(1) status by (intro exI [of _ "seps @ [r]"] exI [of _ es'] exI [of _ ri']) simp
  qed
  then obtain seps' es' ri' b1 where b1: "(if tb_pending_index_entry b then do {
         last_key \<leftarrow> co_FindShortSuccessor (op_comparator (tb_options b)) (tb_last_key b);
         add_index_entry last_key b
       } else Some b) = Some b1" and built: "built_block 1 es' ri' (tb_index_block b1)" "pairs es' = index_pairs fbs seps'"
    and ok': "index_keys_ok fbs seps'" and same: "tb_options b1 = tb_options b" "tb_status b1 = Status_OK"
      "tb_file b1 = tb_file b" "tb_offset b1 = tb_offset b"
    by blast
  have "block_bound (index_pairs fbs seps') \<le> table_bound (concat (map bpairs fbs)) + 8"
    using index_bound [OF blocks] index_key_lengths [OF keys blocks ok'] ok' by (simp add: index_keys_ok_def)
  then have small: "block_bound (pairs es') < 2 ^ 31" using bound built(2) by (simp add: pairs_of_def)
  then have "block_bound (pairs es') < 2 ^ 32" by simp
  from WriteBlock_built [OF _ same(2) built(1) this] same opts(1) obtain raw c ty blk' where
    w: "WriteBlock mem_writable S (tb_index_block b1) b1 = Some (next_handle b1 c, blk', wrote (stored_block c ty) b1)"
    "is_block (pairs es') raw" "stores raw c ty" "length c \<le> block_bound (pairs es')" by auto
  have "write_index_block mem_writable S b =
      Some (next_handle b c, (wrote (stored_block c ty) b1)\<lparr>tb_index_block := blk'\<rparr>)"
    using ok b1 w(1) same(4) unfolding write_index_block_def by (simp add: next_handle_def)
  then show ?thesis using w(2-4) built(2) small ok' same
    by (intro exI [of _ seps'] exI [of _ raw] exI [of _ c] exI [of _ ty]) auto
qed

section \<open>Finish\<close>

lemma TableBuilder_Finish_finished:
  assumes b: "building opts fbs0 cur seps0 b" and bound: "table_bound (pairs_of fbs0 cur) < 2 ^ 30"
  shows "\<exists>b' fbs seps. TableBuilder_Finish mem_writable S b = Some (Status_OK, b') \<and> finished fbs seps (tb_file b') \<and>
    pairs_of fbs [] = pairs_of fbs0 cur"
proof -
  obtain b1 fbs seps where b1: "Flush mem_writable S b = Some b1" "building opts fbs [] seps b1"
    "pairs_of fbs [] = pairs_of fbs0 cur" "tb_pending_index_entry b1 \<longleftrightarrow> fbs \<noteq> []"
    using last_Flush [OF assms] by blast
  note i = buildingD [OF b1(2)]
  have bnd: "table_bound (pairs_of fbs []) < 2 ^ 30" using bound b1(3) by simp
  let ?b = "b1\<lparr>tb_closed := True\<rparr>"
  have dlen: "length (file_of fbs) < 2 ^ 30"
    using length_file_of [OF i(8)] data_le_table [of "pairs_of fbs []"] bnd by (simp add: pairs_of_def)
  have opts: "opts_ok (tb_options ?b)" "tb_status ?b = Status_OK" using i(1,2,4) by simp_all
  obtain fh fpart where fw: "write_filter_block mem_writable ?b = Some (fh, wrote fpart ?b)"
    and fcase: "case policy of None \<Rightarrow> fpart = [] \<and> tb_filter_block b1 = None
      | Some p \<Rightarrow> tb_filter_block b1 \<noteq> None \<and> (\<exists>fblock. fpart = stored_block fblock kNoCompression \<and>
          fh = \<lparr>bh_offset = of_nat (length (file_of fbs)), bh_size = of_nat (length fblock)\<rparr> \<and> length fblock < 2 ^ 27 \<and> (\<exists>fb. Finish (fp_CreateFilter p) fb = Some fblock) \<and>
          (\<forall>blk \<in> set (filter_blocks fbs []). \<forall>k \<in> set (snd blk).
             do { r \<leftarrow> FilterBlockReader fblock; Reader_KeyMayMatch (fp_KeyMayMatch p) r (fst blk) k } = Some True))"
    using write_filter_block_mem [of fbs ?b, OF _ opts(2) i(8,12) bnd] i(15) wrote_nothing [OF opts(2)] i(7)
    by (cases policy) (force simp: next_handle_def)+
  have flen: "length fpart < 2 ^ 28"
    using fcase by (auto split: option.splits)
  let ?b2 = "wrote fpart ?b"
  have fil: "tb_filter_block ?b2 \<noteq> None \<longleftrightarrow> policy \<noteq> None" using fcase by (auto split: option.splits)
  have fh: "policy \<noteq> None \<Longrightarrow> handle_ok fh" using fcase dlen handle_small by (auto split: option.splits)
  obtain mraw mc mt where meta: "write_metaindex_block mem_writable S fh ?b2 = Some (next_handle ?b2 mc, wrote (stored_block mc mt) ?b2)"
    "is_block (meta_pairs fh) mraw" "stores mraw mc mt" "length mc \<le> block_bound (meta_pairs fh)"
    using write_metaindex_block_mem [of ?b2 fh, OF _ _ fil fh] opts by auto
  let ?b3 = "wrote (stored_block mc mt) ?b2"
  have mlen: "length mc < 2 ^ 21" using meta(4) meta_bound [of fh] by linarith
  obtain es ri where "built_block 1 es ri (tb_index_block b1)" and ipairs: "pairs es = index_pairs fbs seps"
    using building_blocks [OF b1(2)] by blast
  then have index: "built_block 1 es ri (tb_index_block ?b3)" by simp
  have "length seps = length fbs - 1" using i(9) b1(4) by auto
  moreover have "fbs \<noteq> [] \<Longrightarrow> tb_pending_handle ?b3 = handle_of fbs (length fbs - 1)" using i(10) b1(4) by simp
  moreover have "fbs \<noteq> [] \<Longrightarrow> tb_last_key ?b3 = fst (last (pairs_of fbs []))" using i(14) last_pairs_of i(8) by simp
  ultimately have "\<exists>seps' raw c ty b'. write_index_block mem_writable S ?b3 = Some (next_handle ?b3 c, b') \<and>
      tb_status b' = Status_OK \<and> tb_file b' = tb_file ?b3 @ stored_block c ty \<and> index_keys_ok fbs seps' \<and>
      is_block (index_pairs fbs seps') raw \<and> stores raw c ty \<and> length c < 2 ^ 31"
    by (intro write_index_block_mem [OF _ _ i(1) _ i(8,12) bnd index ipairs _ i(11)]) (use opts in \<open>simp_all add: i(3) b1(4)\<close>)
  then obtain seps' iraw ic it b4 where iw: "write_index_block mem_writable S ?b3 = Some (next_handle ?b3 ic, b4)"
    "tb_status b4 = Status_OK" "tb_file b4 = tb_file ?b3 @ stored_block ic it" "index_keys_ok fbs seps'"
    "is_block (index_pairs fbs seps') iraw" "stores iraw ic it" "length ic < 2 ^ 31" by blast
  let ?mh = "\<lparr>bh_offset = of_nat (length (file_of fbs @ fpart)), bh_size = of_nat (length mc)\<rparr> :: BlockHandle"
  let ?ih = "\<lparr>bh_offset = of_nat (length (file_of fbs @ fpart @ stored_block mc mt)), bh_size = of_nat (length ic)\<rparr> :: BlockHandle"
  have mh: "next_handle ?b2 mc = ?mh" using i(7) by (simp add: next_handle_def)
  have ih: "next_handle ?b3 ic = ?ih" using i(7) by (simp add: next_handle_def)
  have "handle_ok ?mh" using dlen flen mlen by (intro handle_small) simp_all
  moreover have "handle_ok ?ih" using dlen flen mlen iw(7) by (intro handle_small) simp_all
  ultimately have "footer_ok \<lparr>ft_metaindex_handle = ?mh, ft_index_handle = ?ih\<rparr>" by (simp add: footer_ok_def)
  note footer = Footer_EncodeTo_bytes [OF this]
  let ?f = "file_of fbs @ fpart @ stored_block mc mt @ stored_block ic it @ footer_bytes \<lparr>ft_metaindex_handle = ?mh, ft_index_handle = ?ih\<rparr>"
  have "tb_file b4 = file_of fbs @ fpart @ stored_block mc mt @ stored_block ic it" using iw(3) i(6) by simp
  then obtain b5 where b5: "write_footer mem_writable ?mh ?ih b4 = Some b5" "tb_status b5 = Status_OK" "tb_file b5 = ?f"
    using footer iw(2) by (auto simp: write_footer_def tb_ok_def Status_ok_def Status_OK_def mem_writable_def)
  have "TableBuilder_Finish mem_writable S b = Some (Status_OK, b5)"
    using b1(1) i(5) fw meta(1) iw(1) b5(1,2) unfolding mh ih by (simp add: TableBuilder_Finish_def)
  moreover have "finished fbs seps' ?f"
    unfolding finished_def
  proof (intro conjI exI)
    show "length ?f < 2 ^ 32"
      using dlen flen mlen iw(7) length_footer_bytes [of "\<lparr>ft_metaindex_handle = ?mh, ft_index_handle = ?ih\<rparr>"]
      by (simp add: kEncodedLength_def kMaxEncodedLength_def)
    show "case policy of None \<Rightarrow> fpart = [] \<and> is_block [] mraw
      | Some p \<Rightarrow> \<exists>fblock. fpart = stored_block fblock kNoCompression \<and>
          is_block [(filter_key p, handle_bytes \<lparr>bh_offset = of_nat (length (file_of fbs)), bh_size = of_nat (length fblock)\<rparr>)] mraw \<and>
          (\<exists>fb. Finish (fp_CreateFilter p) fb = Some fblock) \<and>
          (\<forall>blk \<in> set (filter_blocks fbs []). \<forall>k \<in> set (snd blk).
             do { r \<leftarrow> FilterBlockReader fblock; Reader_KeyMayMatch (fp_KeyMayMatch p) r (fst blk) k } = Some True)"
      using fcase meta(2) unfolding meta_pairs_def by (auto split: option.splits)
  qed (use i(8,12) iw(4-6) meta(3) in \<open>simp_all add: index_keys_ok_def\<close>)
  ultimately show ?thesis using b1(3) b5(3) by metis
qed

end

end
