(* ===== verification/L_Table_Get.thy ===== *)
theory L_Table_Get
  imports L_Table_File
begin

text \<open>
  Reading a finished table: \<^verbatim>\<open>Table::Open\<close> accepts the file and \<^verbatim>\<open>InternalGet\<close> finds the first pair
  at or above a key, unless the index or the filter tells that it is not the one looked for.
\<close>

section \<open>Searching a block\<close>

text \<open>An iterator, of an empty block too, that yields the pair at a position or is not valid.\<close>

definition it_shows :: "(slice \<times> slice) list \<Rightarrow> nat \<Rightarrow> new_iterator \<Rightarrow> bool" where
  "it_shows kvs p it \<longleftrightarrow> it_status it = Status_OK \<and>
     (if p < length kvs
      then it_Valid it \<and> it_key it = Some (fst (kvs ! p)) \<and> it_value it = Some (snd (kvs ! p))
      else \<not> it_Valid it)"

definition first_from :: "(slice \<Rightarrow> slice \<Rightarrow> int option) \<Rightarrow> slice \<Rightarrow> (slice \<times> slice) list \<Rightarrow> nat" where
  "first_from Compare k kvs = seek_position Compare k (map fst kvs)"

lemma first_from_le: "first_from Compare k kvs \<le> length kvs"
  unfolding first_from_def seek_position_def using length_takeWhile_le [of _ "map fst kvs"] by simp

lemma first_from_append:
  "first_from Compare k (xs @ ys) =
    (if \<forall>kv \<in> set xs. cmp_less Compare (fst kv) k then length xs + first_from Compare k ys else first_from Compare k xs)"
proof (induction xs)
  case (Cons x xs)
  then show ?case by (auto simp: first_from_def seek_position_def)
qed simp

lemma first_from_below: "i < first_from Compare k kvs \<Longrightarrow> cmp_less Compare (fst (kvs ! i)) k"
  unfolding first_from_def seek_position_def
  using nth_length_takeWhile nth_mem set_takeWhileD takeWhile_nth length_takeWhile_le
  by (metis (no_types, lifting) length_map less_le_trans nth_map)

lemma first_from_not_below: "first_from Compare k kvs < length kvs \<Longrightarrow> \<not> cmp_less Compare (fst (kvs ! first_from Compare k kvs)) k"
  unfolding first_from_def seek_position_def
  using nth_length_takeWhile [of "\<lambda>x. cmp_less Compare x k" "map fst kvs"] by simp

lemma first_from_all: "first_from Compare k kvs = length kvs \<Longrightarrow> kv \<in> set kvs \<Longrightarrow> cmp_less Compare (fst kv) k"
  by (metis first_from_below in_set_conv_nth)

context block_order
begin

lemma block_seek:
  assumes "is_block kvs raw" and "valid k" and "\<forall>kv \<in> set kvs. valid (fst kv)" and "sorted_wrt (cmp_less Compare) (map fst kvs)"
  shows "\<exists>blk it it'. mk_Block raw = Some blk \<and> NewIterator blk = Some it \<and> it_Seek Compare k it = Some it' \<and>
    it_shows kvs (first_from Compare k kvs) it'"
proof -
  obtain es ri where es: "block_ok es ri" "pairs es = kvs" "raw = block_bytes es ri"
    using assms(1) by (auto simp: is_block_def)
  obtain blk it where it: "mk_Block raw = Some blk" "NewIterator blk = Some (BlockIter it)" "at_end es ri it"
    using NewIterator_over [OF es(1)] es(3) by blast
  have ks: "map ekey es = map fst kvs" "\<forall>e \<in> set es. valid (ekey e)"
    using es(2) assms(3) by (auto simp: pairs_def)
  have over: "over es ri it" using it(3) by (simp add: at_end_def)
  obtain it' where it': "bi_Seek Compare k it = Some it'" "positioned es ri (first_from Compare k kvs) it'"
    using bi_Seek_positioned [OF es(1) over assms(2) ks(2)] assms(4) ks(1) by (auto simp: first_from_def)
  have "it_shows kvs (first_from Compare k kvs) (BlockIter it')"
    using positioned_shows [OF es(1) it'(2)] es(2)
    by (simp add: shows_pair_def it_shows_def it_status_def it_Valid_def it_key_def it_value_def)
  with it(1,2) it'(1) show ?thesis by (auto simp: it_Seek_def)
qed

end

section \<open>Filter blocks, read\<close>

lemma FilterBlockReader_total: "\<exists>r. FilterBlockReader c = Some r"
proof (cases "length c < 5")
  case False
  then have "length (drop (length c - 5) c) = 5" by simp
  then have "DecodeFixed32 (drop (length c - 5) c) \<noteq> None" by (simp add: DecodeFixed32_le)
  then show ?thesis by (auto simp: FilterBlockReader_def Let_def)
qed (simp add: FilterBlockReader_def Let_def)

text \<open>A lookup in a filter block that was finished has a result for every key and offset.\<close>

lemma Reader_total:
  assumes "FilterBlockReader c = Some r" and "last c = of_nat kFilterBaseLg" and "length c < 2 ^ 32"
    and match: "\<And>f. length f < 2 ^ 32 \<Longrightarrow> m k f \<noteq> None"
  shows "Reader_KeyMayMatch m r a k \<noteq> None"
proof -
  have lg: "fr_base_lg r = 0 \<or> fr_base_lg r = 11"
  proof (cases "length c < 5")
    case False
    then have "c \<noteq> []" by auto
    then have "c ! (length c - 1) = 11" using assms(2) last_conv_nth [of c] by (simp add: kFilterBaseLg_def)
    then show ?thesis using assms(1) False by (auto simp: FilterBlockReader_def Let_def Option.bind_eq_Some_conv split: if_splits)
  qed (use assms(1) in \<open>auto simp: FilterBlockReader_def Let_def\<close>)
  have data: "fr_num r = 0 \<or> fr_contents r = Some c \<and> fr_offset r + 4 * fr_num r + 5 \<le> length c"
    using assms(1)
    by (auto simp: FilterBlockReader_def Let_def Option.bind_eq_Some_conv split: if_splits)
  let ?i = "unat (drop_bit (unat (fr_base_lg r)) a)"
  show ?thesis
  proof (cases "?i < fr_num r")
    case True
    then have c: "fr_contents r = Some c" "fr_offset r + ?i * 4 + 4 + 5 \<le> length c" using data by auto
    have "DecodeFixed32 (drop n c) \<noteq> None" if "n + 4 \<le> length c" for n
      using that by (simp add: DecodeFixed32_le)
    from this [of "fr_offset r + ?i * 4"] this [of "fr_offset r + ?i * 4 + 4"] c(2)
    obtain u v where ab: "DecodeFixed32 (drop (fr_offset r + ?i * 4) c) = Some u"
      "DecodeFixed32 (drop (fr_offset r + ?i * 4 + 4) c) = Some v" by auto
    have "length (take n (drop o' c)) < 2 ^ 32" for n o' using assms(3) by simp
    then have "m k (take n (drop o' c)) \<noteq> None" for n o' using match by blast
    with lg True c(1) ab show ?thesis
      by (auto simp: Reader_KeyMayMatch_def Let_def)
  qed (use lg in \<open>auto simp: Reader_KeyMayMatch_def Let_def\<close>)
qed

lemma Finish_last: "Finish create fb = Some c \<Longrightarrow> last c = of_nat kFilterBaseLg"
  by (auto simp: Finish_def Let_def Option.bind_eq_Some_conv)

lemma match_probes_total:
  assumes "unat bits = 8 * n" and "bits \<noteq> 0" and "n \<le> length array"
  shows "match_probes k bits delta h array \<noteq> None"
proof (induction k arbitrary: h)
  case (Suc k)
  have "unat ((ucast (ucast h mod bits) :: uint32) div 8) < length array"
    using probe_in_range [OF assms(1,2), of h] assms(3) by linarith
  then show ?case using Suc assms(2) by (auto simp: Let_def)
qed simp

lemma Bloom_KeyMayMatch_total:
  assumes "length f < 2 ^ 32"
  shows "Bloom_KeyMayMatch k f \<noteq> None"
proof (cases "length f < 2")
  case False
  define bits where "bits = (of_nat (length f - 1) * 8 :: size_t)"
  have bits: "unat bits = 8 * (length f - 1)"
  proof -
    have "bits = of_nat ((length f - 1) * 8)" by (simp add: bits_def)
    also have "unat \<dots> = (length f - 1) * 8" using assms by (intro unat_small64) simp
    finally show ?thesis by simp
  qed
  moreover have "bits \<noteq> 0"
  proof
    assume "bits = 0"
    then have "unat bits = 0" by simp
    then show False using bits False by simp
  qed
  ultimately show ?thesis
    using match_probes_total [of bits "length f - 1" f] False
    unfolding Bloom_KeyMayMatch_def Let_def bits_def [symmetric] by auto
qed (simp add: Bloom_KeyMayMatch_def Let_def)

section \<open>The index\<close>

context table_setup
begin

definition table_keys :: "file_block list \<Rightarrow> slice list \<Rightarrow> bool" where
  "table_keys fbs seps \<longleftrightarrow> (\<forall>x \<in> set fbs. fblock_ok x) \<and> keys_ok (pairs_of fbs []) \<and> index_keys_ok fbs seps"

lemma index_separator:
  assumes t: "table_keys fbs seps" and i: "i < length fbs"
  shows "valid (seps ! i)" and "kv \<in> set (bpairs (fbs ! i)) \<Longrightarrow> cmp_leq Compare (fst kv) (seps ! i)"
    and "kv \<in> set (behind fbs [] i) \<Longrightarrow> cmp_less Compare (seps ! i) (fst kv)"
    and "behind fbs [] i \<noteq> [] \<Longrightarrow> Sep (fst (last (bpairs (fbs ! i)))) (fst (hd (behind fbs [] i))) = Some (seps ! i)"
proof -
  have keys: "keys_ok (pairs_of fbs [])" and blocks: "\<forall>x \<in> set fbs. fblock_ok x" and index: "index_keys_ok fbs seps"
    using t by (simp_all add: table_keys_def)
  have ne: "bpairs (fbs ! i) \<noteq> []" using blocks i by (auto simp: fblock_ok_def)
  note b = boundary [OF keys i ne]
  have len: "length seps = length fbs" "length (butlast seps) = length fbs - 1" "seps_ok fbs [] (butlast seps)"
    using index by (simp_all add: index_keys_ok_def)
  have all: "valid (seps ! i) \<and> cmp_leq Compare (fst (last (bpairs (fbs ! i)))) (seps ! i) \<and>
    (\<forall>kv \<in> set (behind fbs [] i). cmp_less Compare (seps ! i) (fst kv)) \<and>
    (behind fbs [] i \<noteq> [] \<longrightarrow> Sep (fst (last (bpairs (fbs ! i)))) (fst (hd (behind fbs [] i))) = Some (seps ! i))"
  proof (cases "i < length (butlast seps)")
    case True
    then have nth: "butlast seps ! i = seps ! i" by (rule nth_butlast)
    have le: "length (butlast seps) \<le> length fbs" using len by simp
    have "Sep (fst (last (bpairs (fbs ! i)))) (fst (hd (behind fbs [] i))) = Some (butlast seps ! i)"
      using len(3) True unfolding seps_ok_def by blast
    then show ?thesis
      using separators [OF keys blocks len(3) le True] separator_below [OF keys blocks len(3) le True]
      unfolding nth by blast
  next
    case False
    then have last: "i = length fbs - 1" "fbs \<noteq> []" using i len by auto
    then have "seps \<noteq> []" using len(1) by auto
    then have "seps ! i = last seps" using last(1) len(1) last_conv_nth [of seps] by simp
    moreover have "Succ (fst (last (pairs_of fbs []))) = Some (last seps)" using index last(2) by (simp add: index_keys_ok_def)
    moreover have "last (pairs_of fbs []) = last (bpairs (fbs ! i))" using last_pairs_of [OF last(2) blocks] last(1) by simp
    moreover have "behind fbs [] i = []" using last by (simp add: behind_def)
    ultimately show ?thesis using successor [OF b(1)] by simp
  qed
  then show "valid (seps ! i)" by blast
  show "kv \<in> set (bpairs (fbs ! i)) \<Longrightarrow> cmp_leq Compare (fst kv) (seps ! i)"
    using all b(1) b(4) leq_trans by blast
  show "kv \<in> set (behind fbs [] i) \<Longrightarrow> cmp_less Compare (seps ! i) (fst kv)" using all by blast
  show "behind fbs [] i \<noteq> [] \<Longrightarrow> Sep (fst (last (bpairs (fbs ! i)))) (fst (hd (behind fbs [] i))) = Some (seps ! i)"
    using all by blast
qed

lemma index_pairs_sorted:
  assumes t: "table_keys fbs seps"
  shows "sorted_wrt (cmp_less Compare) (map fst (index_pairs fbs seps))" and "\<forall>kv \<in> set (index_pairs fbs seps). valid (fst kv)"
proof -
  have len: "length seps = length fbs" using t by (simp add: table_keys_def index_keys_ok_def)
  have "cmp_less Compare (seps ! i) (seps ! j)" if "i < j" "j < length fbs" for i j
  proof -
    have "bpairs (fbs ! j) \<noteq> []" using t that by (auto simp: table_keys_def fblock_ok_def)
    then obtain kv where kv: "kv \<in> set (bpairs (fbs ! j))" using list.set_sel(1) by blast
    have "cmp_less Compare (seps ! i) (fst kv)"
      using index_separator(3) [OF t _ behind_elem [OF that kv]] that by simp
    moreover have "cmp_leq Compare (fst kv) (seps ! j)" using index_separator(2) [OF t that(2) kv] .
    moreover have "valid (fst kv)"
      using t that kv boundary(4) [of fbs "[]" j kv] by (force simp: table_keys_def)
    ultimately show ?thesis using less_leq_trans index_separator(1) [OF t] that by simp
  qed
  moreover have "map fst (index_pairs fbs seps) = seps"
    by (simp add: index_pairs_def comp_def map_nth)
  ultimately show "sorted_wrt (cmp_less Compare) (map fst (index_pairs fbs seps))"
    by (simp add: sorted_wrt_iff_nth_less len)
  show "\<forall>kv \<in> set (index_pairs fbs seps). valid (fst kv)"
    using index_separator(1) [OF t] len by (auto simp: index_pairs_def)
qed

text \<open>
  Where a search in the index leads: behind the last block only when every key is smaller; else to
  the block with the first pair at or above the key, or to the block before it, when the key is at or
  below the separator of the two.
\<close>

lemma index_search:
  assumes t: "table_keys fbs seps" and k: "valid k"
  defines "j \<equiv> first_from Compare k (index_pairs fbs seps)" and "p \<equiv> first_from Compare k (pairs_of fbs [])"
  shows "j = length fbs \<Longrightarrow> p = length (pairs_of fbs [])"
    and "j < length fbs \<Longrightarrow> first_from Compare k (bpairs (fbs ! j)) < length (bpairs (fbs ! j)) \<Longrightarrow>
      p < length (pairs_of fbs []) \<and> pairs_of fbs [] ! p = bpairs (fbs ! j) ! first_from Compare k (bpairs (fbs ! j))"
    and "j < length fbs \<Longrightarrow> first_from Compare k (bpairs (fbs ! j)) = length (bpairs (fbs ! j)) \<Longrightarrow>
      p < length (pairs_of fbs []) \<Longrightarrow>
      p > 0 \<and> (\<exists>r. Sep (fst (pairs_of fbs [] ! (p - 1))) (fst (pairs_of fbs [] ! p)) = Some r \<and> valid r \<and> cmp_leq Compare k r)"
proof -
  let ?all = "pairs_of fbs []"
  have keys: "keys_ok ?all" and blocks: "\<forall>x \<in> set fbs. fblock_ok x" and len: "length seps = length fbs"
    using t by (simp_all add: table_keys_def index_keys_ok_def)
  have nth: "index_pairs fbs seps ! i = (seps ! i, handle_bytes (handle_of fbs i))" if "i < length fbs" for i
    using that len by (simp add: index_pairs_def)
  have ilen: "length (index_pairs fbs seps) = length fbs" using len by (simp add: index_pairs_def)
  have ne: "bpairs (fbs ! i) \<noteq> []" if "i < length fbs" for i using blocks that by (auto simp: fblock_ok_def)
  have before: "cmp_less Compare (fst kv) k" if "kv \<in> set (bpairs (fbs ! i))" "i < j" for i kv
  proof -
    have i: "i < length fbs" using that(2) first_from_le [of Compare k "index_pairs fbs seps"] ilen by (simp add: j_def)
    have "cmp_less Compare (seps ! i) k" using first_from_below [of i Compare k "index_pairs fbs seps"] that(2) nth [OF i] by (simp add: j_def)
    then show ?thesis
      using index_separator(1,2) [OF t i] boundary(4) [OF keys i ne [OF i] that(1)] leq_less_trans that(1) k by blast
  qed
  have pre: "\<forall>kv \<in> set (concat (map bpairs (take j fbs))). cmp_less Compare (fst kv) k"
  proof
    fix kv assume "kv \<in> set (concat (map bpairs (take j fbs)))"
    then obtain x where x: "x \<in> set (take j fbs)" "kv \<in> set (bpairs x)" by auto
    then obtain i where "i < j" "x = fbs ! i" by (auto simp: in_set_conv_nth)
    with x(2) before show "cmp_less Compare (fst kv) k" by blast
  qed
  show "j = length fbs \<Longrightarrow> p = length ?all"
    using pre first_from_append [of Compare k "concat (map bpairs fbs)" "[]"]
    by (simp add: p_def pairs_of_def first_from_def seek_position_def)
  assume j: "j < length fbs"
  let ?q = "first_from Compare k (bpairs (fbs ! j))" and ?pre = "concat (map bpairs (take j fbs))"
  have all: "?all = ?pre @ bpairs (fbs ! j) @ behind fbs [] j" by (rule pairs_of_split [OF j])
  have p: "p = length ?pre + first_from Compare k (bpairs (fbs ! j) @ behind fbs [] j)"
    unfolding p_def all first_from_append [of Compare k ?pre] using pre by simp
  have not_below: "\<not> cmp_less Compare (seps ! j) k"
    using first_from_not_below [of Compare k "index_pairs fbs seps"] j nth [OF j] ilen by (simp add: j_def)
  show "p < length ?all \<and> ?all ! p = bpairs (fbs ! j) ! ?q" if q: "?q < length (bpairs (fbs ! j))"
  proof -
    have "\<not> (\<forall>kv \<in> set (bpairs (fbs ! j)). cmp_less Compare (fst kv) k)"
      using first_from_not_below [OF q] nth_mem [OF q] by blast
    then have "p = length ?pre + ?q" unfolding p first_from_append by (simp only: if_False)
    then show ?thesis using q unfolding all by (simp add: nth_append)
  qed
  show "p > 0 \<and> (\<exists>r. Sep (fst (?all ! (p - 1))) (fst (?all ! p)) = Some r \<and> valid r \<and> cmp_leq Compare k r)"
    if q: "?q = length (bpairs (fbs ! j))" and lt: "p < length ?all"
  proof -
    have "\<forall>kv \<in> set (bpairs (fbs ! j)). cmp_less Compare (fst kv) k" using first_from_all [OF q] by blast
    then have p': "p = length ?pre + length (bpairs (fbs ! j)) + first_from Compare k (behind fbs [] j)"
      unfolding p first_from_append by simp
    have bne: "behind fbs [] j \<noteq> []" using lt p' unfolding all by auto
    then obtain kv kvs where b: "behind fbs [] j = kv # kvs" unfolding neq_Nil_conv by blast
    have leq: "cmp_leq Compare k (seps ! j)" using not_below not_less_iff [OF index_separator(1) [OF t j] k] by blast
    moreover have less: "cmp_less Compare (seps ! j) (fst kv)" and v: "valid (fst kv)"
      using index_separator(3) [OF t j, of kv] boundary(2) [OF keys j ne [OF j], of kv] b by auto
    ultimately have "\<not> cmp_less Compare (fst kv) k"
      using leq_less_trans [OF k index_separator(1) [OF t j] v] not_less_iff [OF v k] less_imp_leq by blast
    then have "first_from Compare k (behind fbs [] j) = 0" unfolding b by (simp add: first_from_def seek_position_def)
    then have pos: "p = length (?pre @ bpairs (fbs ! j))" using p' by simp
    then have "?all ! p = hd (behind fbs [] j)"
      unfolding all append_assoc [symmetric] nth_append b by simp
    moreover have "?all ! (p - 1) = last (bpairs (fbs ! j))"
      using pos ne [OF j] unfolding all by (cases "bpairs (fbs ! j)" rule: rev_cases) (simp_all add: nth_append)
    moreover have "p > 0" using pos ne [OF j] by simp
    ultimately show ?thesis using index_separator(1,4) [OF t j] bne leq by auto
  qed
qed

end

section \<open>Opening\<close>

text \<open>A policy answers for every key and every filter, the short ones that no builder writes included.\<close>

locale table_access = table_setup Compare valid Sep Succ S policy fvalid
  for Compare :: "slice \<Rightarrow> slice \<Rightarrow> int option" and valid :: "slice \<Rightarrow> bool"
    and Sep :: "slice \<Rightarrow> slice \<Rightarrow> slice option" and Succ :: "slice \<Rightarrow> slice option" and S :: snappy
    and policy :: "policy_ops option" and fvalid :: "slice \<Rightarrow> bool" +
  assumes policy_total: "policy = Some p \<Longrightarrow> fvalid k \<Longrightarrow> length f < 2 ^ 32 \<Longrightarrow> fp_KeyMayMatch p k f \<noteq> None"
begin

definition filter_reads :: "file_block list \<Rightarrow> byte list table \<Rightarrow> bool" where
  "filter_reads fbs t \<longleftrightarrow> (case policy of
       None \<Rightarrow> ta_filter t = None
     | Some p \<Rightarrow> \<exists>r. ta_filter t = Some (p, r) \<and>
         (\<forall>off k. fvalid k \<longrightarrow> Reader_KeyMayMatch (fp_KeyMayMatch p) r off k \<noteq> None) \<and>
         (\<forall>blk \<in> set (filter_blocks fbs []). \<forall>k \<in> set (snd blk).
            Reader_KeyMayMatch (fp_KeyMayMatch p) r (fst blk) k = Some True))"

definition opened :: "Options \<Rightarrow> file_block list \<Rightarrow> slice list \<Rightarrow> byte list table \<Rightarrow> bool" where
  "opened opts fbs seps t \<longleftrightarrow> opts_ok opts \<and> ta_options t = opts \<and> table_keys fbs seps \<and> length (ta_file t) < 2 ^ 32 \<and>
     (\<exists>rest. ta_file t = file_of fbs @ rest) \<and>
     (\<exists>raw. is_block (index_pairs fbs seps) raw \<and> mk_Block raw = Some (ta_index_block t)) \<and> filter_reads fbs t"

lemma ReadFilter_mem:
  assumes tfile: "ta_file t = pre @ stored_block c kNoCompression @ post" "length (ta_file t) < 2 ^ 64"
    and h: "h = \<lparr>bh_offset = of_nat (length pre), bh_size = of_nat (length c)\<rparr>"
    and r: "FilterBlockReader c = Some r"
  shows "ReadFilter S mem_random p (handle_bytes h) t = Some (t\<lparr>ta_filter := Some (p, r)\<rparr>)"
proof -
  have "stores c c kNoCompression" by (simp add: stores_def)
  from ReadBlock_mem [OF tfile h this, of "op_paranoid_checks (ta_options t)"] obtain bc where
    bc: "ReadBlock S mem_random (ta_file t) (op_paranoid_checks (ta_options t)) h = Some (Status_OK, bc)" "bc_data bc = c"
    by blast
  show ?thesis
    using bc r BlockHandle_DecodeFrom_bytes [of mk_BlockHandle h "[]"]
    by (simp add: ReadFilter_def Status_ok_def Status_OK_def)
qed

lemma ReadMeta_mem:
  assumes opts: "op_filter_policy (ta_options t) = policy" and none: "ta_filter t = None"
    and tfile: "ta_file t = data @ fpart @ stored_block mc mt @ post" "length (ta_file t) < 2 ^ 32"
    and h: "ft_metaindex_handle footer = \<lparr>bh_offset = of_nat (length (data @ fpart)), bh_size = of_nat (length mc)\<rparr>"
    and stores: "stores mraw mc mt" and data: "data = file_of fbs"
    and fil: "case policy of
        None \<Rightarrow> fpart = [] \<and> is_block [] mraw
      | Some p \<Rightarrow> \<exists>fblock. fpart = stored_block fblock kNoCompression \<and>
          is_block [(filter_key p, handle_bytes \<lparr>bh_offset = of_nat (length data), bh_size = of_nat (length fblock)\<rparr>)] mraw \<and>
          (\<exists>fb. Finish (fp_CreateFilter p) fb = Some fblock) \<and>
          (\<forall>blk \<in> set (filter_blocks fbs []). \<forall>k \<in> set (snd blk).
             do { r \<leftarrow> FilterBlockReader fblock; Reader_KeyMayMatch (fp_KeyMayMatch p) r (fst blk) k } = Some True)"
  shows "\<exists>fr. ReadMeta S mem_random footer t = Some (t\<lparr>ta_filter := fr\<rparr>) \<and> filter_reads fbs (t\<lparr>ta_filter := fr\<rparr>)"
proof (cases policy)
  case None
  have "t\<lparr>ta_filter := None\<rparr> = t" using none by (cases t) simp
  with None opts none show ?thesis unfolding filter_reads_def
    by (intro exI [of _ None]) (simp add: ReadMeta_def)
next
  case (Some p)
  then obtain c fb where c: "fpart = stored_block c kNoCompression" "Finish (fp_CreateFilter p) fb = Some c"
    "is_block [(filter_key p, handle_bytes \<lparr>bh_offset = of_nat (length data), bh_size = of_nat (length c)\<rparr>)] mraw"
    and sound: "\<forall>blk \<in> set (filter_blocks fbs []). \<forall>k \<in> set (snd blk).
       do { r \<leftarrow> FilterBlockReader c; Reader_KeyMayMatch (fp_KeyMayMatch p) r (fst blk) k } = Some True"
    using fil by auto
  let ?h = "\<lparr>bh_offset = of_nat (length data), bh_size = of_nat (length c)\<rparr> :: BlockHandle"
  obtain r where r: "FilterBlockReader c = Some r" using FilterBlockReader_total by blast
  have tfile': "ta_file t = (data @ fpart) @ stored_block mc mt @ post" "length (ta_file t) < 2 ^ 64" using tfile by simp_all
  obtain bc where bc: "ReadBlock S mem_random (ta_file t) (op_paranoid_checks (ta_options t)) (ft_metaindex_handle footer) = Some (Status_OK, bc)"
    "bc_data bc = mraw"
    using ReadBlock_mem [OF tfile' h stores] by blast
  obtain blk it it' where it: "mk_Block mraw = Some blk" "NewIterator blk = Some it"
    "it_Seek BytewiseComparator_Compare (filter_key p) it = Some it'"
    "it_shows [(filter_key p, handle_bytes ?h)] (first_from BytewiseComparator_Compare (filter_key p) [(filter_key p, handle_bytes ?h)]) it'"
    using bytewise_block.block_seek [OF c(3), of "filter_key p"] by auto
  have "first_from BytewiseComparator_Compare (filter_key p) [(filter_key p, handle_bytes ?h)] = 0"
    by (simp add: first_from_def seek_position_def bytewise_less)
  then have at: "it_Valid it'" "it_key it' = Some (filter_key p)" "it_value it' = Some (handle_bytes ?h)"
    using it(4) by (simp_all add: it_shows_def)
  have read: "ReadFilter S mem_random p (handle_bytes ?h) t = Some (t\<lparr>ta_filter := Some (p, r)\<rparr>)"
    using tfile c(1) r by (intro ReadFilter_mem) simp_all
  have "ReadMeta S mem_random footer t = Some (t\<lparr>ta_filter := Some (p, r)\<rparr>)"
    using opts Some bc it(1-3) at read by (simp add: ReadMeta_def Status_ok_def Status_OK_def filter_key_def [symmetric])
  moreover have "Reader_KeyMayMatch (fp_KeyMayMatch p) r a k \<noteq> None" if "fvalid k" for a k
  proof (rule Reader_total [OF r])
    show "last c = of_nat kFilterBaseLg" by (rule Finish_last [OF c(2)])
    show "length c < 2 ^ 32" using tfile c(1) by simp
    show "fp_KeyMayMatch p k f \<noteq> None" if "length f < 2 ^ 32" for f using policy_total [OF Some \<open>fvalid k\<close> that] .
  qed
  moreover have "\<forall>blk \<in> set (filter_blocks fbs []). \<forall>k \<in> set (snd blk). Reader_KeyMayMatch (fp_KeyMayMatch p) r (fst blk) k = Some True"
    using sound r by simp
  ultimately show ?thesis using Some unfolding filter_reads_def by (intro exI [of _ "Some (p, r)"]) simp
qed

lemma Table_Open_finished:
  assumes f: "finished fbs seps f" and opts: "opts_ok opts"
  shows "\<exists>t. Table_Open S mem_random opts f (of_nat (length f)) = Some (Status_OK, Some t) \<and> opened opts fbs seps t"
proof -
  obtain fpart mraw mc mt iraw ic it where file_eq: "f = file_of fbs @ fpart @ stored_block mc mt @ stored_block ic it @
      footer_bytes \<lparr>ft_metaindex_handle = \<lparr>bh_offset = of_nat (length (file_of fbs @ fpart)), bh_size = of_nat (length mc)\<rparr>,
        ft_index_handle = \<lparr>bh_offset = of_nat (length (file_of fbs @ fpart @ stored_block mc mt)), bh_size = of_nat (length ic)\<rparr>\<rparr>"
    and stores: "stores mraw mc mt" "is_block (index_pairs fbs seps) iraw" "stores iraw ic it"
    and fil: "case policy of
        None \<Rightarrow> fpart = [] \<and> is_block [] mraw
      | Some p \<Rightarrow> \<exists>fblock. fpart = stored_block fblock kNoCompression \<and>
          is_block [(filter_key p, handle_bytes \<lparr>bh_offset = of_nat (length (file_of fbs)), bh_size = of_nat (length fblock)\<rparr>)] mraw \<and>
          (\<exists>fb. Finish (fp_CreateFilter p) fb = Some fblock) \<and>
          (\<forall>blk \<in> set (filter_blocks fbs []). \<forall>k \<in> set (snd blk).
             do { r \<leftarrow> FilterBlockReader fblock; Reader_KeyMayMatch (fp_KeyMayMatch p) r (fst blk) k } = Some True)"
    using f unfolding finished_def by blast
  have tk: "table_keys fbs seps" and len: "length f < 2 ^ 32"
    using f by (simp_all add: finished_def table_keys_def index_keys_ok_def)
  let ?ft = "\<lparr>ft_metaindex_handle = \<lparr>bh_offset = of_nat (length (file_of fbs @ fpart)), bh_size = of_nat (length mc)\<rparr>,
        ft_index_handle = \<lparr>bh_offset = of_nat (length (file_of fbs @ fpart @ stored_block mc mt)), bh_size = of_nat (length ic)\<rparr>\<rparr>"
  define front where "front = file_of fbs @ fpart @ stored_block mc mt @ stored_block ic it"
  have split: "f = front @ footer_bytes ?ft" using file_eq by (simp add: front_def)
  have flen: "length f = length front + 48"
    using length_footer_bytes [of ?ft] arg_cong [OF split, of length] by (simp add: kEncodedLength_def kMaxEncodedLength_def)
  have k48: "(of_nat kEncodedLength :: uint64) = 48" by (simp add: kEncodedLength_def kMaxEncodedLength_def)
  have un: "unat (of_nat (length f) :: uint64) = length f" using len by (intro unat_small64) simp
  have sz: "\<not> (of_nat (length f) :: uint64) < 48" using un flen by (simp add: word_less_nat_alt)
  have "unat (of_nat (length f) - 48 :: uint64) = length front"
    unfolding flen using len flen by (simp add: unat_of_nat)
  moreover have "take 48 (drop (length front) f) = footer_bytes ?ft"
    unfolding split using length_footer_bytes [of ?ft] by (simp add: kEncodedLength_def kMaxEncodedLength_def)
  ultimately have read: "raf_Read mem_random f (of_nat (length f) - 48) 48 = (Status_OK, footer_bytes ?ft, True)"
    by (simp add: mem_random_def)
  have footer: "Footer_DecodeFrom mk_Footer (footer_bytes ?ft) = Some (Status_OK, ?ft, [])"
    using Footer_DecodeFrom_bytes [of mk_Footer ?ft "[]"] by simp
  have ifile: "f = (file_of fbs @ fpart @ stored_block mc mt) @ stored_block ic it @ footer_bytes ?ft" "length f < 2 ^ 64"
    using file_eq len by simp_all
  obtain bc where bc: "ReadBlock S mem_random f (op_paranoid_checks opts) (ft_index_handle ?ft) = Some (Status_OK, bc)"
    "bc_data bc = iraw"
    using ReadBlock_mem [OF ifile _ stores(3)] by auto
  obtain blk where blk: "mk_Block iraw = Some blk"
    using stores(2) NewIterator_over by (fastforce simp: is_block_def)
  define t where "t = \<lparr>ta_options = opts, ta_file = f, ta_filter = None, ta_metaindex_handle = ft_metaindex_handle ?ft, ta_index_block = blk\<rparr>"
  have tf: "ta_file t = file_of fbs @ fpart @ stored_block mc mt @ (stored_block ic it @ footer_bytes ?ft)" "length (ta_file t) < 2 ^ 32"
    using file_eq len by (simp_all add: t_def)
  have topts: "op_filter_policy (ta_options t) = policy" "ta_filter t = None" using opts by (simp_all add: t_def opts_ok_def)
  have fh: "ft_metaindex_handle ?ft = \<lparr>bh_offset = of_nat (length (file_of fbs @ fpart)), bh_size = of_nat (length mc)\<rparr>" by simp
  obtain fr where fr: "ReadMeta S mem_random ?ft t = Some (t\<lparr>ta_filter := fr\<rparr>)" "filter_reads fbs (t\<lparr>ta_filter := fr\<rparr>)"
    using ReadMeta_mem [OF topts tf fh stores(1) refl fil] by blast
  have "Table_Open S mem_random opts f (of_nat (length f)) = Some (Status_OK, Some (t\<lparr>ta_filter := fr\<rparr>))"
    using sz read footer bc blk fr(1)
    by (simp add: Table_Open_def k48 Status_ok_def Status_OK_def Let_def t_def)
  moreover have "opened opts fbs seps (t\<lparr>ta_filter := fr\<rparr>)"
    using opts tk len stores(2) blk fr(2) tf(1) by (auto simp: opened_def t_def)
  ultimately show ?thesis by blast
qed

section \<open>Getting\<close>

lemma BlockReader_opened:
  assumes t: "opened opts fbs seps t" and j: "j < length fbs" and k: "valid k"
  shows "\<exists>it it'. BlockReader S mem_random verify (handle_bytes (handle_of fbs j)) t = Some it \<and>
    it_Seek Compare k it = Some it' \<and> it_shows (bpairs (fbs ! j)) (first_from Compare k (bpairs (fbs ! j))) it'"
proof -
  have tk: "table_keys fbs seps" and len: "length (ta_file t) < 2 ^ 32" using t by (simp_all add: opened_def)
  obtain rest where rest: "ta_file t = file_of fbs @ rest" using t by (auto simp: opened_def)
  obtain raw where raw: "is_block (bpairs (fbs ! j)) raw" "stores raw (bcontents (fbs ! j)) (btype (fbs ! j))"
    using tk j nth_mem [OF j] unfolding table_keys_def fblock_ok_def by blast
  have "file_of fbs = file_of (take j fbs) @ stored_block (bcontents (fbs ! j)) (btype (fbs ! j)) @ file_of (drop (Suc j) fbs)"
    by (subst id_take_nth_drop [OF j]) (simp add: file_of_def)
  then have tfile: "ta_file t = file_of (take j fbs) @ stored_block (bcontents (fbs ! j)) (btype (fbs ! j)) @ (file_of (drop (Suc j) fbs) @ rest)"
    "length (ta_file t) < 2 ^ 64" using rest len by simp_all
  have "handle_of fbs j = \<lparr>bh_offset = of_nat (length (file_of (take j fbs))), bh_size = of_nat (length (bcontents (fbs ! j)))\<rparr>"
    by (simp add: handle_of_def block_offset_def)
  from ReadBlock_mem [OF tfile this raw(2)] obtain bc where
    bc: "ReadBlock S mem_random (ta_file t) verify (handle_of fbs j) = Some (Status_OK, bc)" "bc_data bc = raw" by blast
  have keys: "keys_ok (pairs_of fbs [])" using tk by (simp add: table_keys_def)
  have "sorted_wrt (cmp_less Compare) (map fst (bpairs (fbs ! j)))" "\<forall>kv \<in> set (bpairs (fbs ! j)). valid (fst kv)"
    using keys unfolding keys_ok_def pairs_of_split [OF j] by (auto simp: sorted_wrt_append)
  from block_seek [OF raw(1) k this(2,1)] obtain blk it it' where
    "mk_Block raw = Some blk" "NewIterator blk = Some it" "it_Seek Compare k it = Some it'"
    "it_shows (bpairs (fbs ! j)) (first_from Compare k (bpairs (fbs ! j))) it'" by blast
  with bc BlockHandle_DecodeFrom_bytes [of mk_BlockHandle "handle_of fbs j" "[]"] show ?thesis
    by (simp add: BlockReader_def Status_ok_def Status_OK_def)
qed

lemma filter_excludes_opened:
  assumes t: "opened opts fbs seps t" and j: "j < length fbs" and k: "valid k"
  shows "\<exists>x. filter_excludes t (handle_bytes (handle_of fbs j)) k = Some x \<and>
    (x \<longrightarrow> (\<forall>kv \<in> set (bpairs (fbs ! j)). \<exists>p. policy = Some p \<and> fp_KeyMayMatch p k \<noteq> fp_KeyMayMatch p (fst kv)))"
proof (cases policy)
  case None
  then have "ta_filter t = None" using t unfolding opened_def filter_reads_def by simp
  then show ?thesis by (intro exI [of _ False]) (simp add: filter_excludes_def)
next
  case (Some p)
  then obtain r where r: "ta_filter t = Some (p, r)"
    "\<And>off. Reader_KeyMayMatch (fp_KeyMayMatch p) r off k \<noteq> None"
    "\<forall>blk \<in> set (filter_blocks fbs []). \<forall>k \<in> set (snd blk). Reader_KeyMayMatch (fp_KeyMayMatch p) r (fst blk) k = Some True"
    using t valid_fvalid [OF k] unfolding opened_def filter_reads_def by auto
  let ?o = "of_nat (block_offset fbs j) :: uint64"
  obtain may where may: "Reader_KeyMayMatch (fp_KeyMayMatch p) r ?o k = Some may" using r(2) by blast
  have "fp_KeyMayMatch p k \<noteq> fp_KeyMayMatch p (fst kv)" if kv: "kv \<in> set (bpairs (fbs ! j))" and no: "\<not> may" for kv
  proof
    assume eq: "fp_KeyMayMatch p k = fp_KeyMayMatch p (fst kv)"
    have "(?o, map fst (bpairs (fbs ! j))) \<in> set (filter_blocks fbs [])" using j by (auto simp: filter_blocks_def)
    then have "Reader_KeyMayMatch (fp_KeyMayMatch p) r ?o (fst kv) = Some True" using r(3) kv by fastforce
    moreover have "Reader_KeyMayMatch (fp_KeyMayMatch p) r ?o k = Reader_KeyMayMatch (fp_KeyMayMatch p) r ?o (fst kv)"
      unfolding Reader_KeyMayMatch_def eq ..
    ultimately show False using may no by simp
  qed
  moreover have "filter_excludes t (handle_bytes (handle_of fbs j)) k = Some (\<not> may)"
    using r(1) may BlockHandle_DecodeFrom_bytes [of mk_BlockHandle "handle_of fbs j" "[]"]
    by (simp add: filter_excludes_def Status_ok_def Status_OK_def handle_of_def)
  ultimately show ?thesis using Some by simp
qed

lemma index_opened:
  assumes t: "opened opts fbs seps t" and k: "valid k"
  shows "\<exists>it it'. NewIterator (ta_index_block t) = Some it \<and> it_Seek Compare k it = Some it' \<and>
    it_shows (index_pairs fbs seps) (first_from Compare k (index_pairs fbs seps)) it'"
proof -
  obtain raw where raw: "is_block (index_pairs fbs seps) raw" "mk_Block raw = Some (ta_index_block t)"
    using t by (auto simp: opened_def)
  have "table_keys fbs seps" using t by (simp add: opened_def)
  from block_seek [OF raw(1) k index_pairs_sorted(2,1) [OF this]] raw(2) show ?thesis by auto
qed

text \<open>
  A key is looked for in the right block when it is above the separator in front of the first pair
  at or above it, and the filter cannot tell the two keys apart.
\<close>

definition routed :: "(slice \<times> slice) list \<Rightarrow> slice \<Rightarrow> bool" where
  "routed kvs k \<longleftrightarrow> (let p = first_from Compare k kvs in
     (p = 0 \<or> (\<forall>r. Sep (fst (kvs ! (p - 1))) (fst (kvs ! p)) = Some r \<longrightarrow> cmp_less Compare r k)) \<and>
     (\<forall>pol. policy = Some pol \<longrightarrow> fp_KeyMayMatch pol k = fp_KeyMayMatch pol (fst (kvs ! p))))"

lemma InternalGet_opened:
  assumes t: "opened opts fbs seps t" and k: "valid k"
  defines "kvs \<equiv> pairs_of fbs []" and "p \<equiv> first_from Compare k (pairs_of fbs [])"
  shows "\<exists>saved. InternalGet S mem_random verify k t = Some (Status_OK, saved) \<and>
    (\<forall>kv. saved = Some kv \<longrightarrow> p < length kvs \<and> kv = kvs ! p) \<and>
    (p < length kvs \<and> routed kvs k \<longrightarrow> saved = Some (kvs ! p))"
proof -
  let ?j = "first_from Compare k (index_pairs fbs seps)"
  have tk: "table_keys fbs seps" and cmp: "co_Compare (op_comparator (ta_options t)) = Compare"
    using t by (simp_all add: opened_def opts_ok_def)
  have len: "length (index_pairs fbs seps) = length fbs" using tk by (simp add: index_pairs_def table_keys_def index_keys_ok_def)
  obtain it it' where it: "NewIterator (ta_index_block t) = Some it" "it_Seek Compare k it = Some it'"
    "it_shows (index_pairs fbs seps) ?j it'" using index_opened [OF t k] by blast
  have status: "it_status it' = Status_OK" using it(3) by (simp add: it_shows_def)
  note search = index_search [OF tk k, folded kvs_def, folded p_def [folded kvs_def]]
  show ?thesis
  proof (cases "?j < length fbs")
    case False
    then have "?j = length fbs" using first_from_le [of Compare k "index_pairs fbs seps"] len by simp
    from search(1) [OF this] have "p = length kvs" .
    moreover have "InternalGet S mem_random verify k t = Some (Status_OK, None)"
      using it status False len unfolding InternalGet_def cmp by (simp add: it_shows_def Status_ok_def Status_OK_def)
    ultimately show ?thesis by blast
  next
    case True
    then have at: "it_Valid it'" "it_value it' = Some (handle_bytes (handle_of fbs ?j))"
      using it(3) len by (simp_all add: it_shows_def index_pairs_def)
    let ?bps = "bpairs (fbs ! ?j)"
    let ?q = "first_from Compare k ?bps"
    obtain b b' where b: "BlockReader S mem_random verify (handle_bytes (handle_of fbs ?j)) t = Some b"
      "it_Seek Compare k b = Some b'" "it_shows ?bps ?q b'" using BlockReader_opened [OF t True k] by blast
    obtain x where x: "filter_excludes t (handle_bytes (handle_of fbs ?j)) k = Some x"
      "x \<longrightarrow> (\<forall>kv \<in> set ?bps. \<exists>pol. policy = Some pol \<and> fp_KeyMayMatch pol k \<noteq> fp_KeyMayMatch pol (fst kv))"
      using filter_excludes_opened [OF t True k] by blast
    have get: "InternalGet S mem_random verify k t =
        Some (Status_OK, if x \<or> \<not> ?q < length ?bps then None else Some (?bps ! ?q))"
      using it(1,2) status at x(1) b unfolding InternalGet_def cmp
      by (auto simp: it_shows_def Status_ok_def Status_OK_def)
    show ?thesis
    proof (cases "?q < length ?bps")
      case in_block: True
      have p: "p < length kvs" "kvs ! p = ?bps ! ?q" using search(2) [OF True in_block] by simp_all
      moreover have "\<not> x" if "routed kvs k"
        using that x(2) nth_mem [OF in_block] p(2) unfolding routed_def Let_def p_def [folded kvs_def, symmetric] by metis
      ultimately show ?thesis using get in_block by auto
    next
      case False
      then have "?q = length ?bps" using first_from_le [of Compare k ?bps] by simp
      note between = search(3) [OF True this]
      have "\<not> routed kvs k" if p: "p < length kvs"
      proof
        assume r: "routed kvs k"
        obtain r where r1: "p > 0" "Sep (fst (kvs ! (p - 1))) (fst (kvs ! p)) = Some r" "valid r" "cmp_leq Compare k r"
          using between [OF p] by blast
        then have "cmp_less Compare r k" using r unfolding routed_def Let_def p_def [folded kvs_def, symmetric] by auto
        with r1 show False using not_less_iff k by blast
      qed
      then show ?thesis using get False by auto
    qed
  qed
qed

text \<open>The two halves together: what is built, finished, opened and searched.\<close>

theorem built_table_get:
  assumes opts: "opts_ok opts" and kvs: "keys_ok kvs" "table_bound kvs < 2 ^ 30"
  shows "\<exists>b0 b1 b2 t. mk_TableBuilder opts [] = Some b0 \<and> add_table mem_writable S kvs b0 = Some b1 \<and>
    TableBuilder_Finish mem_writable S b1 = Some (Status_OK, b2) \<and>
    Table_Open S mem_random opts (tb_file b2) (of_nat (length (tb_file b2))) = Some (Status_OK, Some t) \<and>
    (\<forall>k verify. valid k \<longrightarrow> (\<exists>saved. InternalGet S mem_random verify k t = Some (Status_OK, saved) \<and>
      (\<forall>kv. saved = Some kv \<longrightarrow> first_from Compare k kvs < length kvs \<and> kv = kvs ! first_from Compare k kvs) \<and>
      (first_from Compare k kvs < length kvs \<and> routed kvs k \<longrightarrow> saved = Some (kvs ! first_from Compare k kvs))))"
proof -
  obtain b0 where b0: "mk_TableBuilder opts [] = Some b0" "building opts [] [] [] b0"
    using mk_TableBuilder_building [OF opts] by blast
  have e: "pairs_of [] [] @ kvs = kvs" by (simp add: pairs_of_def)
  obtain b1 fbs cur seps where b1: "add_table mem_writable S kvs b0 = Some b1" "building opts fbs cur seps b1" "pairs_of fbs cur = kvs"
    using add_table_building [OF b0(2), of kvs] kvs unfolding e by blast
  obtain b2 fbs' seps' where b2: "TableBuilder_Finish mem_writable S b1 = Some (Status_OK, b2)" "finished fbs' seps' (tb_file b2)"
    "pairs_of fbs' [] = kvs"
    using TableBuilder_Finish_finished [OF b1(2)] kvs(2) b1(3) by auto
  obtain t where t: "Table_Open S mem_random opts (tb_file b2) (of_nat (length (tb_file b2))) = Some (Status_OK, Some t)"
    "opened opts fbs' seps' t" using Table_Open_finished [OF b2(2) opts] by blast
  with b0(1) b1(1) b2(1) InternalGet_opened [OF t(2)] show ?thesis unfolding b2(3) by blast
qed

end

end
