(* ===== verification/L_Table_Theorems.thy ===== *)
theory L_Table_Theorems
  imports L_Table_Get
begin

text \<open>
  Tables of internal keys, as the database writes them: the interpretation of the table interface on
  the internal comparator, with and without the Bloom filter, and the read of a user key.
\<close>

section \<open>The configuration of the database\<close>

definition internal_comparator_ops :: comparator_ops where
  "internal_comparator_ops =
     \<lparr>co_Compare = InternalKeyComparator_Compare BytewiseComparator_Compare,
      co_FindShortestSeparator = InternalKeyComparator_FindShortestSeparator BytewiseComparator_Compare
        BytewiseComparator_FindShortestSeparator,
      co_FindShortSuccessor = InternalKeyComparator_FindShortSuccessor BytewiseComparator_Compare
        BytewiseComparator_FindShortSuccessor\<rparr>"

definition internal_bloom_policy :: policy_ops where
  "internal_bloom_policy =
     \<lparr>fp_Name = str ''leveldb.BuiltinBloomFilter2'',
      fp_CreateFilter = InternalFilterPolicy_CreateFilter (Bloom_CreateFilter bloom10),
      fp_KeyMayMatch = InternalFilterPolicy_KeyMayMatch Bloom_KeyMayMatch\<rparr>"

lemma internal_table_access:
  assumes "snappy_port S" and policy: "policy = None \<or> policy = Some internal_bloom_policy"
  shows "table_access (InternalKeyComparator_Compare BytewiseComparator_Compare) (valid_internal (\<lambda>_. True))
    (InternalKeyComparator_FindShortestSeparator BytewiseComparator_Compare BytewiseComparator_FindShortestSeparator)
    (InternalKeyComparator_FindShortSuccessor BytewiseComparator_Compare BytewiseComparator_FindShortSuccessor)
    S policy (\<lambda>k. 8 \<le> length k \<and> True)"
proof -
  show ?thesis
  proof (intro table_access.intro table_setup.intro table_setup_axioms.intro table_access_axioms.intro)
    show "key_comparator (InternalKeyComparator_Compare BytewiseComparator_Compare) (valid_internal (\<lambda>_. True))
      (InternalKeyComparator_FindShortestSeparator BytewiseComparator_Compare BytewiseComparator_FindShortestSeparator)
      (InternalKeyComparator_FindShortSuccessor BytewiseComparator_Compare BytewiseComparator_FindShortSuccessor)"
      by (rule bytewise.internal.key_comparator_axioms)
    show "snappy_port S" by (rule assms(1))
    fix p :: policy_ops and k f :: slice
    show "valid_internal (\<lambda>_. True) k \<Longrightarrow> 8 \<le> length k \<and> True"
      by (auto simp: valid_internal_def ExtractUserKey_def split: if_splits)
    assume p: "policy = Some p"
    then have p: "p = internal_bloom_policy" using policy by simp
    show "filter_policy (fp_CreateFilter p) (fp_KeyMayMatch p) (\<lambda>k. 8 \<le> length k \<and> True)"
      using bloom10_internal.filter_policy_axioms unfolding p internal_bloom_policy_def by simp
    show "small_filters (fp_CreateFilter p)"
      using internal_small [OF bloom10_small] unfolding p internal_bloom_policy_def by simp
    show "length (fp_Name p) < 2 ^ 20" unfolding p internal_bloom_policy_def by (simp add: str_def)
    show "8 \<le> length k \<and> True \<Longrightarrow> length f < 2 ^ 32 \<Longrightarrow> fp_KeyMayMatch p k f \<noteq> None"
      using Bloom_KeyMayMatch_total [of f] unfolding p internal_bloom_policy_def
      by (simp add: InternalFilterPolicy_KeyMayMatch_def ExtractUserKey_def)
  qed
qed

interpretation internal_table: table_access "InternalKeyComparator_Compare BytewiseComparator_Compare"
  "valid_internal (\<lambda>_. True)"
  "InternalKeyComparator_FindShortestSeparator BytewiseComparator_Compare BytewiseComparator_FindShortestSeparator"
  "InternalKeyComparator_FindShortSuccessor BytewiseComparator_Compare BytewiseComparator_FindShortSuccessor"
  no_snappy None "\<lambda>k. 8 \<le> length k \<and> True"
  by (rule internal_table_access [OF no_snappy.snappy_port_axioms]) simp

interpretation bloom_table: table_access "InternalKeyComparator_Compare BytewiseComparator_Compare"
  "valid_internal (\<lambda>_. True)"
  "InternalKeyComparator_FindShortestSeparator BytewiseComparator_Compare BytewiseComparator_FindShortestSeparator"
  "InternalKeyComparator_FindShortSuccessor BytewiseComparator_Compare BytewiseComparator_FindShortSuccessor"
  no_snappy "Some internal_bloom_policy" "\<lambda>k. 8 \<le> length k \<and> True"
  by (rule internal_table_access [OF no_snappy.snappy_port_axioms]) simp

section \<open>Entries of the database\<close>

type_synonym entry = "slice \<times> uint64 \<times> ValueType \<times> slice"

definition internal_pair :: "entry \<Rightarrow> slice \<times> slice" where
  "internal_pair e = (case e of (u, s, t, v) \<Rightarrow> (ikey u (pack s t), v))"

text \<open>By user key, and the newest entry of a user key first.\<close>

definition entry_before :: "entry \<Rightarrow> entry \<Rightarrow> bool" where
  "entry_before e e' = (case e of (u, s, t, v) \<Rightarrow> case e' of (u', s', t', v') \<Rightarrow> u < u' \<or> u = u' \<and> s' < s)"

definition seq_ok :: "entry \<Rightarrow> bool" where
  "seq_ok e = (case e of (u, s, t, v) \<Rightarrow> s \<le> kMaxSequenceNumber)"

text \<open>The entries of a user key that a snapshot sees.\<close>

definition visible :: "slice \<Rightarrow> uint64 \<Rightarrow> entry \<Rightarrow> bool" where
  "visible u s e = (case e of (u', s', t, v) \<Rightarrow> u' = u \<and> s' \<le> s)"

definition lookup_ikey :: "slice \<Rightarrow> uint64 \<Rightarrow> slice" where
  "lookup_ikey u s = ikey u (pack s kValueTypeForSeek)"

abbreviation (input) icmp :: "slice \<Rightarrow> slice \<Rightarrow> int option" where
  "icmp \<equiv> InternalKeyComparator_Compare BytewiseComparator_Compare"

lemma entries_keys_ok:
  assumes "sorted_wrt entry_before es" and "\<forall>e \<in> set es. seq_ok e"
  shows "sorted_wrt (cmp_less icmp) (map fst (map internal_pair es))"
    and "\<forall>kv \<in> set (map internal_pair es). valid_internal (\<lambda>_. True) (fst kv)"
proof -
  have "cmp_less icmp (fst (internal_pair e)) (fst (internal_pair e'))"
    if "entry_before e e'" "seq_ok e" "seq_ok e'" for e e'
    using that by (cases e; cases e')
      (auto simp: entry_before_def internal_pair_def seq_ok_def internal_iff bytewise_iff pack_less_iff)
  then have "sorted_wrt (\<lambda>e e'. cmp_less icmp (fst (internal_pair e)) (fst (internal_pair e'))) es"
    using assms(2) by (intro sorted_wrt_mono_rel [OF _ assms(1)]) blast
  then show "sorted_wrt (cmp_less icmp) (map fst (map internal_pair es))"
    by (simp add: sorted_wrt_map comp_def)
  show "\<forall>kv \<in> set (map internal_pair es). valid_internal (\<lambda>_. True) (fst kv)"
    by (auto simp: internal_pair_def)
qed

text \<open>The entries in front of those, that the search passes.\<close>

definition passed :: "slice \<Rightarrow> uint64 \<Rightarrow> entry \<Rightarrow> bool" where
  "passed u s e = (case e of (u', s', t, v) \<Rightarrow> u' < u \<or> u' = u \<and> s < s')"

lemma below_lookup:
  assumes "seq_ok e" and "s \<le> kMaxSequenceNumber"
  shows "cmp_less icmp (fst (internal_pair e)) (lookup_ikey u s) \<longleftrightarrow> passed u s e"
proof -
  obtain u' s' t v where e: "e = (u', s', t, v)" by (cases e)
  have "pack s kValueTypeForSeek < pack s' t \<longleftrightarrow> s < s'"
    using assms e pack_less_iff [of s s' kValueTypeForSeek t] leD [OF type_le_seek [of t]] by (auto simp: seq_ok_def)
  then show ?thesis by (auto simp: e passed_def internal_pair_def lookup_ikey_def internal_iff bytewise_iff)
qed
text \<open>Where the search for a lookup key stops: at the newest visible entry of its user key, or at another key.\<close>

lemma first_visible:
  fixes u :: slice
  assumes sorted: "sorted_wrt entry_before es" and seqs: "\<forall>e \<in> set es. seq_ok e" and s: "s \<le> kMaxSequenceNumber"
  defines "p \<equiv> first_from icmp (lookup_ikey u s) (map internal_pair es)"
  shows "case filter (visible u s) es of
      [] \<Rightarrow> p < length es \<longrightarrow> fst (es ! p) \<noteq> u
    | e # _ \<Rightarrow> p < length es \<and> es ! p = e \<and>
        (p > 0 \<longrightarrow> passed u s (es ! (p - 1)))"
proof (cases "filter (visible u s) es")
  case Nil
  have "fst (es ! p) \<noteq> u" if lt: "p < length es"
  proof
    assume eq: "fst (es ! p) = u"
    have mem: "es ! p \<in> set es" using lt by simp
    have "\<not> cmp_less icmp (fst (internal_pair (es ! p))) (lookup_ikey u s)"
      using first_from_not_below [of icmp "lookup_ikey u s" "map internal_pair es"] lt by (simp add: p_def)
    then have "visible u s (es ! p)"
      using below_lookup [OF bspec [OF seqs mem] s] eq by (cases "es ! p") (auto simp: visible_def passed_def)
    then show False using Nil mem by (auto simp: filter_empty_conv)
  qed
  then show ?thesis using Nil by simp
next
  case (Cons e rest)
  then obtain pre post where es: "es = pre @ e # post" "\<forall>x \<in> set pre. \<not> visible u s x" "visible u s e"
    unfolding filter_eq_Cons_iff by blast
  have pre: "passed u s x" if x: "x \<in> set pre" for x
  proof -
    have "entry_before x e" using sorted x es(1) by (auto simp: sorted_wrt_append)
    moreover have "\<not> visible u s x" using es(2) x by blast
    ultimately show ?thesis using es(3) by (cases x; cases e) (auto simp: entry_before_def visible_def passed_def)
  qed
  have "\<forall>kv \<in> set (map internal_pair pre). cmp_less icmp (fst kv) (lookup_ikey u s)"
    using below_lookup [OF _ s] seqs es(1) pre by auto
  moreover have "\<not> cmp_less icmp (fst (internal_pair e)) (lookup_ikey u s)"
    using below_lookup [OF _ s, of e u] seqs es(1,3) by (cases e) (auto simp: visible_def passed_def)
  ultimately have p: "p = length pre"
    unfolding p_def es(1) map_append first_from_append by (simp add: first_from_def seek_position_def)
  have "p > 0 \<longrightarrow> passed u s (es ! (p - 1))"
  proof
    assume "p > 0"
    then have "es ! (p - 1) \<in> set pre" using p es(1) by (simp add: nth_append)
    then show "passed u s (es ! (p - 1))" by (rule pre)
  qed
  moreover have "p < length es" "es ! p = e" using p es(1) by simp_all
  ultimately show ?thesis unfolding Cons list.case by (intro conjI)
qed

text \<open>The separator in front of the entry that is looked for is below the lookup key.\<close>

lemma separator_below_lookup:
  assumes e: "e = (u, s0, t0, v0)" "s0 \<le> s" "seq_ok e" and s: "s \<le> kMaxSequenceNumber"
    and x: "x = (u', s', t', v')" "u' < u \<or> u' = u \<and> s < s'" "seq_ok x"
    and r: "InternalKeyComparator_FindShortestSeparator BytewiseComparator_Compare BytewiseComparator_FindShortestSeparator
      (fst (internal_pair x)) (fst (internal_pair e)) = Some r"
  shows "cmp_less icmp r (lookup_ikey u s)"
proof -
  obtain r0 where r0: "BytewiseComparator_FindShortestSeparator u' u = Some r0" "r0 < u \<or> r0 = u' \<and> u' = u"
  proof (cases "u' = u")
    case True
    have "BytewiseComparator_FindShortestSeparator u' u' = Some u'"
      by (rule separator_cases [of u' u', OF refl]) auto
    with True that show ?thesis by blast
  next
    case False
    with x(2) have "u' < u" by simp
    then show ?thesis using bytewise.separator [of u' u] that by (auto simp: bytewise_iff)
  qed
  have x_below: "cmp_less icmp (ikey u' (pack s' t')) (lookup_ikey u s)"
    using below_lookup [OF x(3) s, of u] x(1,2) by (simp add: internal_pair_def passed_def)
  have "r = ikey u' (pack s' t') \<or> r = ikey r0 0xFFFFFFFFFFFFFF01 \<and> length r0 < length u'"
    using r internal_separator_cases [where usep = BytewiseComparator_FindShortestSeparator and u = u' and v = u, OF r0(1)]
    by (auto simp: internal_pair_def e(1) x(1) Option.bind_eq_Some_conv split: if_splits)
  then show ?thesis
  proof
    assume "r = ikey r0 0xFFFFFFFFFFFFFF01 \<and> length r0 < length u'"
    then have "r = ikey r0 0xFFFFFFFFFFFFFF01" "r0 < u" using r0(2) by auto
    then show ?thesis by (simp add: lookup_ikey_def internal_iff bytewise_iff)
  qed (use x_below in simp)
qed
text \<open>A search is routed to the block of the entry: by the separators and by the filter.\<close>

lemma routed_visible:
  assumes access: "table_access icmp (valid_internal (\<lambda>_. True))
      (InternalKeyComparator_FindShortestSeparator BytewiseComparator_Compare BytewiseComparator_FindShortestSeparator)
      (InternalKeyComparator_FindShortSuccessor BytewiseComparator_Compare BytewiseComparator_FindShortSuccessor)
      S policy (\<lambda>k. 8 \<le> length k \<and> True)"
    and policy: "policy = None \<or> policy = Some internal_bloom_policy"
    and sorted: "sorted_wrt entry_before es" and seqs: "\<forall>e \<in> set es. seq_ok e" and s: "s \<le> kMaxSequenceNumber"
    and vis: "filter (visible u s) es = e # rest"
  shows "table_access.routed icmp
    (InternalKeyComparator_FindShortestSeparator BytewiseComparator_Compare BytewiseComparator_FindShortestSeparator)
    policy (map internal_pair es) (lookup_ikey u s)"
proof -
  let ?p = "first_from icmp (lookup_ikey u s) (map internal_pair es)"
  have p: "?p < length es" "es ! ?p = e"
    and before: "?p > 0 \<longrightarrow> passed u s (es ! (?p - 1))"
    using first_visible [OF sorted seqs s, of u, unfolded vis list.case] by blast+
  have e: "visible u s e" "e \<in> set es" using arg_cong [OF vis, of set] by auto
  obtain s0 t0 v0 where e': "e = (u, s0, t0, v0)" "s0 \<le> s" using e(1) by (cases e) (auto simp: visible_def passed_def)
  have "cmp_less icmp r (lookup_ikey u s)"
    if "?p > 0" "InternalKeyComparator_FindShortestSeparator BytewiseComparator_Compare BytewiseComparator_FindShortestSeparator
      (fst (internal_pair (es ! (?p - 1)))) (fst (internal_pair e)) = Some r" for r
  proof -
    obtain u' s' t' v' where x: "es ! (?p - 1) = (u', s', t', v')" by (cases "es ! (?p - 1)")
    have "es ! (?p - 1) \<in> set es" using p(1) by simp
    then show ?thesis
      using separator_below_lookup [OF e' _ s x] that before seqs e(2) x by (simp add: passed_def)
  qed
  moreover have "fp_KeyMayMatch pol (lookup_ikey u s) = fp_KeyMayMatch pol (fst (internal_pair e))" if "policy = Some pol" for pol
    using policy that e'(1)
    by (auto simp: internal_bloom_policy_def InternalFilterPolicy_KeyMayMatch_def lookup_ikey_def internal_pair_def fun_eq_iff)
  ultimately show ?thesis
    using p unfolding table_access.routed_def [OF access] Let_def by auto
qed
text \<open>The configuration and the entries keep the assumptions of the interface.\<close>

lemma internal_table_setup:
  assumes tsetup: "table_setup icmp (valid_internal (\<lambda>_. True)) isep isuc S policy fvalid"
    and ops: "isep = InternalKeyComparator_FindShortestSeparator BytewiseComparator_Compare BytewiseComparator_FindShortestSeparator"
      "isuc = InternalKeyComparator_FindShortSuccessor BytewiseComparator_Compare BytewiseComparator_FindShortSuccessor"
    and opts: "1 \<le> op_block_restart_interval opts" "op_comparator opts = internal_comparator_ops"
      "op_compression opts = kNoCompression \<or> op_compression opts = kSnappyCompression" "op_filter_policy opts = policy"
    and entries: "sorted_wrt entry_before es" "\<forall>e \<in> set es. seq_ok e"
  shows "table_setup.opts_ok icmp isep isuc policy opts"
    and "table_setup.keys_ok icmp (valid_internal (\<lambda>_. True)) (map internal_pair es)"
  using opts entries_keys_ok [OF entries]
  unfolding table_setup.opts_ok_def [OF tsetup] table_setup.keys_ok_def [OF tsetup]
  by (simp_all add: internal_comparator_ops_def ops)

text \<open>What is saved when the search stops at a position, if it is routed to it.\<close>

lemma saved_visible:
  assumes entries: "sorted_wrt entry_before es" "\<forall>e \<in> set es. seq_ok e" and s: "s \<le> kMaxSequenceNumber"
    and routed: "\<And>e rest. filter (visible u s) es = e # rest \<Longrightarrow> routed"
  defines "p \<equiv> first_from icmp (lookup_ikey u s) (map internal_pair es)" and "kvs \<equiv> map internal_pair es"
  assumes only: "\<forall>kv. saved = Some kv \<longrightarrow> p < length kvs \<and> kv = kvs ! p"
    and found: "p < length kvs \<and> routed \<longrightarrow> saved = Some (kvs ! p)"
  shows "case filter (visible u s) es of
      [] \<Rightarrow> \<forall>k v. saved = Some (k, v) \<longrightarrow> (k, v) \<in> internal_pair ` set es \<and> ExtractUserKey k \<noteq> Some u
    | e # _ \<Rightarrow> saved = Some (internal_pair e)"
proof -
  note fv = first_visible [OF entries s, of u, folded p_def]
  show ?thesis
  proof (cases "filter (visible u s) es")
    case Nil
    have "(k, v) \<in> internal_pair ` set es \<and> ExtractUserKey k \<noteq> Some u" if "saved = Some (k, v)" for k v
    proof -
      have p: "p < length es" "(k, v) = internal_pair (es ! p)" using only that by (simp_all add: kvs_def)
      then have "ExtractUserKey k \<noteq> Some u" using fv [unfolded Nil list.case] by (cases "es ! p") (simp add: internal_pair_def)
      with p show ?thesis by simp
    qed
    then show ?thesis using Nil by simp
  next
    case (Cons e rest)
    then show ?thesis using found routed fv [unfolded Cons list.case] by (simp add: kvs_def)
  qed
qed

text \<open>From the builder to the lookup.\<close>

lemma table_get:
  assumes snappy: "snappy_port S"
    and opts: "1 \<le> op_block_restart_interval opts" "op_comparator opts = internal_comparator_ops"
      "op_compression opts = kNoCompression \<or> op_compression opts = kSnappyCompression"
      "op_filter_policy opts = None \<or> op_filter_policy opts = Some internal_bloom_policy"
    and entries: "sorted_wrt entry_before es" "\<forall>e \<in> set es. seq_ok e" "table_bound (map internal_pair es) < 2 ^ 30"
  shows "\<exists>b0 b1 b2 t. mk_TableBuilder opts [] = Some b0 \<and> add_table mem_writable S (map internal_pair es) b0 = Some b1 \<and>
    TableBuilder_Finish mem_writable S b1 = Some (Status_OK, b2) \<and>
    Table_Open S mem_random opts (tb_file b2) (of_nat (length (tb_file b2))) = Some (Status_OK, Some t) \<and>
    (\<forall>u s verify. s \<le> kMaxSequenceNumber \<and> length u + 8 < 2 ^ 32 \<longrightarrow>
      (\<exists>lk saved. mk_LookupKey u s = Some lk \<and>
        InternalGet S mem_random verify (internal_key lk) t = Some (Status_OK, saved) \<and>
        (case filter (visible u s) es of
            [] \<Rightarrow> \<forall>k v. saved = Some (k, v) \<longrightarrow> (k, v) \<in> internal_pair ` set es \<and> ExtractUserKey k \<noteq> Some u
          | e # _ \<Rightarrow> saved = Some (internal_pair e))))"
proof -
  note access = internal_table_access [OF snappy opts(4)]
  note config = internal_table_setup [OF table_access.axioms(1) [OF access] refl refl opts(1-3) refl entries(1,2)]
  obtain b0 b1 b2 t where b: "mk_TableBuilder opts [] = Some b0"
    "add_table mem_writable S (map internal_pair es) b0 = Some b1"
    "TableBuilder_Finish mem_writable S b1 = Some (Status_OK, b2)"
    "Table_Open S mem_random opts (tb_file b2) (of_nat (length (tb_file b2))) = Some (Status_OK, Some t)"
    and get: "\<forall>k verify. valid_internal (\<lambda>_. True) k \<longrightarrow> (\<exists>saved. InternalGet S mem_random verify k t = Some (Status_OK, saved) \<and>
      (\<forall>kv. saved = Some kv \<longrightarrow> first_from icmp k (map internal_pair es) < length (map internal_pair es) \<and>
        kv = map internal_pair es ! first_from icmp k (map internal_pair es)) \<and>
      (first_from icmp k (map internal_pair es) < length (map internal_pair es) \<and>
        table_access.routed icmp
          (InternalKeyComparator_FindShortestSeparator BytewiseComparator_Compare BytewiseComparator_FindShortestSeparator)
          (op_filter_policy opts) (map internal_pair es) k \<longrightarrow>
        saved = Some (map internal_pair es ! first_from icmp k (map internal_pair es))))"
    using table_access.built_table_get [OF access config entries(3)] by blast
  have "\<exists>lk saved. mk_LookupKey u s = Some lk \<and>
      InternalGet S mem_random verify (internal_key lk) t = Some (Status_OK, saved) \<and>
      (case filter (visible u s) es of
          [] \<Rightarrow> \<forall>k v. saved = Some (k, v) \<longrightarrow> (k, v) \<in> internal_pair ` set es \<and> ExtractUserKey k \<noteq> Some u
        | e # _ \<Rightarrow> saved = Some (internal_pair e))"
    if s: "s \<le> kMaxSequenceNumber" and u: "length u + 8 < 2 ^ 32" for u s verify
  proof -
    obtain lk where lk: "mk_LookupKey u s = Some lk" "internal_key lk = lookup_ikey u s"
      using mk_LookupKey_views [OF s u] by (auto simp: lookup_ikey_def kValueTypeForSeek_def)
    have "valid_internal (\<lambda>_. True) (lookup_ikey u s)" by (simp add: lookup_ikey_def)
    from get [rule_format, OF this, of verify] obtain saved where
      saved: "InternalGet S mem_random verify (lookup_ikey u s) t = Some (Status_OK, saved)"
      and "\<forall>kv. saved = Some kv \<longrightarrow> first_from icmp (lookup_ikey u s) (map internal_pair es) < length (map internal_pair es) \<and>
        kv = map internal_pair es ! first_from icmp (lookup_ikey u s) (map internal_pair es)"
      and "first_from icmp (lookup_ikey u s) (map internal_pair es) < length (map internal_pair es) \<and>
        table_access.routed icmp
          (InternalKeyComparator_FindShortestSeparator BytewiseComparator_Compare BytewiseComparator_FindShortestSeparator)
          (op_filter_policy opts) (map internal_pair es) (lookup_ikey u s) \<longrightarrow>
        saved = Some (map internal_pair es ! first_from icmp (lookup_ikey u s) (map internal_pair es))" by blast
    from saved_visible [OF entries(1,2) s routed_visible [OF access opts(4) entries(1,2) s] this(2,3)] lk saved
    show ?thesis by auto
  qed
  with b show ?thesis by blast
qed

section \<open>Properties\<close>

text \<open>
  C18: A table file that is built from entries with increasing internal keys answers every lookup of a
  user key at a snapshot. With or without the Bloom filter, compressed or not, for every block size and
  restart interval, \<^verbatim>\<open>TableBuilder\<close> accepts the entries, \<^verbatim>\<open>Finish\<close> and \<^verbatim>\<open>Table::Open\<close> return OK, and
  \<^verbatim>\<open>InternalGet\<close> returns OK and calls the saver with the newest entry of the user key that the
  snapshot sees; when there is none, it calls it, if at all, with an entry of the table of another user key.
\<close>

theorem table_get_correct:
  assumes snappy: "snappy_port S"
    and opts: "1 \<le> op_block_restart_interval opts" "op_comparator opts = internal_comparator_ops"
      "op_compression opts = kNoCompression \<or> op_compression opts = kSnappyCompression"
      "op_filter_policy opts = None \<or> op_filter_policy opts = Some internal_bloom_policy"
    and entries: "sorted_wrt entry_before es" "\<forall>e \<in> set es. seq_ok e" "table_bound (map internal_pair es) < 2 ^ 30"
  shows "\<exists>b0 b1 b2 t. mk_TableBuilder opts [] = Some b0 \<and> add_table mem_writable S (map internal_pair es) b0 = Some b1 \<and>
    TableBuilder_Finish mem_writable S b1 = Some (Status_OK, b2) \<and>
    Table_Open S mem_random opts (tb_file b2) (of_nat (length (tb_file b2))) = Some (Status_OK, Some t) \<and>
    (\<forall>u s verify. s \<le> kMaxSequenceNumber \<and> length u + 8 < 2 ^ 32 \<longrightarrow>
      (\<exists>lk saved. mk_LookupKey u s = Some lk \<and>
        InternalGet S mem_random verify (internal_key lk) t = Some (Status_OK, saved) \<and>
        (case filter (visible u s) es of
            [] \<Rightarrow> \<forall>k v. saved = Some (k, v) \<longrightarrow> (k, v) \<in> internal_pair ` set es \<and> ExtractUserKey k \<noteq> Some u
          | e # _ \<Rightarrow> saved = Some (internal_pair e))))"
  by (rule table_get [OF assms])

definition ex_options :: Options where
  "ex_options = mk_Options\<lparr>op_comparator := internal_comparator_ops, op_paranoid_checks := True, op_block_size := 30,
     op_filter_policy := Some internal_bloom_policy\<rparr>"

lemma table_get_correct_witness:
  "\<exists>b0 b1 b2 t lk. mk_TableBuilder ex_options []
       = Some b0 \<and>
     add_table mem_writable no_snappy
       [(ikey [97] (pack 5 kTypeValue), [1]), (ikey [97] (pack 3 kTypeDeletion), []), (ikey [98] (pack 4 kTypeValue), [2])] b0
       = Some b1 \<and>
     TableBuilder_Finish mem_writable no_snappy b1 = Some (Status_OK, b2) \<and>
     Table_Open no_snappy mem_random ex_options
       (tb_file b2) (of_nat (length (tb_file b2))) = Some (Status_OK, Some t) \<and>
     mk_LookupKey [97] 4 = Some lk \<and>
     InternalGet no_snappy mem_random True (internal_key lk) t = Some (Status_OK, Some (ikey [97] (pack 3 kTypeDeletion), []))"
proof -
  let ?opts = ex_options
  have opts: "1 \<le> op_block_restart_interval ?opts" "op_comparator ?opts = internal_comparator_ops"
    "op_compression ?opts = kSnappyCompression" "op_filter_policy ?opts = Some internal_bloom_policy"
    by (simp_all add: ex_options_def mk_Options_def)
  let ?es = "[([97], 5, kTypeValue, [1]), ([97], 3, kTypeDeletion, []), ([98], 4, kTypeValue, [2])] :: entry list"
  have small: "(5 :: uint64) \<le> kMaxSequenceNumber" "(3 :: uint64) \<le> kMaxSequenceNumber" "(4 :: uint64) \<le> kMaxSequenceNumber"
    by code_simp+
  have sorted: "sorted_wrt entry_before ?es" by (simp add: entry_before_def)
  have seqs: "\<forall>e \<in> set ?es. seq_ok e" using small by (simp add: seq_ok_def)
  have bound: "table_bound (map internal_pair ?es) < 2 ^ 30" by (simp add: table_bound_def internal_pair_def)
  have vis: "filter (visible [97] 4) ?es = [([97], 3, kTypeDeletion, [])]" by (simp add: visible_def)
  have pairs: "map internal_pair ?es =
    [(ikey [97] (pack 5 kTypeValue), [1]), (ikey [97] (pack 3 kTypeDeletion), []), (ikey [98] (pack 4 kTypeValue), [2])]"
    by (simp add: internal_pair_def)
  obtain b0 b1 b2 t where b: "mk_TableBuilder ?opts [] = Some b0" "add_table mem_writable no_snappy (map internal_pair ?es) b0 = Some b1"
    "TableBuilder_Finish mem_writable no_snappy b1 = Some (Status_OK, b2)"
    "Table_Open no_snappy mem_random ?opts (tb_file b2) (of_nat (length (tb_file b2))) = Some (Status_OK, Some t)"
    and get: "\<forall>u s verify. s \<le> kMaxSequenceNumber \<and> length u + 8 < 2 ^ 32 \<longrightarrow>
      (\<exists>lk saved. mk_LookupKey u s = Some lk \<and>
        InternalGet no_snappy mem_random verify (internal_key lk) t = Some (Status_OK, saved) \<and>
        (case filter (visible u s) ?es of
            [] \<Rightarrow> \<forall>k v. saved = Some (k, v) \<longrightarrow> (k, v) \<in> internal_pair ` set ?es \<and> ExtractUserKey k \<noteq> Some u
          | e # _ \<Rightarrow> saved = Some (internal_pair e)))"
    using table_get_correct [OF no_snappy.snappy_port_axioms, of ?opts ?es] sorted seqs bound opts by auto
  have "length [97 :: byte] + 8 < 2 ^ 32" by simp
  with get small(3) obtain lk saved where "mk_LookupKey [97] 4 = Some lk"
    "InternalGet no_snappy mem_random True (internal_key lk) t = Some (Status_OK, saved)"
    "saved = Some (internal_pair ([97], 3, kTypeDeletion, []))" unfolding vis [symmetric] using vis by fastforce
  with b show ?thesis unfolding pairs by (auto simp: internal_pair_def)
qed

end
