(* ===== verification/L_Version_Get.thy ===== *)
theory L_Version_Get
  imports L_Version L_Table_Theorems
begin

text \<open>
  What \<^verbatim>\<open>Version::Get\<close> returns: the newest visible entry of the tables of all levels, when the levels
  are in the order that compactions keep.
\<close>

section \<open>The binary search over files\<close>

lemma unat_small32: "n < 2 ^ 32 \<Longrightarrow> unat (of_nat n :: uint32) = n"
  by (simp add: unat_of_nat)

lemma FindFile_loop_found:
  assumes len: "length files < 2 ^ 31"
    and cmp: "\<forall>i < length files. \<exists>c. icmp (fm_largest (h (files ! i))) key = Some c \<and> (c < 0 \<longleftrightarrow> i < m)"
    and keys: "\<forall>f \<in> set files. fm_largest (h f) \<noteq> []"
  shows "l \<le> m \<Longrightarrow> m \<le> r \<Longrightarrow> r \<le> length files \<Longrightarrow>
    FindFile_loop icmp h files key (of_nat l) (of_nat r) = Some (of_nat m)"
proof (induction "r - l" arbitrary: l r rule: less_induct)
  case less
  have un: "unat (of_nat l :: uint32) = l" "unat (of_nat r :: uint32) = r"
    using less.prems len by (simp_all add: unat_small32)
  then have lt: "(of_nat l :: uint32) < of_nat r \<longleftrightarrow> l < r" by (simp add: word_less_nat_alt)
  show ?case
  proof (cases "l < r")
    case False
    then have "r = m" using less.prems by simp
    then show ?thesis using False lt by (subst FindFile_loop.simps) simp
  next
    case True
    let ?mid = "(l + r) div 2"
    have mid: "(of_nat l + of_nat r) div 2 = (of_nat ?mid :: uint32)" "unat (of_nat ?mid :: uint32) = ?mid"
    proof -
      have "unat (of_nat l + of_nat r :: uint32) = l + r"
        using less.prems len unat_small32 [of "l + r"] by simp
      then have "unat ((of_nat l + of_nat r) div 2 :: uint32) = ?mid" by (simp add: unat_div)
      moreover show "unat (of_nat ?mid :: uint32) = ?mid" using less.prems len by (intro unat_small32) simp
      ultimately show "(of_nat l + of_nat r) div 2 = (of_nat ?mid :: uint32)" by (simp add: word_unat_eq_iff)
    qed
    have in_range: "?mid < length files" "l \<le> ?mid" "?mid < r" using True less.prems by simp_all
    obtain c where c: "icmp (fm_largest (h (files ! ?mid))) key = Some c" "c < 0 \<longleftrightarrow> ?mid < m" using cmp in_range(1) by blast
    have key: "InternalKey_Encode (fm_largest (h (files ! ?mid))) = Some (fm_largest (h (files ! ?mid)))"
      using keys in_range(1) by (simp add: InternalKey_Encode_def)
    have "FindFile_loop icmp h files key (of_nat l) (of_nat r) =
        (if c < 0 then FindFile_loop icmp h files key (of_nat (?mid + 1)) (of_nat r)
         else FindFile_loop icmp h files key (of_nat l) (of_nat ?mid))"
      using True lt in_range(1) key c(1) by (subst FindFile_loop.simps) (simp add: Let_def mid add.commute)
    moreover have "FindFile_loop icmp h files key (of_nat (?mid + 1)) (of_nat r) = Some (of_nat m)" if "?mid < m"
      using that less.prems in_range by (intro less.hyps) simp_all
    moreover have "FindFile_loop icmp h files key (of_nat l) (of_nat ?mid) = Some (of_nat m)" if "\<not> ?mid < m"
      using that less.prems in_range by (intro less.hyps) simp_all
    ultimately show ?thesis using c(2) by simp
  qed
qed

lemma FindFile_found:
  assumes "length files < 2 ^ 31" and "m \<le> length files"
    and "\<forall>i < length files. \<exists>c. icmp (fm_largest (h (files ! i))) key = Some c \<and> (c < 0 \<longleftrightarrow> i < m)"
    and "\<forall>f \<in> set files. fm_largest (h f) \<noteq> []"
  shows "FindFile icmp h files key = Some (of_nat m)"
  using FindFile_loop_found [OF assms(1,3,4), of 0 "length files"] assms(2) by (simp add: FindFile_def)

section \<open>The entries of a version\<close>

text \<open>The entries of a file are those of the table with its number.\<close>

type_synonym contents = "uint64 \<Rightarrow> entry list"

definition entries :: "contents \<Rightarrow> heap \<Rightarrow> file_ptr list \<Rightarrow> entry list" where
  "entries es h files = concat (map (\<lambda>f. es (fm_number (h f))) files)"

lemma entries_Cons: "entries es h (f # files) = es (fm_number (h f)) @ entries es h files"
  by (simp add: entries_def)

text \<open>The range of a file is that of its table.\<close>

definition file_ok :: "contents \<Rightarrow> heap \<Rightarrow> file_ptr \<Rightarrow> bool" where
  "file_ok es h f \<longleftrightarrow> (let t = es (fm_number (h f)) in
     t \<noteq> [] \<and> sorted_wrt entry_before t \<and> (\<forall>e \<in> set t. seq_ok e) \<and>
     fm_smallest (h f) = fst (internal_pair (hd t)) \<and> fm_largest (h f) = fst (internal_pair (last t)))"

text \<open>In level 0 the file with the larger number is the newer one; the other levels are sorted.\<close>

definition ordered :: "heap \<Rightarrow> Version \<Rightarrow> nat \<Rightarrow> file_ptr list" where
  "ordered h v level = (if level = 0 then NewestFirst_sort h (v_files v ! 0) else v_files v ! level)"

definition version_entries :: "contents \<Rightarrow> heap \<Rightarrow> Version \<Rightarrow> entry list" where
  "version_entries es h v = concat (map (\<lambda>level. entries es h (ordered h v level)) [0..<num_levels])"

definition version_ok :: "contents \<Rightarrow> heap \<Rightarrow> Version \<Rightarrow> bool" where
  "version_ok es h v \<longleftrightarrow> length (v_files v) = num_levels \<and>
     (\<forall>files \<in> set (v_files v). length files < 2 ^ 31 \<and> (\<forall>f \<in> set files. file_ok es h f)) \<and>
     (\<forall>level < num_levels. level > 0 \<longrightarrow> sorted_wrt entry_before (entries es h (v_files v ! level)))"

text \<open>An earlier entry of a user key is newer: the order that the search relies on.\<close>

definition newest_first :: "entry list \<Rightarrow> bool" where
  "newest_first es \<longleftrightarrow> sorted_wrt (\<lambda>(u, s, t, v) (u', s', t', v'). u = u' \<longrightarrow> s' < s) es"

text \<open>A source of pairs that answers the lookups in a table with the given entries.\<close>

definition answers :: "entry list \<Rightarrow> (slice \<Rightarrow> (Status \<times> (slice \<times> slice) option) option) \<Rightarrow> bool" where
  "answers es get \<longleftrightarrow> (\<forall>u s lk. mk_LookupKey u s = Some lk \<and> s \<le> kMaxSequenceNumber \<and> length u + 8 < 2 ^ 32 \<longrightarrow>
     (\<exists>saved. get (internal_key lk) = Some (Status_OK, saved) \<and>
       (case filter (visible u s) es of
           [] \<Rightarrow> \<forall>k v. saved = Some (k, v) \<longrightarrow> (k, v) \<in> internal_pair ` set es \<and> ExtractUserKey k \<noteq> Some u
         | e # _ \<Rightarrow> saved = Some (internal_pair e))))"

section \<open>The first visible entry\<close>

lemma find_append: "find P (xs @ ys) = (case find P xs of None \<Rightarrow> find P ys | Some x \<Rightarrow> Some x)"
  by (induction xs) auto

lemma find_filter: "find P xs = (case filter P xs of [] \<Rightarrow> None | x # _ \<Rightarrow> Some x)"
  by (induction xs) auto

lemma find_restrict: "(\<And>x. x \<in> set xs \<Longrightarrow> P x \<Longrightarrow> Q x) \<Longrightarrow> find P (filter Q xs) = find P xs"
  by (induction xs) auto

lemma entry_before_trans: "entry_before a b \<Longrightarrow> entry_before b c \<Longrightarrow> entry_before a c"
  by (cases a; cases b; cases c) (auto simp: entry_before_def)

lemma last_largest:
  assumes "sorted_wrt entry_before t" and "e \<in> set t"
  shows "e = last t \<or> entry_before e (last t)"
  using assms by (induction t rule: rev_induct) (auto simp: sorted_wrt_append)

lemma hd_smallest:
  assumes "sorted_wrt entry_before t" and "e \<in> set t"
  shows "e = hd t \<or> entry_before (hd t) e"
  using assms by (cases t) auto

lemma passed_before: "passed u s b \<Longrightarrow> entry_before a b \<Longrightarrow> passed u s a"
  by (cases a; cases b) (auto simp: passed_def entry_before_def)

lemma passed_last: "sorted_wrt entry_before t \<Longrightarrow> e \<in> set t \<Longrightarrow> passed u s (last t) \<Longrightarrow> passed u s e"
  using last_largest passed_before by blast

lemma passed_not_visible: "passed u s e \<Longrightarrow> \<not> visible u s e"
  by (cases e) (auto simp: passed_def visible_def)

text \<open>The keys of a file around a user key.\<close>

lemma file_keys:
  assumes "file_ok es h f"
  defines "t \<equiv> es (fm_number (h f))"
  shows "file_smallest h f = Some (fst (hd t))" and "file_largest h f = Some (fst (last t))"
    and "hd t \<in> set t" and "last t \<in> set t" and "fm_largest (h f) \<noteq> []"
proof -
  have "fst (internal_pair e) = ikey (fst e) (pack (fst (snd e)) (fst (snd (snd e))))" for e
    by (cases e) (simp add: internal_pair_def)
  moreover have "ikey u n \<noteq> []" for u n
    using length_le_bytes [of 8 n] unfolding ikey_def by (metis append_is_Nil_conv list.size(3) zero_neq_numeral)
  ultimately show "file_smallest h f = Some (fst (hd t))" "file_largest h f = Some (fst (last t))" "fm_largest (h f) \<noteq> []"
    using assms(1) unfolding t_def file_ok_def file_smallest_def file_largest_def Let_def by simp_all
  show "hd t \<in> set t" "last t \<in> set t" using assms(1) unfolding t_def file_ok_def Let_def by auto
qed

lemma visible_in_range:
  assumes ok: "file_ok es h f" and e: "e \<in> set (es (fm_number (h f)))" "visible u s e"
  shows "fst (hd (es (fm_number (h f)))) \<le> u \<and> u \<le> fst (last (es (fm_number (h f))))"
proof -
  let ?t = "es (fm_number (h f))"
  have sorted: "sorted_wrt entry_before ?t" using ok by (simp add: file_ok_def Let_def)
  have "a = b \<or> entry_before a b \<Longrightarrow> fst a \<le> fst b" for a b by (cases a; cases b) (auto simp: entry_before_def)
  moreover have "fst e = u" using e(2) by (cases e) (simp add: visible_def)
  ultimately show ?thesis using last_largest [OF sorted e(1)] hd_smallest [OF sorted e(1)] by metis
qed

lemma level0_files_hit:
  assumes "\<forall>f \<in> set files. file_ok es h f"
  shows "level0_files BytewiseComparator_Compare h u files =
    Some (filter (\<lambda>f. fst (hd (es (fm_number (h f)))) \<le> u \<and> u \<le> fst (last (es (fm_number (h f))))) files)"
  using assms
proof (induction files)
  case (Cons f files)
  have sign: "slice_compare a b \<ge> 0 \<longleftrightarrow> b \<le> a" "slice_compare a b \<le> 0 \<longleftrightarrow> a \<le> b" for a b
    using slice_compare_less [of a b] slice_compare_greater [of a b] by (auto simp: not_less [symmetric])
  have "file_ok es h f" using Cons.prems by simp
  note keys = file_keys(1,2) [OF this]
  show ?case using Cons keys by (simp add: BytewiseComparator_Compare_def sign)
qed simp

lemma entries_filter:
  assumes "\<And>f e. f \<in> set files \<Longrightarrow> \<not> P f \<Longrightarrow> e \<in> set (es (fm_number (h f))) \<Longrightarrow> \<not> Q e"
  shows "find Q (entries es h (filter P files)) = find Q (entries es h files)"
  using assms
proof (induction files)
  case (Cons f files)
  have IH: "find Q (entries es h (filter P files)) = find Q (entries es h files)"
  proof (rule Cons.IH)
    show "\<not> Q e" if "f \<in> set files" "\<not> P f" "e \<in> set (es (fm_number (h f)))" for f e
      using Cons.prems [of f e] that by simp
  qed
  have "\<not> P f \<Longrightarrow> find Q (es (fm_number (h f))) = None"
    unfolding find_None_iff using Cons.prems [of f] by (metis list.set_intros(1))
  with IH show ?case
    by (cases "find Q (es (fm_number (h f)))") (auto simp: entries_def find_append)
qed (simp add: entries_def)

lemma set_NewestFirst_sort: "set (NewestFirst_sort h files) = set files"
  by (simp add: NewestFirst_sort_def)

text \<open>The files that are searched in a level have the first visible entry of the level.\<close>

lemma search_level0:
  assumes v: "version_ok es h v"
  shows "\<exists>files. search_files BytewiseComparator_Compare h v u (lookup_ikey u s) 0 = Some files \<and>
    set files \<subseteq> set (v_files v ! 0) \<and> find (visible u s) (entries es h files) = find (visible u s) (entries es h (ordered h v 0))"
proof -
  let ?fs = "v_files v ! 0"
  let ?P = "\<lambda>f. fst (hd (es (fm_number (h f)))) \<le> u \<and> u \<le> fst (last (es (fm_number (h f))))"
  have len: "0 < length (v_files v)" using v by (simp add: version_ok_def num_levels_def)
  then have at: "files_at v 0 = Some ?fs" by (simp add: files_at_def)
  have ok: "\<forall>f \<in> set ?fs. file_ok es h f" using v len nth_mem [OF len] by (auto simp: version_ok_def)
  have "search_files BytewiseComparator_Compare h v u (lookup_ikey u s) 0 = Some (NewestFirst_sort h (filter ?P ?fs))"
  proof (cases "?fs = []")
    case True
    then show ?thesis using at by (simp add: search_files_def NewestFirst_sort_def)
  next
    case False
    then show ?thesis using at level0_files_hit [OF ok] by (simp add: search_files_def)
  qed
  moreover have "NewestFirst_sort h (filter ?P ?fs) = filter ?P (NewestFirst_sort h ?fs)"
    unfolding NewestFirst_sort_def by (simp only: filter_sort [symmetric] rev_filter)
  moreover have "find (visible u s) (entries es h (filter ?P (NewestFirst_sort h ?fs))) =
      find (visible u s) (entries es h (NewestFirst_sort h ?fs))"
    using ok visible_in_range by (intro entries_filter) (auto simp: set_NewestFirst_sort)
  ultimately show ?thesis by (auto simp: ordered_def set_NewestFirst_sort)
qed

text \<open>In a sorted level only one file is read, the first that ends at or behind the lookup key.\<close>

lemma sorted_level_search:
  assumes sorted: "sorted_wrt entry_before (entries es h files)" and ok: "\<forall>f \<in> set files. file_ok es h f"
    and m: "m < length files" and before: "\<forall>i < m. passed u s (last (es (fm_number (h (files ! i)))))"
    and at: "\<not> passed u s (last (es (fm_number (h (files ! m)))))"
  shows "find (visible u s) (entries es h [files ! m]) = find (visible u s) (entries es h files)"
proof -
  let ?e = "\<lambda>f. es (fm_number (h f))"
  have split: "entries es h files = entries es h (take m files) @ ?e (files ! m) @ entries es h (drop (Suc m) files)"
    by (subst id_take_nth_drop [OF m]) (simp add: entries_def)
  have t: "sorted_wrt entry_before (?e f)" if "f \<in> set files" for f using ok that by (auto simp: file_ok_def Let_def)
  have "\<not> visible u s e" if e: "e \<in> set (entries es h (take m files))" for e
  proof -
    obtain f where f: "f \<in> set (take m files)" "e \<in> set (?e f)" using e by (auto simp: entries_def)
    then obtain i where i: "i < m" "f = files ! i" by (auto simp: in_set_conv_nth)
    then have "passed u s (last (?e f))" using before by simp
    then have "passed u s e" by (rule passed_last [OF t [OF in_set_takeD [OF f(1)]] f(2)])
    then show ?thesis by (rule passed_not_visible)
  qed
  then have pre: "find (visible u s) (entries es h (take m files)) = None" by (auto simp: find_None_iff)
  have post: "find (visible u s) (entries es h (drop (Suc m) files)) = None" if "find (visible u s) (?e (files ! m)) = None"
  proof -
    have mem: "last (?e (files ! m)) \<in> set (?e (files ! m))" using ok m file_keys(4) nth_mem by blast
    then have "\<not> visible u s (last (?e (files ! m)))" using that unfolding find_None_iff by blast
    then have above: "u < fst (last (?e (files ! m)))" using at
      by (cases "last (?e (files ! m))") (auto simp: visible_def passed_def)
    have "\<not> visible u s e" if e: "e \<in> set (entries es h (drop (Suc m) files))" for e
    proof -
      have "entry_before (last (?e (files ! m))) e"
        using sorted mem e unfolding split by (simp add: sorted_wrt_append)
      with above show ?thesis by (cases e; cases "last (?e (files ! m))") (auto simp: entry_before_def visible_def)
    qed
    then show ?thesis by (auto simp: find_None_iff)
  qed
  have one: "entries es h [files ! m] = ?e (files ! m)" by (simp add: entries_def)
  show ?thesis unfolding split one find_append pre using post by (auto split: option.splits)
qed

lemma search_sorted_level:
  assumes v: "version_ok es h v" and level: "0 < level" "level < num_levels" and s: "s \<le> kMaxSequenceNumber"
  shows "\<exists>files. search_files BytewiseComparator_Compare h v u (lookup_ikey u s) level = Some files \<and>
    set files \<subseteq> set (v_files v ! level) \<and> find (visible u s) (entries es h files) = find (visible u s) (entries es h (ordered h v level))"
proof -
  let ?fs = "v_files v ! level" and ?last = "\<lambda>f. last (es (fm_number (h f)))"
  have len: "level < length (v_files v)" using v level by (simp add: version_ok_def)
  then have at: "files_at v level = Some ?fs" by (simp add: files_at_def)
  have ok: "\<forall>f \<in> set ?fs. file_ok es h f" and small: "length ?fs < 2 ^ 31"
    and sorted: "sorted_wrt entry_before (entries es h ?fs)"
    using v len level nth_mem [OF len] by (auto simp: version_ok_def)
  define m where "m = length (takeWhile (\<lambda>f. passed u s (?last f)) ?fs)"
  have m: "m \<le> length ?fs" by (simp add: m_def length_takeWhile_le)
  have below: "passed u s (?last (?fs ! i))" if "i < m" for i
    using that nth_mem [of i "takeWhile (\<lambda>f. passed u s (?last f)) ?fs"] set_takeWhileD takeWhile_nth
    unfolding m_def by metis
  have above: "\<not> passed u s (?last (?fs ! i))" if i: "m \<le> i" "i < length ?fs" for i
  proof
    assume p: "passed u s (?last (?fs ! i))"
    have not: "\<not> passed u s (?last (?fs ! m))"
      using nth_length_takeWhile [of "\<lambda>f. passed u s (?last f)" ?fs] i unfolding m_def by simp
    show False
    proof (cases "i = m")
      case False
      then have im: "m < i" using i by simp
      have mem: "?last (?fs ! m) \<in> set (es (fm_number (h (?fs ! m))))" "?last (?fs ! i) \<in> set (es (fm_number (h (?fs ! i))))"
        using ok i im file_keys(4) by (simp_all add: order_less_trans)
      have "?fs = take i ?fs @ drop i ?fs" by simp
      then have "entries es h ?fs = entries es h (take i ?fs) @ entries es h (drop i ?fs)" by (simp add: entries_def flip: concat_append map_append)
      moreover have "?fs ! m \<in> set (take i ?fs)" "?fs ! i \<in> set (drop i ?fs)"
        using im i nth_mem [of m "take i ?fs"] nth_mem [of 0 "drop i ?fs"] by simp_all
      ultimately have "entry_before (?last (?fs ! m)) (?last (?fs ! i))"
        using sorted mem by (auto simp: entries_def sorted_wrt_append)
      then show False using passed_before [OF p] not by blast
    qed (use p not in simp)
  qed
  have cmp: "\<exists>c. icmp (fm_largest (h (?fs ! i))) (lookup_ikey u s) = Some c \<and> (c < 0 \<longleftrightarrow> i < m)" if i: "i < length ?fs" for i
  proof -
    have f: "file_ok es h (?fs ! i)" using ok i by simp
    have largest: "fm_largest (h (?fs ! i)) = fst (internal_pair (?last (?fs ! i)))" using f by (simp add: file_ok_def Let_def)
    have "valid_internal (\<lambda>_. True) (fm_largest (h (?fs ! i)))" "valid_internal (\<lambda>_. True) (lookup_ikey u s)"
      unfolding largest by (cases "?last (?fs ! i)", simp add: internal_pair_def) (simp add: lookup_ikey_def)
    then obtain c where c: "icmp (fm_largest (h (?fs ! i))) (lookup_ikey u s) = Some c"
      using bytewise.internal.Compare_returns by blast
    have "seq_ok (?last (?fs ! i))" using f file_keys(4) [OF f] by (simp add: file_ok_def Let_def)
    then have "c < 0 \<longleftrightarrow> passed u s (?last (?fs ! i))"
      using below_lookup [OF _ s, of "?last (?fs ! i)" u] c largest by (simp add: cmp_less_def)
    then show ?thesis using c below above i by (metis not_less)
  qed
  have nonempty: "\<forall>f \<in> set ?fs. fm_largest (h f) \<noteq> []" using ok file_keys(5) by blast
  have ff: "FindFile icmp h ?fs (lookup_ikey u s) = Some (of_nat m)"
    using FindFile_found [OF small m _ nonempty] cmp by blast
  have un: "unat (of_nat m :: uint32) = m" using m small by (intro unat_small32) simp
  have ord: "ordered h v level = ?fs" using level by (simp add: ordered_def)
  show ?thesis
  proof (cases "m < length ?fs")
    case False
    then have m: "m = length ?fs" using m by simp
    have "\<not> visible u s e" if "e \<in> set (entries es h ?fs)" for e
    proof -
      obtain f where f: "f \<in> set ?fs" "e \<in> set (es (fm_number (h f)))" using \<open>e \<in> _\<close> by (auto simp: entries_def)
      then obtain i where "i < length ?fs" "f = ?fs ! i" by (auto simp: in_set_conv_nth)
      then have "passed u s (?last f)" using below m by simp
      moreover have "sorted_wrt entry_before (es (fm_number (h f)))" using ok f by (auto simp: file_ok_def Let_def)
      ultimately have "passed u s e" using passed_last [OF _ f(2)] by blast
      then show ?thesis by (rule passed_not_visible)
    qed
    then have "find (visible u s) (entries es h ?fs) = None" by (auto simp: find_None_iff)
    then show ?thesis using at ff un False level ord by (auto simp: search_files_def entries_def)
  next
    case True
    have f: "file_ok es h (?fs ! m)" using ok True by simp
    have eq: "find (visible u s) (entries es h [?fs ! m]) = find (visible u s) (entries es h ?fs)"
      using sorted_level_search [OF sorted ok True] below above True by blast
    have "find (visible u s) (entries es h [?fs ! m]) = None" if "u < fst (hd (es (fm_number (h (?fs ! m)))))"
      using visible_in_range [OF f] that by (fastforce simp: entries_def find_None_iff)
    with eq have "u < fst (hd (es (fm_number (h (?fs ! m))))) \<Longrightarrow> find (visible u s) (entries es h ?fs) = None" by simp
    then show ?thesis
      using at ff un True level ord eq file_keys(1) [OF f]
      by (auto simp: search_files_def BytewiseComparator_Compare_def slice_compare_less entries_def Let_def)
  qed
qed

lemma search_level:
  assumes "version_ok es h v" and "level < num_levels" and "s \<le> kMaxSequenceNumber"
  shows "\<exists>files. search_files BytewiseComparator_Compare h v u (lookup_ikey u s) level = Some files \<and>
    set files \<subseteq> set (v_files v ! level) \<and> find (visible u s) (entries es h files) = find (visible u s) (entries es h (ordered h v level))"
  using search_level0 [OF assms(1)] search_sorted_level [OF assms(1) _ assms(2,3)] by (cases "level = 0") auto

section \<open>Reading\<close>

text \<open>What the entry that is found makes of the status and the value; no entry goes on with the search.\<close>

definition get_result :: "entry option \<Rightarrow> Status option \<Rightarrow> byte list \<Rightarrow> byte list \<Rightarrow> bool" where
  "get_result found status val val' \<longleftrightarrow> (case found of
       None \<Rightarrow> status = None \<and> val' = val
     | Some (u, s, t, v) \<Rightarrow>
         if t = kTypeValue then status = Some Status_OK \<and> val' = v
         else status = NotFound [] [] \<and> val' = val)"

lemma NotFound_Some: "\<exists>st. NotFound [] [] = Some st"
  by (simp add: NotFound_def mk_Status_def kNotFound_def kOk_def Let_def)

lemma SaveValue_entry:
  assumes "seq_ok e"
  shows "SaveValue BytewiseComparator_Compare (fst (internal_pair e)) (snd (internal_pair e)) sv = (case e of (u, s, t, v) \<Rightarrow>
    Some (if u = sv_user_key sv then if t = kTypeValue then sv\<lparr>sv_state := SaverFound, sv_value := v\<rparr> else sv\<lparr>sv_state := SaverDeleted\<rparr>
      else sv))"
proof -
  obtain u s t v where e: "e = (u, s, t, v)" by (cases e)
  have "s \<le> kMaxSequenceNumber" using assms e by (simp add: seq_ok_def)
  then have "ParseInternalKey (ikey u (pack s t)) = Some \<lparr>pik_user_key = u, pik_sequence = s, pik_type = t\<rparr>"
    by (simp add: ParseInternalKey_ikey pack_fields)
  then show ?thesis
    by (simp add: e internal_pair_def SaveValue_def BytewiseComparator_Compare_def slice_compare_equal)
qed

lemma get_files_result:
  assumes ok: "\<forall>f \<in> set files. file_ok es h f \<and> answers (es (fm_number (h f))) (tc (fm_number (h f)) (fm_file_size (h f)))"
    and lk: "mk_LookupKey u s = Some lk" "s \<le> kMaxSequenceNumber" "length u + 8 < 2 ^ 32"
  shows "\<exists>status g'. get_files tc BytewiseComparator_Compare h u (internal_key lk) level files g = Some (status, g') \<and>
    get_result (find (visible u s) (entries es h files)) status (gs_value g) (gs_value g')"
  using ok
proof (induction files arbitrary: g)
  case Nil
  then show ?case by (simp add: entries_def get_result_def)
next
  case (Cons f files)
  let ?t = "es (fm_number (h f))"
  have f: "file_ok es h f" "answers ?t (tc (fm_number (h f)) (fm_file_size (h f)))" using Cons.prems by auto
  have seqs: "\<forall>e \<in> set ?t. seq_ok e" using f(1) by (simp add: file_ok_def Let_def)
  obtain saved where saved: "tc (fm_number (h f)) (fm_file_size (h f)) (internal_key lk) = Some (Status_OK, saved)"
    "case filter (visible u s) ?t of
        [] \<Rightarrow> \<forall>k v. saved = Some (k, v) \<longrightarrow> (k, v) \<in> internal_pair ` set ?t \<and> ExtractUserKey k \<noteq> Some u
      | e # _ \<Rightarrow> saved = Some (internal_pair e)"
    using f(2) lk unfolding answers_def by blast
  define g1 where "g1 = (charge_seek g)\<lparr>gs_last_file_read := Some f, gs_last_file_read_level := int level\<rparr>"
  have val: "gs_value g1 = gs_value g" by (simp add: g1_def charge_seek_def)
  let ?sv = "\<lparr>sv_state = SaverNotFound, sv_user_key = u, sv_value = gs_value g1\<rparr>"
  note step = get_files.simps(2) [of tc BytewiseComparator_Compare h u "internal_key lk" level f files g,
      unfolded Let_def, folded g1_def]
  have ents: "find (visible u s) (entries es h (f # files)) =
      (case find (visible u s) ?t of None \<Rightarrow> find (visible u s) (entries es h files) | Some e \<Rightarrow> Some e)"
    by (simp add: entries_Cons find_append)
  obtain nf where nf: "NotFound [] [] = Some nf" using NotFound_Some by blast
  show ?case
  proof (cases "filter (visible u s) ?t")
    case Nil
    have "(case saved of None \<Rightarrow> Some ?sv | Some (k, v) \<Rightarrow> SaveValue BytewiseComparator_Compare k v ?sv) = Some ?sv"
    proof (cases saved)
      case (Some kv)
      have "kv \<in> internal_pair ` set ?t \<and> ExtractUserKey (fst kv) \<noteq> Some u"
        using saved(2) [unfolded Nil list.case, rule_format, of "fst kv" "snd kv"] Some by simp
      then obtain e where e: "e \<in> set ?t" "kv = internal_pair e" "ExtractUserKey (fst kv) \<noteq> Some u" by blast
      have "fst e \<noteq> u" using e(3) unfolding e(2) by (cases e) (simp add: internal_pair_def)
      then show ?thesis using SaveValue_entry [of e ?sv] seqs e(1,2) Some by (cases e) (auto simp: case_prod_beta)
    qed simp
    then have "get_files tc BytewiseComparator_Compare h u (internal_key lk) level (f # files) g =
        get_files tc BytewiseComparator_Compare h u (internal_key lk) level files (g1\<lparr>gs_value := gs_value g1\<rparr>)"
      unfolding step using saved(1) by (simp add: Status_ok_def Status_OK_def)
    moreover have "find (visible u s) ?t = None" unfolding find_filter Nil by simp
    ultimately show ?thesis using Cons.IH [of "g1\<lparr>gs_value := gs_value g1\<rparr>"] Cons.prems val unfolding ents by simp
  next
    case vis: (Cons e rest)
    have "e \<in> set (filter (visible u s) ?t)" unfolding vis by simp
    then have "e \<in> set ?t" "visible u s e" by simp_all
    with saved(2) vis have e: "saved = Some (internal_pair e)" "e \<in> set ?t" "visible u s e" by simp_all
    obtain s' t v where e': "e = (u, s', t, v)" using e(3) by (cases e) (simp add: visible_def)
    have "find (visible u s) ?t = Some e" unfolding find_filter vis by simp
    moreover have "seq_ok e" using e(2) seqs by blast
    note save = SaveValue_entry [OF this, of ?sv]
    have "get_files tc BytewiseComparator_Compare h u (internal_key lk) level (f # files) g =
        (if t = kTypeValue then Some (Some Status_OK, g1\<lparr>gs_value := v\<rparr>) else Some (NotFound [] [], g1\<lparr>gs_value := gs_value g1\<rparr>))"
      unfolding step using saved(1) e(1) save e' nf by (cases t) (auto simp: Status_ok_def Status_OK_def case_prod_beta)
    ultimately show ?thesis using e' nf val unfolding ents by (cases t) (auto simp: get_result_def)
  qed
qed

lemma get_levels_result:
  assumes v: "version_ok es h v"
    and tables: "\<forall>files \<in> set (v_files v). \<forall>f \<in> set files. answers (es (fm_number (h f))) (tc (fm_number (h f)) (fm_file_size (h f)))"
    and lk: "mk_LookupKey u s = Some lk" "s \<le> kMaxSequenceNumber" "length u + 8 < 2 ^ 32" "internal_key lk = lookup_ikey u s"
  shows "\<forall>level \<in> set levels. level < num_levels \<Longrightarrow>
    \<exists>status g'. get_levels tc BytewiseComparator_Compare h v u (internal_key lk) levels g = Some (status, g') \<and>
    (case find (visible u s) (concat (map (\<lambda>level. entries es h (ordered h v level)) levels)) of
        None \<Rightarrow> Some status = NotFound [] [] \<and> gs_value g' = gs_value g
      | Some e \<Rightarrow> get_result (Some e) (Some status) (gs_value g) (gs_value g'))"
proof (induction levels arbitrary: g)
  case Nil
  obtain nf where "NotFound [] [] = Some nf" using NotFound_Some by blast
  then show ?case by simp
next
  case (Cons level levels)
  then have level: "level < num_levels" by simp
  obtain files where files: "search_files BytewiseComparator_Compare h v u (internal_key lk) level = Some files"
    "set files \<subseteq> set (v_files v ! level)"
    "find (visible u s) (entries es h files) = find (visible u s) (entries es h (ordered h v level))"
    using search_level [OF v level lk(2)] lk(4) by auto
  have "level < length (v_files v)" using v level by (simp add: version_ok_def)
  then have "v_files v ! level \<in> set (v_files v)" by (rule nth_mem)
  then have "\<forall>f \<in> set files. file_ok es h f \<and> answers (es (fm_number (h f))) (tc (fm_number (h f)) (fm_file_size (h f)))"
    using v tables files(2) unfolding version_ok_def by blast
  from get_files_result [OF this lk(1-3), of level g] obtain status g1 where
    g1: "get_files tc BytewiseComparator_Compare h u (internal_key lk) level files g = Some (status, g1)"
    "get_result (find (visible u s) (entries es h files)) status (gs_value g) (gs_value g1)" by blast
  show ?case
  proof (cases "find (visible u s) (entries es h files)")
    case None
    then have st: "status = None" and gv: "gs_value g1 = gs_value g" using g1(2) by (simp_all add: get_result_def)
    have "find (visible u s) (entries es h (ordered h v level)) = None" using files(3) None by simp
    then show ?thesis using Cons.IH [of g1, unfolded gv] Cons.prems files(1) g1(1) st by (simp add: find_append)
  next
    case (Some e)
    then obtain st where "status = Some st" using g1(2) NotFound_Some by (auto simp: get_result_def split: prod.splits if_splits)
    moreover have "find (visible u s) (entries es h (ordered h v level)) = Some e" using files(3) Some by simp
    ultimately show ?thesis using files(1) g1 Some by (simp add: find_append)
  qed
qed

lemma newest_found:
  assumes "newest_first es" and "e \<in> set es" and "visible u s e"
    and newest: "\<forall>e' \<in> set es. visible u s e' \<longrightarrow> fst (snd e') \<le> fst (snd e)"
  shows "find (visible u s) es = Some e"
proof -
  obtain pre post where es: "es = pre @ e # post" using assms(2) by (auto simp: in_set_conv_decomp)
  have "\<not> visible u s x" if x: "x \<in> set pre" for x
  proof
    assume vis: "visible u s x"
    have "(case x of (u, s, t, v) \<Rightarrow> case e of (u', s', t', v') \<Rightarrow> u = u' \<longrightarrow> s' < s)"
      using assms(1) x unfolding newest_first_def es by (auto simp: sorted_wrt_append)
    moreover have "fst (snd x) \<le> fst (snd e)" using newest vis x by (simp add: es)
    ultimately show False using vis assms(3) by (cases x; cases e) (auto simp: visible_def)
  qed
  then have "find (visible u s) pre = None" unfolding find_None_iff by blast
  then show ?thesis using assms(3) by (simp add: es find_append)
qed

section \<open>Properties\<close>

text \<open>
  C17: \<^verbatim>\<open>Version::Get\<close> returns the newest visible entry of all tables of a version. When the levels from
  1 on are sorted, an earlier entry of a user key in the order of the search is the newer one, and
  the table cache answers the lookups in every table, \<^verbatim>\<open>Get\<close> returns for every user key and sequence
  number: OK and the value, if the newest entry of the key up to the number is a value; and NotFound
  with the value untouched, if it is a deletion or there is no entry. It fails no assertion, and the
  binary search of \<^verbatim>\<open>FindFile\<close> in these levels ends.
\<close>

theorem version_get_newest:
  assumes "version_ok es h v" and "newest_first (version_entries es h v)"
    and "\<forall>files \<in> set (v_files v). \<forall>f \<in> set files. answers (es (fm_number (h f))) (tc (fm_number (h f)) (fm_file_size (h f)))"
    and "s \<le> kMaxSequenceNumber" and "length u + 8 < 2 ^ 32"
  shows "\<exists>lk status val' stats. mk_LookupKey u s = Some lk \<and>
    Version_Get tc BytewiseComparator_Compare h v lk val = Some (status, val', stats) \<and>
    ((\<forall>e \<in> set (version_entries es h v). \<not> visible u s e) \<longrightarrow> Some status = NotFound [] [] \<and> val' = val) \<and>
    (\<forall>e \<in> set (version_entries es h v). visible u s e \<and>
        (\<forall>e' \<in> set (version_entries es h v). visible u s e' \<longrightarrow> fst (snd e') \<le> fst (snd e)) \<longrightarrow>
      (case e of (u', s', t, x) \<Rightarrow>
        if t = kTypeValue then status = Status_OK \<and> val' = x else Some status = NotFound [] [] \<and> val' = val))"
proof -
  let ?all = "version_entries es h v"
  obtain lk where lk: "mk_LookupKey u s = Some lk" "internal_key lk = lookup_ikey u s" "lookup_user_key lk = u"
    using mk_LookupKey_views [OF assms(4,5)] by (auto simp: lookup_ikey_def kValueTypeForSeek_def)
  let ?g = "\<lparr>gs_stats = \<lparr>seek_file = None, seek_file_level = - 1\<rparr>, gs_last_file_read = None,
    gs_last_file_read_level = - 1, gs_value = val\<rparr>"
  obtain status g' where g': "get_levels tc BytewiseComparator_Compare h v u (internal_key lk) [0..<num_levels] ?g = Some (status, g')"
    "case find (visible u s) ?all of
        None \<Rightarrow> Some status = NotFound [] [] \<and> gs_value g' = val
      | Some e \<Rightarrow> get_result (Some e) (Some status) val (gs_value g')"
    using get_levels_result [OF assms(1,3) lk(1) assms(4,5) lk(2), of "[0..<num_levels]" ?g]
    unfolding version_entries_def get_state.simps by auto
  have get: "Version_Get tc BytewiseComparator_Compare h v lk val = Some (status, gs_value g', gs_stats g')"
    using g'(1) lk(3) by (simp add: Version_Get_def)
  have none: "Some status = NotFound [] [] \<and> gs_value g' = val" if "\<forall>e \<in> set ?all. \<not> visible u s e"
  proof -
    have "find (visible u s) ?all = None" using that unfolding find_None_iff by blast
    then show ?thesis using g'(2) by simp
  qed
  have some: "case e of (u', s', t, x) \<Rightarrow>
      if t = kTypeValue then status = Status_OK \<and> gs_value g' = x else Some status = NotFound [] [] \<and> gs_value g' = val"
    if "e \<in> set ?all" "visible u s e" "\<forall>e' \<in> set ?all. visible u s e' \<longrightarrow> fst (snd e') \<le> fst (snd e)" for e
    using g'(2) [unfolded newest_found [OF assms(2) that]] by (cases e) (auto simp: get_result_def split: if_splits)
  show ?thesis using lk(1) get none some by blast
qed

text \<open>Two tables: a deletion in level 0 that is not visible at 4, and the value below it.\<close>

definition ex_heap :: heap where
  "ex_heap f = (if f = 0 then mk_FileMetaData 7 100 (ikey [97] (pack 5 kTypeDeletion)) (ikey [97] (pack 5 kTypeDeletion))
     else mk_FileMetaData 5 100 (ikey [97] (pack 3 kTypeValue)) (ikey [98] (pack 4 kTypeValue)))"

definition ex_contents :: contents where
  "ex_contents n = (if n = 7 then [([97], 5, kTypeDeletion, [])] else [([97], 3, kTypeValue, [1]), ([98], 4, kTypeValue, [2])])"

definition ex_version :: Version where
  "ex_version = mk_Version\<lparr>v_files := [[0], [1], [], [], [], [], []]\<rparr>"

lemma table_answers:
  assumes "sorted_wrt entry_before es" and "\<forall>e \<in> set es. seq_ok e" and "table_bound (map internal_pair es) < 2 ^ 30"
  shows "\<exists>t. answers es (\<lambda>k. InternalGet no_snappy mem_random True k t)"
proof -
  let ?opts = "mk_Options\<lparr>op_comparator := internal_comparator_ops\<rparr>"
  obtain t where t: "\<forall>u s verify. s \<le> kMaxSequenceNumber \<and> length u + 8 < 2 ^ 32 \<longrightarrow>
      (\<exists>lk saved. mk_LookupKey u s = Some lk \<and>
        InternalGet no_snappy mem_random verify (internal_key lk) t = Some (Status_OK, saved) \<and>
        (case filter (visible u s) es of
            [] \<Rightarrow> \<forall>k v. saved = Some (k, v) \<longrightarrow> (k, v) \<in> internal_pair ` set es \<and> ExtractUserKey k \<noteq> Some u
          | e # _ \<Rightarrow> saved = Some (internal_pair e)))"
    using table_get [OF no_snappy.snappy_port_axioms, of ?opts es] assms by (auto simp: mk_Options_def)
  have "answers es (\<lambda>k. InternalGet no_snappy mem_random True k t)"
    unfolding answers_def
  proof (intro allI impI)
    fix u s lk assume lk: "mk_LookupKey u s = Some lk \<and> s \<le> kMaxSequenceNumber \<and> length u + 8 < 2 ^ 32"
    then obtain lk' saved where "mk_LookupKey u s = Some lk'"
      "InternalGet no_snappy mem_random True (internal_key lk') t = Some (Status_OK, saved)"
      "case filter (visible u s) es of
            [] \<Rightarrow> \<forall>k v. saved = Some (k, v) \<longrightarrow> (k, v) \<in> internal_pair ` set es \<and> ExtractUserKey k \<noteq> Some u
          | e # _ \<Rightarrow> saved = Some (internal_pair e)" using t by blast
    with lk show "\<exists>saved. InternalGet no_snappy mem_random True (internal_key lk) t = Some (Status_OK, saved) \<and>
        (case filter (visible u s) es of
            [] \<Rightarrow> \<forall>k v. saved = Some (k, v) \<longrightarrow> (k, v) \<in> internal_pair ` set es \<and> ExtractUserKey k \<noteq> Some u
          | e # _ \<Rightarrow> saved = Some (internal_pair e))" by auto
  qed
  then show ?thesis by blast
qed

lemma version_get_newest_witness:
  "\<exists>t7 t5 lk stats. mk_LookupKey [97] 4 = Some lk \<and>
    Version_Get (\<lambda>n sz k. InternalGet no_snappy mem_random True k (if n = 7 then t7 else t5))
      BytewiseComparator_Compare ex_heap ex_version lk [] = Some (Status_OK, [1], stats)"
proof -
  have small: "(5 :: uint64) \<le> kMaxSequenceNumber" "(3 :: uint64) \<le> kMaxSequenceNumber" "(4 :: uint64) \<le> kMaxSequenceNumber"
    by code_simp+
  have t: "sorted_wrt entry_before (ex_contents n)" "\<forall>e \<in> set (ex_contents n). seq_ok e"
    "table_bound (map internal_pair (ex_contents n)) < 2 ^ 30" for n
    using small by (simp_all add: ex_contents_def entry_before_def seq_ok_def table_bound_def internal_pair_def)
  obtain t7 t5 where "answers (ex_contents 7) (\<lambda>k. InternalGet no_snappy mem_random True k t7)"
    "answers (ex_contents 5) (\<lambda>k. InternalGet no_snappy mem_random True k t5)"
    using table_answers [OF t] by blast
  then have tables: "\<forall>files \<in> set (v_files ex_version). \<forall>f \<in> set files. answers (ex_contents (fm_number (ex_heap f)))
      ((\<lambda>n sz k. InternalGet no_snappy mem_random True k (if n = 7 then t7 else t5)) (fm_number (ex_heap f)) (fm_file_size (ex_heap f)))"
    by (simp add: ex_version_def ex_heap_def mk_FileMetaData_def)
  have files: "file_ok ex_contents ex_heap f" for f
    using t by (simp add: file_ok_def Let_def ex_heap_def mk_FileMetaData_def) (simp add: ex_contents_def internal_pair_def)
  have level: "entries ex_contents ex_heap [] = []" "entries ex_contents ex_heap [Suc 0] = ex_contents 5"
    by (simp_all add: entries_def ex_heap_def mk_FileMetaData_def)
  have cases: "(\<forall>level < num_levels. P level) \<longleftrightarrow> P 0 \<and> P 1 \<and> P 2 \<and> P 3 \<and> P 4 \<and> P 5 \<and> P 6" for P
    by (simp add: num_levels_def numeral_eq_Suc All_less_Suc2)
  have ok: "version_ok ex_contents ex_heap ex_version"
    using files t(1) [of 5] unfolding version_ok_def cases by (simp add: ex_version_def num_levels_def level)
  have all: "version_entries ex_contents ex_heap ex_version =
      [([97], 5, kTypeDeletion, []), ([97], 3, kTypeValue, [1]), ([98], 4, kTypeValue, [2])]"
    by (simp add: version_entries_def num_levels_def upt_rec ordered_def ex_version_def entries_def NewestFirst_sort_def
        ex_heap_def mk_FileMetaData_def ex_contents_def)
  have newest: "newest_first (version_entries ex_contents ex_heap ex_version)"
    unfolding all by (simp add: newest_first_def)
  have "length [97 :: byte] + 8 < 2 ^ 32" by simp
  from version_get_newest [OF ok newest tables small(3) this, of "[]"] obtain lk status val' stats where
    "mk_LookupKey [97] 4 = Some lk"
    "Version_Get (\<lambda>n sz k. InternalGet no_snappy mem_random True k (if n = 7 then t7 else t5))
      BytewiseComparator_Compare ex_heap ex_version lk [] = Some (status, val', stats)"
    "status = Status_OK \<and> val' = [1]"
    unfolding all by (auto simp: visible_def)
  then show ?thesis by blast
qed

end
