(* ===== verification/L_Version_Inputs.thy ===== *)
theory L_Version_Inputs
  imports L_Version
begin

text \<open>
  What \<^verbatim>\<open>Version::GetOverlappingInputs\<close> returns. A compaction of level 0 must take all files that
  overlap a file it takes: the loop that widens the range and starts again ends, at the least range
  that no file of the level crosses.
\<close>

section \<open>The limits of compactions\<close>

text \<open>The products overflow for the largest file size that \<^verbatim>\<open>SanitizeOptions\<close> lets through.\<close>

lemma compaction_limits_overflow:
  "MaxGrandParentOverlapBytes (2 ^ 30) = None \<and> ExpandedCompactionByteSizeLimit (2 ^ 30) = None"
  by code_simp

section \<open>Files and ranges\<close>

definition first_key :: "heap \<Rightarrow> file_ptr \<Rightarrow> slice" where
  "first_key h f = the (file_smallest h f)"

definition last_key :: "heap \<Rightarrow> file_ptr \<Rightarrow> slice" where
  "last_key h f = the (file_largest h f)"

definition has_keys :: "heap \<Rightarrow> file_ptr \<Rightarrow> bool" where
  "has_keys h f \<longleftrightarrow> file_smallest h f \<noteq> None \<and> file_largest h f \<noteq> None"

text \<open>A side of a range that is \<open>None\<close> is unbounded.\<close>

fun at_or_below :: "slice option \<Rightarrow> slice \<Rightarrow> bool" where
  "at_or_below None k = True"
| "at_or_below (Some b) k = (b \<le> k)"

fun at_or_above :: "slice option \<Rightarrow> slice \<Rightarrow> bool" where
  "at_or_above None k = True"
| "at_or_above (Some e) k = (k \<le> e)"

definition overlaps :: "heap \<Rightarrow> slice option \<Rightarrow> slice option \<Rightarrow> file_ptr \<Rightarrow> bool" where
  "overlaps h b e f \<longleftrightarrow> at_or_below b (last_key h f) \<and> at_or_above e (first_key h f)"

definition within :: "heap \<Rightarrow> slice option \<Rightarrow> slice option \<Rightarrow> file_ptr \<Rightarrow> bool" where
  "within h b e f \<longleftrightarrow> at_or_below b (first_key h f) \<and> at_or_above e (last_key h f)"

text \<open>No file crosses a side of the range.\<close>

definition uncrossed :: "heap \<Rightarrow> file_ptr list \<Rightarrow> slice option \<Rightarrow> slice option \<Rightarrow> bool" where
  "uncrossed h files b e \<longleftrightarrow> (\<forall>f \<in> set files. overlaps h b e f \<longrightarrow> within h b e f)"

text \<open>The second range lies in the first.\<close>

definition wider_range :: "slice option \<Rightarrow> slice option \<Rightarrow> slice option \<Rightarrow> slice option \<Rightarrow> bool" where
  "wider_range b2 e2 b e \<longleftrightarrow>
     (case b of None \<Rightarrow> b2 = None | Some k \<Rightarrow> at_or_below b2 k) \<and>
     (case e of None \<Rightarrow> e2 = None | Some k \<Rightarrow> at_or_above e2 k)"

lemma at_or_below_trans: "at_or_below b k \<Longrightarrow> k \<le> l \<Longrightarrow> at_or_below b l"
  by (cases b; simp)

lemma at_or_above_trans: "at_or_above e l \<Longrightarrow> k \<le> l \<Longrightarrow> at_or_above e k"
  by (cases e; simp)

lemma wider_range_refl [simp]: "wider_range b e b e"
  by (cases b; cases e; simp add: wider_range_def)

lemma overlaps_wider: "overlaps h b e f \<Longrightarrow> wider_range b2 e2 b e \<Longrightarrow> overlaps h b2 e2 f"
  using at_or_below_trans [of b2 "the b"] at_or_above_trans [of e2 "the e"]
  by (cases b; cases e; simp add: wider_range_def overlaps_def)

lemma wider_range_trans: "wider_range b3 e3 b2 e2 \<Longrightarrow> wider_range b2 e2 b e \<Longrightarrow> wider_range b3 e3 b e"
  using at_or_below_trans [of b3 "the b2" "the b"] at_or_above_trans [of e3 "the e2" "the e"]
  by (cases b; cases b2; cases e; cases e2; simp add: wider_range_def)

section \<open>One step of the loop\<close>

lemma bytewise_below: "below_bound BytewiseComparator_Compare k b = Some (\<not> at_or_below b k)"
  by (cases b; simp add: below_bound_def BytewiseComparator_Compare_def slice_compare_less not_le)

lemma bytewise_above: "above_bound BytewiseComparator_Compare k e = Some (\<not> at_or_above e k)"
  by (cases e; simp add: above_bound_def BytewiseComparator_Compare_def slice_compare_greater not_le)

lemma overlap_step_bytewise:
  assumes "has_keys h (files ! i)"
  shows "overlap_step BytewiseComparator_Compare h level files (i, b, e, inputs) = Some (
    if \<not> overlaps h b e (files ! i) then (i + 1, b, e, inputs)
    else if level = 0 \<and> \<not> at_or_below b (first_key h (files ! i)) then (0, Some (first_key h (files ! i)), e, [])
    else if level = 0 \<and> \<not> at_or_above e (last_key h (files ! i)) then (0, b, Some (last_key h (files ! i)), [])
    else (i + 1, b, e, inputs @ [files ! i]))"
  using assms
  by (auto simp: overlap_step_def has_keys_def first_key_def last_key_def overlaps_def bytewise_below bytewise_above Let_def)

lemma overlapping_loop_end: "length files \<le> i \<Longrightarrow> overlapping_loop ucmp h level files (i, b, e, inputs) = Some inputs"
  by (subst overlapping_loop.simps) simp

lemma overlapping_loop_step:
  "i < length files \<Longrightarrow> overlap_step ucmp h level files (i, b, e, inputs) = Some st \<Longrightarrow>
   overlapping_loop ucmp h level files (i, b, e, inputs) = overlapping_loop ucmp h level files st"
  by (subst overlapping_loop.simps) simp

section \<open>The loop above level 0\<close>

lemma overlapping_loop_sorted:
  assumes "\<forall>f \<in> set files. has_keys h f" and "level > 0"
  shows "overlapping_loop BytewiseComparator_Compare h level files (i, b, e, inputs) =
    Some (inputs @ filter (overlaps h b e) (drop i files))"
proof (induction "length files - i" arbitrary: i inputs)
  case 0
  then show ?case by (simp add: overlapping_loop_end)
next
  case (Suc n)
  then have i: "i < length files" by simp
  have keys: "has_keys h (files ! i)" using assms(1) i by simp
  have "drop i files = files ! i # drop (i + 1) files" using i by (simp add: Cons_nth_drop_Suc)
  moreover have "n = length files - (i + 1)" using Suc.hyps(2) by simp
  ultimately show ?case
    using overlapping_loop_step [OF i overlap_step_bytewise [OF keys]] Suc.hyps(1) [of "i + 1"] assms(2) by simp
qed

section \<open>The loop in level 0\<close>

text \<open>A restart leaves fewer keys of files outside the range.\<close>

definition outside :: "heap \<Rightarrow> file_ptr list \<Rightarrow> slice option \<Rightarrow> slice option \<Rightarrow> nat" where
  "outside h files b e = length (filter (\<lambda>f. \<not> at_or_below b (first_key h f)) files) +
     length (filter (\<lambda>f. \<not> at_or_above e (last_key h f)) files)"

lemma filter_length_less:
  assumes "x \<in> set xs" and "P x" and "\<not> Q x" and "\<And>y. Q y \<Longrightarrow> P y"
  shows "length (filter Q xs) < length (filter P xs)"
proof -
  obtain ys zs where xs: "xs = ys @ x # zs" using assms(1) by (auto simp: in_set_conv_decomp)
  have "length (filter Q l) \<le> length (filter P l)" for l using assms(4) by (induction l) auto
  from this [of ys] this [of zs] show ?thesis using assms(2,3) by (simp add: xs)
qed

lemma outside_below:
  assumes "f \<in> set files" and "\<not> at_or_below b (first_key h f)"
  shows "outside h files (Some (first_key h f)) e < outside h files b e"
proof -
  have "length (filter (\<lambda>x. \<not> at_or_below (Some (first_key h f)) (first_key h x)) files) <
      length (filter (\<lambda>x. \<not> at_or_below b (first_key h x)) files)"
    by (rule filter_length_less [OF assms(1)], use assms(2) in simp, simp) (use assms(2) in \<open>cases b; auto\<close>)
  then show ?thesis by (simp add: outside_def)
qed

lemma outside_above:
  assumes "f \<in> set files" and "\<not> at_or_above e (last_key h f)"
  shows "outside h files b (Some (last_key h f)) < outside h files b e"
proof -
  have "length (filter (\<lambda>x. \<not> at_or_above (Some (last_key h f)) (last_key h x)) files) <
      length (filter (\<lambda>x. \<not> at_or_above e (last_key h x)) files)"
    by (rule filter_length_less [OF assms(1)], use assms(2) in simp, simp) (use assms(2) in \<open>cases e; auto\<close>)
  then show ?thesis by (simp add: outside_def)
qed

text \<open>The range that the loop ends with, from a given one.\<close>

definition least_uncrossed ::
    "heap \<Rightarrow> file_ptr list \<Rightarrow> slice option \<Rightarrow> slice option \<Rightarrow> slice option \<Rightarrow> slice option \<Rightarrow> bool" where
  "least_uncrossed h files b e b' e' \<longleftrightarrow> wider_range b' e' b e \<and> uncrossed h files b' e' \<and>
     (\<forall>b2 e2. wider_range b2 e2 b e \<and> uncrossed h files b2 e2 \<longrightarrow> wider_range b2 e2 b' e')"

lemma least_uncrossed_restart:
  assumes "least_uncrossed h files b1 e1 b' e'" and wide: "wider_range b1 e1 b e"
    and "\<And>b2 e2. wider_range b2 e2 b e \<Longrightarrow> uncrossed h files b2 e2 \<Longrightarrow> wider_range b2 e2 b1 e1"
  shows "least_uncrossed h files b e b' e'"
  using assms wider_range_trans unfolding least_uncrossed_def by blast

text \<open>A range that is not crossed has the whole of a file that overlaps a part of it.\<close>

lemma restart_below:
  assumes f: "f \<in> set files" "overlaps h b e f" "\<not> at_or_below b (first_key h f)"
  shows "wider_range (Some (first_key h f)) e b e"
    and "wider_range b2 e2 b e \<Longrightarrow> uncrossed h files b2 e2 \<Longrightarrow> wider_range b2 e2 (Some (first_key h f)) e"
proof -
  show "wider_range (Some (first_key h f)) e b e" using f(3) by (cases b; cases e) (auto simp: wider_range_def)
  assume wide: "wider_range b2 e2 b e" and "uncrossed h files b2 e2"
  then have "within h b2 e2 f" using overlaps_wider [OF f(2) wide] f(1) by (simp add: uncrossed_def)
  with wide show "wider_range b2 e2 (Some (first_key h f)) e" by (simp add: within_def wider_range_def)
qed

lemma restart_above:
  assumes f: "f \<in> set files" "overlaps h b e f" "\<not> at_or_above e (last_key h f)"
  shows "wider_range b (Some (last_key h f)) b e"
    and "wider_range b2 e2 b e \<Longrightarrow> uncrossed h files b2 e2 \<Longrightarrow> wider_range b2 e2 b (Some (last_key h f))"
proof -
  show "wider_range b (Some (last_key h f)) b e" using f(3) by (cases b; cases e) (auto simp: wider_range_def)
  assume wide: "wider_range b2 e2 b e" and "uncrossed h files b2 e2"
  then have "within h b2 e2 f" using overlaps_wider [OF f(2) wide] f(1) by (simp add: uncrossed_def)
  with wide show "wider_range b2 e2 b (Some (last_key h f))" by (simp add: within_def wider_range_def)
qed

lemma overlapping_loop_level0:
  assumes keys: "\<forall>f \<in> set files. has_keys h f"
  shows "i \<le> length files \<Longrightarrow> uncrossed h (take i files) b e \<Longrightarrow> inputs = filter (overlaps h b e) (take i files) \<Longrightarrow>
    \<exists>b' e'. overlapping_loop BytewiseComparator_Compare h 0 files (i, b, e, inputs) = Some (filter (overlaps h b' e') files) \<and>
      least_uncrossed h files b e b' e'"
proof (induction "(outside h files b e, length files - i)" arbitrary: i b e inputs rule: wf_induct_rule [OF wf_lex_prod [OF wf_less wf_less]])
  case (1 i b e inputs)
  note IH = 1(1) and i = 1(2) and passed = 1(3) and inputs = 1(4)
  show ?case
  proof (cases "i < length files")
    case False
    then have "overlapping_loop BytewiseComparator_Compare h 0 files (i, b, e, inputs) = Some (filter (overlaps h b e) files)"
      using i inputs by (simp add: overlapping_loop_end)
    moreover have "least_uncrossed h files b e b e" using False i passed by (simp add: least_uncrossed_def)
    ultimately show ?thesis by blast
  next
    case True
    let ?f = "files ! i"
    have f: "?f \<in> set files" using True by simp
    have take: "take (i + 1) files = take i files @ [?f]" using True by (simp add: take_Suc_conv_app_nth)
    note step = overlapping_loop_step [OF True overlap_step_bytewise [of h files i 0 b e inputs, OF bspec [OF keys f]]]
    consider (skip) "\<not> overlaps h b e ?f"
      | (below) "overlaps h b e ?f" "\<not> at_or_below b (first_key h ?f)"
      | (above) "overlaps h b e ?f" "at_or_below b (first_key h ?f)" "\<not> at_or_above e (last_key h ?f)"
      | (inside) "overlaps h b e ?f" "within h b e ?f"
      by (auto simp: within_def)
    then show ?thesis
    proof cases
      case skip
      then show ?thesis using step True passed inputs
        by simp (rule IH; simp add: take [simplified] uncrossed_def)
    next
      case below
      obtain b' e' where "overlapping_loop BytewiseComparator_Compare h 0 files (0, Some (first_key h ?f), e, []) =
          Some (filter (overlaps h b' e') files)" "least_uncrossed h files (Some (first_key h ?f)) e b' e'"
        using IH [of "Some (first_key h ?f)" e 0 "[]"] outside_below [OF f below(2)] by (auto simp: uncrossed_def)
      moreover from this(2) have "least_uncrossed h files b e b' e'"
        using restart_below [OF f below] by (rule least_uncrossed_restart)
      ultimately show ?thesis using step below by auto
    next
      case above
      obtain b' e' where "overlapping_loop BytewiseComparator_Compare h 0 files (0, b, Some (last_key h ?f), []) =
          Some (filter (overlaps h b' e') files)" "least_uncrossed h files b (Some (last_key h ?f)) b' e'"
        using IH [of b "Some (last_key h ?f)" 0 "[]"] outside_above [OF f above(3)] by (auto simp: uncrossed_def)
      moreover from this(2) have "least_uncrossed h files b e b' e'"
        using restart_above [OF f above(1,3)] by (rule least_uncrossed_restart)
      ultimately show ?thesis using step above by auto
    next
      case inside
      then show ?thesis using step True passed inputs
        by (simp add: within_def) (rule IH; simp add: take [simplified] uncrossed_def within_def)
    qed
  qed
qed

section \<open>The property\<close>

text \<open>
  C19: \<^verbatim>\<open>GetOverlappingInputs\<close> returns, for every list of files and every range. Above level 0 it gives the
  files that overlap the range, in order. In level 0 the loop that starts again whenever a file
  widens the range ends, and gives the files that overlap the least range around the given one that
  no file of the level crosses: no file that is left out overlaps one that is taken, and no file is
  taken that every such range could do without.
\<close>

theorem overlapping_inputs_least:
  assumes "level < num_levels" and "files_at v level = Some files" and "\<forall>f \<in> set files. has_keys h f"
    and "user_bound begin_key = Some b" and "user_bound end_key = Some e"
  shows "\<exists>b' e'. GetOverlappingInputs BytewiseComparator_Compare h v level begin_key end_key =
      Some (filter (overlaps h b' e') files) \<and>
    (if level = 0 then least_uncrossed h files b e b' e' else b' = b \<and> e' = e)"
proof (cases "level = 0")
  case True
  then show ?thesis
    using overlapping_loop_level0 [OF assms(3), of 0 b e "[]"] assms by (simp add: GetOverlappingInputs_def uncrossed_def)
next
  case False
  then show ?thesis
    using overlapping_loop_sorted [OF assms(3), of level 0 b e "[]"] assms by (simp add: GetOverlappingInputs_def)
qed

text \<open>
  Three files of level 0 from b to d, from c to f and from h to i. The range e to e is widened to c,
  then to b and to f.
\<close>

definition ex_inputs_heap :: heap where
  "ex_inputs_heap f = (case f of
       0 \<Rightarrow> mk_FileMetaData 1 100 (ikey [98] (pack 1 kTypeValue)) (ikey [100] (pack 2 kTypeValue))
     | Suc 0 \<Rightarrow> mk_FileMetaData 2 100 (ikey [99] (pack 3 kTypeValue)) (ikey [102] (pack 4 kTypeValue))
     | _ \<Rightarrow> mk_FileMetaData 3 100 (ikey [104] (pack 5 kTypeValue)) (ikey [105] (pack 6 kTypeValue)))"

lemma overlapping_inputs_least_witness:
  "GetOverlappingInputs BytewiseComparator_Compare ex_inputs_heap (mk_Version\<lparr>v_files := [[0, 1, 2], [], [], [], [], [], []]\<rparr>) 0
    (Some (ikey [101] (pack 9 kTypeValue))) (Some (ikey [101] (pack 9 kTypeValue))) = Some [0, 1]"
proof -
  let ?h = ex_inputs_heap and ?fs = "[0, 1, 2] :: file_ptr list" and ?r = "Some [101 :: byte]"
  have "file_smallest ?h 0 = Some [98]" "file_largest ?h 0 = Some [100]" "file_smallest ?h 1 = Some [99]"
    "file_largest ?h 1 = Some [102]" "file_smallest ?h 2 = Some [104]" "file_largest ?h 2 = Some [105]"
    by (simp_all add: file_smallest_def file_largest_def ex_inputs_heap_def mk_FileMetaData_def numeral_2_eq_2)
  then have keys: "\<forall>f \<in> set ?fs. has_keys ?h f" and key: "first_key ?h 0 = [98]" "last_key ?h 0 = [100]"
    "first_key ?h 1 = [99]" "last_key ?h 1 = [102]" "first_key ?h 2 = [104]" "last_key ?h 2 = [105]"
    by (simp_all add: has_keys_def first_key_def last_key_def)
  note key = key [unfolded One_nat_def]
  have at: "files_at (mk_Version\<lparr>v_files := [?fs, [], [], [], [], [], []]\<rparr>) 0 = Some ?fs" by (simp add: files_at_def)
  have bound: "user_bound (Some (ikey [101] (pack 9 kTypeValue))) = Some ?r" by (simp add: user_bound_def)
  have "(0 :: nat) < num_levels" by (simp add: num_levels_def)
  from overlapping_inputs_least [OF this at keys bound bound] obtain b e where
    result: "GetOverlappingInputs BytewiseComparator_Compare ?h (mk_Version\<lparr>v_files := [?fs, [], [], [], [], [], []]\<rparr>) 0
      (Some (ikey [101] (pack 9 kTypeValue))) (Some (ikey [101] (pack 9 kTypeValue))) = Some (filter (overlaps ?h b e) ?fs)"
    and least: "least_uncrossed ?h ?fs ?r ?r b e" by auto
  have wide: "wider_range b e ?r ?r" and closed: "uncrossed ?h ?fs b e" using least by (simp_all add: least_uncrossed_def)
  have "overlaps ?h ?r ?r 1" by (simp add: overlaps_def key)
  then have one: "overlaps ?h b e 1" by (rule overlaps_wider [OF _ wide])
  then have "within ?h b e 1" using closed by (simp add: uncrossed_def)
  then have "at_or_below b [100]" using at_or_below_trans [of b "[99]"] by (simp add: within_def key)
  moreover have "at_or_above e [98]" using wide at_or_above_trans [of e "[101]"] by (simp add: wider_range_def)
  ultimately have zero: "overlaps ?h b e 0" by (simp add: overlaps_def key)
  have "uncrossed ?h ?fs (Some [98]) (Some [102])" "wider_range (Some [98]) (Some [102]) ?r ?r"
    by (simp_all add: uncrossed_def overlaps_def within_def wider_range_def key)
  then have inner: "wider_range (Some [98]) (Some [102]) b e" using least by (simp add: least_uncrossed_def)
  have "\<not> overlaps ?h b e 2" using overlaps_wider [OF _ inner, of ?h 2] by (auto simp: overlaps_def key)
  then show ?thesis using result zero one by simp
qed

end
