(* ===== verification/Spec2Isabelle.thy ===== *)
theory Spec2Isabelle
  imports Pb_Layout Pb_Encode_Theorems Pb_Roundtrip Pb_Decode Pb_Findings F_Base64_Decode
    L_SkipList_Concurrent L_WriteBatch L_Log L_Filter L_Version_Get L_Version_Inputs
begin

text \<open>
  \<^bold>\<open>The program.\<close> DailyDiary is an iOS application whose own code is user interface in Swift. The C
  and C++ it runs is vendored under \<^verbatim>\<open>DailyDiary/Pods\<close>: \<^verbatim>\<open>nanopb\<close>, the Protocol Buffers runtime that
  encodes and decodes the messages of the measurement SDK; \<^verbatim>\<open>leveldb-library\<close>, the key-value store
  behind the offline cache of the Firebase database; and the base64 routines of SocketRocket in
  \<^verbatim>\<open>FirebaseDatabase\<close>. This development models the core of the three. File names below are relative
  to the directory of the pod. Words keep their width, an operation the language leaves undefined, a
  failed assertion and an access outside an object are \<open>None\<close>, a \<^verbatim>\<open>false\<close> or error status is a value.

  \<^bold>\<open>nanopb.\<close> The application calls \<^verbatim>\<open>pb_encode\<close> and \<^verbatim>\<open>pb_decode\<close> with a table of field descriptors
  (\<^verbatim>\<open>pb_field_t\<close>) made by the macros of \<^verbatim>\<open>pb.h\<close>. Both walk the table with the iterator of
  \<^verbatim>\<open>pb_common.c\<close> and read or write through streams; messages are C structures in memory.
  \<^item> \<open>C_Memory\<close>: bytes of memory, allocation with scripted failures, accesses at each width; the
    locale \<open>cell_access\<close> states what a load returns after a store and is interpreted at every width.
  \<^item> \<open>Pb_Types\<close>, \<open>Pb_Layout\<close>: the types and macros of \<^verbatim>\<open>pb.h\<close>. \<open>Pb_Common\<close>: \<^verbatim>\<open>pb_common.c\<close>; the locale
    \<open>field_walk\<close> gives the loops of the iterator as a pass over the fields, \<open>Pb_Layout\<close> shows that
    the iterator visits the members the macros were given.
  \<^item> \<open>Pb_Ostream\<close>, \<open>Pb_Encode\<close>: \<^verbatim>\<open>pb_encode.c\<close>. \<open>Pb_Wire\<close> is a reference encoder without streams and
    limits; \<open>Pb_Encode_Correct\<close> shows by induction on the nesting that \<^verbatim>\<open>pb_encode\<close> on a buffer, on a
    sizing stream and in its two passes over submessages computes it, \<open>Pb_Encode_Theorems\<close> states
    this for callers. \<open>Pb_Varint\<close> has the base-128 and zigzag encodings.
  \<^item> \<open>Pb_Istream\<close>, \<open>Pb_Decode\<close>: \<^verbatim>\<open>pb_decode.c\<close>, with default values, release and allocation.
    \<open>Pb_Istream_Props\<close> and \<open>Pb_Roundtrip\<close> show what the primitive decoders compute on every input
    and that they invert the encoders. \<open>Pb_Findings\<close> has the places where the decoder or
    encoder does not do what it means to do, for all data they concern.
  The mutual recursion over nested messages takes a number \<open>n\<close> that bounds the nesting: a message
  type nests to a finite depth unless it is recursive, and \<open>Pb_Encode_Correct\<close> shows that any number
  above the depth of the message gives the same result. The loops over a table get its length as
  fuel, which \<open>field_walk\<close> shows to be enough. Loops that depend on input or on user callbacks are
  partial functions whose \<open>None\<close> includes not returning. User callbacks are parameters.

  \<^bold>\<open>base64.\<close> \<open>F_Base64\<close> models \<^verbatim>\<open>fbase64.c\<close>; \<open>F_Base64_Encode\<close> and \<open>F_Base64_Decode\<close> compare it with the
  definition of base64, on every branch.

  \<^bold>\<open>leveldb.\<close> A write is recorded in a batch, appended to the log and inserted into the memtable; a
  read looks for the newest entry of a key that is visible at a sequence number. Full memtables
  become table files, whose filter blocks save reads; a version is the set of the tables in their
  levels, and the manifest is a log of edits of it.
  \<^item> \<open>L_Coding\<close> (\<^verbatim>\<open>util/coding\<close>): fixed-width integers on platforms of either byte order, which are shown
    to agree, varints, length-prefixed slices. The other theories take the little-endian branch.
  \<^item> \<open>L_Comparator\<close> (\<^verbatim>\<open>slice.h\<close>, \<^verbatim>\<open>util/comparator.cc\<close>): the interface \<^verbatim>\<open>Comparator\<close> is the locales
    \<open>comparator\<close>, \<open>exact_comparator\<close> and \<open>key_comparator\<close>, interpreted on the bytewise comparator.
    \<open>L_Dbformat\<close> (\<^verbatim>\<open>db/dbformat\<close>): internal keys; the locale \<open>user_comparator\<close> turns every comparator
    of user keys into one of internal keys by a \<^verbatim>\<open>sublocale\<close>, \<open>L_MemTable\<close> into one of entries.
  \<^item> \<open>L_Random\<close>, \<open>L_SkipList\<close> and its three lemma theories (\<^verbatim>\<open>util/random.h\<close>, \<^verbatim>\<open>db/skiplist.h\<close>): the
    nodes are a list that grows, links are indices. \<open>represents\<close> relates a state to the sorted list
    of its keys; insertion and the iterators refine the operations of sorted lists for every random
    height. \<open>L_SkipList_Concurrent\<close> interleaves the loads of a reader with the stores of a writer.
    It assumes sequentially consistent memory: the acquire and release operations of the code are
    what makes the stores visible in order, and weaker orders are not modelled.
  \<^item> \<open>L_MemTable\<close> (\<^verbatim>\<open>db/memtable\<close>), \<open>L_WriteBatch\<close> (\<^verbatim>\<open>db/write_batch.cc\<close>), \<open>L_Status\<close>
    (\<^verbatim>\<open>util/status.cc\<close>, \<^verbatim>\<open>util/logging.cc\<close>): a memtable refines the list of its additions, a batch
    replays its operations; \<open>batch_then_get\<close> composes both.
  \<^item> \<open>L_Crc32c\<close> (\<^verbatim>\<open>util/crc32c\<close>), \<open>L_Log\<close> (\<^verbatim>\<open>db/log_format.h\<close>, \<^verbatim>\<open>log_writer.cc\<close>, \<^verbatim>\<open>log_reader.cc\<close>): the
    checksum against bitwise division, with the tables read from the source; the log survives being
    cut off at any byte. The model takes any file that may fail; the theorem is about a file that
    keeps what is appended to it.
  \<^item> \<open>L_Filter\<close> (\<^verbatim>\<open>util/hash.cc\<close>, \<^verbatim>\<open>util/bloom.cc\<close>, \<^verbatim>\<open>table/filter_block.cc\<close>): the interface
    \<^verbatim>\<open>FilterPolicy\<close> is the locale \<open>filter_policy\<close>, whose law, no key is missed, the Bloom filter and
    the policy on internal keys fulfil and filter blocks preserve.
  \<^item> \<open>L_VersionEdit\<close> (\<^verbatim>\<open>db/version_edit\<close>): the records of the manifest, \<^verbatim>\<open>EncodeTo\<close> and \<^verbatim>\<open>DecodeFrom\<close>, which
    invert each other on every edit that the operations of the class can build.
  \<^item> \<open>L_Block\<close> (\<^verbatim>\<open>table/block_builder.cc\<close>, \<^verbatim>\<open>table/block.cc\<close>): blocks with shared prefixes and restart
    points, and their iterator as the record of its members. \<open>L_Block_Props\<close> relates the bytes of a
    block to its pairs, \<open>L_Block_Iter\<close> (locale \<open>block_order\<close>, interpreted on user and internal keys) the
    state of the iterator to a position in the list of pairs; \<open>L_Block_Theorems\<close> states that every sequence of
    moves ends where the same sequence on the list ends.
  \<^item> \<open>L_Format\<close> (\<^verbatim>\<open>table/format.cc\<close>): block handles, the footer, \<^verbatim>\<open>ReadBlock\<close>. Snappy is a pair of
    functions: the locale \<open>snappy_port\<close> states that what it compresses it also uncompresses, and is
    interpreted on the port of this build, which has no Snappy and never compresses.
  \<^item> \<open>L_TableBuilder\<close>, \<open>L_Table\<close> (\<^verbatim>\<open>table/table_builder.cc\<close>, \<^verbatim>\<open>table/table.cc\<close>): the writer and the reader of
    table files over files that may fail, for any options, comparator and filter policy; the block
    cache is \<^verbatim>\<open>NULL\<close>. \<open>L_Table_Build\<close>, \<open>L_Table_Finish\<close> and \<open>L_Table_File\<close> keep as an invariant what the
    written file holds, \<open>L_Table_Get\<close> follows a lookup through the footer, the index, the filter and
    a block, in the locales \<open>table_setup\<close> and \<open>table_access\<close>, interpreted on internal keys with and
    without a Bloom filter; \<open>L_Table_Theorems\<close> has the result. It needs a file that keeps what is
    appended and entries of less than 2^30 bytes in total (\<open>table_bound\<close>: two copies of each key, its value
    and 100 bytes), so that the 32-bit offsets in blocks and in the filter do not wrap; \<open>L_Filter_Size\<close>
    bounds the filter block.
  \<^item> \<open>L_Version\<close> (class \<^verbatim>\<open>Version\<close> of \<^verbatim>\<open>db/version_set.cc\<close>): the files of the levels, the search of a key in
    them, seek statistics, the files that overlap a range, the level of a new table. \<^verbatim>\<open>FileMetaData\<close>
    objects are shared between versions and live in a heap; \<^verbatim>\<open>TableCache::Get\<close> is a parameter.
    \<open>L_Version_Get\<close> assumes of it that it \<open>answers\<close> for every file as the table with its entries does,
    which the witness discharges with built tables, and shows that \<^verbatim>\<open>Get\<close> finds the newest visible
    entry of all levels. \<open>L_Version_Inputs\<close> shows that \<^verbatim>\<open>GetOverlappingInputs\<close> returns, and with what.
  Loops whose end depends on the data are partial functions, whose \<open>None\<close> includes not returning: the
  searches of the skip list, whose links could form a cycle; the loops of the block iterator;
  \<^verbatim>\<open>ReadRecord\<close>, which may read an endless file; \<^verbatim>\<open>FindFile\<close>, whose 32-bit midpoint wraps with 2^31 files
  and more; and the loop of \<^verbatim>\<open>GetOverlappingInputs\<close>, which starts again. That they return is part of the
  properties of each. The other loops end by a measure.

  \<^bold>\<open>Not modelled.\<close> The Objective-C and Swift code and the binary frameworks (user interface,
  networking and the Foundation library); in nanopb the variants that are not compiled
  (\<^verbatim>\<open>PB_BUFFER_ONLY\<close>, \<^verbatim>\<open>PB_WITHOUT_64BIT\<close>, no malloc); in leveldb the threads, locks and files of
  \<^verbatim>\<open>db_impl.cc\<close>, \<^verbatim>\<open>repair.cc\<close> and \<^verbatim>\<open>env_posix.cc\<close>, which schedule and call the parts above; of
  \<^verbatim>\<open>version_set.cc\<close> the class \<^verbatim>\<open>VersionSet\<close> with its builder, the compaction score, a \<^verbatim>\<open>double\<close>, and the
  picking of compactions; the LRU, block and table caches; the merging, two-level and user
  iterators; the C bindings; and the SSE variant of the checksum.
\<close>

end
